(* ===== verification/GoBase.thy ===== *)
theory GoBase
  imports Complex_Main "HOL-Library.Word" "HOL-Library.Char_ord" "HOL-Library.List_Lexorder"
begin

text \<open>
  Prelude of the development: the parts of Go's standard library that the modelled
  code calls (package strings on ASCII data, strconv, sort.Search, slices and maps as
  lists and association lists), with the lemmas the components share.

  A Go string is a sequence of bytes and is modelled as \<^typ>\<open>string\<close>. The case folding
  and trimming functions of package strings are modelled on their ASCII range: a byte
  above 127 is left alone. Comparison of strings is bytewise lexicographic order, the
  order of List_Lexorder over Char_ord.
\<close>

named_theorems go_defs \<open>definitions of the Go library functions\<close>

type_synonym u64 = "64 word"
type_synonym u8 = "8 word"

section \<open>Bytes and characters\<close>

definition byte_of :: "char \<Rightarrow> nat" where
  "byte_of c = of_char c"

definition is_space :: "char \<Rightarrow> bool" where
  "is_space c \<longleftrightarrow> byte_of c = 32 \<or> 9 \<le> byte_of c \<and> byte_of c \<le> 13"

definition is_digit :: "char \<Rightarrow> bool" where
  "is_digit c \<longleftrightarrow> 48 \<le> byte_of c \<and> byte_of c \<le> 57"

definition is_upper :: "char \<Rightarrow> bool" where
  "is_upper c \<longleftrightarrow> 65 \<le> byte_of c \<and> byte_of c \<le> 90"

definition is_lower :: "char \<Rightarrow> bool" where
  "is_lower c \<longleftrightarrow> 97 \<le> byte_of c \<and> byte_of c \<le> 122"

definition lower_char :: "char \<Rightarrow> char" where
  "lower_char c = (if is_upper c then char_of (byte_of c + 32) else c)"

definition upper_char :: "char \<Rightarrow> char" where
  "upper_char c = (if is_lower c then char_of (byte_of c - 32) else c)"

lemmas char_class_defs = is_space_def is_digit_def is_upper_def is_lower_def byte_of_def

lemma byte_of_char_of [simp]: "n < 256 \<Longrightarrow> byte_of (char_of n) = n"
  by (simp add: byte_of_def)

lemma byte_of_less [simp]: "byte_of c < 256"
  by (simp add: byte_of_def)

lemma byte_of_eq_iff: "byte_of c = byte_of d \<longleftrightarrow> c = d"
  by (simp add: byte_of_def)

lemma lower_char_not_upper [simp]: "\<not> is_upper (lower_char c)"
  by (auto simp: lower_char_def is_upper_def)

lemma lower_char_idem [simp]: "lower_char (lower_char c) = lower_char c"
  by (simp add: lower_char_def [of "lower_char c"])

lemma upper_char_not_lower [simp]: "\<not> is_lower (upper_char c)"
  by (auto simp: upper_char_def is_lower_def)

lemma upper_char_idem [simp]: "upper_char (upper_char c) = upper_char c"
  by (simp add: upper_char_def [of "upper_char c"])

lemma lower_upper_char [simp]: "lower_char (upper_char c) = lower_char c"
  by (auto simp: lower_char_def upper_char_def is_upper_def is_lower_def byte_of_def)

lemma is_space_lower [simp]: "is_space (lower_char c) = is_space c"
  by (auto simp: lower_char_def is_upper_def is_space_def)

lemma is_space_upper [simp]: "is_space (upper_char c) = is_space c"
  by (auto simp: upper_char_def is_lower_def is_space_def)

section \<open>Package strings\<close>

definition to_lower :: "string \<Rightarrow> string" where
  "to_lower s = map lower_char s"

definition to_upper :: "string \<Rightarrow> string" where
  "to_upper s = map upper_char s"

definition equal_fold :: "string \<Rightarrow> string \<Rightarrow> bool" where
  "equal_fold s t \<longleftrightarrow> to_lower s = to_lower t"

definition trim_left :: "string \<Rightarrow> string" where
  "trim_left s = dropWhile is_space s"

definition trim_right :: "string \<Rightarrow> string" where
  "trim_right s = rev (dropWhile is_space (rev s))"

definition trim_space :: "string \<Rightarrow> string" where
  "trim_space s = trim_right (trim_left s)"

definition has_prefix :: "string \<Rightarrow> string \<Rightarrow> bool" where
  "has_prefix p s \<longleftrightarrow> take (length p) s = p"

definition has_suffix :: "string \<Rightarrow> string \<Rightarrow> bool" where
  "has_suffix p s \<longleftrightarrow> length p \<le> length s \<and> drop (length s - length p) s = p"

definition trim_prefix :: "string \<Rightarrow> string \<Rightarrow> string" where
  "trim_prefix p s = (if has_prefix p s then drop (length p) s else s)"

definition trim_suffix :: "string \<Rightarrow> string \<Rightarrow> string" where
  "trim_suffix p s = (if has_suffix p s then take (length s - length p) s else s)"

fun contains :: "string \<Rightarrow> string \<Rightarrow> bool" where
  "contains sub [] = (sub = [])"
| "contains sub (c # s) = (has_prefix sub (c # s) \<or> contains sub s)"

text \<open>\<open>cut\<close> is strings.Cut: the parts around the first occurrence of the separator.\<close>

fun cut :: "string \<Rightarrow> string \<Rightarrow> (string \<times> string) option" where
  "cut sep [] = (if sep = [] then Some ([], []) else None)"
| "cut sep (c # s) =
     (if has_prefix sep (c # s) then Some ([], drop (length sep) (c # s))
      else map_option (\<lambda>(a, b). (c # a, b)) (cut sep s))"

text \<open>\<open>split_on\<close> is strings.Split with a one-byte separator.\<close>

fun split_on :: "char \<Rightarrow> string \<Rightarrow> string list" where
  "split_on d [] = [[]]"
| "split_on d (c # s) =
     (if c = d then [] # split_on d s
      else (case split_on d s of [] \<Rightarrow> [[c]] | w # ws \<Rightarrow> (c # w) # ws))"

fun index_byte :: "char \<Rightarrow> string \<Rightarrow> nat option" where
  "index_byte d [] = None"
| "index_byte d (c # s) = (if c = d then Some 0 else map_option Suc (index_byte d s))"

definition contains_fold :: "string list \<Rightarrow> string \<Rightarrow> bool" where
  "contains_fold l v \<longleftrightarrow> (\<exists>s\<in>set l. equal_fold s v)"

lemma to_lower_idem [simp]: "to_lower (to_lower s) = to_lower s"
  by (simp add: to_lower_def)

lemma to_lower_upper [simp]: "to_lower (to_upper s) = to_lower s"
  by (simp add: to_lower_def to_upper_def)

lemma to_upper_idem [simp]: "to_upper (to_upper s) = to_upper s"
  by (simp add: to_upper_def)

lemma to_lower_Nil_iff [simp]: "to_lower s = [] \<longleftrightarrow> s = []" "[] = to_lower s \<longleftrightarrow> s = []"
  by (auto simp: to_lower_def)

lemma length_to_lower [simp]: "length (to_lower s) = length s"
  by (simp add: to_lower_def)

lemma length_to_upper [simp]: "length (to_upper s) = length s"
  by (simp add: to_upper_def)

lemma to_lower_append: "to_lower (s @ t) = to_lower s @ to_lower t"
  by (simp add: to_lower_def)

lemma equal_fold_refl [simp]: "equal_fold s s"
  by (simp add: equal_fold_def)

lemma equal_fold_sym: "equal_fold s t \<longleftrightarrow> equal_fold t s"
  by (auto simp: equal_fold_def)

lemma equal_fold_trans: "equal_fold s t \<Longrightarrow> equal_fold t u \<Longrightarrow> equal_fold s u"
  by (simp add: equal_fold_def)

lemma equal_fold_lower [simp]: "equal_fold (to_lower s) t = equal_fold s t"
    "equal_fold s (to_lower t) = equal_fold s t"
  by (simp_all add: equal_fold_def)

lemma equal_fold_upper [simp]: "equal_fold (to_upper s) t = equal_fold s t"
    "equal_fold s (to_upper t) = equal_fold s t"
  by (simp_all add: equal_fold_def)

lemma has_prefix_iff: "has_prefix p s \<longleftrightarrow> (\<exists>t. s = p @ t)"
  by (metis append_take_drop_id append_eq_conv_conj has_prefix_def)

lemma has_suffix_iff: "has_suffix p s \<longleftrightarrow> (\<exists>t. s = t @ p)"
proof
  assume "has_suffix p s"
  then have "s = take (length s - length p) s @ p"
    by (metis append_take_drop_id has_suffix_def)
  then show "\<exists>t. s = t @ p" ..
next
  assume "\<exists>t. s = t @ p"
  then show "has_suffix p s" by (auto simp: has_suffix_def)
qed

lemma trim_suffix_append [simp]: "trim_suffix p (s @ p) = s"
  by (simp add: trim_suffix_def has_suffix_def)

lemma trim_prefix_append [simp]: "trim_prefix p (p @ s) = s"
  by (simp add: trim_prefix_def has_prefix_def)

subsection \<open>Trimming is idempotent\<close>

lemma trim_left_hd: "trim_left s \<noteq> [] \<Longrightarrow> \<not> is_space (hd (trim_left s))"
  unfolding trim_left_def by (rule hd_dropWhile)

lemma trim_right_last: "trim_right s \<noteq> [] \<Longrightarrow> \<not> is_space (last (trim_right s))"
  using hd_dropWhile [of is_space "rev s"] by (simp add: trim_right_def last_rev)

lemma dropWhile_id: "xs = [] \<or> \<not> P (hd xs) \<Longrightarrow> dropWhile P xs = xs"
  by (cases xs) auto

lemma trim_right_prefix: "\<exists>t. s = trim_right s @ t"
proof -
  have "rev s = takeWhile is_space (rev s) @ dropWhile is_space (rev s)" by simp
  then have "rev (rev s) = trim_right s @ rev (takeWhile is_space (rev s))"
    by (metis rev_append trim_right_def)
  then show ?thesis by auto
qed

lemma trim_space_ends:
  assumes "trim_space s \<noteq> []"
  shows "\<not> is_space (hd (trim_space s)) \<and> \<not> is_space (last (trim_space s))"
proof -
  obtain t where t: "trim_left s = trim_space s @ t"
    using trim_right_prefix [of "trim_left s"] by (auto simp: trim_space_def)
  with assms have "trim_left s \<noteq> []" "hd (trim_left s) = hd (trim_space s)" by auto
  with trim_left_hd [of s] have "\<not> is_space (hd (trim_space s))" by simp
  moreover have "\<not> is_space (last (trim_space s))"
    using assms trim_right_last [of "trim_left s"] by (simp add: trim_space_def)
  ultimately show ?thesis ..
qed

lemma trim_space_id:
  assumes "s = [] \<or> \<not> is_space (hd s) \<and> \<not> is_space (last s)"
  shows "trim_space s = s"
proof (cases "s = []")
  case True
  then show ?thesis by (simp add: trim_space_def trim_left_def trim_right_def)
next
  case False
  with assms have "trim_left s = s" by (auto simp: trim_left_def intro: dropWhile_id)
  moreover from assms False have "dropWhile is_space (rev s) = rev s"
    by (intro dropWhile_id) (auto simp: hd_rev)
  ultimately show ?thesis by (simp add: trim_space_def trim_right_def)
qed

lemma trim_space_idem [simp]: "trim_space (trim_space s) = trim_space s"
  by (rule trim_space_id) (use trim_space_ends [of s] in blast)

lemma trim_space_Cons_space: "is_space c \<Longrightarrow> trim_space (c # s) = trim_space s"
  by (simp add: trim_space_def trim_left_def)

lemma trim_space_snoc_space:
  assumes "is_space c"
  shows "trim_space (s @ [c]) = trim_space s"
proof (cases "\<forall>x\<in>set s. is_space x")
  case True
  then have "dropWhile is_space s = []" by simp
  moreover from True assms have "dropWhile is_space (s @ [c]) = []"
    by (subst dropWhile_eq_Nil_conv) simp
  ultimately have "dropWhile is_space (s @ [c]) = []" "dropWhile is_space s = []" by simp_all
  then show ?thesis unfolding trim_space_def trim_left_def by (simp only:)
next
  case False
  then have "dropWhile is_space (s @ [c]) = dropWhile is_space s @ [c]"
    by (auto simp: dropWhile_append1)
  with assms show ?thesis by (simp add: trim_space_def trim_left_def trim_right_def)
qed

lemma trim_space_no_space:
  assumes "\<forall>c\<in>set s. \<not> is_space c"
  shows "trim_space s = s"
  using assms by (intro trim_space_id) auto

lemma trim_left_lower: "trim_left (to_lower s) = to_lower (trim_left s)"
  unfolding trim_left_def to_lower_def by (simp add: dropWhile_map comp_def)

lemma trim_right_lower: "trim_right (to_lower s) = to_lower (trim_right s)"
  unfolding trim_right_def to_lower_def by (simp add: rev_map dropWhile_map comp_def)

lemma trim_space_lower [simp]: "trim_space (to_lower s) = to_lower (trim_space s)"
  by (simp add: trim_space_def trim_left_lower trim_right_lower)

lemma set_trim_space: "set (trim_space s) \<subseteq> set s"
proof -
  have drop: "set (dropWhile P xs) \<subseteq> set xs" for P and xs :: string
    by (auto dest: set_dropWhileD)
  have "set (trim_right (trim_left s)) \<subseteq> set (trim_left s)"
    using drop [of is_space "rev (trim_left s)"] by (simp add: trim_right_def)
  with drop [of is_space s] show ?thesis by (simp add: trim_space_def trim_left_def)
qed

subsection \<open>Splitting and searching\<close>

lemma split_on_neq_Nil [simp]: "split_on d s \<noteq> []"
  by (induction s) (auto split: list.splits)

lemma split_on_no_sep: "w \<in> set (split_on d s) \<Longrightarrow> d \<notin> set w"
  by (induction s arbitrary: w) (auto split: list.splits if_splits)

lemma concat_split_on: "d \<notin> set s \<Longrightarrow> split_on d s = [s]"
  by (induction s) auto

lemma cut_Some: "cut sep s = Some (a, b) \<Longrightarrow> s = a @ sep @ b"
proof (induction s arbitrary: a b)
  case Nil
  then show ?case by (auto split: if_splits)
next
  case (Cons c s)
  show ?case
  proof (cases "has_prefix sep (c # s)")
    case True
    with Cons.prems show ?thesis
      by (auto simp: has_prefix_def) (metis append_take_drop_id)
  next
    case False
    with Cons show ?thesis by auto
  qed
qed

lemma index_byte_None: "index_byte d s = None \<longleftrightarrow> d \<notin> set s"
  by (induction s) auto

lemma index_byte_Some: "index_byte d s = Some i \<Longrightarrow> i < length s \<and> s ! i = d \<and> d \<notin> set (take i s)"
  by (induction s arbitrary: i) (auto split: if_splits)

section \<open>Package strconv\<close>

definition digit_val :: "char \<Rightarrow> nat" where
  "digit_val c = byte_of c - 48"

definition dec_value :: "string \<Rightarrow> nat" where
  "dec_value s = foldl (\<lambda>n c. 10 * n + digit_val c) 0 s"

text \<open>strconv.ParseUint in base 10 with the given bit size.\<close>

definition parse_uint :: "nat \<Rightarrow> string \<Rightarrow> nat option" where
  "parse_uint bits s =
     (if s = [] \<or> \<not> list_all is_digit s then None
      else let n = dec_value s in if n < 2 ^ bits then Some n else None)"

definition digit_char :: "nat \<Rightarrow> char" where
  "digit_char d = char_of (d + 48)"

fun itoa :: "nat \<Rightarrow> string" where
  "itoa n = (if n < 10 then [digit_char n] else itoa (n div 10) @ [digit_char (n mod 10)])"

declare itoa.simps [simp del]

lemma is_digit_digit_char [simp]: "d < 10 \<Longrightarrow> is_digit (digit_char d)"
  by (simp add: is_digit_def digit_char_def)

lemma digit_val_digit_char [simp]: "d < 10 \<Longrightarrow> digit_val (digit_char d) = d"
  by (simp add: digit_val_def digit_char_def)

lemma dec_value_snoc: "dec_value (s @ [c]) = 10 * dec_value s + digit_val c"
  by (simp add: dec_value_def)

lemma itoa_neq_Nil [simp]: "itoa n \<noteq> []"
  by (subst itoa.simps) simp

lemma itoa_digits: "list_all is_digit (itoa n)"
proof (induction n rule: itoa.induct)
  case (1 n)
  then show ?case by (subst itoa.simps) simp
qed

lemma dec_value_itoa [simp]: "dec_value (itoa n) = n"
proof (induction n rule: itoa.induct)
  case (1 n)
  show ?case
  proof (cases "n < 10")
    case True
    then show ?thesis by (subst itoa.simps) (simp add: dec_value_def)
  next
    case False
    then have "dec_value (itoa n) = 10 * dec_value (itoa (n div 10)) + digit_val (digit_char (n mod 10))"
      by (subst itoa.simps) (simp add: dec_value_snoc)
    with 1 False show ?thesis by simp
  qed
qed

lemma parse_uint_itoa: "n < 2 ^ bits \<Longrightarrow> parse_uint bits (itoa n) = Some n"
  by (simp add: parse_uint_def itoa_digits)

lemma parse_uint_bound: "parse_uint bits s = Some n \<Longrightarrow> n < 2 ^ bits"
  by (auto simp: parse_uint_def Let_def split: if_splits)

lemma itoa_inj: "itoa m = itoa n \<longleftrightarrow> m = n"
  by (metis dec_value_itoa)

lemma itoa_no_space: "c \<in> set (itoa n) \<Longrightarrow> is_digit c"
  using itoa_digits [of n] by (auto simp: list_all_iff)

text \<open>Rules that evaluate the conversions on literals.\<close>

lemma digit_char_literal [simp]:
  "digit_char 0 = CHR ''0''"
  "digit_char 1 = CHR ''1''"
  "digit_char 2 = CHR ''2''"
  "digit_char 3 = CHR ''3''"
  "digit_char 4 = CHR ''4''"
  "digit_char 5 = CHR ''5''"
  "digit_char 6 = CHR ''6''"
  "digit_char 7 = CHR ''7''"
  "digit_char 8 = CHR ''8''"
  "digit_char 9 = CHR ''9''"
  "digit_char (Suc 0) = CHR ''1''"
  by code_simp+

lemmas conv_eval = itoa.simps parse_uint_def dec_value_def digit_val_def is_digit_def byte_of_def

section \<open>Package sort: binary search\<close>

text \<open>
  \<open>go_search_from f i j\<close> is the loop of sort.Search with its two cursors, \<open>go_search n f\<close> the
  whole call: the least index in \<open>{0..<n}\<close> at which a monotone predicate holds, or \<open>n\<close>.
\<close>

function go_search_from :: "(nat \<Rightarrow> bool) \<Rightarrow> nat \<Rightarrow> nat \<Rightarrow> nat" where
  "go_search_from f i j =
     (if i < j then
        (let h = (i + j) div 2 in if f h then go_search_from f i h else go_search_from f (h + 1) j)
      else i)"
  by auto
termination by (relation "measure (\<lambda>(f, i, j). j - i)") auto

declare go_search_from.simps [simp del]

definition go_search :: "nat \<Rightarrow> (nat \<Rightarrow> bool) \<Rightarrow> nat" where
  "go_search n f = go_search_from f 0 n"

lemma go_search_from_spec:
  assumes "i \<le> j"
    and "\<And>a b. i \<le> a \<Longrightarrow> a \<le> b \<Longrightarrow> b < j \<Longrightarrow> f a \<Longrightarrow> f b"
  shows "i \<le> go_search_from f i j \<and> go_search_from f i j \<le> j \<and>
         (\<forall>k. i \<le> k \<and> k < go_search_from f i j \<longrightarrow> \<not> f k) \<and>
         (go_search_from f i j < j \<longrightarrow> f (go_search_from f i j))"
  using assms
proof (induction f i j rule: go_search_from.induct)
  case (1 f i j)
  show ?case
  proof (cases "i < j")
    case False
    then have "go_search_from f i j = i" by (simp add: go_search_from.simps)
    with False 1(3) show ?thesis by auto
  next
    case True
    define h where "h = (i + j) div 2"
    have h: "i \<le> h" "h < j" using True by (auto simp: h_def)
    show ?thesis
    proof (cases "f h")
      case True
      have eq: "go_search_from f i j = go_search_from f i h"
        using \<open>i < j\<close> True by (subst go_search_from.simps) (simp add: h_def)
      have "i \<le> go_search_from f i h \<and> go_search_from f i h \<le> h \<and>
         (\<forall>k. i \<le> k \<and> k < go_search_from f i h \<longrightarrow> \<not> f k) \<and>
         (go_search_from f i h < h \<longrightarrow> f (go_search_from f i h))"
        using 1(1) [OF \<open>i < j\<close> h_def True h(1)] 1(4) h by simp
      with eq True h show ?thesis by (cases "go_search_from f i h < h") auto
    next
      case False
      have eq: "go_search_from f i j = go_search_from f (h + 1) j"
        using \<open>i < j\<close> False by (subst go_search_from.simps) (simp add: h_def)
      have ih: "h + 1 \<le> go_search_from f (h + 1) j \<and> go_search_from f (h + 1) j \<le> j \<and>
         (\<forall>k. h + 1 \<le> k \<and> k < go_search_from f (h + 1) j \<longrightarrow> \<not> f k) \<and>
         (go_search_from f (h + 1) j < j \<longrightarrow> f (go_search_from f (h + 1) j))"
      proof (rule 1(2) [OF \<open>i < j\<close> h_def False])
        show "h + 1 \<le> j" using h by simp
        show "f b" if "h + 1 \<le> a" "a \<le> b" "b < j" "f a" for a b
          using 1(4) [of a b] that h by linarith
      qed
      have "\<not> f k" if "i \<le> k" "k \<le> h" for k
        using 1(4) [of k h] that False h by blast
      then have lo: "\<forall>k. i \<le> k \<and> k < go_search_from f (h + 1) j \<longrightarrow> \<not> f k"
        using ih by (metis Suc_eq_plus1 not_less_eq_eq)
      have "i \<le> go_search_from f (h + 1) j" using ih h by linarith
      with lo ih show ?thesis unfolding eq by blast
    qed
  qed
qed

lemma go_search_spec:
  assumes "\<And>a b. a \<le> b \<Longrightarrow> b < n \<Longrightarrow> f a \<Longrightarrow> f b"
  shows "go_search n f \<le> n" "k < go_search n f \<Longrightarrow> \<not> f k" "go_search n f < n \<Longrightarrow> f (go_search n f)"
  using go_search_from_spec [of 0 n f] assms unfolding go_search_def by auto

lemma go_search_bound: "go_search n f \<le> n"
proof -
  have "i \<le> j \<Longrightarrow> go_search_from f i j \<le> j" for i j
  proof (induction f i j rule: go_search_from.induct)
    case (1 f i j)
    then have "f ((i + j) div 2) \<Longrightarrow> i < j \<Longrightarrow> go_search_from f i ((i + j) div 2) \<le> (i + j) div 2"
      and "\<not> f ((i + j) div 2) \<Longrightarrow> i < j \<Longrightarrow> go_search_from f ((i + j) div 2 + 1) j \<le> j" by auto
    with 1(3) show ?case unfolding go_search_from.simps [of f i j] Let_def
      by (cases "i < j"; cases "f ((i + j) div 2)") (auto intro: le_trans)
  qed
  then show ?thesis by (simp add: go_search_def)
qed

section \<open>Slices and maps\<close>

text \<open>
  \<open>find_index\<close> is the index loop \<open>for i := range xs { if P(xs[i]) { return i } }\<close>, \<open>delete_at\<close>
  the slice deletion \<open>append(xs[:i], xs[i+1:]...)\<close>, \<open>insert_at\<close> the insertion of one element.
  Lookups and updates of a Go map that is also iterated use an association list with one
  entry per key: \<open>aput\<close> overwrites in place or appends.
\<close>

fun find_index :: "('a \<Rightarrow> bool) \<Rightarrow> 'a list \<Rightarrow> nat option" where
  "find_index P [] = None"
| "find_index P (x # xs) = (if P x then Some 0 else map_option Suc (find_index P xs))"

definition delete_at :: "nat \<Rightarrow> 'a list \<Rightarrow> 'a list" where
  "delete_at i xs = take i xs @ drop (Suc i) xs"

definition insert_at :: "nat \<Rightarrow> 'a \<Rightarrow> 'a list \<Rightarrow> 'a list" where
  "insert_at i x xs = take i xs @ x # drop i xs"

fun aput :: "'k \<Rightarrow> 'v \<Rightarrow> ('k \<times> 'v) list \<Rightarrow> ('k \<times> 'v) list" where
  "aput k v [] = [(k, v)]"
| "aput k v ((k', v') # kvs) = (if k = k' then (k, v) # kvs else (k', v') # aput k v kvs)"

lemma find_index_None: "find_index P xs = None \<longleftrightarrow> (\<forall>x\<in>set xs. \<not> P x)"
  by (induction xs) auto

lemma find_index_Some:
  "find_index P xs = Some i \<longleftrightarrow> i < length xs \<and> P (xs ! i) \<and> (\<forall>j<i. \<not> P (xs ! j))"
proof (induction xs arbitrary: i)
  case (Cons x xs)
  show ?case
  proof (cases i)
    case 0
    then show ?thesis by simp
  next
    case (Suc k)
    have "(\<forall>j<Suc k. \<not> P ((x # xs) ! j)) \<longleftrightarrow> \<not> P x \<and> (\<forall>j<k. \<not> P (xs ! j))"
      by (auto simp: less_Suc_eq_0_disj)
    with Suc Cons.IH show ?thesis by auto
  qed
qed simp

lemmas find_index_SomeD = find_index_Some [THEN iffD1]

lemma set_delete_at: "set (delete_at i xs) \<subseteq> set xs"
  by (auto simp: delete_at_def dest: in_set_takeD in_set_dropD)

lemma length_delete_at: "i < length xs \<Longrightarrow> length (delete_at i xs) = length xs - 1"
  by (simp add: delete_at_def)

lemma map_delete_at: "map f (delete_at i xs) = delete_at i (map f xs)"
  by (simp add: delete_at_def take_map drop_map)

lemma distinct_delete_at: "distinct xs \<Longrightarrow> distinct (delete_at i xs)"
  unfolding delete_at_def
  by (simp add: distinct_take distinct_drop set_take_disj_set_drop_if_distinct)

lemma distinct_delete_at_not_in:
  "distinct xs \<Longrightarrow> i < length xs \<Longrightarrow> xs ! i \<notin> set (delete_at i xs)"
  unfolding delete_at_def
  by (metis Cons_nth_drop_Suc Un_iff distinct_append id_take_nth_drop
      not_distinct_conv_prefix set_append distinct.simps(2) disjoint_iff list.set_intros(1))

lemma set_insert_at: "set (insert_at i x xs) = insert x (set xs)"
proof -
  have "set xs = set (take i xs) \<union> set (drop i xs)"
    by (metis append_take_drop_id set_append)
  then show ?thesis by (auto simp: insert_at_def)
qed

lemma map_of_aput [simp]: "map_of (aput k v kvs) = (map_of kvs)(k \<mapsto> v)"
  by (induction kvs) (auto simp: fun_eq_iff)

lemma keys_aput: "set (map fst (aput k v kvs)) = insert k (set (map fst kvs))"
proof (induction kvs)
  case (Cons p kvs)
  then show ?case by (cases p) auto
qed simp

lemma distinct_aput: "distinct (map fst kvs) \<Longrightarrow> distinct (map fst (aput k v kvs))"
proof (induction kvs)
  case (Cons p kvs)
  then show ?case by (cases p) (use keys_aput [of k v kvs] in auto)
qed simp

section \<open>Decimal numbers without leading zeros\<close>

lemma set_aput: "distinct (map fst kvs) \<Longrightarrow> set (aput k v kvs) = insert (k, v) {e \<in> set kvs. fst e \<noteq> k}"
  by (induction kvs) (force split: if_splits)+

lemma aput_new: "k \<notin> fst ` set kvs \<Longrightarrow> aput k v kvs = kvs @ [(k, v)]"
  by (induction kvs) auto

lemma map_fst_aput_old: "k \<in> fst ` set kvs \<Longrightarrow> map fst (aput k v kvs) = map fst kvs"
  by (induction kvs) force+

lemma map_aput_old:
  "distinct (map fst kvs) \<Longrightarrow> (k, v) \<in> set kvs \<Longrightarrow> f (k, w) = f (k, v) \<Longrightarrow> map f (aput k w kvs) = map f kvs"
  by (induction kvs) (auto simp: image_iff)

lemma digit_char_val: "is_digit c \<Longrightarrow> digit_char (digit_val c) = c"
  by (auto simp: is_digit_def digit_char_def digit_val_def byte_of_eq_iff [symmetric])

lemma dec_value_pos: "list_all is_digit s \<Longrightarrow> s \<noteq> [] \<Longrightarrow> hd s \<noteq> CHR ''0'' \<Longrightarrow> 0 < dec_value s"
proof (induction s rule: rev_induct)
  case (snoc c s)
  show ?case
  proof (cases "s = []")
    case True
    with snoc have "byte_of c \<noteq> 48" "48 \<le> byte_of c"
      using byte_of_eq_iff [of c "CHR ''0''"] by (auto simp: is_digit_def byte_of_def)
    with True show ?thesis by (simp add: dec_value_def digit_val_def)
  next
    case False
    with snoc show ?thesis by (simp add: dec_value_snoc)
  qed
qed simp

lemma itoa_dec_value:
  "list_all is_digit s \<Longrightarrow> s \<noteq> [] \<Longrightarrow> hd s \<noteq> CHR ''0'' \<or> length s = 1 \<Longrightarrow> itoa (dec_value s) = s"
proof (induction s rule: rev_induct)
  case (snoc c s)
  have c: "is_digit c" "digit_val c < 10" using snoc.prems(1) by (auto simp: is_digit_def digit_val_def)
  show ?case
  proof (cases "s = []")
    case True
    with c show ?thesis by (subst itoa.simps) (simp add: dec_value_def digit_char_val)
  next
    case False
    then have hd: "hd s \<noteq> CHR ''0''" using snoc.prems(3) by auto
    then have "0 < dec_value s" using snoc.prems(1) False by (intro dec_value_pos) auto
    moreover have "itoa (dec_value s) = s" using snoc False hd by simp
    ultimately show ?thesis using c by (subst itoa.simps) (simp add: dec_value_snoc digit_char_val)
  qed
qed simp

lemma join_split_on: "concat (map ((#) d) (split_on d s)) = d # s"
proof (induction d s rule: split_on.induct)
  case (2 d c s)
  then show ?case by (cases "split_on d s") auto
qed simp

end
