(* ===== verification/NetAddr.thy ===== *)
theory NetAddr
  imports GoBase
begin

unbundle bit_operations_syntax

text \<open>
  The part of Go's packages net and net/netip that the program uses: netip.ParseAddr and
  its String, net.ParseIP, net.ParseCIDR with IPNet.Contains, net.JoinHostPort. A net.IP is a
  list of 4 or 16 bytes and a nil IP is \<open>None\<close>; a netip.Addr is a \<open>ipaddr\<close>, whose
  IPv6 form carries its zone.
\<close>

datatype ipaddr = A4 "u8 list" | A6 "u8 list" string

fun addr_zone :: "ipaddr \<Rightarrow> string" where
  "addr_zone (A4 _) = []"
| "addr_zone (A6 _ z) = z"

definition v4_in_v6_prefix :: "u8 list" where
  "v4_in_v6_prefix = [0, 0, 0, 0, 0, 0, 0, 0, 0, 0, 255, 255]"

fun addr_as16 :: "ipaddr \<Rightarrow> u8 list" where
  "addr_as16 (A4 b) = v4_in_v6_prefix @ b"
| "addr_as16 (A6 b _) = b"

fun addr_bitlen :: "ipaddr \<Rightarrow> nat" where
  "addr_bitlen (A4 _) = 32"
| "addr_bitlen (A6 _ _) = 128"

section \<open>Dotted IPv4\<close>

definition parse_octet :: "string \<Rightarrow> u8 option" where
  "parse_octet f =
     (if f = [] \<or> \<not> list_all is_digit f \<or> 1 < length f \<and> hd f = CHR ''0'' then None
      else let n = dec_value f in if n \<le> 255 then Some (word_of_nat n) else None)"

fun parse_octets :: "string list \<Rightarrow> u8 list option" where
  "parse_octets [] = Some []"
| "parse_octets (f # fs) =
     (case parse_octet f of None \<Rightarrow> None
      | Some b \<Rightarrow> map_option ((#) b) (parse_octets fs))"

definition parse_ipv4 :: "string \<Rightarrow> u8 list option" where
  "parse_ipv4 s = (let fs = split_on CHR ''.'' s in if length fs = 4 then parse_octets fs else None)"

definition string4 :: "u8 list \<Rightarrow> string" where
  "string4 b = itoa (unat (b ! 0)) @ ''.'' @ itoa (unat (b ! 1)) @ ''.'' @
               itoa (unat (b ! 2)) @ ''.'' @ itoa (unat (b ! 3))"

section \<open>IPv6 and zones\<close>

definition hex_val :: "char \<Rightarrow> nat option" where
  "hex_val c =
     (let n = byte_of c in
      if 48 \<le> n \<and> n \<le> 57 then Some (n - 48)
      else if 97 \<le> n \<and> n \<le> 102 then Some (n - 87)
      else if 65 \<le> n \<and> n \<le> 70 then Some (n - 55) else None)"

definition is_hex :: "char \<Rightarrow> bool" where
  "is_hex c \<longleftrightarrow> hex_val c \<noteq> None"

definition hex_value :: "string \<Rightarrow> nat" where
  "hex_value s = foldl (\<lambda>n c. 16 * n + the (hex_val c)) 0 s"

text \<open>
  \<open>parse6_loop acc ell s\<close> is the field loop of netip's parseIPv6: \<open>acc\<close> the bytes written so far,
  \<open>ell\<close> the position of the ellipsis, \<open>s\<close> the unread text.
\<close>

function parse6_loop ::
    "u8 list \<Rightarrow> nat option \<Rightarrow> string \<Rightarrow> (u8 list \<times> nat option \<times> string) option" where
  "parse6_loop acc ell s =
     (if 16 \<le> length acc then Some (acc, ell, s)
      else
        let ds = takeWhile is_hex s; r = dropWhile is_hex s in
        if ds = [] \<or> 4 < length ds then None
        else if r \<noteq> [] \<and> hd r = CHR ''.'' then
          (if ell = None \<and> length acc \<noteq> 12 \<or> 16 < length acc + 4 then None
           else case parse_ipv4 s of None \<Rightarrow> None | Some b \<Rightarrow> Some (acc @ b, ell, []))
        else
          let v = hex_value ds;
              acc' = acc @ [word_of_nat (v div 256), word_of_nat (v mod 256)] in
          if r = [] then Some (acc', ell, [])
          else if hd r \<noteq> CHR '':'' \<or> tl r = [] then None
          else if hd (tl r) = CHR '':'' then
            (if ell \<noteq> None then None
             else if tl (tl r) = [] then Some (acc', Some (length acc'), [])
             else parse6_loop acc' (Some (length acc')) (tl (tl r)))
          else parse6_loop acc' ell (tl r))"
  by pat_completeness auto
termination by (relation "measure (\<lambda>(acc, _, _). 16 - length acc)") auto

declare parse6_loop.simps [simp del]

definition parse6_body :: "string \<Rightarrow> u8 list option" where
  "parse6_body s =
     (let (ell, r) = (if take 2 s = ''::'' then (Some 0, drop 2 s) else (None, s)) in
      if ell = Some 0 \<and> r = [] then Some (replicate 16 0)
      else case parse6_loop [] ell r of
        None \<Rightarrow> None
      | Some (acc, ell', rest) \<Rightarrow>
          if rest \<noteq> [] then None
          else if length acc < 16 then
            (case ell' of None \<Rightarrow> None
             | Some e \<Rightarrow> Some (take e acc @ replicate (16 - length acc) 0 @ drop e acc))
          else if ell' \<noteq> None then None else Some acc)"

definition parse_ipv6 :: "string \<Rightarrow> ipaddr option" where
  "parse_ipv6 s =
     (case index_byte (CHR ''%'') s of
        None \<Rightarrow> map_option (\<lambda>b. A6 b []) (parse6_body s)
      | Some i \<Rightarrow>
          (let zone = drop (Suc i) s in
           if zone = [] then None else map_option (\<lambda>b. A6 b zone) (parse6_body (take i s))))"

text \<open>netip.ParseAddr: the first of the three marker bytes selects the parser.\<close>

definition parse_addr :: "string \<Rightarrow> ipaddr option" where
  "parse_addr s =
     (case filter (\<lambda>c. c \<in> {CHR ''.'', CHR '':'', CHR ''%''}) s of
        [] \<Rightarrow> None
      | c # _ \<Rightarrow> if c = CHR ''.'' then map_option A4 (parse_ipv4 s)
                 else if c = CHR '':'' then parse_ipv6 s else None)"

definition hex_char :: "nat \<Rightarrow> char" where
  "hex_char d = (if d < 10 then char_of (d + 48) else char_of (d + 87))"

fun hex_string :: "nat \<Rightarrow> string" where
  "hex_string n = (if n < 16 then [hex_char n] else hex_string (n div 16) @ [hex_char (n mod 16)])"

declare hex_string.simps [simp del]

fun groups16 :: "u8 list \<Rightarrow> nat list" where
  "groups16 (a # b # r) = (256 * unat a + unat b) # groups16 r"
| "groups16 _ = []"

fun join_with :: "string \<Rightarrow> string list \<Rightarrow> string" where
  "join_with sep [] = []"
| "join_with sep [w] = w"
| "join_with sep (w # ws) = w @ sep @ join_with sep ws"

definition zero_run :: "nat list \<Rightarrow> nat \<Rightarrow> nat" where
  "zero_run gs i = length (takeWhile (\<lambda>g. g = 0) (drop i gs))"

definition best_run :: "nat list \<Rightarrow> nat \<times> nat" where
  "best_run gs =
     foldl (\<lambda>(s, l) i. if 2 \<le> zero_run gs i \<and> l < zero_run gs i then (i, zero_run gs i) else (s, l))
       (0, 0) [0..<length gs]"

definition string6 :: "u8 list \<Rightarrow> string" where
  "string6 b =
     (let gs = groups16 b; (zs, zl) = best_run gs in
      if zl = 0 then join_with '':'' (map hex_string gs)
      else join_with '':'' (map hex_string (take zs gs)) @ ''::'' @
           join_with '':'' (map hex_string (drop (zs + zl) gs)))"

fun addr_string :: "ipaddr \<Rightarrow> string" where
  "addr_string (A4 b) = string4 b"
| "addr_string (A6 b z) =
     (if take 12 b = v4_in_v6_prefix then ''::ffff:'' @ string4 (drop 12 b) else string6 b) @
     (if z = [] then [] else CHR ''%'' # z)"

section \<open>Package net\<close>

definition parse_ip :: "string \<Rightarrow> u8 list option" where
  "parse_ip s =
     (case parse_addr s of None \<Rightarrow> None
      | Some a \<Rightarrow> if addr_zone a = [] then Some (addr_as16 a) else None)"

definition to4 :: "u8 list \<Rightarrow> u8 list option" where
  "to4 ip =
     (if length ip = 4 then Some ip
      else if length ip = 16 \<and> take 12 ip = v4_in_v6_prefix then Some (drop 12 ip) else None)"

text \<open>net.IP.String: a 4-byte or mapped address is dotted, any other 16-byte one is RFC 5952.\<close>

definition ip_string :: "u8 list \<Rightarrow> string" where
  "ip_string ip = (case to4 ip of Some b \<Rightarrow> string4 b | None \<Rightarrow> string6 ip)"

definition cidr_mask :: "nat \<Rightarrow> nat \<Rightarrow> u8 list" where
  "cidr_mask ones bits =
     map (\<lambda>i. if 8 * i + 8 \<le> ones then 255
              else if ones \<le> 8 * i then 0 else NOT (mask (8 - (ones - 8 * i)))) [0..<bits div 8]"

definition ip_mask :: "u8 list \<Rightarrow> u8 list \<Rightarrow> u8 list" where
  "ip_mask ip m =
     (let ip' = (if length m = 4 \<and> length ip = 16 \<and> take 12 ip = v4_in_v6_prefix
                 then drop 12 ip else ip)
      in map2 (AND) ip' m)"

text \<open>net.dtoi: decimal digits below 0xFFFFFF.\<close>

definition dtoi :: "string \<Rightarrow> nat option" where
  "dtoi s =
     (if s = [] \<or> \<not> list_all is_digit s then None
      else if dec_value s < 16777215 then Some (dec_value s) else None)"

definition parse_cidr :: "string \<Rightarrow> (u8 list \<times> u8 list) option" where
  "parse_cidr s =
     (case cut ''/'' s of None \<Rightarrow> None
      | Some (a, m) \<Rightarrow>
          (case parse_addr a of None \<Rightarrow> None
           | Some ip \<Rightarrow>
               if addr_zone ip \<noteq> [] then None
               else case dtoi m of None \<Rightarrow> None
                 | Some n \<Rightarrow>
                     if addr_bitlen ip < n then None
                     else let msk = cidr_mask n (addr_bitlen ip)
                          in Some (ip_mask (addr_as16 ip) msk, msk)))"

definition cidr_contains :: "u8 list \<times> u8 list \<Rightarrow> u8 list \<Rightarrow> bool" where
  "cidr_contains net ip =
     (let (nip, m) = net;
          nn = (case to4 nip of Some b \<Rightarrow> b | None \<Rightarrow> nip);
          m' = (if length m = 16 \<and> length nn = 4 then drop 12 m else m);
          x = (case to4 ip of Some b \<Rightarrow> b | None \<Rightarrow> ip)
      in length nn = length m' \<and> length x = length nn \<and> map2 (AND) nn m' = map2 (AND) x m')"

definition join_host_port :: "string \<Rightarrow> string \<Rightarrow> string" where
  "join_host_port host port =
     (if CHR '':'' \<in> set host then ''['' @ host @ '']:'' @ port else host @ '':'' @ port)"

section \<open>Address classes of net.IP\<close>

definition ip_unspecified :: "u8 list \<Rightarrow> bool" where
  "ip_unspecified ip \<longleftrightarrow> to4 ip = Some [0, 0, 0, 0] \<or> ip = replicate 16 0"

definition ip_loopback :: "u8 list \<Rightarrow> bool" where
  "ip_loopback ip = (case to4 ip of Some b \<Rightarrow> b ! 0 = 127 | None \<Rightarrow> ip = replicate 15 0 @ [1])"

definition ip_private :: "u8 list \<Rightarrow> bool" where
  "ip_private ip =
     (case to4 ip of
        Some b \<Rightarrow> b ! 0 = 10 \<or> b ! 0 = 172 \<and> b ! 1 AND 0xF0 = 16 \<or> b ! 0 = 192 \<and> b ! 1 = 168
      | None \<Rightarrow> length ip = 16 \<and> ip ! 0 AND 0xFE = 0xFC)"

definition ip_multicast :: "u8 list \<Rightarrow> bool" where
  "ip_multicast ip =
     (case to4 ip of Some b \<Rightarrow> b ! 0 AND 0xF0 = 0xE0 | None \<Rightarrow> length ip = 16 \<and> ip ! 0 = 0xFF)"

definition ip_link_local_multicast :: "u8 list \<Rightarrow> bool" where
  "ip_link_local_multicast ip =
     (case to4 ip of
        Some b \<Rightarrow> b ! 0 = 224 \<and> b ! 1 = 0 \<and> b ! 2 = 0
      | None \<Rightarrow> length ip = 16 \<and> ip ! 0 = 0xFF \<and> ip ! 1 AND 0x0F = 2)"

definition ip_link_local_unicast :: "u8 list \<Rightarrow> bool" where
  "ip_link_local_unicast ip =
     (case to4 ip of
        Some b \<Rightarrow> b ! 0 = 169 \<and> b ! 1 = 254
      | None \<Rightarrow> length ip = 16 \<and> ip ! 0 = 0xFE \<and> ip ! 1 AND 0xC0 = 0x80)"

definition ip_global_unicast :: "u8 list \<Rightarrow> bool" where
  "ip_global_unicast ip \<longleftrightarrow>
     (length ip = 4 \<or> length ip = 16) \<and> to4 ip \<noteq> Some [255, 255, 255, 255] \<and>
     \<not> ip_unspecified ip \<and> \<not> ip_loopback ip \<and> \<not> ip_multicast ip \<and> \<not> ip_link_local_unicast ip"

section \<open>Round trip of dotted addresses\<close>

lemma itoa_small_hd:
  "0 < n \<Longrightarrow> hd (itoa n) \<noteq> CHR ''0''"
proof (induction n rule: itoa.induct)
  case (1 n)
  show ?case
  proof (cases "n < 10")
    case True
    with 1(2) have "byte_of (hd (itoa n)) = n + 48"
      by (subst itoa.simps) (simp add: digit_char_def)
    moreover have "byte_of CHR ''0'' = 48" by (simp add: byte_of_def)
    ultimately show ?thesis using 1(2) by auto
  next
    case False
    then have "hd (itoa n) = hd (itoa (n div 10))" by (subst itoa.simps) simp
    with 1 False show ?thesis by simp
  qed
qed

lemma itoa_len1: "n < 10 \<Longrightarrow> length (itoa n) = 1"
  by (subst itoa.simps) simp

lemma parse_octet_itoa: "parse_octet (itoa (unat b)) = Some (b :: u8)"
proof -
  have "\<not> (1 < length (itoa (unat b)) \<and> hd (itoa (unat b)) = CHR ''0'')"
    using itoa_small_hd [of "unat b"] itoa_len1 [of "unat b"] by (cases "unat b = 0") auto
  moreover have "unat b \<le> 255" using unsigned_less [of b, where ?'a = nat] by simp
  ultimately show ?thesis
    unfolding parse_octet_def by (simp add: itoa_digits Let_def)
qed

lemma split_on_sep: "d \<notin> set w \<Longrightarrow> split_on d (w @ d # s) = w # split_on d s"
  by (induction w) auto

lemma itoa_not_in: "\<not> is_digit c \<Longrightarrow> c \<notin> set (itoa n)"
  using itoa_no_space by blast

lemma not_digit_markers [simp]:
  "\<not> is_digit (CHR ''.'')" "\<not> is_digit (CHR '':'')" "\<not> is_digit (CHR ''%'')" "\<not> is_digit (CHR ''/'')"
  by (simp_all add: is_digit_def byte_of_def)

lemma length4_cases: "length b = 4 \<Longrightarrow> \<exists>w x y z. b = [w, x, y, z]"
  by (auto simp: numeral_eq_Suc length_Suc_conv)

lemma split_string4:
  "split_on CHR ''.'' (string4 [w, x, y, z]) = map (\<lambda>b. itoa (unat b)) [w, x, y, z]"
  by (simp add: string4_def split_on_sep concat_split_on itoa_not_in)

lemma parse_ipv4_string4: "length b = 4 \<Longrightarrow> parse_ipv4 (string4 b) = Some b"
  by (auto simp: parse_ipv4_def split_string4 parse_octet_itoa dest!: length4_cases)

lemma filter_none: "(\<And>c. c \<in> set s \<Longrightarrow> \<not> P c) \<Longrightarrow> filter P s = []"
  by (simp add: filter_empty_conv)

lemma parse_addr_string4:
  assumes "length b = 4"
  shows "parse_addr (string4 b) = Some (A4 b)"
proof -
  let ?M = "\<lambda>c. c \<in> {CHR ''.'', CHR '':'', CHR ''%''}"
  have none: "filter ?M (itoa n) = []" for n
    by (rule filter_none) (auto dest: itoa_no_space)
  obtain s where "string4 b = itoa (unat (b ! 0)) @ CHR ''.'' # s"
    unfolding string4_def by auto
  then have "filter ?M (string4 b) = CHR ''.'' # filter ?M s" using none by simp
  with parse_ipv4_string4 [OF assms] show ?thesis unfolding parse_addr_def by simp
qed

lemma set_string4: "length b = 4 \<Longrightarrow> c \<in> set (string4 b) \<Longrightarrow> is_digit c \<or> c = CHR ''.''"
  by (auto simp: string4_def dest: itoa_no_space)

lemma parse_octets_length: "parse_octets fs = Some b \<Longrightarrow> length b = length fs"
  by (induction fs arbitrary: b) (auto split: option.splits)

lemma parse_ipv4_length: "parse_ipv4 s = Some b \<Longrightarrow> length b = 4"
  by (auto simp: parse_ipv4_def Let_def dest: parse_octets_length split: if_splits)

section \<open>Round trip of IPv6 addresses\<close>

lemma hex_val_hex_char: "d < 16 \<Longrightarrow> hex_val (hex_char d) = Some d"
  by (auto simp: hex_val_def hex_char_def Let_def)

lemma is_hex_hex_char [simp]: "d < 16 \<Longrightarrow> is_hex (hex_char d)"
  by (simp add: is_hex_def hex_val_hex_char)

lemma hex_string_hex: "list_all is_hex (hex_string n)"
proof (induction n rule: hex_string.induct)
  case (1 n)
  then show ?case by (subst hex_string.simps) simp
qed

lemma hex_string_neq_Nil [simp]: "hex_string n \<noteq> []"
  by (subst hex_string.simps) simp

lemma hex_value_snoc: "hex_value (s @ [c]) = 16 * hex_value s + the (hex_val c)"
  by (simp add: hex_value_def)

lemma hex_value_hex_string [simp]: "hex_value (hex_string n) = n"
proof (induction n rule: hex_string.induct)
  case (1 n)
  then show ?case
    by (subst hex_string.simps)
      (auto simp: hex_value_snoc hex_val_hex_char, simp add: hex_value_def hex_val_hex_char)
qed

lemma length_hex_string: "n < 16 ^ Suc k \<Longrightarrow> length (hex_string n) \<le> Suc k"
proof (induction k arbitrary: n)
  case 0
  then show ?case by (subst hex_string.simps) simp
next
  case (Suc k)
  have "length (hex_string (n div 16)) \<le> Suc k"
    using Suc.prems by (intro Suc.IH) (simp add: less_mult_imp_div_less)
  then show ?case by (subst hex_string.simps) simp
qed

lemma not_hex_colon [simp]: "\<not> is_hex (CHR '':'')" "\<not> is_hex (CHR ''.'')" "\<not> is_hex (CHR ''%'')"
  by (simp_all add: is_hex_def hex_val_def byte_of_def)

lemma hex_span:
  assumes "r = [] \<or> \<not> is_hex (hd r)"
  shows "takeWhile is_hex (hex_string n @ r) = hex_string n"
    "dropWhile is_hex (hex_string n @ r) = r"
proof -
  have all: "\<forall>c\<in>set (hex_string n). is_hex c"
    using hex_string_hex [of n] by (simp add: list_all_iff)
  have "takeWhile is_hex r = [] \<and> dropWhile is_hex r = r"
    using assms by (cases r) auto
  with all show "takeWhile is_hex (hex_string n @ r) = hex_string n"
    "dropWhile is_hex (hex_string n @ r) = r" by simp_all
qed

definition grp :: "u8 \<Rightarrow> u8 \<Rightarrow> nat" where
  "grp a b = 256 * unat a + unat b"

lemma grp_less: "grp a b < 16 ^ Suc 3"
  using unsigned_less [of a, where ?'a = nat] unsigned_less [of b, where ?'a = nat]
  by (simp add: grp_def)

lemma grp_bytes: "word_of_nat (grp a b div 256) = a" "word_of_nat (grp a b mod 256) = b"
proof -
  have "unat b < 256" using unsigned_less [of b, where ?'a = nat] by simp
  then have "grp a b div 256 = unat a" "grp a b mod 256 = unat b" by (simp_all add: grp_def)
  then show "word_of_nat (grp a b div 256) = a" "word_of_nat (grp a b mod 256) = b" by simp_all
qed

lemma parse6_step:
  assumes "length acc < 16" "r = [] \<or> hd r = CHR '':''"
  shows "parse6_loop acc ell (hex_string (grp a b) @ r) =
     (let acc' = acc @ [a, b] in
      if r = [] then Some (acc', ell, [])
      else if tl r = [] then None
      else if hd (tl r) = CHR '':'' then
        (if ell \<noteq> None then None
         else if tl (tl r) = [] then Some (acc', Some (length acc'), [])
         else parse6_loop acc' (Some (length acc')) (tl (tl r)))
      else parse6_loop acc' ell (tl r))"
proof -
  have "r = [] \<or> \<not> is_hex (hd r)" using assms(2) by auto
  note span = hex_span [OF this, of "grp a b"]
  have "length (hex_string (grp a b)) \<le> 4"
    using length_hex_string [OF grp_less] by simp
  with assms show ?thesis
    by (subst parse6_loop.simps) (auto simp: span grp_bytes Let_def)
qed

abbreviation hex_join :: "u8 list \<Rightarrow> string" where
  "hex_join bs \<equiv> join_with '':'' (map hex_string (groups16 bs))"

lemma hex_join_Cons:
  "hex_join (a # b # bs) = hex_string (grp a b) @ (if groups16 bs = [] then [] else CHR '':'' # hex_join bs)"
  by (cases "groups16 bs") (simp_all add: grp_def)

lemma hex_string_hd: "is_hex (hd (hex_string n))" "hex_string n = c # t \<Longrightarrow> is_hex c"
  using hex_string_hex [of n] by (cases "hex_string n"; simp)+

lemma groups16_Nil: "even (length bs) \<Longrightarrow> groups16 bs = [] \<longleftrightarrow> bs = []"
  by (induction bs rule: groups16.induct) auto

lemma join_with_Cons: "join_with sep (w # ws) = w @ (if ws = [] then [] else sep @ join_with sep ws)"
  by (cases ws) simp_all

lemma hex_join_hd: "groups16 bs \<noteq> [] \<Longrightarrow> hex_join bs \<noteq> [] \<and> is_hex (hd (hex_join bs))"
  by (cases bs rule: groups16.cases) (simp_all add: join_with_Cons hex_string_hd del: join_with.simps)

lemma hex_not_colon: "is_hex c \<Longrightarrow> c \<noteq> CHR '':''"
  by auto

lemma parse6_tail:
  assumes "even (length bs)" "bs \<noteq> []" "length acc + length bs \<le> 16"
  shows "parse6_loop acc ell (hex_join bs) = Some (acc @ bs, ell, [])"
  using assms
proof (induction bs arbitrary: acc rule: groups16.induct)
  case (1 a b bs)
  show ?case
  proof (cases "bs = []")
    case True
    with 1 show ?thesis using parse6_step [of acc "[]" ell a b] by (simp add: grp_def)
  next
    case False
    then have ne: "groups16 bs \<noteq> []" using 1(2) groups16_Nil by auto
    note hd = hex_join_hd [OF ne]
    have "parse6_loop acc ell (hex_join (a # b # bs)) = parse6_loop (acc @ [a, b]) ell (hex_join bs)"
      using 1 ne hd hex_not_colon [of "hd (hex_join bs)"]
      by (simp only: hex_join_Cons if_False) (subst parse6_step, simp_all add: Let_def)
    with 1 False show ?thesis by simp
  qed
qed auto

lemma parse6_head:
  assumes "even (length bs)" "bs \<noteq> []" "length acc + length bs \<le> 16"
  shows "parse6_loop acc None (hex_join bs @ ''::'' @ t) =
    (if t = [] then Some (acc @ bs, Some (length (acc @ bs)), [])
     else parse6_loop (acc @ bs) (Some (length (acc @ bs))) t)"
  using assms
proof (induction bs arbitrary: acc rule: groups16.induct)
  case (1 a b bs)
  show ?case
  proof (cases "bs = []")
    case True
    with 1 show ?thesis using parse6_step [of acc "''::'' @ t" None a b] by (simp add: grp_def Let_def)
  next
    case False
    then have ne: "groups16 bs \<noteq> []" using 1(2) groups16_Nil by auto
    note hd = hex_join_hd [OF ne]
    have "parse6_loop acc None (hex_join (a # b # bs) @ ''::'' @ t) =
        parse6_loop (acc @ [a, b]) None (hex_join bs @ ''::'' @ t)"
      using 1 ne hd hex_not_colon [of "hd (hex_join bs)"]
      by (simp only: hex_join_Cons if_False append.assoc) (subst parse6_step, simp_all add: Let_def)
    with 1 False show ?thesis by simp
  qed
qed auto

lemma foldl_best_run:
  "(\<And>i. i \<in> set is \<Longrightarrow> i < n) \<Longrightarrow> (0 < snd a \<Longrightarrow> fst a < n \<and> snd a = f (fst a)) \<Longrightarrow>
   (let r = foldl (\<lambda>(s, l) i. if 2 \<le> f i \<and> l < f i then (i, f i) else (s, l)) a is
    in 0 < snd r \<longrightarrow> fst r < n \<and> snd r = f (fst r))"
proof (induction "is" arbitrary: a)
  case (Cons i "is")
  show ?case
    using Cons.prems Cons.IH [of "(case a of (s, l) \<Rightarrow> if 2 \<le> f i \<and> l < f i then (i, f i) else (s, l))"]
    by (cases a) (auto simp: Let_def)
qed (simp add: Let_def)

lemma best_run_spec:
  assumes "best_run gs = (s, l)" "0 < l"
  shows "s < length gs \<and> l = zero_run gs s \<and> s + l \<le> length gs"
proof -
  have "s < length gs \<and> l = zero_run gs s"
    using foldl_best_run [of "[0..<length gs]" "length gs" "(0, 0)" "zero_run gs"] assms
    by (simp add: best_run_def Let_def)
  moreover have "zero_run gs s \<le> length (drop s gs)"
    unfolding zero_run_def by (rule length_takeWhile_le)
  ultimately show ?thesis by auto
qed

lemma groups16_length: "length (groups16 bs) = length bs div 2"
  by (induction bs rule: groups16.induct) auto

lemma groups16_single: "groups16 (take n [v]) = []" "groups16 (drop n [v]) = []"
  by (cases n; simp)+

lemma groups16_take: "groups16 (take (2 * k) bs) = take k (groups16 bs)"
proof (induction bs arbitrary: k rule: groups16.induct)
  case (1 a b r)
  then show ?case by (cases k) simp_all
qed (simp_all add: groups16_single)

lemma groups16_drop: "groups16 (drop (2 * k) bs) = drop k (groups16 bs)"
proof (induction bs arbitrary: k rule: groups16.induct)
  case (1 a b r)
  then show ?case by (cases k) simp_all
qed (simp_all add: groups16_single)

lemma groups16_zero:
  "even (length bs) \<Longrightarrow> \<forall>g\<in>set (groups16 bs). g = 0 \<Longrightarrow> bs = replicate (length bs) 0"
  by (induction bs rule: groups16.induct) (auto simp: unat_eq_0)

lemma zero_run_bytes:
  assumes "length b = 16" "l = zero_run (groups16 b) s"
  shows "take (2 * l) (drop (2 * s) b) = replicate (min (2 * l) (16 - 2 * s)) 0"
proof -
  let ?m = "take (2 * l) (drop (2 * s) b)"
  have "groups16 ?m = takeWhile (\<lambda>g. g = 0) (drop s (groups16 b))"
    unfolding groups16_take groups16_drop assms(2) zero_run_def
    by (metis takeWhile_eq_take)
  then have "?m = replicate (length ?m) 0"
    by (intro groups16_zero) (auto simp: assms(1) min_def dest: set_takeWhileD)
  then show ?thesis by (simp add: assms(1) min.commute)
qed

lemma string6_shape:
  assumes "length b = 16"
  obtains "string6 b = hex_join b"
  | s l where "0 < l" "s + l \<le> 8" "b = take (2 * s) b @ replicate (2 * l) 0 @ drop (2 * (s + l)) b"
      "string6 b = hex_join (take (2 * s) b) @ ''::'' @ hex_join (drop (2 * (s + l)) b)"
proof -
  obtain s l where sl: "best_run (groups16 b) = (s, l)" by force
  show thesis
  proof (cases "l = 0")
    case True
    then show thesis using sl that(1) by (simp add: string6_def)
  next
    case False
    have r: "l = zero_run (groups16 b) s" "s + l \<le> 8"
      using best_run_spec [OF sl] False assms by (auto simp: groups16_length)
    have "b = take (2 * s) b @ take (2 * l) (drop (2 * s) b) @ drop (2 * l) (drop (2 * s) b)"
      by (metis append_take_drop_id)
    then have "b = take (2 * s) b @ replicate (2 * l) 0 @ drop (2 * (s + l)) b"
      using zero_run_bytes [OF assms r(1)] r(2) by (simp add: algebra_simps min_absorb1)
    moreover have "string6 b = hex_join (take (2 * s) b) @ ''::'' @ hex_join (drop (2 * (s + l)) b)"
      using sl False by (simp only: string6_def groups16_take groups16_drop Let_def) simp
    ultimately show thesis using that(2) [of l s] r False by simp
  qed
qed



lemma parse6_string6:
  assumes "length b = 16"
  shows "parse6_body (string6 b) = Some b"
proof (rule string6_shape [OF assms])
  assume eq: "string6 b = hex_join b"
  have "groups16 b \<noteq> []" using assms groups16_length [of b] by auto
  then obtain c t where ct: "hex_join b = c # t" "is_hex c"
    using hex_join_hd [of b] by (cases "hex_join b") auto
  have "parse6_loop [] None (hex_join b) = Some (b, None, [])"
    using parse6_tail [of b "[]" None] assms by (cases "b = []") simp_all
  with hex_not_colon [OF ct(2)] ct(1) assms show ?thesis
    by (simp add: parse6_body_def eq)
next
  fix s l
  assume l: "0 < l" "s + l \<le> 8"
    and b: "b = take (2 * s) b @ replicate (2 * l) 0 @ drop (2 * (s + l)) b"
    and eq: "string6 b = hex_join (take (2 * s) b) @ ''::'' @ hex_join (drop (2 * (s + l)) b)"
  define p q where "p = take (2 * s) b" and "q = drop (2 * (s + l)) b"
  have len: "length p = 2 * s" "length q = 16 - 2 * (s + l)" using assms l by (auto simp: p_def q_def)
  have eq: "string6 b = hex_join p @ ''::'' @ hex_join q" using eq by (simp only: p_def q_def)
  have qev: "even (length q)" using len l by simp
  have q0: "hex_join q = [] \<longleftrightarrow> q = []"
    using hex_join_hd [of q] groups16_Nil [OF qev] by (cases "q = []") auto
  have tail: "parse6_loop p (Some (length p)) (hex_join q) = Some (p @ q, Some (length p), [])" if "q \<noteq> []"
    using parse6_tail [OF qev that, of p "Some (length p)"] len l by simp
  have fill: "take (length p) (p @ q) @ replicate (16 - length (p @ q)) 0 @ drop (length p) (p @ q) = b"
  proof -
    have "b = p @ replicate (2 * l) 0 @ q" using b by (simp only: p_def q_def)
    then show ?thesis using len l by (simp add: algebra_simps)
  qed
  show "parse6_body (string6 b) = Some b"
  proof (cases "p = []")
    case True
    with tail fill q0 len l show ?thesis
      by (cases "q = []") (simp_all add: parse6_body_def eq)
  next
    case False
    have pev: "even (length p)" using len by simp
    then obtain c t where ct: "hex_join p = c # t" "is_hex c"
      using hex_join_hd [of p] groups16_Nil False by (cases "hex_join p") auto
    have "parse6_loop [] None (hex_join p @ ''::'' @ hex_join q) = Some (p @ q, Some (length p), [])"
      using parse6_head [OF pev False, of "[]" "hex_join q"] tail q0 len l by auto
    with hex_not_colon [OF ct(2)] ct(1) fill len l show ?thesis
      by (simp add: parse6_body_def eq)
  qed
qed

lemma set_hex_join: "c \<in> set (hex_join bs) \<Longrightarrow> is_hex c \<or> c = CHR '':''"
proof (induction bs rule: groups16.induct)
  case (1 a b r)
  then show ?case
    using hex_string_hex [of "grp a b"] by (auto simp: hex_join_Cons list_all_iff split: if_splits simp del: groups16.simps)
qed simp_all

lemma set_string6:
  assumes "length b = 16"
  shows "CHR '':'' \<in> set (string6 b)" "c \<in> set (string6 b) \<Longrightarrow> is_hex c \<or> c = CHR '':''"
proof -
  obtain x y r where b: "b = x # y # r" and "length r = 14"
    using assms by (auto simp: numeral_eq_Suc length_Suc_conv)
  then have "groups16 r \<noteq> []" using groups16_length [of r] by auto
  then have j: "CHR '':'' \<in> set (hex_join b)" by (simp only: b hex_join_Cons) simp
  show "CHR '':'' \<in> set (string6 b)" using j by (rule_tac string6_shape [OF assms]) simp_all
  show "is_hex c \<or> c = CHR '':''" if "c \<in> set (string6 b)"
    using that by (rule_tac string6_shape [OF assms]) (auto dest: set_hex_join)
qed

lemma filter_only:
  "v \<in> set s \<Longrightarrow> P v \<Longrightarrow> (\<And>c. c \<in> set s \<Longrightarrow> P c \<Longrightarrow> c = v) \<Longrightarrow> \<exists>t. filter P s = v # t"
proof (cases "filter P s")
  case Nil
  assume "v \<in> set s" "P v"
  with Nil show ?thesis by (auto simp: filter_empty_conv)
next
  case (Cons c t)
  assume only: "\<And>c. c \<in> set s \<Longrightarrow> P c \<Longrightarrow> c = v"
  have "c \<in> set (filter P s)" using Cons by simp
  with only have "c = v" by simp
  with Cons show ?thesis by simp
qed

lemma parse_addr_colon:
  assumes "CHR '':'' \<in> set s" "CHR ''.'' \<notin> set s" "CHR ''%'' \<notin> set s"
  shows "parse_addr s = map_option (\<lambda>b. A6 b []) (parse6_body s)"
proof -
  have "\<exists>t. filter (\<lambda>c. c \<in> {CHR ''.'', CHR '':'', CHR ''%''}) s = CHR '':'' # t"
    by (rule filter_only) (use assms in auto)
  then obtain t where "filter (\<lambda>c. c \<in> {CHR ''.'', CHR '':'', CHR ''%''}) s = CHR '':'' # t" ..
  with assms show ?thesis
    using index_byte_None [of "CHR ''%''" s] by (simp add: parse_addr_def parse_ipv6_def)
qed

lemma parse_addr_string6: "length b = 16 \<Longrightarrow> parse_addr (string6 b) = Some (A6 b [])"
  using set_string6(1) [of b] set_string6(2) [of b "CHR ''.''"] set_string6(2) [of b "CHR ''%''"]
  by (subst parse_addr_colon) (auto simp: parse6_string6)

text \<open>net.ParseIP reads back what net.IP.String prints, up to the 16-byte form of an IPv4 address.\<close>

lemma to4_length: "to4 ip = Some b \<Longrightarrow> length b = 4"
  by (auto simp: to4_def split: if_splits)

lemma to4_as16: "to4 ip = Some b \<Longrightarrow> length ip = 16 \<Longrightarrow> v4_in_v6_prefix @ b = ip"
  by (auto simp: to4_def split: if_splits) (metis append_take_drop_id)

theorem parse_ip_string:
  assumes "length ip = 16"
  shows "parse_ip (ip_string ip) = Some ip"
proof (cases "to4 ip")
  case None
  with assms show ?thesis by (simp add: ip_string_def parse_ip_def parse_addr_string6)
next
  case (Some b)
  with to4_length [OF Some] to4_as16 [OF Some assms] show ?thesis
    by (simp add: ip_string_def parse_ip_def parse_addr_string4)
qed

lemma parse6_loop_length:
  "parse6_loop acc ell s = Some (r, e, rest) \<Longrightarrow> length acc \<le> 16 \<Longrightarrow> even (length acc) \<Longrightarrow>
   length r \<le> 16"
proof (induction "16 - length acc" arbitrary: acc ell s rule: less_induct)
  case less
  have even: "length acc < 16 \<Longrightarrow> length acc + 2 \<le> 16"
    using less.prems(3) by presburger
  have IH: "length r \<le> 16" if "parse6_loop (acc @ [x, y]) ell' t = Some (r, e, rest)" "length acc < 16" for x y ell' t
    using less.hyps [OF _ that(1)] that(2) even less.prems(3) by simp
  show ?case
  proof (cases "16 \<le> length acc")
    case True
    with less.prems show ?thesis by (simp add: parse6_loop.simps)
  next
    case False
    then have lt: "length acc < 16" by simp
    from less.prems(1) lt even [OF lt] show ?thesis
      by (subst (asm) parse6_loop.simps)
        (auto simp: Let_def dest: IH dest!: parse_ipv4_length split: if_splits option.splits)
  qed
qed

lemma parse6_body_length: "parse6_body s = Some b \<Longrightarrow> length b = 16"
  by (auto simp: parse6_body_def Let_def min_def split: if_splits option.splits prod.splits
      dest!: parse6_loop_length)

lemma parse_addr_length:
  "parse_addr s = Some a \<Longrightarrow> case a of A4 b \<Rightarrow> length b = 4 | A6 b _ \<Rightarrow> length b = 16"
  by (auto simp: parse_addr_def parse_ipv6_def Let_def dest!: parse_ipv4_length parse6_body_length
      split: list.splits if_splits option.splits)

lemma parse_ip_length: "parse_ip s = Some ip \<Longrightarrow> length ip = 16"
  using parse_addr_length [of s]
  by (auto simp: parse_ip_def v4_in_v6_prefix_def split: option.splits if_splits ipaddr.splits)

lemma length_itoa: "n < 10 ^ Suc k \<Longrightarrow> length (itoa n) \<le> Suc k"
proof (induction k arbitrary: n)
  case 0
  then show ?case by (subst itoa.simps) simp
next
  case (Suc k)
  have "length (itoa (n div 10)) \<le> Suc k"
    using Suc.prems by (intro Suc.IH) (simp add: less_mult_imp_div_less)
  then show ?case by (subst itoa.simps) simp
qed

lemma digit_hex: "is_digit c \<Longrightarrow> is_hex c"
  by (simp add: is_digit_def is_hex_def hex_val_def Let_def)

lemma parse6_mapped:
  assumes "length b = 4"
  shows "parse6_body (''::ffff:'' @ string4 b) = Some (v4_in_v6_prefix @ b)"
proof -
  define n where "n = unat (b ! 0)"
  obtain t where t: "string4 b = itoa n @ CHR ''.'' # t" by (auto simp: string4_def n_def)
  have "n < 256" using unsigned_less [of "b ! 0", where ?'a = nat] by (simp add: n_def)
  then have len: "length (itoa n) \<le> 4" using length_itoa [of n 2] by simp
  have all: "\<forall>c\<in>set (itoa n). is_hex c" using itoa_no_space digit_hex by blast
  then have span: "takeWhile is_hex (string4 b) = itoa n" "dropWhile is_hex (string4 b) = CHR ''.'' # t"
    by (simp_all add: t)
  have two: "parse6_loop [255, 255] (Some 0) (string4 b) = Some ([255, 255] @ b, Some 0, [])"
    using len by (subst parse6_loop.simps) (simp add: span parse_ipv4_string4 [OF assms] Let_def)
  have "hd (string4 b) \<noteq> CHR '':''" "string4 b \<noteq> []"
    using itoa_no_space [of "hd (itoa n)" n] by (auto simp: t)
  then have "parse6_loop [] (Some 0) (''ffff:'' @ string4 b) = Some ([255, 255] @ b, Some 0, [])"
    by (subst parse6_loop.simps) (simp add: is_hex_def hex_val_def byte_of_def hex_value_def Let_def two)
  with assms show ?thesis
    by (simp add: parse6_body_def v4_in_v6_prefix_def numeral_eq_Suc)
qed

theorem parse_addr_string:
  assumes "parse_addr s = Some a" "addr_zone a = []"
  shows "parse_addr (addr_string a) = Some a"
proof (cases a)
  case (A4 b)
  with parse_addr_length [OF assms(1)] show ?thesis by (simp add: parse_addr_string4)
next
  case (A6 b z)
  with parse_addr_length [OF assms(1)] assms(2) have b: "length b = 16" "z = []" by simp_all
  show ?thesis
  proof (cases "take 12 b = v4_in_v6_prefix")
    case False
    with A6 b show ?thesis by (simp add: parse_addr_string6)
  next
    case True
    define q where "q = drop 12 b"
    have q: "length q = 4" "v4_in_v6_prefix @ q = b"
      using b True by (simp_all add: q_def) (metis append_take_drop_id)
    have "CHR ''%'' \<notin> set (''::ffff:'' @ string4 q)"
      using set_string4 [OF q(1), of "CHR ''%''"] by auto
    then have "index_byte CHR ''%'' (''::ffff:'' @ string4 q) = None"
      by (simp only: index_byte_None) simp
    then have "parse_addr (''::ffff:'' @ string4 q) = Some (A6 b [])"
      using parse6_mapped [OF q(1)] q(2) by (simp add: parse_addr_def parse_ipv6_def)
    with A6 b True show ?thesis by (simp add: q_def)
  qed
qed

end
