(* ===== verification/ProxyModel.thy ===== *)
theory ProxyModel
  imports NetAddr "HOL-Library.Product_Lexorder"
begin

text \<open>
  proxy.go and the endpoint normalisation of parser.go: the upstream node record, its
  protocol-aware key, the canonical spelling of hosts and ports, the trust boundary for
  feeds and the bounded credential alternates. Millisecond and byte counters are integers;
  a float64 throughput is a rational number, without its rounding.
\<close>

section \<open>Records\<close>

record credential =
  crUsername :: string
  crPassword :: string

record proxy =
  pxIP :: string
  pxPort :: string
  pxUsername :: string
  pxPassword :: string
  pxAlternates :: "credential list"
  pxProtocol :: string
  pxCountry :: string
  pxCity :: string
  pxContinent :: string
  pxSourceName :: string
  pxSourceNames :: "string list"
  pxSourceIDs :: "string list"
  pxSourceRetired :: bool
  pxHealthInvalidated :: bool
  pxPolicyExcluded :: bool
  pxLatencyMs :: int
  pxSpeedKbps :: rat
  pxSpeedTestedAt :: int
  pxSpeedBytes :: int
  pxSpeedDurationMs :: int
  pxExitIP :: string
  pxIPChanged :: bool
  pxIPChangeKnown :: bool
  pxAnonymity :: string
  pxAvailable :: bool

text \<open>The zero value \<open>Proxy{}\<close>.\<close>

definition proxy0 :: proxy where
  "proxy0 = \<lparr> pxIP = [], pxPort = [], pxUsername = [], pxPassword = [], pxAlternates = [],
     pxProtocol = [], pxCountry = [], pxCity = [], pxContinent = [], pxSourceName = [],
     pxSourceNames = [], pxSourceIDs = [], pxSourceRetired = False, pxHealthInvalidated = False,
     pxPolicyExcluded = False, pxLatencyMs = 0, pxSpeedKbps = 0, pxSpeedTestedAt = 0,
     pxSpeedBytes = 0, pxSpeedDurationMs = 0, pxExitIP = [], pxIPChanged = False,
     pxIPChangeKnown = False, pxAnonymity = [], pxAvailable = False \<rparr>"

definition maxCredentialAlternates :: nat where
  "maxCredentialAlternates = 8"

section \<open>Endpoint keys\<close>

datatype key_error = UnsupportedProtocol | ZoneUnsupported | InvalidIPv4 | InvalidHost | InvalidPort

definition isProxyProtocol :: "string \<Rightarrow> bool" where
  "isProxyProtocol p \<longleftrightarrow> p \<in> set [''socks5'', ''http'', ''https'', ''proxyip'']"

definition isForwardingProtocol :: "string \<Rightarrow> bool" where
  "isForwardingProtocol p \<longleftrightarrow> p = ''socks5'' \<or> p = ''http'' \<or> p = ''https''"

definition looksLikeIPv4Literal :: "string \<Rightarrow> bool" where
  "looksLikeIPv4Literal host =
     (let parts = split_on CHR ''.'' host
      in length parts = 4 \<and> list_all (\<lambda>p. p \<noteq> [] \<and> list_all is_digit p) parts)"

definition hostname_char :: "char \<Rightarrow> bool" where
  "hostname_char c \<longleftrightarrow> is_lower c \<or> is_upper c \<or> is_digit c \<or> c = CHR ''-''"

definition valid_label :: "string \<Rightarrow> bool" where
  "valid_label l \<longleftrightarrow> l \<noteq> [] \<and> length l \<le> 63 \<and> hd l \<noteq> CHR ''-'' \<and> last l \<noteq> CHR ''-'' \<and>
     list_all hostname_char l"

definition validProxyHostname :: "string \<Rightarrow> bool" where
  "validProxyHostname host =
     (let h = trim_suffix ''.'' host
      in h \<noteq> [] \<and> length h \<le> 253 \<and> list_all valid_label (split_on CHR ''.'' h))"

text \<open>The loop of canonicalProxyHost over the four parts: \<open>None\<close> when one is not a byte.\<close>

fun loose_octets :: "string list \<Rightarrow> u8 list option" where
  "loose_octets [] = Some []"
| "loose_octets (p # ps) =
     (case parse_uint 8 p of None \<Rightarrow> None
      | Some v \<Rightarrow> map_option ((#) (word_of_nat v)) (loose_octets ps))"

definition canonicalProxyHost :: "string \<Rightarrow> key_error + string" where
  "canonicalProxyHost host =
     (case parse_addr host of
        Some a \<Rightarrow> if addr_zone a \<noteq> [] then Inl ZoneUnsupported else Inr (addr_string a)
      | None \<Rightarrow>
          let parts = split_on CHR ''.'' host;
              hostname = (let h = to_lower (trim_suffix ''.'' host)
                          in if validProxyHostname h then Inr h else Inl InvalidHost)
          in if length parts = 4 then
               (case loose_octets parts of
                  Some b \<Rightarrow> Inr (string4 b)
                | None \<Rightarrow> if looksLikeIPv4Literal host then Inl InvalidIPv4 else hostname)
             else hostname)"

definition canonicalProxyEndpointKey :: "string \<Rightarrow> string \<Rightarrow> string \<Rightarrow> key_error + string" where
  "canonicalProxyEndpointKey scheme host port =
     (let scheme = to_lower (trim_space scheme)
      in if \<not> isProxyProtocol scheme then Inl UnsupportedProtocol
         else case canonicalProxyHost host of
             Inl e \<Rightarrow> Inl e
           | Inr h \<Rightarrow>
               (case parse_uint 16 port of
                  None \<Rightarrow> Inl InvalidPort
                | Some n \<Rightarrow> if n = 0 then Inl InvalidPort
                           else Inr (scheme @ ''://'' @ join_host_port h (itoa n))))"

definition px_addr :: "proxy \<Rightarrow> string" where
  "px_addr p = join_host_port (pxIP p) (pxPort p)"

definition px_key :: "proxy \<Rightarrow> string" where
  "px_key p =
     (case canonicalProxyEndpointKey (pxProtocol p) (pxIP p) (pxPort p) of
        Inr key \<Rightarrow> key
      | Inl _ \<Rightarrow> pxProtocol p @ ''://'' @ px_addr p)"

text \<open>The key depends on protocol, host and port alone.\<close>

lemma px_key_eqI:
  "pxProtocol p = pxProtocol q \<Longrightarrow> pxIP p = pxIP q \<Longrightarrow> pxPort p = pxPort q \<Longrightarrow> px_key p = px_key q"
  by (simp add: px_key_def px_addr_def split: sum.split)

lemma px_key_update [simp]:
  "px_key (p\<lparr>pxUsername := x0\<rparr>) = px_key p" "px_key (p\<lparr>pxPassword := x1\<rparr>) = px_key p"
  "px_key (p\<lparr>pxAlternates := x2\<rparr>) = px_key p" "px_key (p\<lparr>pxCountry := x3\<rparr>) = px_key p"
  "px_key (p\<lparr>pxCity := x4\<rparr>) = px_key p" "px_key (p\<lparr>pxContinent := x5\<rparr>) = px_key p"
  "px_key (p\<lparr>pxSourceName := x6\<rparr>) = px_key p" "px_key (p\<lparr>pxSourceNames := x7\<rparr>) = px_key p"
  "px_key (p\<lparr>pxSourceIDs := x8\<rparr>) = px_key p" "px_key (p\<lparr>pxSourceRetired := x9\<rparr>) = px_key p"
  "px_key (p\<lparr>pxHealthInvalidated := x10\<rparr>) = px_key p" "px_key (p\<lparr>pxPolicyExcluded := x11\<rparr>) = px_key p"
  "px_key (p\<lparr>pxLatencyMs := x12\<rparr>) = px_key p" "px_key (p\<lparr>pxSpeedKbps := x13\<rparr>) = px_key p"
  "px_key (p\<lparr>pxSpeedTestedAt := x14\<rparr>) = px_key p" "px_key (p\<lparr>pxSpeedBytes := x15\<rparr>) = px_key p"
  "px_key (p\<lparr>pxSpeedDurationMs := x16\<rparr>) = px_key p" "px_key (p\<lparr>pxExitIP := x17\<rparr>) = px_key p"
  "px_key (p\<lparr>pxIPChanged := x18\<rparr>) = px_key p" "px_key (p\<lparr>pxIPChangeKnown := x19\<rparr>) = px_key p"
  "px_key (p\<lparr>pxAnonymity := x20\<rparr>) = px_key p" "px_key (p\<lparr>pxAvailable := x21\<rparr>) = px_key p"
  by (rule px_key_eqI; simp)+

section \<open>Credentials\<close>

abbreviation primary_credential :: "proxy \<Rightarrow> credential" where
  "primary_credential p \<equiv> \<lparr> crUsername = pxUsername p, crPassword = pxPassword p \<rparr>"

definition with_credential :: "proxy \<Rightarrow> credential \<Rightarrow> proxy" where
  "with_credential p c = p\<lparr>pxUsername := crUsername c, pxPassword := crPassword c\<rparr>"

text \<open>The closure appendCredential of credentialCandidates, with its \<open>seen\<close> set.\<close>

fun append_credentials :: "proxy \<Rightarrow> credential set \<Rightarrow> credential list \<Rightarrow> proxy list" where
  "append_credentials p seen [] = []"
| "append_credentials p seen (c # cs) =
     (if c \<in> seen then append_credentials p seen cs
      else with_credential p c # append_credentials p (insert c seen) cs)"

definition credentialCandidates :: "proxy \<Rightarrow> proxy list" where
  "credentialCandidates p = append_credentials p {} (primary_credential p # pxAlternates p)"

definition append_alternative :: "credential \<Rightarrow> credential list \<Rightarrow> credential \<Rightarrow> credential list" where
  "append_alternative new alts c =
     (if c = new \<or> maxCredentialAlternates \<le> length alts then alts
      else if c \<in> set alts then alts else alts @ [c])"

definition promoteCredential :: "proxy \<Rightarrow> proxy \<Rightarrow> proxy" where
  "promoteCredential p ok =
     (let old = primary_credential p; new = primary_credential ok
      in p\<lparr>pxUsername := pxUsername ok, pxPassword := pxPassword ok,
           pxAlternates := foldl (append_alternative new) [] (old # pxAlternates ok)\<rparr>)"

section \<open>Public addresses\<close>

definition nonPublicInternetNetworks :: "string list" where
  "nonPublicInternetNetworks =
    [''0.0.0.0/8'', ''10.0.0.0/8'', ''100.64.0.0/10'', ''127.0.0.0/8'',
     ''169.254.0.0/16'', ''172.16.0.0/12'', ''192.0.0.0/24'', ''192.0.2.0/24'',
     ''192.31.196.0/24'', ''192.52.193.0/24'', ''192.88.99.0/24'', ''192.168.0.0/16'',
     ''192.175.48.0/24'', ''198.18.0.0/15'', ''198.51.100.0/24'',
     ''203.0.113.0/24'', ''224.0.0.0/4'', ''240.0.0.0/4'',
     ''::/128'', ''::1/128'', ''64:ff9b::/96'', ''64:ff9b:1::/48'', ''100::/64'',
     ''2001::/23'', ''2001:db8::/32'', ''2002::/16'', ''2620:4f:8000::/48'',
     ''fc00::/7'', ''fe80::/10'', ''ff00::/8'']"

definition unusableForwardingEndpointNetworks :: "string list" where
  "unusableForwardingEndpointNetworks = [''1.0.0.0/24'']"

text \<open>\<open>None\<close> is the panic at package initialisation when a literal does not parse.\<close>

fun mustSourceNetworks :: "string list \<Rightarrow> (u8 list \<times> u8 list) list option" where
  "mustSourceNetworks [] = Some []"
| "mustSourceNetworks (v # vs) =
     (case parse_cidr v of None \<Rightarrow> None | Some n \<Rightarrow> map_option ((#) n) (mustSourceNetworks vs))"

definition in_networks :: "string list \<Rightarrow> u8 list \<Rightarrow> bool" where
  "in_networks vs ip =
     (case mustSourceNetworks vs of None \<Rightarrow> False | Some ns \<Rightarrow> list_ex (\<lambda>n. cidr_contains n ip) ns)"

definition isPublicInternetIP :: "u8 list \<Rightarrow> bool" where
  "isPublicInternetIP ip \<longleftrightarrow>
     ip_global_unicast ip \<and> \<not> ip_private ip \<and> \<not> ip_loopback ip \<and> \<not> ip_unspecified ip \<and>
     \<not> ip_link_local_unicast ip \<and> \<not> ip_link_local_multicast ip \<and> \<not> ip_multicast ip \<and>
     \<not> in_networks nonPublicInternetNetworks ip"

definition isUnusableForwardingEndpointIP :: "u8 list \<Rightarrow> bool" where
  "isUnusableForwardingEndpointIP ip = in_networks unusableForwardingEndpointNetworks ip"

section \<open>Normalisation of fetched nodes\<close>

definition normalizeProxy :: "proxy \<Rightarrow> proxy option" where
  "normalizeProxy p0 =
     (let p = p0\<lparr>pxIP := trim_space (pxIP p0), pxPort := trim_space (pxPort p0),
                 pxProtocol := to_lower (trim_space (pxProtocol p0))\<rparr>
      in if pxIP p = [] \<or> pxPort p = [] \<or> \<not> isProxyProtocol (pxProtocol p) then None
         else case parse_uint 16 (pxPort p) of
             None \<Rightarrow> None
           | Some port \<Rightarrow>
               if port = 0 \<or> 65535 < port then None
               else let p = p\<lparr>pxPort := itoa port\<rparr>
                    in case parse_ip (pxIP p) of
                      Some ip \<Rightarrow>
                        if pxProtocol p = ''proxyip'' \<and> (\<not> isPublicInternetIP ip \<or> pxPort p \<noteq> ''443'')
                        then None
                        else Some (p\<lparr>pxIP := ip_string ip\<rparr>)
                    | None \<Rightarrow>
                        if pxProtocol p = ''proxyip'' then None
                        else let host = to_lower (trim_suffix ''.'' (pxIP p))
                             in if looksLikeIPv4Literal host \<or> \<not> validProxyHostname host then None
                                else Some (p\<lparr>pxIP := host\<rparr>))"

definition normalizeFetchedProxy :: "proxy \<Rightarrow> proxy option" where
  "normalizeFetchedProxy p0 =
     (case normalizeProxy p0 of None \<Rightarrow> None
      | Some p \<Rightarrow>
          (case parse_ip (pxIP p) of
             None \<Rightarrow> Some p
           | Some ip \<Rightarrow>
               if \<not> isPublicInternetIP ip then None
               else if pxProtocol p \<noteq> ''proxyip'' \<and> isUnusableForwardingEndpointIP ip then None
               else Some p))"

text \<open>Limits of validateFetchedProxyFields: \<open>None\<close> accepts, \<open>Some\<close> names the exceeded field.\<close>

datatype source_error = FieldBudget string | SourceNamesBudget | CredentialsBudget | SourceEmpty

fun first_over :: "(string \<times> string \<times> nat) list \<Rightarrow> string option" where
  "first_over [] = None"
| "first_over ((name, v, limit) # fs) = (if limit < length v then Some name else first_over fs)"

definition maxConfiguredSources :: nat where "maxConfiguredSources = 64"

fun alternates_over :: "credential list \<Rightarrow> source_error option" where
  "alternates_over [] = None"
| "alternates_over (c # cs) =
     (if 255 < length (crUsername c) then Some (FieldBudget ''alternate proxy username'')
      else if 255 < length (crPassword c) then Some (FieldBudget ''alternate proxy password'')
      else alternates_over cs)"

definition validateFetchedProxyFields :: "proxy \<Rightarrow> source_error option" where
  "validateFetchedProxyFields p =
     (case first_over
        [(''proxy address'', pxIP p, 512), (''proxy port'', pxPort p, 16),
         (''proxy protocol'', pxProtocol p, 32), (''proxy username'', pxUsername p, 255),
         (''proxy password'', pxPassword p, 255), (''proxy country'', pxCountry p, 64),
         (''proxy city'', pxCity p, 512), (''proxy continent'', pxContinent p, 16),
         (''proxy source name'', pxSourceName p, 256)] of
        Some f \<Rightarrow> Some (FieldBudget f)
      | None \<Rightarrow>
          if maxConfiguredSources < length (pxSourceNames p) then Some SourceNamesBudget
          else if list_ex (\<lambda>n. 256 < length n) (pxSourceNames p)
          then Some (FieldBudget ''proxy source name'')
          else if maxCredentialAlternates < length (pxAlternates p) then Some CredentialsBudget
          else alternates_over (pxAlternates p))"

text \<open>The loop of finalizeFetchedProxies; the source name is written before the second check.\<close>

fun finalize_loop :: "string \<Rightarrow> proxy list \<Rightarrow> source_error + proxy list" where
  "finalize_loop name [] = Inr []"
| "finalize_loop name (p # ps) =
     (case validateFetchedProxyFields p of
        Some e \<Rightarrow> Inl e
      | None \<Rightarrow>
          (case normalizeFetchedProxy p of
             None \<Rightarrow> finalize_loop name ps
           | Some q \<Rightarrow>
               let q = q\<lparr>pxSourceName := name\<rparr> in
               (case validateFetchedProxyFields q of
                  Some e \<Rightarrow> Inl e
                | None \<Rightarrow> map_sum id ((#) q) (finalize_loop name ps))))"

definition finalizeFetchedProxies :: "string \<Rightarrow> bool \<Rightarrow> proxy list \<Rightarrow> source_error + proxy list" where
  "finalizeFetchedProxies name allow_empty ps =
     (case finalize_loop name ps of
        Inl e \<Rightarrow> Inl e
      | Inr qs \<Rightarrow> if qs = [] \<and> \<not> allow_empty then Inl SourceEmpty else Inr qs)"

section \<open>Credentials: lemmas\<close>

lemma primary_with_credential [simp]: "primary_credential (with_credential p c) = c"
  by (simp add: with_credential_def)

lemma px_key_with_credential [simp]: "px_key (with_credential p c) = px_key p"
  by (simp add: with_credential_def)

lemma with_primary_credential [simp]: "with_credential p (primary_credential p) = p"
  by (simp add: with_credential_def)

lemma append_credentials_set:
  "primary_credential ` set (append_credentials p seen cs) = set cs - seen"
  by (induction p seen cs rule: append_credentials.induct) auto

lemma append_credentials_distinct:
  "distinct (map primary_credential (append_credentials p seen cs))"
proof (induction p seen cs rule: append_credentials.induct)
  case (2 p seen c cs)
  have "c \<notin> primary_credential ` set (append_credentials p (insert c seen) cs)"
    by (simp add: append_credentials_set)
  with 2 show ?case by auto
qed simp

lemma append_credentials_key:
  "q \<in> set (append_credentials p seen cs) \<Longrightarrow> px_key q = px_key p"
  by (induction p seen cs rule: append_credentials.induct) (auto split: if_splits)

lemma append_alternative_inv:
  assumes "distinct (new # alts)" "length alts \<le> maxCredentialAlternates"
  shows "distinct (new # append_alternative new alts c) \<and>
         length (append_alternative new alts c) \<le> maxCredentialAlternates \<and>
         set alts \<subseteq> set (append_alternative new alts c) \<and>
         set (append_alternative new alts c) \<subseteq> insert c (set alts)"
  using assms by (auto simp: append_alternative_def)

lemma fold_alternative_inv:
  assumes "distinct (new # alts)" "length alts \<le> maxCredentialAlternates"
  shows "distinct (new # foldl (append_alternative new) alts cs) \<and>
         length (foldl (append_alternative new) alts cs) \<le> maxCredentialAlternates \<and>
         set alts \<subseteq> set (foldl (append_alternative new) alts cs) \<and>
         set (foldl (append_alternative new) alts cs) \<subseteq> set alts \<union> set cs"
  using assms
proof (induction cs arbitrary: alts)
  case (Cons c cs)
  let ?a = "append_alternative new alts c"
  have step: "distinct (new # ?a)" "length ?a \<le> maxCredentialAlternates" "set alts \<subseteq> set ?a"
      "set ?a \<subseteq> insert c (set alts)"
    using append_alternative_inv [OF Cons.prems, of c] by blast+
  from Cons.IH [OF step(1,2)] step(3,4) show ?case
    by (simp only: foldl.simps list.set) blast
qed simp

section \<open>Credentials: properties\<close>

text \<open>
  credentialCandidates tries the node itself first, tries every declared login of the
  endpoint exactly once, and every candidate keeps the endpoint identity of the node.
\<close>

theorem credentialCandidates_spec:
  "credentialCandidates p \<noteq> [] \<and> hd (credentialCandidates p) = p \<and>
   distinct (map primary_credential (credentialCandidates p)) \<and>
   primary_credential ` set (credentialCandidates p) = insert (primary_credential p) (set (pxAlternates p)) \<and>
   px_key ` set (credentialCandidates p) = {px_key p}"
proof -
  have ne: "credentialCandidates p = p # append_credentials p {primary_credential p} (pxAlternates p)"
    by (simp add: credentialCandidates_def)
  have "primary_credential ` set (credentialCandidates p) =
      insert (primary_credential p) (set (pxAlternates p))"
    unfolding credentialCandidates_def append_credentials_set by simp
  moreover have "distinct (map primary_credential (credentialCandidates p))"
    unfolding credentialCandidates_def by (rule append_credentials_distinct)
  moreover have "px_key ` set (credentialCandidates p) = {px_key p}"
    using append_credentials_key [of _ p "{primary_credential p}" "pxAlternates p"] by (auto simp: ne)
  ultimately show ?thesis by (simp add: ne)
qed

text \<open>
  promoteCredential makes the login that worked the primary one, keeps the previous
  primary among the logins, never lists a login twice, invents none, stays within the bound
  of eight alternates and keeps the endpoint identity.
\<close>

theorem promoteCredential_spec:
  "primary_credential (promoteCredential p ok) = primary_credential ok \<and>
   px_key (promoteCredential p ok) = px_key p \<and>
   length (pxAlternates (promoteCredential p ok)) \<le> maxCredentialAlternates \<and>
   distinct (primary_credential ok # pxAlternates (promoteCredential p ok)) \<and>
   primary_credential p \<in> set (primary_credential ok # pxAlternates (promoteCredential p ok)) \<and>
   set (pxAlternates (promoteCredential p ok)) \<subseteq> insert (primary_credential p) (set (pxAlternates ok))"
proof -
  let ?new = "primary_credential ok"
  let ?old = "primary_credential p"
  let ?a0 = "append_alternative ?new [] ?old"
  have alts: "pxAlternates (promoteCredential p ok) = foldl (append_alternative ?new) ?a0 (pxAlternates ok)"
    by (simp add: promoteCredential_def Let_def)
  have a0: "distinct (?new # ?a0)" "length ?a0 \<le> maxCredentialAlternates" "set ?a0 \<subseteq> {?old}"
      "?old \<in> set (?new # ?a0)"
    by (auto simp: append_alternative_def maxCredentialAlternates_def)
  note inv = fold_alternative_inv [OF a0(1,2), of "pxAlternates ok", folded alts]
  from inv a0(3,4) have "?old \<in> set (?new # pxAlternates (promoteCredential p ok))"
      "set (pxAlternates (promoteCredential p ok)) \<subseteq> insert ?old (set (pxAlternates ok))"
    by auto
  with inv show ?thesis
    by (simp add: promoteCredential_def Let_def)
qed

section \<open>Canonical hosts: lemmas\<close>

lemma is_digit_lower [simp]: "is_digit (lower_char c) = is_digit c"
  by (auto simp: lower_char_def is_upper_def is_digit_def)

lemma lower_char_digit: "is_digit c \<Longrightarrow> lower_char c = c"
  by (auto simp: lower_char_def is_upper_def is_digit_def)

lemma list_all_digit_lower [simp]: "list_all is_digit (to_lower s) = list_all is_digit s"
  by (simp add: to_lower_def list_all_iff)

lemma to_lower_digits: "list_all is_digit s \<Longrightarrow> to_lower s = s"
  by (simp add: to_lower_def list_all_iff lower_char_digit map_idI)

lemma lower_char_dot [simp]: "lower_char c = CHR ''.'' \<longleftrightarrow> c = CHR ''.''"
proof -
  have "byte_of CHR ''.'' = 46" by (simp add: byte_of_def)
  then show ?thesis by (auto simp: lower_char_def is_upper_def byte_of_eq_iff [symmetric])
qed

lemma dot_lower_char [simp]: "CHR ''.'' = lower_char c \<longleftrightarrow> c = CHR ''.''"
  by (subst eq_commute) simp

lemma split_on_lower: "split_on CHR ''.'' (to_lower s) = map to_lower (split_on CHR ''.'' s)"
  by (induction s) (auto simp: to_lower_def split: list.splits)

lemma parse_uint_lower [simp]: "parse_uint n (to_lower s) = parse_uint n s"
  by (auto simp: parse_uint_def to_lower_digits)

lemma parse_octet_lower [simp]: "parse_octet (to_lower s) = parse_octet s"
  by (auto simp: parse_octet_def to_lower_digits)

lemma parse_octets_lower [simp]: "parse_octets (map to_lower ps) = parse_octets ps"
  by (induction ps) (simp_all split: option.splits)

lemma loose_octets_lower [simp]: "loose_octets (map to_lower ps) = loose_octets ps"
  by (induction ps) (simp_all split: option.splits)

lemma parse_ipv4_lower [simp]: "parse_ipv4 (to_lower s) = parse_ipv4 s"
  by (simp add: parse_ipv4_def split_on_lower)

lemma looksLike_lower [simp]: "looksLikeIPv4Literal (to_lower s) = looksLikeIPv4Literal s"
  by (simp add: looksLikeIPv4Literal_def split_on_lower list.pred_map comp_def Let_def)

lemma dot_in_lower [simp]: "CHR ''.'' \<in> set (to_lower s) \<longleftrightarrow> CHR ''.'' \<in> set s"
  by (auto simp: to_lower_def image_iff)

lemma parse_addr_dotted:
  assumes "CHR '':'' \<notin> set s" "CHR ''%'' \<notin> set s"
  shows "parse_addr s = (if CHR ''.'' \<in> set s then map_option A4 (parse_ipv4 s) else None)"
proof (cases "CHR ''.'' \<in> set s")
  case True
  have "\<exists>t. filter (\<lambda>c. c \<in> {CHR ''.'', CHR '':'', CHR ''%''}) s = CHR ''.'' # t"
    by (rule filter_only) (use True assms in auto)
  then obtain t where "filter (\<lambda>c. c \<in> {CHR ''.'', CHR '':'', CHR ''%''}) s = CHR ''.'' # t" ..
  with True show ?thesis by (simp add: parse_addr_def)
next
  case False
  have "filter (\<lambda>c. c \<in> {CHR ''.'', CHR '':'', CHR ''%''}) s = []"
    by (rule filter_none) (use False assms in auto)
  with False show ?thesis by (simp add: parse_addr_def)
qed

lemma set_split_on: "c \<in> set s \<Longrightarrow> c = d \<or> (\<exists>w\<in>set (split_on d s). c \<in> set w)"
  by (induction s) (auto split: list.splits)

lemma hostname_char_markers [simp]:
  "\<not> hostname_char (CHR '':'')" "\<not> hostname_char (CHR ''%'')" "\<not> hostname_char (CHR ''.'')"
  by (simp_all add: hostname_char_def is_lower_def is_upper_def is_digit_def byte_of_def)

lemma trim_suffix_none: "\<not> has_suffix p s \<Longrightarrow> trim_suffix p s = s"
  by (simp add: trim_suffix_def)

lemma set_trim_suffix: "c \<in> set s \<Longrightarrow> c \<in> set p \<or> c \<in> set (trim_suffix p s)"
proof (cases "has_suffix p s")
  case True
  then obtain t where "s = t @ p" by (auto simp: has_suffix_iff)
  moreover assume "c \<in> set s"
  ultimately show ?thesis by auto
qed (simp add: trim_suffix_none)

lemma valid_hostname_chars:
  assumes "validProxyHostname h" "c \<in> set h"
  shows "hostname_char c \<or> c = CHR ''.''"
proof (rule ccontr)
  assume n: "\<not> ?thesis"
  then have "c \<in> set (trim_suffix ''.'' h)" using set_trim_suffix [OF assms(2), of "''.''"] by auto
  then obtain w where "w \<in> set (split_on CHR ''.'' (trim_suffix ''.'' h))" "c \<in> set w"
    using set_split_on n by blast
  with assms(1) n show False
    by (auto simp: validProxyHostname_def valid_label_def list_all_iff Let_def)
qed

lemma has_suffix_dot: "has_suffix ''.'' s \<longleftrightarrow> s \<noteq> [] \<and> last s = CHR ''.''"
  by (cases s rule: rev_cases) (auto simp: has_suffix_iff)

lemma has_suffix_dot_lower [simp]: "has_suffix ''.'' (to_lower s) = has_suffix ''.'' s"
  unfolding has_suffix_dot by (cases "s = []") (simp_all add: to_lower_def last_map)

lemma colon_lower: "CHR '':'' \<in> set s \<Longrightarrow> CHR '':'' \<in> set (to_lower s)"
    "CHR ''%'' \<in> set s \<Longrightarrow> CHR ''%'' \<in> set (to_lower s)"
proof -
  have "lower_char (CHR '':'') = CHR '':''" "lower_char (CHR ''%'') = CHR ''%''"
    by (simp_all add: lower_char_def is_upper_def byte_of_def)
  then show "CHR '':'' \<in> set s \<Longrightarrow> CHR '':'' \<in> set (to_lower s)"
    "CHR ''%'' \<in> set s \<Longrightarrow> CHR ''%'' \<in> set (to_lower s)"
    unfolding to_lower_def set_map by (metis imageI)+
qed

lemma parse_octet_digits: "parse_octet f = Some b \<Longrightarrow> parse_uint 8 f = Some (unat b) \<and> f \<noteq> []"
  by (auto simp: parse_octet_def parse_uint_def Let_def unat_of_nat split: if_splits)

lemma parse_octets_loose: "parse_octets ps = Some b \<Longrightarrow> loose_octets ps = Some b"
  by (induction ps arbitrary: b) (auto split: option.splits dest!: parse_octet_digits)

lemma parse_octets_digits:
  "parse_octets ps = Some b \<Longrightarrow> list_all (\<lambda>p. p \<noteq> [] \<and> list_all is_digit p) ps"
  by (induction ps arbitrary: b) (auto simp: parse_octet_def split: option.splits if_splits)

lemma loose_octets_length: "loose_octets ps = Some b \<Longrightarrow> length b = length ps"
  by (induction ps arbitrary: b) (auto split: option.splits)

lemma canonicalProxyHost_hostname:
  assumes "validProxyHostname h" "\<not> has_suffix ''.'' h" "to_lower h = h"
    and "length (split_on CHR ''.'' h) = 4 \<longrightarrow>
         loose_octets (split_on CHR ''.'' h) = None \<and> \<not> looksLikeIPv4Literal h"
  shows "canonicalProxyHost h = Inr h"
proof -
  have "CHR '':'' \<notin> set h" "CHR ''%'' \<notin> set h"
    using valid_hostname_chars [OF assms(1)] hostname_char_markers by blast+
  note dotted = parse_addr_dotted [OF this]
  have "parse_ipv4 h = None"
    using assms(4) parse_octets_loose [of "split_on CHR ''.'' h"]
    by (cases "parse_octets (split_on CHR ''.'' h)") (auto simp: parse_ipv4_def Let_def)
  with dotted have "parse_addr h = None" by simp
  with assms trim_suffix_none [OF assms(2)] show ?thesis
    by (simp add: canonicalProxyHost_def Let_def)
qed

lemma canonicalProxyHost_string4: "length b = 4 \<Longrightarrow> canonicalProxyHost (string4 b) = Inr (string4 b)"
  by (simp add: canonicalProxyHost_def parse_addr_string4)

section \<open>Canonical hosts: properties\<close>

text \<open>
  canonicalProxyHost is idempotent on every host without a trailing dot, whatever the
  spelling: IPv4 with or without leading zeros, IPv6, mapped IPv6 and DNS names.
\<close>

theorem canonicalProxyHost_idem:
  assumes "canonicalProxyHost host = Inr h" "\<not> has_suffix ''.'' host"
  shows "canonicalProxyHost h = Inr h"
proof (cases "parse_addr host")
  case (Some a)
  with assms have a: "addr_zone a = []" "h = addr_string a"
    by (auto simp: canonicalProxyHost_def split: if_splits)
  with parse_addr_string [OF Some a(1)] show ?thesis by (simp add: canonicalProxyHost_def)
next
  case None
  let ?parts = "split_on CHR ''.'' host"
  show ?thesis
  proof (cases "length ?parts = 4 \<and> loose_octets ?parts \<noteq> None")
    case True
    then obtain b where b: "loose_octets ?parts = Some b" "length b = 4"
      using loose_octets_length by auto
    with None True assms have "h = string4 b" by (simp add: canonicalProxyHost_def Let_def)
    with canonicalProxyHost_string4 [OF b(2)] show ?thesis by simp
  next
    case False
    with None assms trim_suffix_none [OF assms(2)]
    have h: "h = to_lower host" "validProxyHostname h"
        "length ?parts = 4 \<longrightarrow> loose_octets ?parts = None \<and> \<not> looksLikeIPv4Literal host"
      by (auto simp: canonicalProxyHost_def Let_def split: if_splits option.splits)
    with assms(2) show ?thesis
      by (intro canonicalProxyHost_hostname) (simp_all add: split_on_lower)
  qed
qed

text \<open>
  the trailing dot of an absolute name is the exception: the rejected literal 999.1.1.1
  is accepted when written with a final dot, and the accepted spelling is not a canonical
  one, since reading it again fails.
\<close>

theorem canonicalProxyHost_trailing_dot:
  "canonicalProxyHost ''999.1.1.1.'' = Inr ''999.1.1.1'' \<and>
   canonicalProxyHost ''999.1.1.1'' = Inl InvalidIPv4 \<and>
   canonicalProxyHost ''a..'' = Inr ''a.'' \<and> canonicalProxyHost ''a.'' = Inr ''a''"
  by code_simp

section \<open>Normalisation: lemmas\<close>

lemma proxy_protocol_lower:
  "isProxyProtocol p \<Longrightarrow> to_lower (trim_space p) = p"
  unfolding isProxyProtocol_def list.set by (elim insertE emptyE; simp; code_simp)

lemma is_space_hex: "is_hex c \<Longrightarrow> \<not> is_space c"
  by (auto simp: is_hex_def hex_val_def is_space_def Let_def split: if_splits)

lemma ip_string_chars:
  assumes "length ip = 16" "c \<in> set (ip_string ip)"
  shows "is_hex c \<or> c = CHR '':'' \<or> c = CHR ''.''"
proof (cases "to4 ip")
  case None
  with assms show ?thesis by (auto simp: ip_string_def dest: set_string6(2))
next
  case (Some b)
  with assms to4_length [OF Some] show ?thesis
    by (auto simp: ip_string_def dest: set_string4 digit_hex)
qed

lemma trim_ip_string: "length ip = 16 \<Longrightarrow> trim_space (ip_string ip) = ip_string ip"
  by (rule trim_space_no_space)
    (auto dest!: ip_string_chars is_space_hex simp: is_space_def byte_of_def)

lemma trim_itoa: "trim_space (itoa n) = itoa n"
  by (rule trim_space_no_space) (auto dest!: itoa_no_space simp: is_space_def is_digit_def)

lemma ip_string_neq_Nil: "length ip = 16 \<Longrightarrow> ip_string ip \<noteq> []"
  using parse_ip_string [of ip] by (auto simp: parse_ip_def parse_addr_def)

lemma trim_hostname: "validProxyHostname h \<Longrightarrow> trim_space h = h"
  by (rule trim_space_no_space)
    (auto dest!: valid_hostname_chars simp: hostname_char_def is_space_def is_lower_def is_upper_def
      is_digit_def byte_of_def)

text \<open>The forms of an endpoint that normalizeProxy returns.\<close>

definition literal_endpoint :: "proxy \<Rightarrow> bool" where
  "literal_endpoint q \<longleftrightarrow> (\<exists>ip. length ip = 16 \<and> pxIP q = ip_string ip \<and>
     (pxProtocol q = ''proxyip'' \<longrightarrow> isPublicInternetIP ip \<and> pxPort q = ''443''))"

definition hostname_endpoint :: "proxy \<Rightarrow> bool" where
  "hostname_endpoint q \<longleftrightarrow> pxProtocol q \<noteq> ''proxyip'' \<and> to_lower (pxIP q) = pxIP q \<and>
     \<not> looksLikeIPv4Literal (pxIP q) \<and> validProxyHostname (pxIP q)"

lemma normalizeProxy_SomeD:
  assumes "normalizeProxy p = Some q"
  shows "isProxyProtocol (pxProtocol q) \<and> (\<exists>n. 0 < n \<and> n < 65536 \<and> pxPort q = itoa n) \<and>
    (literal_endpoint q \<or> hostname_endpoint q)"
proof -
  obtain port where port: "isProxyProtocol (pxProtocol q)" "0 < port" "port < 65536" "pxPort q = itoa port"
    using assms by (auto simp: normalizeProxy_def Let_def split: if_splits option.splits)
  have "literal_endpoint q \<or> hostname_endpoint q"
  proof (cases "parse_ip (trim_space (pxIP p))")
    case (Some ip)
    with assms have "pxIP q = ip_string ip \<and>
        (pxProtocol q = ''proxyip'' \<longrightarrow> isPublicInternetIP ip \<and> pxPort q = ''443'')"
      by (auto simp: normalizeProxy_def Let_def split: if_splits option.splits)
    with parse_ip_length [OF Some] show ?thesis by (auto simp: literal_endpoint_def)
  next
    case None
    with assms show ?thesis
      by (auto simp: normalizeProxy_def hostname_endpoint_def Let_def split: if_splits option.splits)
  qed
  with port show ?thesis by blast
qed

lemma hostname_no_ip:
  assumes "hostname_endpoint q"
  shows "parse_ip (pxIP q) = None"
proof -
  let ?h = "pxIP q"
  have "CHR '':'' \<notin> set ?h" "CHR ''%'' \<notin> set ?h"
    using assms [unfolded hostname_endpoint_def] valid_hostname_chars [of ?h] hostname_char_markers
    by blast+
  note dotted = parse_addr_dotted [OF this]
  have "parse_ipv4 ?h = None"
    using assms parse_octets_digits [of "split_on CHR ''.'' ?h"]
    by (cases "parse_octets (split_on CHR ''.'' ?h)")
      (auto simp: parse_ipv4_def hostname_endpoint_def looksLikeIPv4Literal_def Let_def)
  with dotted show ?thesis by (simp add: parse_ip_def)
qed

lemma normalizeProxy_hostname:
  assumes "isProxyProtocol (pxProtocol q)" "0 < n" "n < 65536" "pxPort q = itoa n"
    "hostname_endpoint q" "\<not> has_suffix ''.'' (pxIP q)"
  shows "normalizeProxy q = Some q"
proof -
  have q: "q\<lparr>pxPort := itoa n\<rparr> = q" "q\<lparr>pxIP := pxIP q\<rparr> = q"
    using assms(4) by (auto intro: proxy.equality)
  have h: "validProxyHostname (pxIP q)" using assms(5) by (simp add: hostname_endpoint_def)
  then have "pxIP q \<noteq> []"
    by (auto simp: validProxyHostname_def trim_suffix_def has_suffix_def Let_def)
  then show ?thesis
    using assms q h hostname_no_ip [OF assms(5)]
    by (simp add: normalizeProxy_def Let_def trim_hostname proxy_protocol_lower trim_itoa parse_uint_itoa
      trim_suffix_none hostname_endpoint_def)
qed

lemma normalizeProxy_literal:
  assumes "isProxyProtocol (pxProtocol q)" "0 < n" "n < 65536" "pxPort q = itoa n"
    "literal_endpoint q"
  shows "normalizeProxy q = Some q"
proof -
  obtain ip where ip: "length ip = 16" "pxIP q = ip_string ip"
      "pxProtocol q = ''proxyip'' \<longrightarrow> isPublicInternetIP ip \<and> pxPort q = ''443''"
    using assms(5) by (auto simp: literal_endpoint_def)
  have q: "q\<lparr>pxPort := itoa n\<rparr> = q" "q\<lparr>pxIP := ip_string ip\<rparr> = q"
    using assms(4) ip(2) by (auto intro: proxy.equality)
  show ?thesis
    using assms ip q
    by (simp add: normalizeProxy_def Let_def trim_ip_string proxy_protocol_lower trim_itoa parse_uint_itoa
      ip_string_neq_Nil parse_ip_string)
qed

lemma canonical_key_hostname:
  assumes "isProxyProtocol (pxProtocol q)" "0 < n" "n < 65536" "pxPort q = itoa n"
    "canonicalProxyHost (pxIP q) = Inr h"
  shows "canonicalProxyEndpointKey (pxProtocol q) (pxIP q) (pxPort q) =
    Inr (pxProtocol q @ ''://'' @ join_host_port h (itoa n))"
  using assms by (simp add: canonicalProxyEndpointKey_def Let_def proxy_protocol_lower parse_uint_itoa)

lemma canonicalProxyHost_literal:
  assumes "length ip = 16"
  shows "canonicalProxyHost (ip_string ip) = Inr (ip_string ip)"
proof (cases "to4 ip")
  case None
  then have "take 12 ip \<noteq> v4_in_v6_prefix" using assms by (auto simp: to4_def split: if_splits)
  with None assms show ?thesis
    by (simp add: ip_string_def canonicalProxyHost_def parse_addr_string6)
next
  case (Some b)
  with to4_length [OF Some] show ?thesis
    by (simp add: ip_string_def canonicalProxyHost_string4)
qed

lemma loose_octets_digits:
  "loose_octets ps = Some b \<Longrightarrow> list_all (\<lambda>p. p \<noteq> [] \<and> list_all is_digit p) ps"
  by (induction ps arbitrary: b) (auto simp: parse_uint_def split: option.splits if_splits)

lemma canonicalProxyHost_endpoint:
  assumes "hostname_endpoint q" "\<not> has_suffix ''.'' (pxIP q)"
  shows "canonicalProxyHost (pxIP q) = Inr (pxIP q)"
proof (rule canonicalProxyHost_hostname)
  have "loose_octets (split_on CHR ''.'' (pxIP q)) = None" if "length (split_on CHR ''.'' (pxIP q)) = 4"
    using assms(1) that loose_octets_digits [of "split_on CHR ''.'' (pxIP q)"]
    by (cases "loose_octets (split_on CHR ''.'' (pxIP q))")
      (auto simp: hostname_endpoint_def looksLikeIPv4Literal_def Let_def)
  with assms show "length (split_on CHR ''.'' (pxIP q)) = 4 \<longrightarrow>
      loose_octets (split_on CHR ''.'' (pxIP q)) = None \<and> \<not> looksLikeIPv4Literal (pxIP q)"
    by (simp add: hostname_endpoint_def)
qed (use assms in \<open>simp_all add: hostname_endpoint_def\<close>)

section \<open>Normalisation: properties\<close>

text \<open>
  C5: the trust boundary for feeds. Every node that normalizeFetchedProxy lets through has a
  known protocol and a decimal port between 1 and 65535; a literal address is spelled as
  net.IP prints it, is publicly routable and, for a forwarding protocol, is not in an anycast
  range that feeds abuse; any other host is a well-formed name of a forwarding protocol; a
  Cloudflare resource is always a literal address on port 443.
\<close>

theorem normalizeFetchedProxy_safe:
  assumes "normalizeFetchedProxy p = Some q"
  shows "isProxyProtocol (pxProtocol q) \<and>
    (\<exists>n. 0 < n \<and> n < 65536 \<and> pxPort q = itoa n) \<and>
    (case parse_ip (pxIP q) of
       Some ip \<Rightarrow> pxIP q = ip_string ip \<and> isPublicInternetIP ip \<and>
                  (pxProtocol q = ''proxyip'' \<or> \<not> isUnusableForwardingEndpointIP ip)
     | None \<Rightarrow> isForwardingProtocol (pxProtocol q) \<and> validProxyHostname (pxIP q) \<and>
               \<not> looksLikeIPv4Literal (pxIP q)) \<and>
    (pxProtocol q = ''proxyip'' \<longrightarrow> pxPort q = ''443'' \<and> parse_ip (pxIP q) \<noteq> None)"
proof -
  have n: "normalizeProxy p = Some q"
    using assms by (auto simp: normalizeFetchedProxy_def split: option.splits if_splits)
  note form = normalizeProxy_SomeD [OF n]
  show ?thesis
  proof (cases "literal_endpoint q")
    case True
    then obtain ip where ip: "length ip = 16" "pxIP q = ip_string ip"
        "pxProtocol q = ''proxyip'' \<longrightarrow> pxPort q = ''443''"
      by (auto simp: literal_endpoint_def)
    with assms n form show ?thesis
      by (auto simp: normalizeFetchedProxy_def parse_ip_string split: if_splits)
  next
    case False
    with form have h: "hostname_endpoint q" by blast
    then have "isForwardingProtocol (pxProtocol q)"
      using form by (auto simp: hostname_endpoint_def isProxyProtocol_def isForwardingProtocol_def)
    with h form hostname_no_ip [OF h] show ?thesis by (simp add: hostname_endpoint_def)
  qed
qed


section \<open>Witnesses\<close>

lemma canonicalProxyHost_idem_witness:
  "canonicalProxyHost ''010.0.0.1'' = Inr ''10.0.0.1'' \<and> canonicalProxyHost ''10.0.0.1'' = Inr ''10.0.0.1''"
proof -
  have "canonicalProxyHost ''010.0.0.1'' = Inr ''10.0.0.1''" "\<not> has_suffix ''.'' ''010.0.0.1''"
    by code_simp+
  with canonicalProxyHost_idem [of "''010.0.0.1''" "''10.0.0.1''"] show ?thesis by blast
qed

definition sample_feed_node :: proxy where
  "sample_feed_node = proxy0\<lparr>pxIP := ''A.Example.'', pxPort := ''080'', pxProtocol := ''HTTP''\<rparr>"

definition sample_node :: proxy where
  "sample_node = proxy0\<lparr>pxIP := ''a.example'', pxPort := ''80'', pxProtocol := ''http''\<rparr>"

lemma sample_text:
  "trim_space ''A.Example.'' = ''A.Example.''" "trim_space ''080'' = ''080''"
  "trim_space ''HTTP'' = ''HTTP''" "to_lower ''HTTP'' = ''http''" "isProxyProtocol ''http''"
  "parse_ip ''A.Example.'' = None"
  "trim_suffix ''.'' ''A.Example.'' = ''A.Example''" "to_lower ''A.Example'' = ''a.example''"
  "\<not> looksLikeIPv4Literal ''a.example''" "validProxyHostname ''a.example''"
  "parse_ip ''a.example'' = None"
  by code_simp+

lemma sample_port: "parse_uint 16 ''080'' = Some 80" "itoa 80 = ''80''"
  by (simp_all add: conv_eval)

lemma sample_normalizes: "normalizeProxy sample_feed_node = Some sample_node"
  by (simp add: normalizeProxy_def sample_feed_node_def sample_node_def proxy0_def sample_text
      sample_port Let_def)

lemma sample_fetched: "normalizeFetchedProxy sample_feed_node = Some sample_node"
  by (simp add: normalizeFetchedProxy_def sample_normalizes)
    (simp add: sample_node_def sample_text)

lemma normalizeFetchedProxy_safe_witness:
  "isProxyProtocol (pxProtocol sample_node) \<and> parse_ip (pxIP sample_node) = None \<and>
   validProxyHostname (pxIP sample_node)"
proof -
  have "parse_ip (pxIP sample_node) = None" by (simp add: sample_node_def sample_text)
  with normalizeFetchedProxy_safe [OF sample_fetched] show ?thesis by simp
qed


end
