(* ===== verification/SocksWire.thy ===== *)
theory SocksWire
  imports ProxyModel
begin

text \<open>
  The client side of server.go at the level of bytes: the RFC 1928 greeting, the RFC 1929
  sub-negotiation, the CONNECT frame and the reply.

  A connection is the bytes the peer sends before it closes its side, the bytes written so
  far, and the outcomes of the next calls of Write (how many bytes are taken and whether an
  error is reported); without a scripted outcome a Write takes everything.
\<close>

section \<open>Connections\<close>

record conn =
  cnIn :: "u8 list"
  cnOut :: "u8 list"
  cnWrites :: "(nat \<times> bool) list"

text \<open>io.ReadFull consumes what there is, also when it fails.\<close>

definition read_full :: "nat \<Rightarrow> conn \<Rightarrow> conn \<times> u8 list option" where
  "read_full n c = (c\<lparr>cnIn := drop n (cnIn c)\<rparr>, if n \<le> length (cnIn c) then Some (take n (cnIn c)) else None)"

definition write_once :: "u8 list \<Rightarrow> conn \<Rightarrow> conn \<times> nat \<times> bool" where
  "write_once p c =
     (case cnWrites c of
        [] \<Rightarrow> (c\<lparr>cnOut := cnOut c @ p\<rparr>, length p, False)
      | (n, failed) # ws \<Rightarrow> (c\<lparr>cnOut := cnOut c @ take n p, cnWrites := ws\<rparr>, min n (length p), failed))"

function writeFull :: "u8 list \<Rightarrow> conn \<Rightarrow> conn \<times> bool" where
  "writeFull p c =
     (if p = [] then (c, True)
      else let (c', n, failed) = write_once p c in
           if failed then (c', False)
           else if n = 0 then (c', False)
           else writeFull (drop n p) c')"
  by auto
termination
  by (relation "measure (\<lambda>(p, c). length p)") auto

declare writeFull.simps [simp del]

definition bytes_of :: "string \<Rightarrow> u8 list" where
  "bytes_of s = map (\<lambda>c. word_of_nat (byte_of c)) s"

definition string_of :: "u8 list \<Rightarrow> string" where
  "string_of bs = map (\<lambda>b. char_of (unat b)) bs"

section \<open>Constants\<close>

abbreviation socks5Version :: u8 where "socks5Version \<equiv> 5"
abbreviation socks5NoAuth :: u8 where "socks5NoAuth \<equiv> 0"
abbreviation socks5UsernamePassword :: u8 where "socks5UsernamePassword \<equiv> 2"
abbreviation socks5NoAcceptableMethods :: u8 where "socks5NoAcceptableMethods \<equiv> 0xFF"
abbreviation socks5AuthVersion :: u8 where "socks5AuthVersion \<equiv> 1"
abbreviation socks5AuthSucceeded :: u8 where "socks5AuthSucceeded \<equiv> 0"
abbreviation socks5AuthFailure :: u8 where "socks5AuthFailure \<equiv> 1"
abbreviation cmdConnect :: u8 where "cmdConnect \<equiv> 1"
abbreviation atypIPv4 :: u8 where "atypIPv4 \<equiv> 1"
abbreviation atypDomain :: u8 where "atypDomain \<equiv> 3"
abbreviation atypIPv6 :: u8 where "atypIPv6 \<equiv> 4"
abbreviation replySucceeded :: u8 where "replySucceeded \<equiv> 0"
abbreviation replyGeneralFailure :: u8 where "replyGeneralFailure \<equiv> 1"
abbreviation replyNetworkUnreachable :: u8 where "replyNetworkUnreachable \<equiv> 3"
abbreviation replyHostUnreachable :: u8 where "replyHostUnreachable \<equiv> 4"
abbreviation replyConnectionRefused :: u8 where "replyConnectionRefused \<equiv> 5"
abbreviation replyTTLExpired :: u8 where "replyTTLExpired \<equiv> 6"
abbreviation replyCommandNotSupported :: u8 where "replyCommandNotSupported \<equiv> 7"
abbreviation replyAddressTypeNotSupported :: u8 where "replyAddressTypeNotSupported \<equiv> 8"

section \<open>Negotiation\<close>

text \<open>The Boolean result is whether the Go function returns no error.\<close>

definition negotiateMethod :: "u8 \<Rightarrow> conn \<Rightarrow> conn \<times> bool" where
  "negotiateMethod required c =
     (case read_full 2 c of
        (c1, None) \<Rightarrow> (c1, False)
      | (c1, Some header) \<Rightarrow>
          if header ! 0 \<noteq> socks5Version then (c1, False)
          else
            (case read_full (unat (header ! 1)) c1 of
               (c2, None) \<Rightarrow> (c2, False)
             | (c2, Some methods) \<Rightarrow>
                 let selected = (if required \<in> set methods then required else socks5NoAcceptableMethods);
                     (c3, written) = writeFull [socks5Version, selected] c2
                 in if \<not> written then (c3, False) else (c3, selected \<noteq> socks5NoAcceptableMethods)))"

definition writeAuthenticationFailure :: "conn \<Rightarrow> conn \<times> bool" where
  "writeAuthenticationFailure c = (fst (writeFull [socks5AuthVersion, socks5AuthFailure] c), False)"

text \<open>\<open>digest\<close> is SHA-256; the two comparisons are combined without an early exit.\<close>

definition constantTimeCredentialEqual :: "(u8 list \<Rightarrow> u8 list) \<Rightarrow> u8 list \<Rightarrow> string \<Rightarrow> bool" where
  "constantTimeCredentialEqual digest got expected \<longleftrightarrow> digest got = digest (bytes_of expected)"

definition authenticateUsernamePassword ::
    "(u8 list \<Rightarrow> u8 list) \<Rightarrow> string \<Rightarrow> string \<Rightarrow> conn \<Rightarrow> conn \<times> bool" where
  "authenticateUsernamePassword digest user pass c =
     (case read_full 2 c of
        (c1, None) \<Rightarrow> (c1, False)
      | (c1, Some header) \<Rightarrow>
          if header ! 0 \<noteq> socks5AuthVersion \<or> header ! 1 = 0 then writeAuthenticationFailure c1
          else
            (case read_full (unat (header ! 1)) c1 of
               (c2, None) \<Rightarrow> writeAuthenticationFailure c2
             | (c2, Some username) \<Rightarrow>
                 (case read_full 1 c2 of
                    (c3, None) \<Rightarrow> writeAuthenticationFailure c3
                  | (c3, Some len) \<Rightarrow>
                      if len ! 0 = 0 then writeAuthenticationFailure c3
                      else
                        (case read_full (unat (len ! 0)) c3 of
                           (c4, None) \<Rightarrow> writeAuthenticationFailure c4
                         | (c4, Some password) \<Rightarrow>
                             let userMatches = constantTimeCredentialEqual digest username user;
                                 passwordMatches = constantTimeCredentialEqual digest password pass
                             in if \<not> (userMatches \<and> passwordMatches) then writeAuthenticationFailure c4
                                else writeFull [socks5AuthVersion, socks5AuthSucceeded] c4))))"

definition requiresAuthentication :: "string \<Rightarrow> string \<Rightarrow> bool" where
  "requiresAuthentication user pass \<longleftrightarrow> user \<noteq> [] \<or> pass \<noteq> []"

definition negotiate :: "(u8 list \<Rightarrow> u8 list) \<Rightarrow> string \<Rightarrow> string \<Rightarrow> conn \<Rightarrow> conn \<times> bool" where
  "negotiate digest user pass c =
     (if requiresAuthentication user pass then
        (case negotiateMethod socks5UsernamePassword c of
           (c1, False) \<Rightarrow> (c1, False)
         | (c1, True) \<Rightarrow> authenticateUsernamePassword digest user pass c1)
      else negotiateMethod socks5NoAuth c)"

section \<open>The CONNECT frame\<close>

definition port_of :: "u8 \<Rightarrow> u8 \<Rightarrow> nat" where
  "port_of hi lo = unat hi * 256 + unat lo"

text \<open>\<open>None\<close> stands for the errors of parseTarget, which all lead to the same reply.\<close>

definition parseTarget :: "u8 list \<Rightarrow> string option" where
  "parseTarget buf =
     (if length buf < 4 then None
      else if buf ! 0 \<noteq> socks5Version \<or> buf ! 1 \<noteq> cmdConnect \<or> buf ! 2 \<noteq> 0 then None
      else
        let finish = (\<lambda>host off.
              let port = port_of (buf ! off) (buf ! (off + 1))
              in if port = 0 then None else Some (join_host_port host (itoa port)))
        in if buf ! 3 = atypIPv4 then
             (if length buf < 10 then None else finish (string4 (take 4 (drop 4 buf))) 8)
           else if buf ! 3 = atypDomain then
             (if length buf < 5 then None
              else let len = unat (buf ! 4) in
                   if len = 0 then None
                   else if length buf < 5 + len + 2 then None
                   else let host = string_of (take len (drop 5 buf)) in
                        if \<not> validProxyHostname host then None else finish host (5 + len))
           else if buf ! 3 = atypIPv6 then
             (if length buf < 22 then None else finish (ip_string (take 16 (drop 4 buf))) 20)
           else None)"

text \<open>The status is what handleConn replies when the target is missing; 0 sends no reply.\<close>

definition readConnectRequest :: "conn \<Rightarrow> conn \<times> u8 \<times> string option" where
  "readConnectRequest c =
     (case read_full 4 c of
        (c1, None) \<Rightarrow> (c1, 0, None)
      | (c1, Some header) \<Rightarrow>
          if header ! 0 \<noteq> socks5Version then (c1, replyGeneralFailure, None)
          else if header ! 2 \<noteq> 0 then (c1, replyGeneralFailure, None)
          else if header ! 1 \<noteq> cmdConnect then (c1, replyCommandNotSupported, None)
          else
            let finish = (\<lambda>c request. case parseTarget request of
                            None \<Rightarrow> (c, replyHostUnreachable, None)
                          | Some target \<Rightarrow> (c, replySucceeded, Some target));
                fixed = (\<lambda>n. case read_full n c1 of
                            (c2, None) \<Rightarrow> (c2, replyHostUnreachable, None)
                          | (c2, Some payload) \<Rightarrow> finish c2 (header @ payload))
            in if header ! 3 = atypIPv4 then fixed (4 + 2)
               else if header ! 3 = atypDomain then
                 (case read_full 1 c1 of
                    (c2, None) \<Rightarrow> (c2, replyHostUnreachable, None)
                  | (c2, Some len) \<Rightarrow>
                      if len ! 0 = 0 then (c2, replyHostUnreachable, None)
                      else
                        (case read_full (unat (len ! 0) + 2) c2 of
                           (c3, None) \<Rightarrow> (c3, replyHostUnreachable, None)
                         | (c3, Some payload) \<Rightarrow> finish c3 (header @ len @ payload)))
               else if header ! 3 = atypIPv6 then fixed (16 + 2)
               else (c1, replyAddressTypeNotSupported, None))"

section \<open>Replies\<close>

text \<open>A bound TCP address; any other kind of address is no argument at all.\<close>

definition reply_bytes :: "u8 \<Rightarrow> (u8 list \<times> int) option \<Rightarrow> u8 list" where
  "reply_bytes status bound =
     (let none = [socks5Version, status, 0, atypIPv4, 0, 0, 0, 0, 0, 0]
      in case bound of
           None \<Rightarrow> none
         | Some (ip, port) \<Rightarrow>
             if 0 \<le> port \<and> port \<le> 65535 then
               let p = nat port; tail = [word_of_nat (p div 256), word_of_nat p] in
               (case to4 ip of
                  Some ip4 \<Rightarrow> [socks5Version, status, 0, atypIPv4] @ ip4 @ tail
                | None \<Rightarrow> if length ip = 16 then [socks5Version, status, 0, atypIPv6] @ ip @ tail else none)
             else none)"

definition sendReply :: "u8 \<Rightarrow> (u8 list \<times> int) option \<Rightarrow> conn \<Rightarrow> conn" where
  "sendReply status bound c = fst (writeFull (reply_bytes status bound) c)"

section \<open>Reading and writing\<close>

text \<open>writeFull writes everything or reports an error, and never more than it was given.\<close>

lemma writeFull_spec:
  "writeFull p c = (c', ok) \<Longrightarrow>
   cnIn c' = cnIn c \<and> (\<exists>q. cnOut c' = cnOut c @ q \<and> (\<exists>r. p = q @ r) \<and> (ok \<longrightarrow> q = p))"
proof (induction p c arbitrary: c' ok rule: writeFull.induct)
  case (1 p c)
  show ?case
  proof (cases "p = []")
    case True
    with 1(2) show ?thesis by (simp add: writeFull.simps)
  next
    case False
    obtain c1 n failed where w: "write_once p c = (c1, n, failed)" by (cases "write_once p c") auto
    have c1: "cnIn c1 = cnIn c" "cnOut c1 = cnOut c @ take n p"
      using w by (auto simp: write_once_def min_def split: list.splits prod.splits)
    show ?thesis
    proof (cases "failed \<or> n = 0")
      case True
      then have "c' = c1" "\<not> ok" using 1(2) False w by (auto simp: writeFull.simps [of p] Let_def split: if_splits)
      with c1 show ?thesis by (auto intro: exI [of _ "take n p"] simp: append_take_drop_id [symmetric])
        (metis append_take_drop_id)
    next
      case False': False
      then have r: "writeFull (drop n p) c1 = (c', ok)" using 1(2) False w by (simp add: writeFull.simps [of p] Let_def)
      from 1(1) [OF False w [symmetric] refl refl _ _ r] False' obtain q t
        where q: "cnIn c' = cnIn c1" "cnOut c' = cnOut c1 @ q" "drop n p = q @ t" "ok \<longrightarrow> q = drop n p"
        by auto
      have p: "p = (take n p @ q) @ t" "take n p @ drop n p = p"
        using append_take_drop_id [of n p] q(3) by simp_all
      have "cnIn c' = cnIn c" "cnOut c' = cnOut c @ take n p @ q" using q c1 by simp_all
      moreover have "ok \<longrightarrow> take n p @ q = p" using q(4) p(2) by auto
      ultimately show ?thesis using p(1) by blast
    qed
  qed
qed

lemma writeFull_Nil [simp]: "writeFull [] c = (c, True)"
  by (subst writeFull.simps) simp

lemma writeFull_free [simp]:
  "cnWrites c = [] \<Longrightarrow> writeFull p c = (c\<lparr>cnOut := cnOut c @ p\<rparr>, True)"
  by (cases "p = []", simp) (subst writeFull.simps, simp add: write_once_def)

lemma read_full_Some:
  "read_full n c = (c', Some bs) \<longleftrightarrow> length bs = n \<and> cnIn c = bs @ cnIn c' \<and> c' = c\<lparr>cnIn := cnIn c'\<rparr>"
  by (cases c, cases c') (auto simp: read_full_def split: if_splits)

lemma read_full_append:
  "length bs = n \<Longrightarrow> read_full n (c\<lparr>cnIn := bs @ rest\<rparr>) = (c\<lparr>cnIn := rest\<rparr>, Some bs)"
  by (simp add: read_full_def)

lemma read_full_None: "read_full n c = (c', None) \<Longrightarrow> cnOut c' = cnOut c \<and> cnWrites c' = cnWrites c"
  by (auto simp: read_full_def split: if_splits)

text \<open>A connection whose writes never fail stays so.\<close>

lemma read_full_writes [simp]: "cnWrites (fst (read_full n c)) = cnWrites c"
  by (simp add: read_full_def)

lemma write_once_writes: "cnWrites c = [] \<Longrightarrow> cnWrites (fst (write_once p c)) = []"
  by (simp add: write_once_def)

lemma list_two: "length xs = 2 \<Longrightarrow> xs = [xs ! 0, xs ! 1]"
  by (cases xs; cases "tl xs") auto

lemma list_one: "length xs = 1 \<Longrightarrow> xs = [xs ! 0]"
  by (cases xs) auto

lemma bytes_of_inj: "bytes_of s = bytes_of t \<longleftrightarrow> s = t"
proof -
  have "inj (\<lambda>c. word_of_nat (byte_of c) :: u8)"
  proof (rule injI)
    fix c d assume "(word_of_nat (byte_of c) :: u8) = word_of_nat (byte_of d)"
    then have "unat (word_of_nat (byte_of c) :: u8) = unat (word_of_nat (byte_of d) :: u8)" by simp
    then show "c = d" by (simp add: unat_of_nat byte_of_eq_iff)
  qed
  then show ?thesis by (auto simp: bytes_of_def inj_map_eq_map)
qed

lemma string_of_bytes_of [simp]: "string_of (bytes_of s) = s"
  by (simp add: string_of_def bytes_of_def comp_def unat_of_nat byte_of_def)

lemma bytes_of_string_of [simp]: "bytes_of (string_of bs) = bs"
proof -
  have "(word_of_nat (byte_of (char_of (unat b))) :: u8) = b" for b :: u8
  proof -
    have "unat b < 2 ^ LENGTH(8)" by (rule unsigned_less)
    then show ?thesis by (simp add: byte_of_def)
  qed
  then show ?thesis by (simp add: string_of_def bytes_of_def comp_def)
qed

lemma length_bytes_of [simp]: "length (bytes_of s) = length s"
  by (simp add: bytes_of_def)

section \<open>What a client has to send\<close>

definition greeting_frame :: "u8 \<Rightarrow> u8 list \<Rightarrow> bool" where
  "greeting_frame required bs \<longleftrightarrow>
     (\<exists>n ms. bs = [socks5Version, n] @ ms \<and> length ms = unat n \<and> required \<in> set ms)"

definition auth_frame :: "string \<Rightarrow> string \<Rightarrow> u8 list" where
  "auth_frame user pass =
     [socks5AuthVersion, word_of_nat (length user)] @ bytes_of user @ [word_of_nat (length pass)] @ bytes_of pass"

text \<open>No other text has the digest of \<open>s\<close>: what the comparison relies on of SHA-256.\<close>

definition collision_free :: "(u8 list \<Rightarrow> u8 list) \<Rightarrow> string \<Rightarrow> bool" where
  "collision_free digest s \<longleftrightarrow> (\<forall>b. digest b = digest (bytes_of s) \<longrightarrow> b = bytes_of s)"

lemma negotiateMethod_True:
  assumes "negotiateMethod required c = (c', True)" "required \<noteq> socks5NoAcceptableMethods"
  shows "\<exists>bs. greeting_frame required bs \<and> cnIn c = bs @ cnIn c' \<and> cnOut c' = cnOut c @ [socks5Version, required]"
proof -
  from assms obtain c1 header c2 methods where
    r1: "read_full 2 c = (c1, Some header)" and v: "header ! 0 = socks5Version"
    and r2: "read_full (unat (header ! 1)) c1 = (c2, Some methods)"
    and w: "required \<in> set methods" "writeFull [socks5Version, required] c2 = (c', True)"
    by (auto simp: negotiateMethod_def Let_def split: prod.splits option.splits if_splits)
  note R1 = r1 [unfolded read_full_Some] and R2 = r2 [unfolded read_full_Some]
  have h: "header = [socks5Version, header ! 1]" using list_two [of header] R1 v by simp
  have "cnIn c' = cnIn c2" "cnOut c' = cnOut c2 @ [socks5Version, required]"
    using writeFull_spec [OF w(2)] by auto
  moreover have "cnOut c2 = cnOut c"
    using R1 R2 by (metis conn.select_convs(2) conn.surjective conn.update_convs(1))
  moreover have "cnIn c = [socks5Version, header ! 1] @ methods @ cnIn c2"
    using R1 R2 h by (metis append.assoc)
  moreover have "greeting_frame required ([socks5Version, header ! 1] @ methods)"
    using R2 w(1) by (auto simp: greeting_frame_def)
  ultimately show ?thesis by (intro exI [of _ "[socks5Version, header ! 1] @ methods"]) simp
qed

lemma negotiateMethod_accepts:
  assumes "greeting_frame required bs" "cnIn c = bs @ rest" "cnWrites c = []" "required \<noteq> socks5NoAcceptableMethods"
  shows "negotiateMethod required c = (c\<lparr>cnIn := rest, cnOut := cnOut c @ [socks5Version, required]\<rparr>, True)"
proof -
  from assms(1) obtain n ms where "bs = [socks5Version, n] @ ms" "length ms = unat n" "required \<in> set ms"
    by (auto simp: greeting_frame_def)
  with assms(2-4) show ?thesis
    by (simp add: negotiateMethod_def read_full_def Let_def numeral_2_eq_2)
qed

lemma failure_False [simp]: "writeAuthenticationFailure c = (c', True) \<longleftrightarrow> False"
  by (simp add: writeAuthenticationFailure_def)

lemma authenticate_True:
  assumes "authenticateUsernamePassword digest user pass c = (c', True)" "collision_free digest user" "collision_free digest pass"
  shows "user \<noteq> [] \<and> pass \<noteq> [] \<and> length user < 256 \<and> length pass < 256 \<and> cnIn c = auth_frame user pass @ cnIn c' \<and>
    cnOut c' = cnOut c @ [socks5AuthVersion, socks5AuthSucceeded]"
proof -
  from assms(1) obtain c1 header c2 username c3 len c4 password where
    r1: "read_full 2 c = (c1, Some header)" and v: "header ! 0 = socks5AuthVersion" "header ! 1 \<noteq> 0"
    and r2: "read_full (unat (header ! 1)) c1 = (c2, Some username)"
    and r3: "read_full 1 c2 = (c3, Some len)" and l: "len ! 0 \<noteq> 0"
    and r4: "read_full (unat (len ! 0)) c3 = (c4, Some password)"
    and eq: "constantTimeCredentialEqual digest username user" "constantTimeCredentialEqual digest password pass"
    and w: "writeFull [socks5AuthVersion, socks5AuthSucceeded] c4 = (c', True)"
    by (auto simp: authenticateUsernamePassword_def Let_def split: prod.splits option.splits if_splits)
  note R = r1 [unfolded read_full_Some] r2 [unfolded read_full_Some] r3 [unfolded read_full_Some] r4 [unfolded read_full_Some]
  have u: "username = bytes_of user" "password = bytes_of pass"
    using assms(2,3) eq by (auto simp: collision_free_def constantTimeCredentialEqual_def)
  have lu: "length user = unat (header ! 1)" "length pass = unat (len ! 0)"
    using R u by (metis length_bytes_of)+
  have h: "header = [socks5AuthVersion, word_of_nat (length user)]" using list_two [of header] R v lu by simp
  have h': "len = [word_of_nat (length pass)]" using list_one [of len] R lu by simp
  have "user \<noteq> []" "pass \<noteq> []"
    using lu v(2) l by (auto simp: unat_eq_0)
  moreover have "length user < 256" "length pass < 256"
    using lu unsigned_less [of "header ! 1"] unsigned_less [of "len ! 0"] by simp_all
  moreover have "cnIn c' = cnIn c4" "cnOut c' = cnOut c4 @ [socks5AuthVersion, socks5AuthSucceeded]"
    using writeFull_spec [OF w] by auto
  moreover have "cnOut c4 = cnOut c"
    using R by (metis conn.select_convs(2) conn.surjective conn.update_convs(1))
  moreover have "cnIn c = header @ username @ len @ password @ cnIn c4"
    using R by (metis append.assoc)
  ultimately show ?thesis using h h' u by (simp add: auth_frame_def)
qed

lemma authenticate_accepts:
  assumes "cnIn c = auth_frame user pass @ rest" "cnWrites c = []"
    and "user \<noteq> []" "pass \<noteq> []" "length user < 256" "length pass < 256"
  shows "authenticateUsernamePassword digest user pass c =
    (c\<lparr>cnIn := rest, cnOut := cnOut c @ [socks5AuthVersion, socks5AuthSucceeded]\<rparr>, True)"
proof -
  have l: "unat (word_of_nat (length user) :: u8) = length user" "unat (word_of_nat (length pass) :: u8) = length pass"
    using assms(5,6) by (simp_all add: unat_of_nat)
  have n: "(word_of_nat (length user) :: u8) \<noteq> 0" "(word_of_nat (length pass) :: u8) \<noteq> 0"
    using l assms(3,4) by (auto simp: unat_eq_0 [symmetric])
  show ?thesis using assms(1,2)
    by (simp add: authenticateUsernamePassword_def auth_frame_def read_full_def Let_def l n numeral_2_eq_2
        constantTimeCredentialEqual_def)
qed

lemma negotiate_True:
  assumes "negotiate digest user pass c = (c', True)" "user \<noteq> [] \<or> pass \<noteq> []"
    and "collision_free digest user" "collision_free digest pass"
  shows "user \<noteq> [] \<and> pass \<noteq> [] \<and>
    (\<exists>g. greeting_frame socks5UsernamePassword g \<and> cnIn c = g @ auth_frame user pass @ cnIn c') \<and>
    cnOut c' = cnOut c @ [socks5Version, socks5UsernamePassword, socks5AuthVersion, socks5AuthSucceeded]"
proof -
  have "requiresAuthentication user pass" using assms(2) by (simp add: requiresAuthentication_def)
  with assms(1) obtain c1 where
    1: "negotiateMethod socks5UsernamePassword c = (c1, True)" and
    2: "authenticateUsernamePassword digest user pass c1 = (c', True)"
    by (auto simp: negotiate_def split: prod.splits bool.splits)
  from negotiateMethod_True [OF 1] authenticate_True [OF 2 assms(3,4)] show ?thesis by auto
qed

lemma read_full_keeps: "read_full n c = (c', x) \<Longrightarrow> cnWrites c' = cnWrites c"
  using read_full_writes [of n c] by simp

lemma negotiate_writes:
  assumes "cnWrites c = []"
  shows "cnWrites (fst (negotiate digest user pass c)) = []"
proof -
  have m: "cnWrites (fst (negotiateMethod required d)) = []" if "cnWrites d = []" for required d
    using that by (simp add: negotiateMethod_def read_full_def Let_def)
  have f: "cnWrites (fst (writeAuthenticationFailure d)) = []" if "cnWrites d = []" for d
    using that by (simp add: writeAuthenticationFailure_def)
  have a: "cnWrites (fst (authenticateUsernamePassword digest user pass d)) = []" if "cnWrites d = []" for d
    using that by (simp add: authenticateUsernamePassword_def read_full_def f Let_def)
  obtain d b where d: "negotiateMethod socks5UsernamePassword c = (d, b)" by (cases "negotiateMethod socks5UsernamePassword c")
  with m [OF assms, of socks5UsernamePassword] have "cnWrites d = []" by simp
  with m [OF assms] a [of d] d show ?thesis by (cases b) (simp_all add: negotiate_def)
qed

text \<open>
  A listener with credentials lets nobody past the negotiation who does not send them.
  If negotiate returns without an error on a server for which a user or a password is
  configured, then both are configured, the client has offered username/password
  authentication and sent exactly that user and that password, both messages were consumed to
  the last byte and nothing behind them, and the answers were exactly the two acceptances.
\<close>

theorem negotiate_authenticates:
  assumes "negotiate digest user pass c = (c', True)" "user \<noteq> [] \<or> pass \<noteq> []"
    and "collision_free digest user" "collision_free digest pass"
  shows "user \<noteq> [] \<and> pass \<noteq> [] \<and>
    (\<exists>g. greeting_frame socks5UsernamePassword g \<and> cnIn c = g @ auth_frame user pass @ cnIn c') \<and>
    cnOut c' = cnOut c @ [socks5Version, socks5UsernamePassword, socks5AuthVersion, socks5AuthSucceeded]"
  by (rule negotiate_True [OF assms])

section \<open>Witnesses\<close>

definition login_stream :: conn where
  "login_stream = \<lparr>cnIn = [5, 1, 2, 1, 1, 117, 1, 112, 9], cnOut = [], cnWrites = []\<rparr>"

lemma login_negotiates:
  "negotiate id ''u'' ''p'' login_stream = (\<lparr>cnIn = [9], cnOut = [5, 2, 1, 0], cnWrites = []\<rparr>, True)"
  by code_simp

theorem negotiate_authenticates_witness:
  "\<exists>g. greeting_frame socks5UsernamePassword g \<and> cnIn login_stream = g @ auth_frame ''u'' ''p'' @ [9]"
proof -
  have "collision_free id s" for s by (simp add: collision_free_def)
  with negotiate_authenticates [OF login_negotiates, simplified] show ?thesis by simp
qed

end
