(* ===== verification/SocksDial.thy ===== *)
theory SocksDial
  imports SocksWire
begin

text \<open>
  dial.go: the tunnel through an upstream. The target check, the SOCKS5 handshake, the HTTP
  CONNECT request with the classification of its response, and the retry over the declared
  credentials.

  The TCP connect and the parse of an HTTP response by net/http are arguments; the contexts
  appear as the Boolean answers of their tests. The watcher that closes a connection on
  cancellation shows up as failed writes and short reads.
\<close>

section \<open>Errors\<close>

datatype UpstreamErrorKind =
  UpstreamErrorUnknown | UpstreamErrorConnect | UpstreamErrorAuth | UpstreamErrorProtocol | UpstreamErrorTarget

text \<open>An error is an UpstreamError of a kind or the plain error of a context.\<close>

datatype dial_error = UpstreamError UpstreamErrorKind | ContextError

definition upstreamFailureAffectsHealth :: "dial_error \<Rightarrow> bool" where
  "upstreamFailureAffectsHealth e =
     (case e of
        UpstreamError k \<Rightarrow> k \<in> {UpstreamErrorConnect, UpstreamErrorAuth, UpstreamErrorProtocol}
      | ContextError \<Rightarrow> False)"

definition isUpstreamAuthenticationFailure :: "dial_error \<Rightarrow> bool" where
  "isUpstreamAuthenticationFailure e \<longleftrightarrow> e = UpstreamError UpstreamErrorAuth"

section \<open>Targets\<close>

text \<open>net.SplitHostPort\<close>

definition last_index :: "char \<Rightarrow> string \<Rightarrow> nat option" where
  "last_index d s = map_option (\<lambda>i. length s - 1 - i) (index_byte d (rev s))"

definition split_host_port :: "string \<Rightarrow> (string \<times> string) option" where
  "split_host_port s =
     (case last_index CHR '':'' s of
        None \<Rightarrow> None
      | Some i \<Rightarrow>
          if hd s = CHR ''['' then
            (case index_byte CHR '']'' s of
               None \<Rightarrow> None
             | Some e \<Rightarrow>
                 if e + 1 \<noteq> i then None
                 else if CHR ''['' \<in> set (drop 1 s) \<or> CHR '']'' \<in> set (drop (e + 1) s) then None
                 else Some (take (e - 1) (drop 1 s), drop (i + 1) s))
          else if CHR '':'' \<in> set (take i s) \<or> CHR ''['' \<in> set s \<or> CHR '']'' \<in> set s then None
          else Some (take i s, drop (i + 1) s))"

definition validateUpstreamTarget :: "string \<Rightarrow> bool" where
  "validateUpstreamTarget target =
     (if trim_space target \<noteq> target then False
      else
        (case split_host_port target of
           None \<Rightarrow> False
         | Some (host, rawPort) \<Rightarrow>
             if host = [] then False
             else if rawPort = [] then False
             else if \<not> list_all is_digit rawPort then False
             else
               (case parse_uint 16 rawPort of
                  None \<Rightarrow> False
                | Some port \<Rightarrow> port \<noteq> 0 \<and> (parse_ip host \<noteq> None \<or> validProxyHostname host))))"

section \<open>SOCKS5 upstreams\<close>

definition socks_greeting :: "proxy \<Rightarrow> u8 list" where
  "socks_greeting px =
     (let methods = (if pxUsername px \<noteq> [] then [0, 2] else [0])
      in [socks5Version, word_of_nat (length methods)] @ methods)"

definition socks_auth_request :: "proxy \<Rightarrow> u8 list" where
  "socks_auth_request px =
     [1, word_of_nat (length (pxUsername px))] @ bytes_of (pxUsername px) @
     [word_of_nat (length (pxPassword px))] @ bytes_of (pxPassword px)"

definition socks_connect_request :: "string \<Rightarrow> nat \<Rightarrow> u8 list" where
  "socks_connect_request host port =
     [socks5Version, cmdConnect, 0] @
     (case parse_ip host of
        Some ip \<Rightarrow> (case to4 ip of Some ip4 \<Rightarrow> atypIPv4 # ip4 | None \<Rightarrow> atypIPv6 # ip)
      | None \<Rightarrow> [atypDomain, word_of_nat (length host)] @ bytes_of host) @
     [word_of_nat (port div 256), word_of_nat (port mod 256)]"

text \<open>A step of the handshake: an error, or the connection it goes on with.\<close>

definition dial_write :: "u8 list \<Rightarrow> conn \<Rightarrow> conn \<times> dial_error option" where
  "dial_write p c =
     (case write_once p c of (c', n, failed) \<Rightarrow> (c', if failed then Some (UpstreamError UpstreamErrorProtocol) else None))"

definition dial_authenticate :: "proxy \<Rightarrow> conn \<Rightarrow> conn \<times> dial_error option" where
  "dial_authenticate px c =
     (if pxUsername px = [] then (c, Some (UpstreamError UpstreamErrorAuth))
      else if 255 < length (pxUsername px) \<or> 255 < length (pxPassword px) then (c, Some (UpstreamError UpstreamErrorAuth))
      else
        (case dial_write (socks_auth_request px) c of
           (c1, Some e) \<Rightarrow> (c1, Some e)
         | (c1, None) \<Rightarrow>
             (case read_full 2 c1 of
                (c2, None) \<Rightarrow> (c2, Some (UpstreamError UpstreamErrorProtocol))
              | (c2, Some resp) \<Rightarrow>
                  if resp ! 0 \<noteq> socks5AuthVersion then (c2, Some (UpstreamError UpstreamErrorProtocol))
                  else if resp ! 1 \<noteq> 0 then (c2, Some (UpstreamError UpstreamErrorAuth))
                  else (c2, None))))"

definition dial_negotiate :: "proxy \<Rightarrow> conn \<Rightarrow> conn \<times> dial_error option" where
  "dial_negotiate px c =
     (case dial_write (socks_greeting px) c of
        (c1, Some e) \<Rightarrow> (c1, Some e)
      | (c1, None) \<Rightarrow>
          (case read_full 2 c1 of
             (c2, None) \<Rightarrow> (c2, Some (UpstreamError UpstreamErrorProtocol))
           | (c2, Some buf) \<Rightarrow>
               if buf ! 0 \<noteq> socks5Version then (c2, Some (UpstreamError UpstreamErrorProtocol))
               else if buf ! 1 = 0 then (c2, None)
               else if buf ! 1 = 2 then dial_authenticate px c2
               else if buf ! 1 = 0xFF then (c2, Some (UpstreamError UpstreamErrorAuth))
               else (c2, Some (UpstreamError UpstreamErrorProtocol))))"

definition dial_read_reply :: "conn \<Rightarrow> conn \<times> dial_error option" where
  "dial_read_reply c =
     (case read_full 4 c of
        (c1, None) \<Rightarrow> (c1, Some (UpstreamError UpstreamErrorProtocol))
      | (c1, Some header) \<Rightarrow>
          if header ! 0 \<noteq> socks5Version \<or> header ! 2 \<noteq> 0 then (c1, Some (UpstreamError UpstreamErrorProtocol))
          else if header ! 1 \<noteq> replySucceeded then
            (c1, Some (UpstreamError (if header ! 1 = replyCommandNotSupported then UpstreamErrorProtocol
                                      else UpstreamErrorTarget)))
          else
            let skip = (\<lambda>n c. case read_full (n + 2) c of
                          (c', None) \<Rightarrow> (c', Some (UpstreamError UpstreamErrorProtocol))
                        | (c', Some _) \<Rightarrow> (c', None))
            in if header ! 3 = atypIPv4 then skip 4 c1
               else if header ! 3 = atypIPv6 then skip 16 c1
               else if header ! 3 = atypDomain then
                 (case read_full 1 c1 of
                    (c2, None) \<Rightarrow> (c2, Some (UpstreamError UpstreamErrorProtocol))
                  | (c2, Some len) \<Rightarrow> skip (unat (len ! 0)) c2)
               else (c1, Some (UpstreamError UpstreamErrorProtocol)))"

definition dial_connect :: "string \<Rightarrow> conn \<Rightarrow> conn \<times> dial_error option" where
  "dial_connect target c =
     (case split_host_port target of
        None \<Rightarrow> (c, Some (UpstreamError UpstreamErrorTarget))
      | Some (host, portStr) \<Rightarrow>
          (case parse_uint 16 portStr of
             None \<Rightarrow> (c, Some (UpstreamError UpstreamErrorTarget))
           | Some port \<Rightarrow>
               if port = 0 then (c, Some (UpstreamError UpstreamErrorTarget))
               else
                 (case dial_write (socks_connect_request host port) c of
                    (c1, Some e) \<Rightarrow> (c1, Some e)
                  | (c1, None) \<Rightarrow> dial_read_reply c1)))"

text \<open>\<open>tcp\<close> is the connected socket, \<open>cancelled\<close> the test of the context at the end.\<close>

definition dialSOCKS5Context :: "conn option \<Rightarrow> bool \<Rightarrow> proxy \<Rightarrow> string \<Rightarrow> dial_error + conn" where
  "dialSOCKS5Context tcp cancelled px target =
     (case tcp of
        None \<Rightarrow> Inl (UpstreamError UpstreamErrorConnect)
      | Some c \<Rightarrow>
          (case dial_negotiate px c of
             (c1, Some e) \<Rightarrow> Inl e
           | (c1, None) \<Rightarrow>
               (case dial_connect target c1 of
                  (c2, Some e) \<Rightarrow> Inl e
                | (c2, None) \<Rightarrow> if cancelled then Inl (UpstreamError UpstreamErrorProtocol) else Inr c2)))"

section \<open>HTTP upstreams\<close>

definition base64_char :: "nat \<Rightarrow> char" where
  "base64_char n =
     (if n < 26 then char_of (65 + n) else if n < 52 then char_of (71 + n)
      else if n < 62 then char_of (n - 4) else if n = 62 then CHR ''+'' else CHR ''/'')"

fun base64 :: "string \<Rightarrow> string" where
  "base64 [] = []"
| "base64 [a] =
     (let n = byte_of a * 16 in [base64_char (n div 64), base64_char (n mod 64), CHR ''='', CHR ''=''])"
| "base64 [a, b] =
     (let n = (byte_of a * 256 + byte_of b) * 4
      in [base64_char (n div 4096), base64_char (n div 64 mod 64), base64_char (n mod 64), CHR ''=''])"
| "base64 (a # b # c # s) =
     (let n = byte_of a * 65536 + byte_of b * 256 + byte_of c
      in base64_char (n div 262144) # base64_char (n div 4096 mod 64) # base64_char (n div 64 mod 64) #
         base64_char (n mod 64) # base64 s)"

definition crlf :: string where
  "crlf = [char_of (13 :: nat), char_of (10 :: nat)]"

definition http_connect_request :: "proxy \<Rightarrow> string \<Rightarrow> string" where
  "http_connect_request px target =
     ''CONNECT '' @ target @ '' HTTP/1.1'' @ crlf @ ''Host: '' @ target @ crlf @
     (if pxUsername px \<noteq> []
      then ''Proxy-Authorization: Basic '' @ base64 (pxUsername px @ '':'' @ pxPassword px) @ crlf else []) @
     crlf"

definition http_status_error :: "nat \<Rightarrow> dial_error option" where
  "http_status_error status =
     (if 200 \<le> status \<and> status < 300 then None
      else Some (UpstreamError
        (if status = 407 then UpstreamErrorAuth
         else if status = 405 \<or> status = 501 then UpstreamErrorProtocol else UpstreamErrorTarget)))"

text \<open>\<open>read_response\<close> is http.ReadResponse: the status and the connection behind the header.\<close>

definition dialHTTPConnectContext ::
    "(conn \<Rightarrow> (nat \<times> conn) option) \<Rightarrow> conn option \<Rightarrow> bool \<Rightarrow> proxy \<Rightarrow> string \<Rightarrow> dial_error + conn" where
  "dialHTTPConnectContext read_response tcp cancelled px target =
     (case tcp of
        None \<Rightarrow> Inl (UpstreamError UpstreamErrorConnect)
      | Some c \<Rightarrow>
          (case dial_write (bytes_of (http_connect_request px target)) c of
             (c1, Some e) \<Rightarrow> Inl e
           | (c1, None) \<Rightarrow>
               (case read_response c1 of
                  None \<Rightarrow> Inl (UpstreamError UpstreamErrorProtocol)
                | Some (status, c2) \<Rightarrow>
                    (case http_status_error status of
                       Some e \<Rightarrow> Inl e
                     | None \<Rightarrow> if cancelled then Inl (UpstreamError UpstreamErrorProtocol) else Inr c2))))"

definition DialUpstreamContext ::
    "(conn \<Rightarrow> (nat \<times> conn) option) \<Rightarrow> conn option \<Rightarrow> bool \<Rightarrow> proxy \<Rightarrow> string \<Rightarrow> dial_error + conn" where
  "DialUpstreamContext read_response tcp cancelled px target =
     (if pxProtocol px \<notin> {''socks5'', ''http'', ''https''} then Inl (UpstreamError UpstreamErrorProtocol)
      else if \<not> validateUpstreamTarget target then Inl (UpstreamError UpstreamErrorTarget)
      else if pxProtocol px = ''socks5'' then dialSOCKS5Context tcp cancelled px target
      else dialHTTPConnectContext read_response tcp cancelled px target)"

section \<open>Credential retry\<close>

text \<open>
  \<open>expired k\<close> and \<open>budget k\<close> are the two tests before the \<open>k\<close>-th attempt: whether the shared
  context is done, and whether the share of the remaining time is positive.
\<close>

fun credential_attempts ::
    "(nat \<Rightarrow> bool) \<Rightarrow> (nat \<Rightarrow> bool) \<Rightarrow> (nat \<Rightarrow> proxy \<Rightarrow> dial_error + 'c) \<Rightarrow> proxy \<Rightarrow> nat \<Rightarrow> proxy list \<Rightarrow>
     dial_error option \<Rightarrow> (dial_error + 'c) \<times> proxy" where
  "credential_attempts expired budget attempt px k [] lastErr =
     (Inl (case lastErr of Some e \<Rightarrow> e | None \<Rightarrow> ContextError), px)"
| "credential_attempts expired budget attempt px k (candidate # cs) lastErr =
     (if expired k \<or> \<not> budget k then (Inl (case lastErr of Some e \<Rightarrow> e | None \<Rightarrow> ContextError), px)
      else
        (case attempt k candidate of
           Inr c \<Rightarrow> (Inr c, promoteCredential px candidate)
         | Inl e \<Rightarrow>
             if \<not> isUpstreamAuthenticationFailure e then (Inl e, px)
             else credential_attempts expired budget attempt px (k + 1) cs (Some e)))"

definition dialUpstreamCredentialCandidatesContext ::
    "bool \<Rightarrow> (nat \<Rightarrow> bool) \<Rightarrow> (nat \<Rightarrow> bool) \<Rightarrow> (nat \<Rightarrow> proxy \<Rightarrow> dial_error + 'c) \<Rightarrow> proxy \<Rightarrow> (dial_error + 'c) \<times> proxy" where
  "dialUpstreamCredentialCandidatesContext positive expired budget attempt px =
     (if \<not> positive then (Inl (UpstreamError UpstreamErrorProtocol), px)
      else credential_attempts expired budget attempt px 0 (credentialCandidates px) None)"

section \<open>Destinations\<close>

text \<open>The three kinds of address of a CONNECT frame, its bytes and the target they stand for.\<close>

datatype dest = D4 "u8 list" | DName string | D6 "u8 list"

fun dest_ok :: "dest \<Rightarrow> bool" where
  "dest_ok (D4 b) \<longleftrightarrow> length b = 4"
| "dest_ok (DName h) \<longleftrightarrow> validProxyHostname h"
| "dest_ok (D6 b) \<longleftrightarrow> length b = 16"

fun dest_host :: "dest \<Rightarrow> string" where
  "dest_host (D4 b) = string4 b"
| "dest_host (DName h) = h"
| "dest_host (D6 b) = ip_string b"

fun dest_addr :: "dest \<Rightarrow> u8 list" where
  "dest_addr (D4 b) = atypIPv4 # b"
| "dest_addr (DName h) = [atypDomain, word_of_nat (length h)] @ bytes_of h"
| "dest_addr (D6 b) = atypIPv6 # b"

definition dest_frame :: "dest \<Rightarrow> nat \<Rightarrow> u8 list" where
  "dest_frame d port =
     [socks5Version, cmdConnect, 0] @ dest_addr d @ [word_of_nat (port div 256), word_of_nat (port mod 256)]"

definition dest_target :: "dest \<Rightarrow> nat \<Rightarrow> string" where
  "dest_target d port = join_host_port (dest_host d) (itoa port)"

lemma port_bytes: "port < 65536 \<Longrightarrow> port_of (word_of_nat (port div 256)) (word_of_nat (port mod 256)) = port"
  by (simp add: port_of_def unat_of_nat)

lemma port_of_bytes: "word_of_nat (port_of hi lo div 256) = hi" "word_of_nat (port_of hi lo mod 256) = lo" "port_of hi lo < 65536"
proof -
  have b: "unat hi < 256" "unat lo < 256" using unsigned_less [of hi] unsigned_less [of lo] by simp_all
  then show "word_of_nat (port_of hi lo div 256) = hi" "word_of_nat (port_of hi lo mod 256) = lo" "port_of hi lo < 65536"
    by (simp_all add: port_of_def)
qed

lemma hostname_len: "validProxyHostname h \<Longrightarrow> 0 < length h \<and> length h < 256"
proof -
  assume v: "validProxyHostname h"
  then have "trim_suffix ''.'' h \<noteq> []" "length (trim_suffix ''.'' h) \<le> 253"
    by (simp_all add: validProxyHostname_def Let_def)
  moreover have "length h \<le> length (trim_suffix ''.'' h) + 1"
    by (auto simp: trim_suffix_def)
  moreover have "trim_suffix ''.'' [] = []" by (simp add: trim_suffix_def)
  ultimately show ?thesis by (cases h) auto
qed

definition target_at :: "string \<Rightarrow> u8 \<Rightarrow> u8 \<Rightarrow> string option" where
  "target_at host hi lo =
     (if port_of hi lo = 0 then None else Some (join_host_port host (itoa (port_of hi lo))))"

lemma parse_v4: "parseTarget [5, 1, 0, 1, w, x, y, z, hi, lo] = target_at (string4 [w, x, y, z]) hi lo"
  by (simp add: parseTarget_def target_at_def Let_def numeral_eq_Suc)

lemma parse_name:
  assumes "unat l = length bs" "bs \<noteq> []"
  shows "parseTarget ([5, 1, 0, 3, l] @ bs @ [hi, lo]) =
    (if validProxyHostname (string_of bs) then target_at (string_of bs) hi lo else None)"
  using assms by (simp add: parseTarget_def target_at_def Let_def nth_append numeral_eq_Suc)

lemma parse_v6:
  assumes "length b = 16"
  shows "parseTarget ([5, 1, 0, 4] @ b @ [hi, lo]) = target_at (ip_string b) hi lo"
proof -
  have "drop 4 ([5, 1, 0, 4] @ b @ [hi, lo]) = b @ [hi, lo]" by simp
  moreover have "([5, 1, 0, 4] @ b @ [hi, lo]) ! 20 = hi" "([5, 1, 0, 4] @ b @ [hi, lo]) ! 21 = lo"
    using assms by (simp_all add: nth_append)
  moreover have "([5, 1, 0, 4] @ b @ [hi, lo]) ! 0 = 5" "([5, 1, 0, 4] @ b @ [hi, lo]) ! 1 = 1"
    "([5, 1, 0, 4] @ b @ [hi, lo]) ! 2 = 0" "([5, 1, 0, 4] @ b @ [hi, lo]) ! 3 = 4"
    by (simp_all add: numeral_eq_Suc)
  moreover have "length ([5, 1, 0, 4] @ b @ [hi, lo]) = 22" using assms by simp
  ultimately show ?thesis unfolding parseTarget_def target_at_def Let_def using assms by simp
qed

text \<open>Reading is parsing of the exact frame.\<close>

lemma read_v4:
  "cnIn c = [5, 1, 0, 1, w, x, y, z, hi, lo] @ rest \<Longrightarrow>
   readConnectRequest c = (c\<lparr>cnIn := rest\<rparr>,
     case target_at (string4 [w, x, y, z]) hi lo of None \<Rightarrow> (replyHostUnreachable, None) | Some t \<Rightarrow> (replySucceeded, Some t))"
  by (simp add: readConnectRequest_def read_full_def Let_def parse_v4 [symmetric] numeral_eq_Suc split: option.split)

lemma read_name:
  assumes "cnIn c = [5, 1, 0, 3, l] @ bs @ [hi, lo] @ rest" "unat l = length bs" "bs \<noteq> []"
  shows "readConnectRequest c = (c\<lparr>cnIn := rest\<rparr>,
     case (if validProxyHostname (string_of bs) then target_at (string_of bs) hi lo else None) of
       None \<Rightarrow> (replyHostUnreachable, None) | Some t \<Rightarrow> (replySucceeded, Some t))"
proof -
  have "l \<noteq> 0" using assms(2,3) by auto
  with assms(1,2) show ?thesis unfolding parse_name [OF assms(2,3), symmetric]
    by (simp add: readConnectRequest_def read_full_def Let_def numeral_eq_Suc split: option.split)
qed

lemma read_v6:
  assumes "cnIn c = [5, 1, 0, 4] @ b @ [hi, lo] @ rest" "length b = 16"
  shows "readConnectRequest c = (c\<lparr>cnIn := rest\<rparr>,
     case target_at (ip_string b) hi lo of None \<Rightarrow> (replyHostUnreachable, None) | Some t \<Rightarrow> (replySucceeded, Some t))"
proof -
  have r: "read_full 4 c = (c\<lparr>cnIn := b @ [hi, lo] @ rest\<rparr>, Some [5, 1, 0, 4])"
    using assms(1) by (simp add: read_full_def)
  have r2: "read_full 18 (c\<lparr>cnIn := b @ [hi, lo] @ rest\<rparr>) = (c\<lparr>cnIn := rest\<rparr>, Some (b @ [hi, lo]))"
    using read_full_append [where bs = "b @ [hi, lo]" and n = 18 and c = c and rest = rest] assms(2) by simp
  have h: "[5, 1, 0, 4::u8] ! 0 = 5" "[5, 1, 0, 4::u8] ! 1 = 1" "[5, 1, 0, 4::u8] ! 2 = 0" "[5, 1, 0, 4::u8] ! 3 = 4"
    by (simp_all add: numeral_eq_Suc)
  show ?thesis unfolding parse_v6 [OF assms(2), symmetric] readConnectRequest_def r
    by (simp add: h r2 [simplified] Let_def split: option.split)
qed

lemma target_at_port:
  "0 < port \<Longrightarrow> port < 65536 \<Longrightarrow>
   target_at host (word_of_nat (port div 256)) (word_of_nat (port mod 256)) = Some (join_host_port host (itoa port))"
  using port_bytes [of port] by (simp add: target_at_def)

lemma readConnectRequest_frame:
  assumes "dest_ok d" "0 < port" "port < 65536" "cnIn c = dest_frame d port @ rest"
  shows "readConnectRequest c = (c\<lparr>cnIn := rest\<rparr>, replySucceeded, Some (dest_target d port))"
proof -
  let ?hi = "word_of_nat (port div 256) :: u8" and ?lo = "word_of_nat (port mod 256) :: u8"
  note t = target_at_port [OF assms(2,3)]
  show ?thesis
  proof (cases d)
    case (D4 b)
    then obtain w x y z where b: "b = [w, x, y, z]" using assms(1) length4_cases [of b] by auto
    have "cnIn c = [5, 1, 0, 1, w, x, y, z, ?hi, ?lo] @ rest"
      using assms(4) D4 b by (simp add: dest_frame_def)
    from read_v4 [OF this] show ?thesis unfolding t by (simp add: D4 b dest_target_def)
  next
    case (DName h)
    then have h: "0 < length h" "length h < 256" "validProxyHostname h" using assms(1) hostname_len by auto
    then have "unat (word_of_nat (length h) :: u8) = length (bytes_of h)" by (simp add: unat_of_nat)
    moreover have "bytes_of h \<noteq> []" using h(1) by (auto simp: bytes_of_def)
    moreover have "cnIn c = [5, 1, 0, 3, word_of_nat (length h)] @ bytes_of h @ [?hi, ?lo] @ rest"
      using assms(4) DName by (simp add: dest_frame_def)
    ultimately show ?thesis using read_name [of c "word_of_nat (length h)" "bytes_of h" ?hi ?lo rest] h(3)
      unfolding t by (simp add: DName dest_target_def)
  next
    case (D6 b)
    then have "length b = 16" "cnIn c = [5, 1, 0, 4] @ b @ [?hi, ?lo] @ rest"
      using assms(1,4) by (simp_all add: dest_frame_def)
    from read_v6 [OF this(2,1)] show ?thesis unfolding t by (simp add: D6 dest_target_def)
  qed
qed

lemma snoc_two: "length xs = n + 2 \<Longrightarrow> \<exists>ys a b. xs = ys @ [a, b] \<and> length ys = n"
  by (intro exI [of _ "take n xs"] exI [of _ "xs ! n"] exI [of _ "xs ! (n + 1)"])
    (auto simp: list_eq_iff_nth_eq nth_append less_Suc_eq nth_Cons')

lemma list_four: "length xs = 4 \<Longrightarrow> xs = [xs ! 0, xs ! 1, xs ! 2, xs ! 3]"
  using length4_cases [of xs] by (auto simp: numeral_eq_Suc)

lemma target_at_Some:
  assumes "target_at host hi lo = Some t"
  shows "\<exists>port. 0 < port \<and> port < 65536 \<and> t = join_host_port host (itoa port) \<and>
    hi = word_of_nat (port div 256) \<and> lo = word_of_nat (port mod 256)"
  using assms port_of_bytes [of hi lo]
  by (intro exI [of _ "port_of hi lo"]) (auto simp: target_at_def split: if_splits)

text \<open>A target comes from exactly one well-formed frame, read to its last byte.\<close>

lemma readConnectRequest_Some:
  assumes "readConnectRequest c = (c', st, Some t)"
  shows "st = replySucceeded \<and> c' = c\<lparr>cnIn := cnIn c'\<rparr> \<and>
    (\<exists>d port. dest_ok d \<and> 0 < port \<and> port < 65536 \<and> cnIn c = dest_frame d port @ cnIn c' \<and> t = dest_target d port)"
proof -
  from assms obtain c1 header where r: "read_full 4 c = (c1, Some header)"
    and h: "header ! 0 = socks5Version" "header ! 1 = cmdConnect" "header ! 2 = 0"
    by (auto simp: readConnectRequest_def split: prod.splits option.splits if_splits)
  note R = r [unfolded read_full_Some]
  have hd: "header = [5, 1, 0, header ! 3]" using list_four [of header] R h by simp
  have rest: "readConnectRequest c =
      (let finish = (\<lambda>c request. case parseTarget request of
                        None \<Rightarrow> (c, replyHostUnreachable, None) | Some target \<Rightarrow> (c, replySucceeded, Some target));
           fixed = (\<lambda>n. case read_full n c1 of
                        (c2, None) \<Rightarrow> (c2, replyHostUnreachable, None)
                      | (c2, Some payload) \<Rightarrow> finish c2 (header @ payload))
       in if header ! 3 = atypIPv4 then fixed 6
          else if header ! 3 = atypDomain then
            (case read_full 1 c1 of
               (c2, None) \<Rightarrow> (c2, replyHostUnreachable, None)
             | (c2, Some len) \<Rightarrow>
                 if len ! 0 = 0 then (c2, replyHostUnreachable, None)
                 else (case read_full (unat (len ! 0) + 2) c2 of
                         (c3, None) \<Rightarrow> (c3, replyHostUnreachable, None)
                       | (c3, Some payload) \<Rightarrow> finish c3 (header @ len @ payload)))
          else if header ! 3 = atypIPv6 then fixed 18
          else (c1, replyAddressTypeNotSupported, None))"
    using r h by (simp add: readConnectRequest_def)
  consider (v4) "header ! 3 = 1" | (name) "header ! 3 = 3" | (v6) "header ! 3 = 4"
    using assms unfolding rest by (auto simp: Let_def split: if_splits)
  then show ?thesis
  proof cases
    case v4
    then obtain payload where p: "read_full 6 c1 = (c', Some payload)" "parseTarget (header @ payload) = Some t" "st = 0"
      using assms unfolding rest by (auto simp: Let_def split: prod.splits option.splits)
    note P = p(1) [unfolded read_full_Some]
    obtain bs hi lo where q: "payload = bs @ [hi, lo]" "length bs = 4" using snoc_two [of payload 4] P by auto
    then obtain w x y z where b: "bs = [w, x, y, z]" using length4_cases by blast
    have "target_at (string4 bs) hi lo = Some t" using p(2) hd v4 q b parse_v4 [of w x y z hi lo] by simp
    from target_at_Some [OF this] obtain port where port: "0 < port" "port < 65536" "t = join_host_port (string4 bs) (itoa port)"
      "hi = word_of_nat (port div 256)" "lo = word_of_nat (port mod 256)" by blast
    have "cnIn c = dest_frame (D4 bs) port @ cnIn c'"
      using R P q port hd v4 by (simp add: dest_frame_def)
    moreover have "c' = c\<lparr>cnIn := cnIn c'\<rparr>" using R P by (metis conn.unfold_congs(1) conn.surjective conn.update_convs(1))
    ultimately show ?thesis using port q(2) p(3)
      by (intro conjI exI [of _ "D4 bs"] exI [of _ port]) (simp_all add: dest_target_def)
  next
    case name
    then obtain c2 len payload where p: "read_full 1 c1 = (c2, Some len)" "len ! 0 \<noteq> 0"
      "read_full (unat (len ! 0) + 2) c2 = (c', Some payload)" "parseTarget (header @ len @ payload) = Some t" "st = 0"
      using assms unfolding rest by (auto simp: Let_def split: prod.splits option.splits if_splits)
    note P = p(1) [unfolded read_full_Some] p(3) [unfolded read_full_Some]
    have l: "len = [len ! 0]" using list_one [of len] P by simp
    obtain bs hi lo where q: "payload = bs @ [hi, lo]" "length bs = unat (len ! 0)" using snoc_two P by blast
    have ne: "bs \<noteq> []" using q(2) p(2) by (auto simp: unat_eq_0)
    have "(if validProxyHostname (string_of bs) then target_at (string_of bs) hi lo else None) = Some t"
      using p(4) parse_name [OF q(2) [symmetric] ne, of hi lo] hd name l q(1) by (metis append_Cons append_Nil)
    then have v: "validProxyHostname (string_of bs)" and "target_at (string_of bs) hi lo = Some t" by (auto split: if_splits)
    from target_at_Some [OF this(2)] obtain port where port: "0 < port" "port < 65536" "t = join_host_port (string_of bs) (itoa port)"
      "hi = word_of_nat (port div 256)" "lo = word_of_nat (port mod 256)" by blast
    have "length (string_of bs) = unat (len ! 0)" using q(2) by (simp add: string_of_def)
    then have "cnIn c = dest_frame (DName (string_of bs)) port @ cnIn c'"
      using R P q port hd name l by (simp add: dest_frame_def)
    moreover have "c' = c\<lparr>cnIn := cnIn c'\<rparr>" using R P by (metis conn.surjective conn.update_convs(1))
    ultimately show ?thesis using port v p(5)
      by (intro conjI exI [of _ "DName (string_of bs)"] exI [of _ port]) (simp_all add: dest_target_def)
  next
    case v6
    then obtain payload where p: "read_full 18 c1 = (c', Some payload)" "parseTarget (header @ payload) = Some t" "st = 0"
      using assms unfolding rest by (auto simp: Let_def split: prod.splits option.splits)
    note P = p(1) [unfolded read_full_Some]
    obtain bs hi lo where q: "payload = bs @ [hi, lo]" "length bs = 16" using snoc_two [of payload 16] P by auto
    have "target_at (ip_string bs) hi lo = Some t"
      using p(2) hd v6 q parse_v6 [OF q(2), of hi lo] by (metis append_Cons append_Nil)
    from target_at_Some [OF this] obtain port where port: "0 < port" "port < 65536" "t = join_host_port (ip_string bs) (itoa port)"
      "hi = word_of_nat (port div 256)" "lo = word_of_nat (port mod 256)" by blast
    have "cnIn c = dest_frame (D6 bs) port @ cnIn c'"
      using R P q port hd v6 by (simp add: dest_frame_def)
    moreover have "c' = c\<lparr>cnIn := cnIn c'\<rparr>" using R P by (metis conn.surjective conn.update_convs(1))
    ultimately show ?thesis using port q(2) p(3)
      by (intro conjI exI [of _ "D6 bs"] exI [of _ port]) (simp_all add: dest_target_def)
  qed
qed

section \<open>Targets that the server accepts\<close>

lemma index_byte_append: "d \<notin> set a \<Longrightarrow> index_byte d (a @ d # b) = Some (length a)"
  by (induction a) auto

lemma last_index_append: "d \<notin> set b \<Longrightarrow> last_index d (a @ d # b) = Some (length a)"
  using index_byte_append [of d "rev b" "rev a"] by (simp add: last_index_def)

lemma split_join_host_port:
  assumes "CHR ''['' \<notin> set host" "CHR '']'' \<notin> set host"
    and "CHR '':'' \<notin> set port" "CHR ''['' \<notin> set port" "CHR '']'' \<notin> set port"
  shows "split_host_port (join_host_port host port) = Some (host, port)"
proof (cases "CHR '':'' \<in> set host")
  case True
  let ?s = "CHR ''['' # host @ CHR '']'' # CHR '':'' # port"
  have "last_index CHR '':'' ?s = Some (length host + 2)"
    using last_index_append [OF assms(3), of "CHR ''['' # host @ [CHR '']'']"] by simp
  moreover have "index_byte CHR '']'' ?s = Some (length host + 1)"
    using index_byte_append [of "CHR '']''" "CHR ''['' # host" "CHR '':'' # port"] assms(2) by simp
  ultimately show ?thesis using assms True by (simp add: join_host_port_def split_host_port_def)
next
  case False
  have l: "last_index CHR '':'' (host @ CHR '':'' # port) = Some (length host)"
    by (rule last_index_append [OF assms(3)])
  have "hd (host @ CHR '':'' # port) \<noteq> CHR ''[''" using assms(1) by (cases host) auto
  with l assms False show ?thesis by (simp add: join_host_port_def split_host_port_def)
qed

lemma dest_host_chars:
  assumes "dest_ok d" "c \<in> set (dest_host d)"
  shows "is_hex c \<or> hostname_char c \<or> c = CHR ''.'' \<or> c = CHR '':''"
proof (cases d)
  case (D4 b)
  with assms set_string4 [of b c] show ?thesis by (auto simp: hostname_char_def)
next
  case (DName h)
  with assms valid_hostname_chars [of h c] show ?thesis by auto
next
  case (D6 b)
  then have l: "length b = 16" using assms(1) by simp
  show ?thesis
  proof (cases "to4 b")
    case None
    with D6 assms(2) set_string6(2) [OF l, of c] show ?thesis by (auto simp: ip_string_def)
  next
    case (Some q)
    with D6 assms(2) set_string4 [OF to4_length [OF Some], of c] show ?thesis
      by (auto simp: ip_string_def hostname_char_def)
  qed
qed

lemma is_hex_class: "is_hex c \<Longrightarrow> is_lower c \<or> is_upper c \<or> is_digit c"
  by (auto simp: is_hex_def hex_val_def is_lower_def is_upper_def is_digit_def Let_def split: if_splits)

lemma dest_host_plain:
  assumes "dest_ok d" "c \<in> set (dest_host d)"
  shows "c \<noteq> CHR ''['' \<and> c \<noteq> CHR '']'' \<and> \<not> is_space c"
  using dest_host_chars [OF assms] is_hex_class [of c]
  by (auto simp: hostname_char_def is_lower_def is_upper_def is_digit_def is_space_def byte_of_def)

lemma itoa_plain: "c \<in> set (itoa n) \<Longrightarrow> c \<noteq> CHR '':'' \<and> c \<noteq> CHR ''['' \<and> c \<noteq> CHR '']'' \<and> \<not> is_space c"
  using itoa_no_space [of c n] by (auto simp: is_digit_def is_space_def byte_of_def)

lemma split_dest_target: "dest_ok d \<Longrightarrow> split_host_port (dest_target d port) = Some (dest_host d, itoa port)"
  unfolding dest_target_def using dest_host_plain [of d] itoa_plain [of _ port]
  by (intro split_join_host_port) blast+

lemma dest_host_neq_Nil: "dest_ok d \<Longrightarrow> dest_host d \<noteq> []"
  using hostname_len ip_string_neq_Nil by (cases d) (auto simp: string4_def)

lemma dest_target_valid:
  assumes "dest_ok d" "0 < port" "port < 65536"
  shows "validateUpstreamTarget (dest_target d port)"
proof -
  have "\<not> is_space c" if "c \<in> set (dest_target d port)" for c
    using that dest_host_plain [OF assms(1), of c] itoa_plain [of c port]
    by (auto simp: dest_target_def join_host_port_def is_space_def byte_of_def split: if_splits)
  then have "trim_space (dest_target d port) = dest_target d port" by (intro trim_space_no_space) blast
  moreover have "parse_ip (dest_host d) \<noteq> None \<or> validProxyHostname (dest_host d)"
    using assms(1) parse_ip_string by (cases d) (auto simp: parse_ip_def parse_addr_string4)
  ultimately show ?thesis
    using assms dest_host_neq_Nil [OF assms(1)] itoa_digits [of port]
    by (simp add: validateUpstreamTarget_def split_dest_target parse_uint_itoa)
qed

section \<open>Re-encoding a target\<close>

lemma parse_octet_string:
  assumes "parse_octet f = Some b"
  shows "itoa (unat b) = f"
proof -
  from assms have f: "f \<noteq> []" "list_all is_digit f" "hd f \<noteq> CHR ''0'' \<or> \<not> 1 < length f" "dec_value f \<le> 255"
    "b = word_of_nat (dec_value f)"
    by (auto simp: parse_octet_def Let_def split: if_splits)
  then have "hd f \<noteq> CHR ''0'' \<or> length f = 1" by (cases f) auto
  with f show ?thesis by (simp add: unat_of_nat itoa_dec_value)
qed

lemma string4_parse:
  assumes "parse_ipv4 s = Some b"
  shows "string4 b = s"
proof -
  from assms have l: "length (split_on CHR ''.'' s) = 4" and p: "parse_octets (split_on CHR ''.'' s) = Some b"
    by (auto simp: parse_ipv4_def Let_def split: if_splits)
  then obtain w x y z where f: "split_on CHR ''.'' s = [w, x, y, z]" by (auto simp: numeral_eq_Suc length_Suc_conv)
  with p obtain b0 b1 b2 b3 where "b = [b0, b1, b2, b3]" "parse_octet w = Some b0" "parse_octet x = Some b1"
    "parse_octet y = Some b2" "parse_octet z = Some b3"
    by (auto split: option.splits)
  then have "string4 b = w @ ''.'' @ x @ ''.'' @ y @ ''.'' @ z"
    by (simp add: string4_def parse_octet_string)
  moreover have "CHR ''.'' # s = CHR ''.'' # w @ ''.'' @ x @ ''.'' @ y @ ''.'' @ z"
    using join_split_on [of "CHR ''.''" s] f by simp
  ultimately show ?thesis by simp
qed

definition addr_dest :: "u8 list \<Rightarrow> dest" where
  "addr_dest ip = (case to4 ip of Some q \<Rightarrow> D4 q | None \<Rightarrow> D6 ip)"

definition dest_canon :: "dest \<Rightarrow> dest" where
  "dest_canon d = (case parse_ip (dest_host d) of Some ip \<Rightarrow> addr_dest ip | None \<Rightarrow> d)"

lemma connect_request_canon:
  assumes "dest_ok d"
  shows "socks_connect_request (dest_host d) port = dest_frame (dest_canon d) port"
proof (cases "parse_ip (dest_host d)")
  case None
  with assms obtain h where "d = DName h"
    using parse_ip_string by (cases d) (auto simp: parse_ip_def parse_addr_string4)
  with None show ?thesis by (simp add: socks_connect_request_def dest_canon_def dest_frame_def)
next
  case (Some ip)
  then show ?thesis
    by (simp add: socks_connect_request_def dest_canon_def dest_frame_def addr_dest_def split: option.split)
qed

lemma hostname_ip:
  assumes "validProxyHostname h" "parse_ip h = Some ip"
  shows "\<exists>q. to4 ip = Some q \<and> string4 q = h"
proof -
  have "CHR '':'' \<notin> set h"
    using valid_hostname_chars [OF assms(1), of "CHR '':''"]
    by (auto simp: hostname_char_def is_lower_def is_upper_def is_digit_def byte_of_def)
  then have "\<not> (filter (\<lambda>c. c \<in> {CHR ''.'', CHR '':'', CHR ''%''}) h = CHR '':'' # t)" for t
    by (auto dest!: arg_cong [of _ _ set])
  with assms(2) obtain q where q: "parse_ipv4 h = Some q" "ip = v4_in_v6_prefix @ q"
    by (auto simp: parse_ip_def parse_addr_def split: option.splits list.splits if_splits)
  then have "to4 ip = Some q" using parse_ipv4_length [OF q(1)] by (simp add: to4_def v4_in_v6_prefix_def)
  with string4_parse [OF q(1)] show ?thesis by blast
qed

lemma dest_canon_ok:
  assumes "dest_ok d"
  shows "dest_ok (dest_canon d) \<and> dest_host (dest_canon d) = dest_host d"
proof (cases d)
  case (D4 b)
  then have b: "length b = 4" using assms by simp
  then have "parse_ip (string4 b) = Some (v4_in_v6_prefix @ b)" by (simp add: parse_ip_def parse_addr_string4)
  moreover have "to4 (v4_in_v6_prefix @ b) = Some b" using b by (simp add: to4_def v4_in_v6_prefix_def)
  ultimately show ?thesis using D4 b by (simp add: dest_canon_def addr_dest_def)
next
  case (DName h)
  show ?thesis
  proof (cases "parse_ip h")
    case None
    with DName assms show ?thesis by (simp add: dest_canon_def)
  next
    case (Some ip)
    have "validProxyHostname h" using DName assms by simp
    from hostname_ip [OF this Some] obtain q where "to4 ip = Some q" "string4 q = h" by blast
    with DName Some to4_length show ?thesis by (simp add: dest_canon_def addr_dest_def)
  qed
next
  case (D6 b)
  with assms have "parse_ip (ip_string b) = Some b" by (simp add: parse_ip_string)
  then have c: "dest_canon d = addr_dest b" using D6 by (simp add: dest_canon_def)
  show ?thesis
  proof (cases "to4 b")
    case None
    with D6 assms c show ?thesis by (simp add: addr_dest_def)
  next
    case (Some q)
    with D6 c to4_length [OF Some] show ?thesis by (simp add: addr_dest_def ip_string_def)
  qed
qed

text \<open>
  A CONNECT target survives the whole path. When the server accepts a CONNECT request, it
  has read exactly one frame and written nothing, the target passes the check in front of every
  upstream dial, and the frame that dialSOCKS5Context builds for it is again accepted by a
  server of this kind and names the same target, byte for byte.
\<close>

theorem connect_target_roundtrip:
  assumes "readConnectRequest c = (c', st, Some target)"
  shows "cnOut c' = cnOut c \<and> validateUpstreamTarget target \<and>
    (\<exists>frame host p port. cnIn c = frame @ cnIn c' \<and>
       split_host_port target = Some (host, p) \<and> parse_uint 16 p = Some port \<and> 0 < port \<and>
       (\<forall>d rest. cnIn d = socks_connect_request host port @ rest \<longrightarrow>
          readConnectRequest d = (d\<lparr>cnIn := rest\<rparr>, replySucceeded, Some target)))"
proof -
  from readConnectRequest_Some [OF assms] obtain a port where
    a: "dest_ok a" "0 < port" "port < 65536" "cnIn c = dest_frame a port @ cnIn c'" "target = dest_target a port"
    and c': "c' = c\<lparr>cnIn := cnIn c'\<rparr>"
    by blast
  have t: "dest_target (dest_canon a) port = target"
    using dest_canon_ok [OF a(1)] a(5) by (simp add: dest_target_def)
  have "readConnectRequest d = (d\<lparr>cnIn := rest\<rparr>, replySucceeded, Some target)"
    if "cnIn d = socks_connect_request (dest_host a) port @ rest" for d rest
    using readConnectRequest_frame [of "dest_canon a" port d rest] dest_canon_ok [OF a(1)] a(2,3) that t
    by (simp add: connect_request_canon [OF a(1)])
  moreover have "cnOut c' = cnOut c" using c' by (metis conn.select_convs(2) conn.surjective conn.update_convs(1))
  ultimately show ?thesis
    using a dest_target_valid [OF a(1-3)] split_dest_target [OF a(1), of port] parse_uint_itoa [of port 16] by auto
qed

section \<open>The two ends together\<close>

lemma dial_write_free: "cnWrites c = [] \<Longrightarrow> dial_write p c = (c\<lparr>cnOut := cnOut c @ p\<rparr>, None)"
  by (simp add: dial_write_def write_once_def)

lemma reply_bytes_cases:
  "\<exists>tail. (reply_bytes status bound = [5, status, 0, 1] @ tail \<and> length tail = 6) \<or>
          (reply_bytes status bound = [5, status, 0, 4] @ tail \<and> length tail = 18)"
  using to4_length by (auto simp: reply_bytes_def Let_def split: option.split)

text \<open>A dialer reads a reply of the server to its last byte.\<close>

lemma dial_reads_reply:
  assumes "cnIn c = reply_bytes status bound @ rest"
  shows "dial_read_reply c =
    (if status = replySucceeded then (c\<lparr>cnIn := rest\<rparr>, None)
     else (c\<lparr>cnIn := drop 4 (reply_bytes status bound) @ rest\<rparr>,
           Some (UpstreamError (if status = replyCommandNotSupported then UpstreamErrorProtocol else UpstreamErrorTarget))))"
proof -
  have h: "[5, status, 0, t] ! 0 = 5" "[5, status, 0, t] ! 1 = status" "[5, status, 0, t] ! 2 = 0" "[5, status, 0, t] ! 3 = t" for t
    by (simp_all add: numeral_eq_Suc)
  obtain t tail n where r: "reply_bytes status bound = [5, status, 0, t] @ tail" "length tail = n + 2"
    "t = 1 \<and> n = 4 \<or> t = 4 \<and> n = 16"
    using reply_bytes_cases [of status bound] by auto
  have r4: "read_full 4 c = (c\<lparr>cnIn := tail @ rest\<rparr>, Some [5, status, 0, t])"
    using assms r(1) by (simp add: read_full_def)
  have rt: "read_full (n + 2) (c\<lparr>cnIn := tail @ rest\<rparr>) = (c\<lparr>cnIn := rest\<rparr>, Some tail)"
    using r(2) by (simp add: read_full_def)
  show ?thesis
  proof (cases "status = 0")
    case True
    with r(3) rt show ?thesis by (auto simp: dial_read_reply_def r4 h Let_def)
  next
    case False
    then show ?thesis by (simp add: dial_read_reply_def r4 h r(1) Let_def)
  qed
qed

definition client_bytes :: "proxy \<Rightarrow> string \<Rightarrow> nat \<Rightarrow> u8 list" where
  "client_bytes px host port =
     socks_greeting px @ auth_frame (pxUsername px) (pxPassword px) @ socks_connect_request host port"

definition server_bytes :: "(u8 list \<times> int) option \<Rightarrow> u8 list" where
  "server_bytes bound =
     [socks5Version, socks5UsernamePassword, socks5AuthVersion, socks5AuthSucceeded] @ reply_bytes replySucceeded bound"

lemma auth_request_frame: "socks_auth_request px = auth_frame (pxUsername px) (pxPassword px)"
  by (simp add: socks_auth_request_def auth_frame_def)

lemma dial_negotiate_accepts:
  assumes "cnIn c = [5, 2, 1, 0] @ rest" "cnWrites c = []"
    and "pxUsername px \<noteq> []" "length (pxUsername px) < 256" "length (pxPassword px) < 256"
  shows "dial_negotiate px c = (c\<lparr>cnIn := rest, cnOut := cnOut c @ socks_greeting px @ socks_auth_request px\<rparr>, None)"
  using assms by (simp add: dial_negotiate_def dial_authenticate_def dial_write_free read_full_def Let_def numeral_2_eq_2)


text \<open>The \<open>i\<close>-th login is the last one tried: all before it were rejected.\<close>

definition tried :: "(nat \<Rightarrow> proxy \<Rightarrow> dial_error + 'c) \<Rightarrow> nat \<Rightarrow> proxy list \<Rightarrow> nat \<Rightarrow> dial_error + 'c \<Rightarrow> bool" where
  "tried attempt k cs i r \<longleftrightarrow> i < length cs \<and> attempt (k + i) (cs ! i) = r \<and>
     (\<forall>j<i. attempt (k + j) (cs ! j) = Inl (UpstreamError UpstreamErrorAuth))"

lemma tried_0: "attempt k c = r \<Longrightarrow> tried attempt k (c # cs) 0 r"
  by (simp add: tried_def)

lemma tried_Suc:
  "attempt k c = Inl (UpstreamError UpstreamErrorAuth) \<Longrightarrow> tried attempt (k + 1) cs i r \<Longrightarrow> tried attempt k (c # cs) (Suc i) r"
  by (auto simp: tried_def less_Suc_eq_0_disj)

lemma credential_attempts_spec:
  assumes "credential_attempts expired budget attempt px k cs lastErr = (r, px')"
  shows "(\<exists>i. tried attempt k cs i r \<and> px' = (case r of Inr _ \<Rightarrow> promoteCredential px (cs ! i) | Inl _ \<Rightarrow> px)) \<or>
    r = Inl (case lastErr of Some e \<Rightarrow> e | None \<Rightarrow> ContextError) \<and> px' = px"
  using assms
proof (induction expired budget attempt px k cs lastErr rule: credential_attempts.induct)
  case (2 expired budget attempt px k candidate cs lastErr)
  consider (stop) "expired k \<or> \<not> budget k" | (ok) conn where "\<not> (expired k \<or> \<not> budget k)" "attempt k candidate = Inr conn"
    | (fail) e where "\<not> (expired k \<or> \<not> budget k)" "attempt k candidate = Inl e" "\<not> isUpstreamAuthenticationFailure e"
    | (auth) "\<not> (expired k \<or> \<not> budget k)" "attempt k candidate = Inl (UpstreamError UpstreamErrorAuth)"
    by (cases "attempt k candidate") (auto simp: isUpstreamAuthenticationFailure_def)
  then show ?case
  proof cases
    case stop
    with 2(2) show ?thesis by auto
  next
    case ok
    then have "r = Inr conn" "px' = promoteCredential px candidate" using 2(2) by auto
    with tried_0 [of attempt k candidate, OF ok(2)] show ?thesis by (intro disjI1 exI [of _ 0]) simp
  next
    case fail
    then have "r = Inl e" "px' = px" using 2(2) by auto
    with tried_0 [of attempt k candidate, OF fail(2)] show ?thesis by (intro disjI1 exI [of _ 0]) simp
  next
    case auth
    have a: "isUpstreamAuthenticationFailure (UpstreamError UpstreamErrorAuth)" by (simp add: isUpstreamAuthenticationFailure_def)
    have "credential_attempts expired budget attempt px (k + 1) cs (Some (UpstreamError UpstreamErrorAuth)) = (r, px')"
      using 2(2) auth a by simp
    from 2(1) [OF auth(1,2) _ this] a
    consider i where "tried attempt (k + 1) cs i r" "px' = (case r of Inr _ \<Rightarrow> promoteCredential px (cs ! i) | Inl _ \<Rightarrow> px)"
      | "r = Inl (UpstreamError UpstreamErrorAuth)" "px' = px"
      by auto
    then show ?thesis
    proof cases
      case 1
      with tried_Suc [of attempt k candidate, OF auth(2)] show ?thesis
        by (intro disjI1 exI [of _ "Suc i"]) (simp split: sum.split)
    next
      case 2
      with tried_0 [of attempt k candidate, OF auth(2)] show ?thesis by (intro disjI1 exI [of _ 0]) simp
    qed
  qed
qed auto

text \<open>
  The retry over declared logins stops where it should. If any login was tried, the
  attempts followed the declared order without gaps, every login before the last one tried was
  rejected by the upstream, and the result is that of the last attempt; success promotes the
  login that worked, under the same endpoint key, and failure leaves the entry as it is. No
  login is tried only when the time is not positive or has run out.
\<close>

theorem credential_retry_spec:
  assumes "dialUpstreamCredentialCandidatesContext positive expired budget attempt px = (r, px')"
  shows "px_key px' = px_key px \<and>
    ((\<exists>i. tried attempt 0 (credentialCandidates px) i r \<and>
        px' = (case r of Inr _ \<Rightarrow> promoteCredential px (credentialCandidates px ! i) | Inl _ \<Rightarrow> px)) \<or>
     px' = px \<and> (r = Inl (UpstreamError UpstreamErrorProtocol) \<and> \<not> positive \<or> r = Inl ContextError))"
proof -
  have k: "px_key (promoteCredential px q) = px_key px" for q
    by (simp add: promoteCredential_def px_key_def px_addr_def Let_def split: sum.split)
  show ?thesis
  proof (cases positive)
    case True
    then have "credential_attempts expired budget attempt px 0 (credentialCandidates px) None = (r, px')"
      using assms by (simp add: dialUpstreamCredentialCandidatesContext_def)
    from credential_attempts_spec [OF this] k show ?thesis by (auto split: sum.split)
  next
    case False
    with assms show ?thesis by (auto simp: dialUpstreamCredentialCandidatesContext_def)
  qed
qed

section \<open>Witnesses\<close>

definition connect_stream :: conn where
  "connect_stream = \<lparr>cnIn = [5, 1, 0, 1, 1, 2, 3, 4, 0, 80, 71], cnOut = [], cnWrites = []\<rparr>"

lemma connect_reads:
  "readConnectRequest connect_stream =
   (\<lparr>cnIn = [71], cnOut = [], cnWrites = []\<rparr>, replySucceeded, Some (dest_target (D4 [1, 2, 3, 4]) 80))"
  using readConnectRequest_frame [of "D4 [1, 2, 3, 4]" 80 connect_stream "[71]"]
  by (simp add: connect_stream_def dest_frame_def)

theorem connect_target_roundtrip_witness:
  "validateUpstreamTarget (dest_target (D4 [1, 2, 3, 4]) 80) \<and>
   readConnectRequest connect_stream = (\<lparr>cnIn = [71], cnOut = [], cnWrites = []\<rparr>, replySucceeded, Some (dest_target (D4 [1, 2, 3, 4]) 80))"
  using connect_target_roundtrip [OF connect_reads] connect_reads by blast


theorem credential_retry_spec_witness:
  "\<exists>px'. dialUpstreamCredentialCandidatesContext True (\<lambda>_. False) (\<lambda>_. True) (\<lambda>_ _. Inr ()) sample_node = (Inr (), px') \<and>
     px_key px' = px_key sample_node"
proof -
  obtain r px' where run: "dialUpstreamCredentialCandidatesContext True (\<lambda>_. False) (\<lambda>_. True)
      (\<lambda>_ _. Inr () :: dial_error + unit) sample_node = (r, px')" by fastforce
  from credential_retry_spec [OF run] have "px_key px' = px_key sample_node" by blast
  moreover have "r = Inr ()"
  proof (cases "credentialCandidates sample_node")
    case Nil
    then show ?thesis by (simp add: credentialCandidates_def)
  next
    case (Cons c cs)
    with run show ?thesis by (simp add: dialUpstreamCredentialCandidatesContext_def)
  qed
  ultimately show ?thesis using run by blast
qed

end
