(* ===== verification/Routing.thy ===== *)
theory Routing
  imports ProxyModel
begin

text \<open>
  rules.go and geosite.go: routing rules in the style of Clash, the bundled domain
  categories, the first-match lookup of a host, and the resolver of group references. The
  operations that change the rule table and the groups are in ConfigStore.
\<close>

section \<open>Rules and groups\<close>

record rule =
  rlID :: string
  rlType :: string
  rlValue :: string
  rlGroup :: string

record group =
  grID :: string
  grName :: string
  grStrategy :: string
  grCountries :: "string list"
  grProtocols :: "string list"
  grSources :: "string list"
  grNodes :: "string list"

abbreviation "GroupAny \<equiv> ''ANY''"
abbreviation "GroupDirect \<equiv> ''DIRECT''"
abbreviation "countryGroupPrefix \<equiv> ''COUNTRY:''"

abbreviation "RuleDomain \<equiv> ''DOMAIN''"
abbreviation "RuleDomainSuffix \<equiv> ''DOMAIN-SUFFIX''"
abbreviation "RuleDomainKeyword \<equiv> ''DOMAIN-KEYWORD''"
abbreviation "RuleIPCIDR \<equiv> ''IP-CIDR''"
abbreviation "RuleGeosite \<equiv> ''GEOSITE''"
abbreviation "RuleMatch \<equiv> ''MATCH''"

abbreviation "GeositeCN \<equiv> ''cn''"
abbreviation "GeositeGFW \<equiv> ''gfw''"

definition validRuleType :: "string \<Rightarrow> bool" where
  "validRuleType t \<longleftrightarrow>
     t \<in> set [RuleDomain, RuleDomainSuffix, RuleDomainKeyword, RuleIPCIDR, RuleGeosite, RuleMatch]"

section \<open>Bundled domain categories\<close>

definition geositeCN :: "string list" where
  "geositeCN =
    [''cn'', ''baidu.com'', ''qq.com'', ''weixin.qq.com'', ''taobao.com'', ''tmall.com'', ''jd.com'',
     ''alipay.com'', ''aliyun.com'', ''aliyuncs.com'', ''alicdn.com'', ''1688.com'',
     ''taobaocdn.com'', ''tanx.com'', ''mmstat.com'', ''bilibili.com'', ''hdslb.com'',
     ''bilivideo.com'', ''acgvideo.com'', ''weibo.com'', ''weibo.cn'', ''sinaimg.cn'',
     ''sina.com.cn'', ''sina.com'', ''zhihu.com'', ''zhimg.com'', ''163.com'', ''126.com'',
     ''netease.com'', ''126.net'', ''127.net'', ''music.163.com'', ''sohu.com'', ''sohucs.com'',
     ''iqiyi.com'', ''qiyi.com'', ''youku.com'', ''ykimg.com'', ''tudou.com'', ''douyin.com'',
     ''douyinvod.com'', ''toutiao.com'', ''byteimg.com'', ''snssdk.com'', ''pstatp.com'',
     ''ixigua.com'', ''feishu.cn'', ''feishu.net'', ''meituan.com'', ''meituan.net'',
     ''dianping.com'', ''sankuai.com'', ''ele.me'', ''eleme.cn'', ''didiglobal.com'',
     ''xiaojukeji.com'', ''xiaohongshu.com'', ''xhscdn.com'', ''kuaishou.com'', ''kwimgs.com'',
     ''pinduoduo.com'', ''yangkeduo.com'', ''pddpic.com'', ''douban.com'', ''doubanio.com'',
     ''ctrip.com'', ''tripcdn.cn'', ''58.com'', ''ganji.com'', ''anjuke.com'', ''lianjia.com'',
     ''beike.cn'', ''12306.cn'', ''gov.cn'', ''edu.cn'', ''org.cn'', ''net.cn'', ''com.cn'',
     ''csdn.net'', ''csdnimg.cn'', ''cnblogs.com'', ''gitee.com'', ''coding.net'', ''jianshu.com'',
     ''jianshu.io'', ''segmentfault.com'', ''juejin.cn'', ''huawei.com'', ''hicloud.com'',
     ''vmall.com'', ''honor.com'', ''mi.com'', ''xiaomi.com'', ''miui.com'', ''micdn.com'',
     ''duokan.com'', ''oppo.com'', ''vivo.com.cn'', ''oneplus.com'', ''tencent.com'', ''gtimg.cn'',
     ''qpic.cn'', ''qlogo.cn'', ''qcloud.com'', ''myqcloud.com'', ''tencent-cloud.net'',
     ''wechat.com'', ''kugou.com'', ''kuwo.cn'', ''qqmusic.qq.com'', ''ximalaya.com'', ''360.cn'',
     ''360.com'', ''qhimg.com'', ''qhres.com'', ''so.com'', ''ucweb.com'', ''uc.cn'', ''quark.cn'',
     ''shifen.com'', ''bdstatic.com'', ''bdimg.com'', ''baidubce.com'', ''bcebos.com'',
     ''baidupcs.com'', ''amap.com'', ''autonavi.com'', ''gaode.com'', ''baidumap.com'']"

definition geositeGFW :: "string list" where
  "geositeGFW =
    [''google.com'', ''google.com.hk'', ''googleapis.com'', ''gstatic.com'',
     ''googleusercontent.com'', ''googlevideo.com'', ''ggpht.com'', ''goo.gl'', ''withgoogle.com'',
     ''google-analytics.com'', ''youtube.com'', ''youtu.be'', ''ytimg.com'',
     ''youtubei.googleapis.com'', ''facebook.com'', ''fb.com'', ''fbcdn.net'', ''fbsbx.com'',
     ''messenger.com'', ''instagram.com'', ''cdninstagram.com'', ''whatsapp.com'', ''whatsapp.net'',
     ''twitter.com'', ''x.com'', ''twimg.com'', ''t.co'', ''twitter.co'', ''telegram.org'',
     ''telegram.me'', ''t.me'', ''telesco.pe'', ''tdesktop.com'', ''telegra.ph'', ''wikipedia.org'',
     ''wikimedia.org'', ''wikidata.org'', ''wiktionary.org'', ''reddit.com'', ''redd.it'',
     ''redditstatic.com'', ''redditmedia.com'', ''discord.com'', ''discord.gg'', ''discordapp.com'',
     ''discordapp.net'', ''twitch.tv'', ''ttvnw.net'', ''jtvnw.net'', ''pornhub.com'',
     ''phncdn.com'', ''tumblr.com'', ''medium.com'', ''quora.com'', ''pinterest.com'',
     ''blogspot.com'', ''blogger.com'', ''wordpress.org'', ''nytimes.com'', ''bbc.com'',
     ''bbc.co.uk'', ''theguardian.com'', ''wsj.com'', ''reuters.com'', ''bloomberg.com'',
     ''cnn.com'', ''onion'', ''torproject.org'', ''spotify.com'', ''scdn.co'', ''spotifycdn.com'',
     ''netflix.com'', ''nflxvideo.net'', ''nflximg.net'', ''nflxext.com'', ''disneyplus.com'',
     ''hulu.com'', ''hbomax.com'', ''hbo.com'', ''github.com'', ''githubusercontent.com'',
     ''githubassets.com'', ''ghcr.io'', ''openai.com'', ''chatgpt.com'', ''oaistatic.com'',
     ''oaiusercontent.com'', ''anthropic.com'', ''claude.ai'', ''cloudflare.com'',
     ''gemini.google.com'', ''line.me'', ''line-scdn.net'', ''kakao.com'', ''naver.com'',
     ''dropbox.com'', ''dropboxusercontent.com'', ''onedrive.com'', ''protonmail.com'',
     ''proton.me'', ''signal.org'']"

definition buildSuffixSet :: "string list \<Rightarrow> string set" where
  "buildSuffixSet l = set (map to_lower l)"

text \<open>The loop of geositeMatch: the host, then its suffix after each dot.\<close>

function suffix_walk :: "string set \<Rightarrow> string \<Rightarrow> bool" where
  "suffix_walk S host =
     (if host \<in> S then True
      else case index_byte CHR ''.'' host of
          None \<Rightarrow> False
        | Some i \<Rightarrow> suffix_walk S (drop (Suc i) host))"
  by auto
termination
  by (relation "measure (\<lambda>(_, h). length h)") (auto dest: index_byte_Some)

declare suffix_walk.simps [simp del]

definition geositeMatch :: "string \<Rightarrow> string \<Rightarrow> bool" where
  "geositeMatch category host =
     (if category = GeositeCN then
        suffix_walk (buildSuffixSet geositeCN) (to_lower (trim_suffix ''.'' host))
      else if category = GeositeGFW then
        suffix_walk (buildSuffixSet geositeGFW) (to_lower (trim_suffix ''.'' host))
      else False)"

definition validGeositeCategory :: "string \<Rightarrow> bool" where
  "validGeositeCategory c \<longleftrightarrow> c = GeositeCN \<or> c = GeositeGFW"

section \<open>First match\<close>

definition canonicalRoutingHost :: "string \<Rightarrow> string" where
  "canonicalRoutingHost host = trim_suffix ''.'' (to_lower (trim_space host))"

text \<open>One case of the switch of MatchGroup, on the canonical host and its address if it is one.\<close>

definition rule_matches :: "string \<Rightarrow> u8 list option \<Rightarrow> rule \<Rightarrow> bool" where
  "rule_matches lowerHost ip r =
     (if rlType r = RuleDomain then lowerHost = canonicalRoutingHost (rlValue r)
      else if rlType r = RuleDomainSuffix then
        (let v = trim_prefix ''.'' (canonicalRoutingHost (rlValue r))
         in lowerHost = v \<or> has_suffix (CHR ''.'' # v) lowerHost)
      else if rlType r = RuleDomainKeyword then
        rlValue r \<noteq> [] \<and> contains (to_lower (rlValue r)) lowerHost
      else if rlType r = RuleIPCIDR then
        (case ip of None \<Rightarrow> False
         | Some a \<Rightarrow> (case parse_cidr (rlValue r) of None \<Rightarrow> False | Some n \<Rightarrow> cidr_contains n a))
      else if rlType r = RuleGeosite then ip = None \<and> geositeMatch (rlValue r) lowerHost
      else rlType r = RuleMatch)"

fun match_rules :: "string \<Rightarrow> u8 list option \<Rightarrow> rule list \<Rightarrow> string" where
  "match_rules h ip [] = GroupAny"
| "match_rules h ip (r # rs) = (if rule_matches h ip r then rlGroup r else match_rules h ip rs)"

definition MatchGroup :: "rule list \<Rightarrow> string \<Rightarrow> string" where
  "MatchGroup rules host =
     (let lowerHost = canonicalRoutingHost host
      in match_rules lowerHost (parse_ip lowerHost) rules)"

section \<open>Group references\<close>

datatype ref_kind = RefAny | RefDirect | RefCountry | RefNamed

record resolved_ref =
  rrKind :: ref_kind
  rrCanonical :: string
  rrCountry :: string
  rrGroup :: "group option"

definition parseCountryGroup :: "string \<Rightarrow> string option" where
  "parseCountryGroup name =
     (if length name < length countryGroupPrefix \<or>
         \<not> equal_fold (take (length countryGroupPrefix) name) countryGroupPrefix then None
      else let cc = trim_space (drop (length countryGroupPrefix) name)
           in if cc \<noteq> [] then Some cc else None)"

definition validCountryGroupCode :: "string \<Rightarrow> bool" where
  "validCountryGroupCode code =
     (let c = trim_space code in length c = 2 \<and> list_all (\<lambda>b. is_upper (upper_char b)) c)"

definition resolveGroupReference :: "string \<Rightarrow> group list \<Rightarrow> resolved_ref option" where
  "resolveGroupReference reference groups =
     (let ref = trim_space reference in
      if ref = [] \<or> equal_fold ref GroupAny then
        Some \<lparr>rrKind = RefAny, rrCanonical = GroupAny, rrCountry = [], rrGroup = None\<rparr>
      else if equal_fold ref GroupDirect then
        Some \<lparr>rrKind = RefDirect, rrCanonical = GroupDirect, rrCountry = [], rrGroup = None\<rparr>
      else case parseCountryGroup ref of
          Some code \<Rightarrow>
            if \<not> validCountryGroupCode code then None
            else let code = to_upper (trim_space code)
                 in Some \<lparr>rrKind = RefCountry, rrCanonical = countryGroupPrefix @ code,
                          rrCountry = code, rrGroup = None\<rparr>
        | None \<Rightarrow>
            (case find (\<lambda>g. grID g = ref) groups of
               Some g \<Rightarrow> Some \<lparr>rrKind = RefNamed, rrCanonical = grID g, rrCountry = [], rrGroup = Some g\<rparr>
             | None \<Rightarrow>
                 (case find (\<lambda>g. equal_fold (grName g) ref) groups of
                    Some g \<Rightarrow>
                      Some \<lparr>rrKind = RefNamed, rrCanonical = grName g, rrCountry = [], rrGroup = Some g\<rparr>
                  | None \<Rightarrow> None)))"

section \<open>Domain categories: lemmas\<close>

text \<open>A host is in a domain when it is the domain or ends with a dot and the domain.\<close>

definition in_domain :: "string \<Rightarrow> string \<Rightarrow> bool" where
  "in_domain d h \<longleftrightarrow> h = d \<or> has_suffix (CHR ''.'' # d) h"

lemma in_domain_drop:
  assumes "index_byte CHR ''.'' h = Some i" "h \<noteq> d"
  shows "in_domain d h \<longleftrightarrow> in_domain d (drop (Suc i) h)"
proof -
  note i = index_byte_Some [OF assms(1)]
  have h: "h = take i h @ CHR ''.'' # drop (Suc i) h" using i by (metis id_take_nth_drop)
  have eq: "t @ CHR ''.'' # d = take i h @ CHR ''.'' # drop (Suc i) h \<Longrightarrow>
      d = drop (Suc i) h \<or> (\<exists>u. drop (Suc i) h = u @ CHR ''.'' # d)" for t
  proof -
    assume "t @ CHR ''.'' # d = take i h @ CHR ''.'' # drop (Suc i) h"
    then obtain us where
      "t = take i h @ us \<and> us @ CHR ''.'' # d = CHR ''.'' # drop (Suc i) h \<or>
       t @ us = take i h \<and> CHR ''.'' # d = us @ CHR ''.'' # drop (Suc i) h"
      unfolding append_eq_append_conv2 by blast
    moreover have "CHR ''.'' \<notin> set us" if "t @ us = take i h"
      using i that by (metis Un_iff set_append)
    ultimately show ?thesis by (cases us) (auto, metis)
  qed
  show ?thesis
  proof
    assume "in_domain d h"
    with assms(2) obtain t where "h = t @ CHR ''.'' # d" by (auto simp: in_domain_def has_suffix_iff)
    from eq [OF trans [OF this [symmetric] h]] show "in_domain d (drop (Suc i) h)" by (auto simp: in_domain_def has_suffix_iff)
  next
    assume "in_domain d (drop (Suc i) h)"
    then have "\<exists>t. h = t @ CHR ''.'' # d"
      using h by (auto simp: in_domain_def has_suffix_iff) (metis append_Cons append_assoc)
    then show "in_domain d h" by (auto simp: in_domain_def has_suffix_iff)
  qed
qed

lemma in_domain_no_dot: "CHR ''.'' \<notin> set h \<Longrightarrow> in_domain d h \<longleftrightarrow> h = d"
  by (auto simp: in_domain_def has_suffix_iff)

lemma suffix_walk_iff: "suffix_walk S h \<longleftrightarrow> (\<exists>d\<in>S. in_domain d h)"
proof (induction S h rule: suffix_walk.induct)
  case (1 S h)
  show ?case
  proof (cases "h \<in> S")
    case True
    then have "suffix_walk S h" by (subst suffix_walk.simps) simp
    moreover have "in_domain h h" by (simp add: in_domain_def)
    ultimately show ?thesis using True by blast
  next
    case False
    show ?thesis
    proof (cases "index_byte CHR ''.'' h")
      case None
      with False have "\<not> suffix_walk S h" by (subst suffix_walk.simps) simp
      moreover have "in_domain d h \<longleftrightarrow> h = d" for d
        using None by (intro in_domain_no_dot) (simp add: index_byte_None)
      ultimately show ?thesis using False by simp
    next
      case (Some i)
      with False have "suffix_walk S h = suffix_walk S (drop (Suc i) h)"
        by (subst suffix_walk.simps) simp
      also have "\<dots> \<longleftrightarrow> (\<exists>d\<in>S. in_domain d (drop (Suc i) h))" by (rule 1 [OF False Some])
      also have "\<dots> \<longleftrightarrow> (\<exists>d\<in>S. in_domain d h)"
      proof (rule bex_cong [OF refl])
        show "in_domain d (drop (Suc i) h) = in_domain d h" if "d \<in> S" for d
          using in_domain_drop [OF Some, of d] False that by fastforce
      qed
      finally show ?thesis .
    qed
  qed
qed

section \<open>Hosts: lemmas\<close>

lemma canonicalRoutingHost_upper [simp]: "canonicalRoutingHost (to_upper h) = canonicalRoutingHost h"
  unfolding canonicalRoutingHost_def
  by (metis to_lower_upper trim_space_lower)

lemma canonicalRoutingHost_trim [simp]: "canonicalRoutingHost (trim_space h) = canonicalRoutingHost h"
  by (simp add: canonicalRoutingHost_def)

lemma canonicalRoutingHost_dot:
  assumes "trim_space h = h" "\<not> has_suffix ''.'' h"
  shows "canonicalRoutingHost (h @ ''.'') = canonicalRoutingHost h"
proof -
  have sp: "\<not> is_space CHR ''.''" by (simp add: is_space_def byte_of_def)
  have "h = [] \<or> \<not> is_space (hd h)" using trim_space_ends [of h] assms(1) by auto
  then have "trim_space (h @ ''.'') = h @ ''.''"
    using sp by (intro trim_space_id) (cases h; auto)
  moreover have "to_lower ''.'' = ''.''" by (simp add: to_lower_def lower_char_def is_upper_def byte_of_def)
  ultimately show ?thesis
    using assms unfolding canonicalRoutingHost_def
    by (simp add: to_lower_append trim_suffix_none)
qed

lemma match_rules_find:
  "match_rules h ip rules = (case find (rule_matches h ip) rules of Some r \<Rightarrow> rlGroup r | None \<Rightarrow> GroupAny)"
  by (induction rules) simp_all

lemma match_rules_append:
  "match_rules h ip (pre @ post) =
     (if \<exists>r\<in>set pre. rule_matches h ip r then match_rules h ip pre else match_rules h ip post)"
  by (induction pre) simp_all

lemma rule_matches_match: "rlType r = RuleMatch \<Longrightarrow> rule_matches h ip r"
  by (simp add: rule_matches_def)

lemma match_rules_catch_all:
  "rlType r = RuleMatch \<Longrightarrow> match_rules h ip (pre @ r # post) = match_rules h ip (pre @ [r])"
  by (simp add: match_rules_append rule_matches_match)

section \<open>Routing: properties\<close>


text \<open>
  the bundled categories have suffix semantics: a name is in a category exactly when,
  lower-cased and without its trailing dot, it is a listed domain or a subdomain of one; the
  walk over the dots always ends, and a name of any other category is in none.
\<close>

theorem geositeMatch_iff:
  "geositeMatch category host \<longleftrightarrow>
     (\<exists>d \<in> set (if category = GeositeCN then geositeCN else if category = GeositeGFW then geositeGFW else []).
        in_domain (to_lower d) (to_lower (trim_suffix ''.'' host)))"
  by (auto simp: geositeMatch_def suffix_walk_iff buildSuffixSet_def)

section \<open>Group references: lemmas\<close>

lemma trim_space_decomp: "\<exists>a b. s = a @ trim_space s @ b"
proof -
  obtain b where b: "trim_left s = trim_space s @ b"
    using trim_right_prefix [of "trim_left s"] by (auto simp: trim_space_def)
  have "s = takeWhile is_space s @ trim_left s" by (simp add: trim_left_def)
  with b show ?thesis by metis
qed

lemma trim_space_length: "length (trim_space s) = length s \<Longrightarrow> trim_space s = s"
proof -
  assume len: "length (trim_space s) = length s"
  obtain a b where s: "s = a @ trim_space s @ b" using trim_space_decomp by blast
  then have "length s = length a + length (trim_space s) + length b"
    by (metis add.assoc length_append)
  with len have "a = []" "b = []" by auto
  with s show ?thesis by simp
qed

lemma trim_space_fold:
  assumes "trim_space s = s" "equal_fold t s"
  shows "trim_space t = t"
proof (rule trim_space_length)
  have "to_lower (trim_space t) = to_lower t"
    using assms by (metis equal_fold_def trim_space_lower)
  then show "length (trim_space t) = length t" by (metis length_to_lower)
qed

lemma to_lower_take: "to_lower (take n s) = take n (to_lower s)"
  by (simp add: to_lower_def take_map)

lemma to_lower_drop: "to_lower (drop n s) = drop n (to_lower s)"
  by (simp add: to_lower_def drop_map)

lemma equal_fold_length: "equal_fold s t \<Longrightarrow> length s = length t"
  by (metis equal_fold_def length_to_lower)

lemma trim_space_Nil_fold:
  "equal_fold s t \<Longrightarrow> trim_space s = [] \<longleftrightarrow> trim_space t = []"
  by (metis equal_fold_def to_lower_Nil_iff(1) trim_space_lower)

lemma parseCountryGroup_fold:
  assumes "equal_fold s t"
  shows "parseCountryGroup s = None \<longleftrightarrow> parseCountryGroup t = None"
proof -
  have "equal_fold (take n s) u = equal_fold (take n t) u" for n u
    using assms by (simp add: equal_fold_def to_lower_take)
  moreover have "equal_fold (drop n s) (drop n t)" for n
    using assms by (simp add: equal_fold_def to_lower_drop)
  then have "trim_space (drop n s) = [] \<longleftrightarrow> trim_space (drop n t) = []" for n
    by (rule trim_space_Nil_fold)
  ultimately show ?thesis
    using equal_fold_length [OF assms] by (simp add: parseCountryGroup_def Let_def)
qed

lemma equal_fold_sym_trans: "equal_fold s t \<Longrightarrow> equal_fold s u \<longleftrightarrow> equal_fold t u"
  by (simp add: equal_fold_def)

lemma country_code_chars:
  "validCountryGroupCode c \<Longrightarrow> trim_space c = c \<Longrightarrow>
   \<exists>x y. c = [x, y] \<and> \<not> is_space x \<and> \<not> is_space y \<and> is_upper (upper_char x) \<and> is_upper (upper_char y)"
  using trim_space_ends [of c]
  by (auto simp: validCountryGroupCode_def Let_def numeral_eq_Suc length_Suc_conv)

lemma resolve_country:
  assumes "validCountryGroupCode c" "trim_space c = c"
  shows "resolveGroupReference (countryGroupPrefix @ to_upper c) groups =
    Some \<lparr>rrKind = RefCountry, rrCanonical = countryGroupPrefix @ to_upper c,
          rrCountry = to_upper c, rrGroup = None\<rparr>"
proof -
  obtain x y where c: "c = [x, y]" "\<not> is_space x" "\<not> is_space y"
      "is_upper (upper_char x)" "is_upper (upper_char y)"
    using country_code_chars [OF assms] by blast
  have up: "to_upper c = [upper_char x, upper_char y]" by (simp add: c(1) to_upper_def)
  have sp: "\<not> is_space CHR ''C''" by (simp add: is_space_def byte_of_def)
  have ref: "trim_space (countryGroupPrefix @ to_upper c) = countryGroupPrefix @ to_upper c"
    using sp c(2-) by (intro trim_space_id) (simp add: up)
  have tc: "trim_space (to_upper c) = to_upper c"
    using c(2-) by (intro trim_space_id) (simp add: up)
  have "parseCountryGroup (countryGroupPrefix @ to_upper c) = Some (to_upper c)"
    using tc by (simp add: parseCountryGroup_def up Let_def)
  moreover have "validCountryGroupCode (to_upper c)"
    using tc c(2-) by (simp add: validCountryGroupCode_def up Let_def)
  moreover have "\<not> equal_fold (countryGroupPrefix @ to_upper c) GroupAny"
      "\<not> equal_fold (countryGroupPrefix @ to_upper c) GroupDirect"
    using equal_fold_length [of "countryGroupPrefix @ to_upper c"] by (force simp: up)+
  moreover have "to_upper (to_upper c) = to_upper c" by simp
  ultimately show ?thesis using tc by (simp only: resolveGroupReference_def ref Let_def) simp
qed

lemma resolve_named:
  assumes "trim_space r = r" "r \<noteq> []" "\<not> equal_fold r GroupAny" "\<not> equal_fold r GroupDirect"
    "parseCountryGroup r = None"
  shows "resolveGroupReference r groups =
    (case find (\<lambda>g. grID g = r) groups of
       Some g \<Rightarrow> Some \<lparr>rrKind = RefNamed, rrCanonical = grID g, rrCountry = [], rrGroup = Some g\<rparr>
     | None \<Rightarrow> map_option (\<lambda>g. \<lparr>rrKind = RefNamed, rrCanonical = grName g, rrCountry = [],
                 rrGroup = Some g\<rparr>) (find (\<lambda>g. equal_fold (grName g) r) groups))"
  using assms by (simp add: resolveGroupReference_def Let_def split: option.split)

lemma find_cong_pred: "(\<And>x. P x = Q x) \<Longrightarrow> find P xs = find Q xs"
  by (induction xs) simp_all

lemma find_SomeD: "find P xs = Some x \<Longrightarrow> x \<in> set xs \<and> P x"
  by (induction xs) (auto split: if_splits)

text \<open>
  A canonical reference resolves to the same target, or it is a group's name and some group
  has that name as its identifier.
\<close>

lemma resolve_canonical_cases:
  assumes "resolveGroupReference ref groups = Some r"
  shows "resolveGroupReference (rrCanonical r) groups = Some r \<or>
    (\<exists>g\<in>set groups. rrCanonical r = grName g \<and> resolveGroupReference (grName g) groups =
        (case find (\<lambda>h. grID h = grName g) groups of
           Some h \<Rightarrow> Some \<lparr>rrKind = RefNamed, rrCanonical = grID h, rrCountry = [], rrGroup = Some h\<rparr>
         | None \<Rightarrow> Some r))"
proof -
  let ?t = "trim_space ref"
  have any: "resolveGroupReference GroupAny groups =
      Some \<lparr>rrKind = RefAny, rrCanonical = GroupAny, rrCountry = [], rrGroup = None\<rparr>"
    "resolveGroupReference GroupDirect groups =
      Some \<lparr>rrKind = RefDirect, rrCanonical = GroupDirect, rrCountry = [], rrGroup = None\<rparr>"
    by code_simp+
  consider "?t = [] \<or> equal_fold ?t GroupAny" | "equal_fold ?t GroupDirect" "\<not> equal_fold ?t GroupAny" "?t \<noteq> []"
    | c where "parseCountryGroup ?t = Some c" "?t \<noteq> []" "\<not> equal_fold ?t GroupAny" "\<not> equal_fold ?t GroupDirect"
    | "parseCountryGroup ?t = None" "?t \<noteq> []" "\<not> equal_fold ?t GroupAny" "\<not> equal_fold ?t GroupDirect"
    by (cases "parseCountryGroup ?t") auto
  then show ?thesis
  proof cases
    case 1
    with assms have "r = \<lparr>rrKind = RefAny, rrCanonical = GroupAny, rrCountry = [], rrGroup = None\<rparr>"
      by (simp add: resolveGroupReference_def)
    then show ?thesis by (simp add: any)
  next
    case 2
    with assms have "r = \<lparr>rrKind = RefDirect, rrCanonical = GroupDirect, rrCountry = [], rrGroup = None\<rparr>"
      by (simp add: resolveGroupReference_def)
    then show ?thesis by (simp add: any)
  next
    case (3 c)
    then have "trim_space c = c" by (auto simp: parseCountryGroup_def Let_def split: if_splits)
    moreover have "validCountryGroupCode c \<and> r = \<lparr>rrKind = RefCountry,
        rrCanonical = countryGroupPrefix @ to_upper c, rrCountry = to_upper c, rrGroup = None\<rparr>"
      using assms 3 calculation by (simp add: resolveGroupReference_def Let_def split: if_splits)
    ultimately show ?thesis using resolve_country by simp
  next
    case 4
    note named = resolve_named [OF trim_space_idem 4(2-4) 4(1)]
    have same: "resolveGroupReference ref groups = resolveGroupReference ?t groups"
      by (simp add: resolveGroupReference_def)
    show ?thesis
    proof (cases "find (\<lambda>g. grID g = ?t) groups")
      case (Some g)
      with assms same named find_SomeD [OF Some] show ?thesis by auto
    next
      case None
      with assms same named obtain g where
        g: "find (\<lambda>g. equal_fold (grName g) ?t) groups = Some g"
          "r = \<lparr>rrKind = RefNamed, rrCanonical = grName g, rrCountry = [], rrGroup = Some g\<rparr>"
        by auto
      let ?n = "grName g"
      have eq: "equal_fold ?n ?t" and mem: "g \<in> set groups" using find_SomeD [OF g(1)] by auto
      have "trim_space ?n = ?n" by (rule trim_space_fold [OF trim_space_idem eq])
      moreover have "?n \<noteq> []" using equal_fold_length [OF eq] 4(2) by auto
      moreover have "\<not> equal_fold ?n GroupAny" "\<not> equal_fold ?n GroupDirect" "parseCountryGroup ?n = None"
        using 4 equal_fold_sym_trans [OF eq] parseCountryGroup_fold [OF eq] by auto
      ultimately have n: "resolveGroupReference ?n groups =
        (case find (\<lambda>g. grID g = ?n) groups of
           Some g \<Rightarrow> Some \<lparr>rrKind = RefNamed, rrCanonical = grID g, rrCountry = [], rrGroup = Some g\<rparr>
         | None \<Rightarrow> map_option (\<lambda>g. \<lparr>rrKind = RefNamed, rrCanonical = grName g, rrCountry = [],
                 rrGroup = Some g\<rparr>) (find (\<lambda>g. equal_fold (grName g) ?n) groups))"
        by (rule resolve_named)
      have "find (\<lambda>h. equal_fold (grName h) ?n) groups = Some g"
        using g(1) find_cong_pred [of "\<lambda>h. equal_fold (grName h) ?n" "\<lambda>h. equal_fold (grName h) ?t"]
          eq by (metis equal_fold_def)
      then have "resolveGroupReference ?n groups =
        (case find (\<lambda>g. grID g = ?n) groups of
           Some g \<Rightarrow> Some \<lparr>rrKind = RefNamed, rrCanonical = grID g, rrCountry = [], rrGroup = Some g\<rparr>
         | None \<Rightarrow> Some r)"
        using n g(2) by (simp split: option.split)
      moreover have "rrCanonical r = grName g" using g(2) by simp
      ultimately show ?thesis using mem by blast
    qed
  qed
qed

lemma resolve_canonical_some:
  assumes "resolveGroupReference ref groups = Some r"
  shows "resolveGroupReference (rrCanonical r) groups \<noteq> None"
  using resolve_canonical_cases [OF assms] by (auto split: option.splits)

section \<open>Group references: properties\<close>

text \<open>
  the canonical form of a group reference is a fixed point: resolving it again names the
  same target with the same canonical form, so that the reference that mutate writes back
  into a rule or listener keeps routing to the group it resolved to. It needs that no group
  has another group's identifier as its name.
\<close>

theorem resolveGroupReference_canonical:
  assumes "resolveGroupReference ref groups = Some r"
    and "\<forall>g\<in>set groups. \<forall>h\<in>set groups. grID g \<noteq> grName h"
  shows "resolveGroupReference (rrCanonical r) groups = Some r"
proof -
  have "find (\<lambda>h. grID h = grName g) groups = None" if "g \<in> set groups" for g
    using assms(2) that by (auto simp: find_None_iff)
  with resolve_canonical_cases [OF assms(1)] show ?thesis by auto
qed

definition clash_groups :: "group list" where
  "clash_groups =
    [\<lparr>grID = ''Foo'', grName = ''first'', grStrategy = ''sticky'', grCountries = [], grProtocols = [],
      grSources = [], grNodes = []\<rparr>,
     \<lparr>grID = ''grp-2'', grName = ''Foo'', grStrategy = ''sticky'', grCountries = [], grProtocols = [],
      grSources = [], grNodes = []\<rparr>]"

text \<open>
  without that condition the canonical form can change the target: a rule that names the
  second group as \<open>foo\<close> is stored as \<open>Foo\<close>, the identifier of the first group.
\<close>

theorem resolveGroupReference_rebinds:
  "map_option (\<lambda>r. (rrCanonical r, map_option grID (rrGroup r))) (resolveGroupReference ''foo'' clash_groups)
     = Some (''Foo'', Some ''grp-2'') \<and>
   map_option (\<lambda>r. (rrCanonical r, map_option grID (rrGroup r))) (resolveGroupReference ''Foo'' clash_groups)
     = Some (''Foo'', Some ''Foo'')"
  by code_simp

section \<open>Witnesses\<close>

definition sample_rules :: "rule list" where
  "sample_rules =
    [\<lparr>rlID = ''r1'', rlType = RuleDomainSuffix, rlValue = ''.Example.com'', rlGroup = ''COUNTRY:US''\<rparr>,
     \<lparr>rlID = ''r2'', rlType = RuleMatch, rlValue = [], rlGroup = GroupAny\<rparr>]"


definition sample_groups :: "group list" where
  "sample_groups =
    [\<lparr>grID = ''grp-1'', grName = ''Work'', grStrategy = ''latency'', grCountries = [''US''], grProtocols = [],
      grSources = [], grNodes = []\<rparr>]"

lemma resolveGroupReference_canonical_witness:
  "resolveGroupReference ''Work'' sample_groups = resolveGroupReference '' WORK '' sample_groups \<and>
   map_option rrCanonical (resolveGroupReference '' WORK '' sample_groups) = Some ''Work''"
proof -
  have c: "map_option rrCanonical (resolveGroupReference '' WORK '' sample_groups) = Some ''Work''"
    by code_simp
  then obtain r where r: "resolveGroupReference '' WORK '' sample_groups = Some r" by blast
  have "\<forall>g\<in>set sample_groups. \<forall>h\<in>set sample_groups. grID g \<noteq> grName h" by code_simp
  with resolveGroupReference_canonical [OF r] r c show ?thesis by simp
qed

end
