(* ===== verification/ConfigStore.thy ===== *)
theory ConfigStore
  imports Routing
begin

text \<open>
  sourcestore.go with the mutating half of rules.go: the persisted configuration, its
  validation, the transaction \<open>mutate\<close> that validates, writes and publishes, and every
  operation built on it (sources, rules, groups, listeners, runtime options).

  Three things come from outside and are the fields of an environment: net/url's Parse, the
  length of the encoded JSON (\<open>None\<close> when Marshal fails), and what the atomic file
  replacement reports. Identifiers come from the clock and a random number and are an
  argument of the operations that generate one.
\<close>

section \<open>Persisted data\<close>

record source =
  srID :: string
  srName :: string
  srKind :: string
  srURL :: string
  srFormat :: string
  srProtocol :: string
  srEnabled :: bool
  srAllowPrivate :: bool
  srAllowEmpty :: bool
  srAutoRefresh :: bool
  srRefreshInterval :: int
  srBuiltin :: bool
  srFetchViaPool :: bool
  srNote :: string
  srAutoRefreshMissing :: bool
  srRevision :: u64

record listener =
  lsID :: string
  lsName :: string
  lsPort :: int
  lsMode :: string
  lsGroup :: string
  lsNodeKey :: string
  lsEnabled :: bool

record pool_config =
  cfSources :: "source list"
  cfRules :: "rule list"
  cfGroups :: "group list"
  cfListeners :: "listener list"
  cfCheckURL :: string
  cfMaxConcurrent :: int
  cfCheckTimeout :: int
  cfMaxCandidates :: int
  cfSourceRefresh :: int
  cfFullRecheck :: int
  cfRequireIPChange :: "bool option"
  cfAutoCandidateCheck :: "bool option"
  cfAutoCheckInterval :: int
  cfCatalogVersion :: int

text \<open>The parts of a parsed URL that the validators read.\<close>

record url =
  uScheme :: string
  uOpaque :: string
  uHost :: string
  uHostname :: string
  uPort :: string
  uHasUser :: bool
  uPath :: string
  uRawPath :: string
  uRawQuery :: string
  uForceQuery :: bool
  uFragment :: string

datatype persist_outcome = Committed | NotCommitted | DurabilityUncertain

datatype config_error =
    Invalid string
  | Missing string
  | Duplicate string
  | Limit string
  | Refused string
  | EncodeFailed
  | ConfigTooLarge
  | Persistence persist_outcome

record config_env =
  ceParse :: "string \<Rightarrow> url option"
  ceEncode :: "pool_config \<Rightarrow> nat option"
  ceOutcome :: persist_outcome

record config_store =
  csCfg :: pool_config
  csDisk :: pool_config

abbreviation "SourceKindRemote \<equiv> ''remote''"
abbreviation "SourceKindUpload \<equiv> ''upload''"
abbreviation "FormatTextRegex \<equiv> ''text-regex''"
abbreviation "ListenerModeGroup \<equiv> ''group''"
abbreviation "ListenerModeFixed \<equiv> ''fixed''"
abbreviation "ListenerModeRules \<equiv> ''rules''"

definition "maxConfigRules = (4096 :: nat)"
definition "maxConfigGroups = (1024 :: nat)"
definition "maxConfigListValues = (4096 :: nat)"
definition "maxConfigValueBytes = (8192 :: nat)"
definition "maxConfigListeners = (256 :: nat)"
definition "maxPoolConfigBytes = (8388608 :: nat)"
definition "maxSourceURLBytes = (8192 :: nat)"
definition "maxSourceNameBytes = (256 :: nat)"
definition "minSourceRefreshIntervalSeconds = (60 :: int)"
definition "maxSourceRefreshIntervalSeconds = (604800 :: int)"

lemmas config_limits = maxConfigRules_def maxConfigGroups_def maxConfigListValues_def
  maxConfigValueBytes_def maxConfigListeners_def maxPoolConfigBytes_def maxSourceURLBytes_def
  maxSourceNameBytes_def minSourceRefreshIntervalSeconds_def maxSourceRefreshIntervalSeconds_def

section \<open>URLs and node keys\<close>

definition port_ok :: "string \<Rightarrow> bool" where
  "port_ok port \<longleftrightarrow> port = [] \<or> (case parse_uint 16 port of None \<Rightarrow> False | Some n \<Rightarrow> n \<noteq> 0)"

definition validateCheckURL :: "(string \<Rightarrow> url option) \<Rightarrow> string \<Rightarrow> config_error option" where
  "validateCheckURL parse raw0 =
     (let raw = trim_space raw0 in
      if raw = [] then Some (Invalid ''url is required'')
      else if maxSourceURLBytes < length raw then Some (Limit ''url'')
      else case parse raw of
          None \<Rightarrow> Some (Invalid ''url'')
        | Some u \<Rightarrow>
            if uScheme u \<noteq> ''http'' \<and> uScheme u \<noteq> ''https'' \<or> uHost u = [] \<or> uHostname u = []
            then Some (Invalid ''url'')
            else if uHasUser u then Some (Invalid ''embedded username'')
            else if uFragment u \<noteq> [] then Some (Invalid ''fragment'')
            else if \<not> port_ok (uPort u) then Some (Invalid ''port'')
            else None)"

text \<open>strings.Trim with the cutset \<open>[]\<close>.\<close>

definition trim_brackets :: "string \<Rightarrow> string" where
  "trim_brackets s =
     (let b = (\<lambda>c. c = CHR ''['' \<or> c = CHR '']'') in rev (dropWhile b (rev (dropWhile b s))))"

definition validateSourceURL ::
    "(string \<Rightarrow> url option) \<Rightarrow> string \<Rightarrow> bool \<Rightarrow> config_error option" where
  "validateSourceURL parse raw allow_private =
     (case parse (trim_space raw) of
        None \<Rightarrow> Some (Invalid ''source url'')
      | Some u \<Rightarrow>
          if uOpaque u \<noteq> [] \<or> uScheme u \<noteq> ''http'' \<and> uScheme u \<noteq> ''https'' \<or> uHost u = [] \<or> uHostname u = []
          then Some (Invalid ''source url'')
          else if uFragment u \<noteq> [] then Some (Invalid ''fragment'')
          else if \<not> port_ok (uPort u) then Some (Invalid ''port'')
          else (case parse_ip (trim_brackets (uHostname u)) of
                  None \<Rightarrow> None
                | Some ip \<Rightarrow> if \<not> allow_private \<and> \<not> isPublicInternetIP ip
                             then Some (Refused ''private source url'') else None))"

definition canonicalProxyKey :: "(string \<Rightarrow> url option) \<Rightarrow> string \<Rightarrow> string option" where
  "canonicalProxyKey parse raw0 =
     (let raw = trim_space raw0 in
      case parse raw of
        None \<Rightarrow> None
      | Some u \<Rightarrow>
          if uOpaque u \<noteq> [] \<or> uHasUser u \<or> uHostname u = [] then None
          else if uPath u \<noteq> [] \<or> uRawPath u \<noteq> [] \<or> uRawQuery u \<noteq> [] \<or> uForceQuery u \<or>
                  uFragment u \<noteq> [] \<or> CHR ''#'' \<in> set raw then None
          else (case canonicalProxyEndpointKey (uScheme u) (uHostname u) (uPort u) of
                  Inl _ \<Rightarrow> None | Inr key \<Rightarrow> Some key))"

definition canonicalListenerNodeKey :: "(string \<Rightarrow> url option) \<Rightarrow> string \<Rightarrow> string option" where
  "canonicalListenerNodeKey parse key =
     (case canonicalProxyKey parse key of
        None \<Rightarrow> None
      | Some c \<Rightarrow> (case cut ''://'' c of
            None \<Rightarrow> None
          | Some (scheme, _) \<Rightarrow> if isForwardingProtocol scheme then Some c else None))"

section \<open>Validation\<close>

definition hasLogControlCharacters :: "string \<Rightarrow> bool" where
  "hasLogControlCharacters v = list_ex (\<lambda>c. byte_of c < 32 \<or> byte_of c = 127) v"

definition bad_value :: "string \<Rightarrow> bool" where
  "bad_value v \<longleftrightarrow> maxConfigValueBytes < length v \<or> hasLogControlCharacters v"

definition schedule_ok :: "int \<Rightarrow> bool" where
  "schedule_ok s \<longleftrightarrow> s = 0 \<or> minSourceRefreshIntervalSeconds \<le> s \<and> s \<le> maxSourceRefreshIntervalSeconds"

definition validateScheduleIntervalSeconds :: "string \<Rightarrow> int \<Rightarrow> config_error option" where
  "validateScheduleIntervalSeconds name s = (if schedule_ok s then None else Some (Invalid name))"

definition validImportedSourceID :: "string \<Rightarrow> bool" where
  "validImportedSourceID i \<longleftrightarrow> has_prefix ''src-'' i \<and> length i \<le> maxConfigValueBytes \<and>
     list_all (\<lambda>c. is_lower c \<or> is_upper c \<or> is_digit c \<or> c = CHR ''-'' \<or> c = CHR ''_'') i"

definition validateSourceDefinition ::
    "(string \<Rightarrow> url option) \<Rightarrow> source \<Rightarrow> config_error + source" where
  "validateSourceDefinition parse s0 =
     (let s = s0\<lparr>srName := trim_space (srName s0), srKind := to_lower (trim_space (srKind s0)),
                 srURL := trim_space (srURL s0), srFormat := to_lower (trim_space (srFormat s0)),
                 srProtocol := to_lower (trim_space (srProtocol s0))\<rparr>;
          kind = (if srKind s = [] then SourceKindRemote else srKind s)
      in
      if \<not> schedule_ok (srRefreshInterval s) then Inl (Invalid ''refresh interval'')
      else if srName s = [] then Inl (Missing ''name'')
      else if maxSourceNameBytes < length (srName s) \<or> hasLogControlCharacters (srName s)
      then Inl (Invalid ''source name'')
      else if maxSourceURLBytes < length (srURL s) then Inl (Limit ''source url'')
      else if kind = SourceKindUpload then
        (if srURL s \<noteq> [] then Inl (Invalid ''uploaded source url'')
         else if srFormat s \<noteq> FormatTextRegex \<or> srProtocol s \<noteq> [] then Inl (Invalid ''uploaded format'')
         else if srAllowPrivate s \<or> srBuiltin s then Inl (Invalid ''uploaded flags'')
         else Inr s)
      else if kind \<noteq> SourceKindRemote then Inl (Invalid ''kind'')
      else if srURL s = [] then Inl (Missing ''url'')
      else case validateSourceURL parse (srURL s) (srAllowPrivate s) of
          Some e \<Rightarrow> Inl e
        | None \<Rightarrow>
            if srFormat s \<in> set [FormatTextRegex, ''edt-json'', ''proxyip-json''] then Inr s
            else if srFormat s \<in> set [''plain-list'', ''json-array''] then
              (if isForwardingProtocol (srProtocol s) then Inr s else Inl (Invalid ''protocol''))
            else Inl (Invalid ''format''))"

definition validListenerMode :: "string \<Rightarrow> bool" where
  "validListenerMode m \<longleftrightarrow> m \<in> set [ListenerModeGroup, ListenerModeFixed, ListenerModeRules]"

definition trim_listener :: "listener \<Rightarrow> listener" where
  "trim_listener l = l\<lparr>lsName := trim_space (lsName l), lsMode := to_lower (trim_space (lsMode l)),
     lsGroup := trim_space (lsGroup l), lsNodeKey := trim_space (lsNodeKey l)\<rparr>"

definition validateListenerBinding ::
    "(string \<Rightarrow> url option) \<Rightarrow> group list \<Rightarrow> listener \<Rightarrow> bool \<Rightarrow> config_error + listener" where
  "validateListenerBinding parse groups l0 allow_empty_id =
     (let l = (trim_listener l0)\<lparr>lsID := trim_space (lsID l0)\<rparr> in
      if list_ex bad_value [lsID l, lsName l, lsMode l, lsGroup l, lsNodeKey l]
      then Inl (Invalid ''listener value'')
      else if \<not> allow_empty_id \<and> lsID l = [] \<or> lsID l \<noteq> trim_space (lsID l) then Inl (Missing ''id'')
      else if lsName l = [] then Inl (Missing ''name'')
      else if lsPort l < 1 \<or> 65535 < lsPort l then Inl (Invalid ''port'')
      else if \<not> validListenerMode (lsMode l) then Inl (Invalid ''mode'')
      else if lsMode l = ListenerModeGroup then
        (if lsGroup l = [] then Inl (Missing ''group'')
         else case resolveGroupReference (lsGroup l) groups of
             None \<Rightarrow> Inl (Missing ''listener group'')
           | Some r \<Rightarrow>
               if lsNodeKey l \<noteq> [] then Inl (Invalid ''node_key'')
               else Inr (l\<lparr>lsGroup := rrCanonical r\<rparr>))
      else if lsMode l = ListenerModeFixed then
        (if lsNodeKey l = [] then Inl (Missing ''node_key'')
         else case canonicalListenerNodeKey parse (lsNodeKey l) of
             None \<Rightarrow> Inl (Invalid ''node_key'')
           | Some key \<Rightarrow>
               if lsGroup l \<noteq> [] then Inl (Invalid ''group'')
               else Inr (l\<lparr>lsNodeKey := key\<rparr>))
      else if lsGroup l \<noteq> [] \<or> lsNodeKey l \<noteq> [] then Inl (Invalid ''rules mode'')
      else Inr l)"

fun validate_sources ::
    "(string \<Rightarrow> url option) \<Rightarrow> string set \<Rightarrow> source list \<Rightarrow> config_error + source list" where
  "validate_sources parse seen [] = Inr []"
| "validate_sources parse seen (s # ss) =
     (if trim_space (srID s) = [] \<or> srID s \<noteq> trim_space (srID s) \<or> bad_value (srID s)
      then Inl (Invalid ''source id'')
      else if srID s \<in> seen then Inl (Duplicate ''source id'')
      else case validateSourceDefinition parse s of
          Inl e \<Rightarrow> Inl e
        | Inr n \<Rightarrow>
            if srKind n = SourceKindUpload \<and> \<not> validImportedSourceID (srID n)
            then Inl (Invalid ''uploaded source id'')
            else if bad_value (srNote s) then Inl (Invalid ''note'')
            else map_sum id ((#) n) (validate_sources parse (insert (srID s) seen) ss))"

definition bad_rule :: "rule \<Rightarrow> bool" where
  "bad_rule r = list_ex bad_value [rlID r, rlType r, rlValue r, rlGroup r]"

fun validate_groups :: "group list \<Rightarrow> group list \<Rightarrow> config_error option" where
  "validate_groups prev [] = None"
| "validate_groups prev (g # gs) =
     (if list_ex bad_value [grID g, grName g, grStrategy g] then Some (Invalid ''group value'')
      else if list_ex (\<lambda>p. grID p = grID g) prev then Some (Duplicate ''group id'')
      else if list_ex (\<lambda>p. equal_fold (grName p) (grName g)) prev then Some (Duplicate ''group name'')
      else if list_ex (\<lambda>vs. maxConfigListValues < length vs \<or> list_ex bad_value vs)
                [grCountries g, grProtocols g, grSources g, grNodes g]
      then Some (Invalid ''group list'')
      else validate_groups (prev @ [g]) gs)"

fun canonical_rules :: "group list \<Rightarrow> rule list \<Rightarrow> config_error + rule list" where
  "canonical_rules groups [] = Inr []"
| "canonical_rules groups (r # rs) =
     (if trim_space (rlGroup r) = [] then Inl (Missing ''rule group'')
      else case resolveGroupReference (rlGroup r) groups of
          None \<Rightarrow> Inl (Missing ''routing target'')
        | Some t \<Rightarrow> map_sum id ((#) (r\<lparr>rlGroup := rrCanonical t\<rparr>)) (canonical_rules groups rs))"

fun validate_listeners ::
    "(string \<Rightarrow> url option) \<Rightarrow> group list \<Rightarrow> string set \<Rightarrow> int set \<Rightarrow> listener list \<Rightarrow>
     config_error + listener list" where
  "validate_listeners parse groups ids ports [] = Inr []"
| "validate_listeners parse groups ids ports (l # ls) =
     (case validateListenerBinding parse groups l False of
        Inl e \<Rightarrow> Inl e
      | Inr n \<Rightarrow>
          if lsID n \<in> ids then Inl (Duplicate ''listener id'')
          else if lsPort n \<in> ports then Inl (Duplicate ''listener port'')
          else map_sum id ((#) n)
                 (validate_listeners parse groups (insert (lsID n) ids) (insert (lsPort n) ports) ls))"

text \<open>
  validatePersistedPoolConfig: it normalizes the configuration in place while it checks it, so
  it returns the normalized one.
\<close>

definition validatePersistedPoolConfig ::
    "(string \<Rightarrow> url option) \<Rightarrow> pool_config \<Rightarrow> config_error + pool_config" where
  "validatePersistedPoolConfig parse c =
     (if \<not> schedule_ok (cfSourceRefresh c) then Inl (Invalid ''source_refresh_interval_seconds'')
      else if \<not> schedule_ok (cfFullRecheck c) then Inl (Invalid ''full_recheck_interval_seconds'')
      else if maxConfiguredSources < length (cfSources c) then Inl (Limit ''sources'')
      else case validate_sources parse {} (cfSources c) of
        Inl e \<Rightarrow> Inl e
      | Inr ss \<Rightarrow>
      if maxConfigRules < length (cfRules c) then Inl (Limit ''rules'')
      else if list_ex bad_rule (cfRules c) then Inl (Invalid ''rule value'')
      else if maxConfigGroups < length (cfGroups c) then Inl (Limit ''groups'')
      else case validate_groups [] (cfGroups c) of
        Some e \<Rightarrow> Inl e
      | None \<Rightarrow>
      (case canonical_rules (cfGroups c) (cfRules c) of
        Inl e \<Rightarrow> Inl e
      | Inr rs \<Rightarrow>
      if maxConfigListeners < length (cfListeners c) then Inl (Limit ''listeners'')
      else case validate_listeners parse (cfGroups c) {} {} (cfListeners c) of
        Inl e \<Rightarrow> Inl e
      | Inr ls \<Rightarrow>
          let c' = c\<lparr>cfSources := ss, cfRules := rs, cfListeners := ls\<rparr> in
          if cfCheckURL c = [] then Inr c'
          else case validateCheckURL parse (trim_space (cfCheckURL c)) of
              Some e \<Rightarrow> Inl e
            | None \<Rightarrow> Inr (c'\<lparr>cfCheckURL := trim_space (cfCheckURL c)\<rparr>)))"

section \<open>The transaction\<close>

text \<open>
  writeConfigLocked receives the configuration by value, but its slices are shared with the
  caller: the validation it repeats also writes through to the elements that mutate is about
  to publish. It returns the configuration that reached the file, if the rename happened.
\<close>

definition writeConfigLocked :: "config_env \<Rightarrow> pool_config \<Rightarrow> config_error option \<times> pool_config option" where
  "writeConfigLocked env cfg =
     (case validatePersistedPoolConfig (ceParse env) cfg of
        Inl e \<Rightarrow> (Some e, None)
      | Inr c \<Rightarrow>
          (case ceEncode env c of
             None \<Rightarrow> (Some EncodeFailed, None)
           | Some n \<Rightarrow>
               if maxPoolConfigBytes < n then (Some ConfigTooLarge, None)
               else case ceOutcome env of
                   Committed \<Rightarrow> (None, Some c)
                 | NotCommitted \<Rightarrow> (Some (Persistence NotCommitted), None)
                 | DurabilityUncertain \<Rightarrow> (Some (Persistence DurabilityUncertain), Some c)))"

definition share_slices :: "pool_config \<Rightarrow> pool_config \<Rightarrow> pool_config" where
  "share_slices next written =
     next\<lparr>cfSources := cfSources written, cfRules := cfRules written, cfListeners := cfListeners written\<rparr>"

definition mutate ::
    "config_env \<Rightarrow> (pool_config \<Rightarrow> config_error + pool_config) \<Rightarrow> config_store \<Rightarrow>
     config_store \<times> config_error option" where
  "mutate env f cs =
     (case f (csCfg cs) of
        Inl e \<Rightarrow> (cs, Some e)
      | Inr next0 \<Rightarrow>
          (case validatePersistedPoolConfig (ceParse env) next0 of
             Inl e \<Rightarrow> (cs, Some e)
           | Inr next \<Rightarrow>
               (case writeConfigLocked env next of
                  (err, None) \<Rightarrow> (cs, err)
                | (err, Some written) \<Rightarrow>
                    (\<lparr>csCfg = share_slices next written, csDisk = written\<rparr>, err))))"

section \<open>Rules\<close>

definition insert_before_match :: "rule \<Rightarrow> rule list \<Rightarrow> rule list" where
  "insert_before_match r rules =
     insert_at (case find_index (\<lambda>x. rlType x = RuleMatch) rules of Some i \<Rightarrow> i | None \<Rightarrow> length rules) r rules"

definition AddRule ::
    "config_env \<Rightarrow> string \<Rightarrow> rule \<Rightarrow> config_store \<Rightarrow> config_store \<times> config_error option" where
  "AddRule env gid r cs =
     (if \<not> validRuleType (rlType r) then (cs, Some (Invalid ''rule type''))
      else if rlType r = RuleMatch then (cs, Some (Refused ''MATCH''))
      else if rlValue r = [] then (cs, Some (Missing ''value''))
      else if rlType r = RuleIPCIDR \<and> parse_cidr (rlValue r) = None then (cs, Some (Invalid ''CIDR''))
      else if rlType r = RuleGeosite \<and> \<not> validGeositeCategory (rlValue r)
      then (cs, Some (Invalid ''GEOSITE''))
      else if trim_space (rlGroup r) = [] then (cs, Some (Missing ''group''))
      else mutate env (\<lambda>c.
        case resolveGroupReference (rlGroup r) (cfGroups c) of
          None \<Rightarrow> Inl (Missing ''routing target'')
        | Some t \<Rightarrow> Inr (c\<lparr>cfRules := insert_before_match (r\<lparr>rlID := gid, rlGroup := rrCanonical t\<rparr>) (cfRules c)\<rparr>)) cs)"

definition delete_rule :: "string \<Rightarrow> pool_config \<Rightarrow> config_error + pool_config" where
  "delete_rule rid c =
     (case find_index (\<lambda>r. rlID r = rid) (cfRules c) of
        None \<Rightarrow> Inl (Missing ''rule'')
      | Some i \<Rightarrow>
          if rlType (cfRules c ! i) = RuleMatch then Inl (Refused ''MATCH'')
          else Inr (c\<lparr>cfRules := delete_at i (cfRules c)\<rparr>))"

definition DeleteRule ::
    "config_env \<Rightarrow> string \<Rightarrow> config_store \<Rightarrow> config_store \<times> config_error option" where
  "DeleteRule env rid = mutate env (delete_rule rid)"

definition swap_at :: "nat \<Rightarrow> nat \<Rightarrow> 'a list \<Rightarrow> 'a list" where
  "swap_at i j xs = (xs[i := xs ! j])[j := xs ! i]"

definition move_rule :: "string \<Rightarrow> int \<Rightarrow> pool_config \<Rightarrow> config_error + pool_config" where
  "move_rule rid delta c =
     (case find_index (\<lambda>r. rlID r = rid) (cfRules c) of
        None \<Rightarrow> Inl (Missing ''rule'')
      | Some i \<Rightarrow>
          let j = int i + delta in
          if j < 0 \<or> int (length (cfRules c)) \<le> j then Inr c
          else if rlType (cfRules c ! i) = RuleMatch \<or> rlType (cfRules c ! nat j) = RuleMatch
          then Inl (Refused ''MATCH'')
          else Inr (c\<lparr>cfRules := swap_at i (nat j) (cfRules c)\<rparr>))"

definition MoveRule ::
    "config_env \<Rightarrow> string \<Rightarrow> int \<Rightarrow> config_store \<Rightarrow> config_store \<times> config_error option" where
  "MoveRule env rid delta = mutate env (move_rule rid delta)"

definition set_default_group :: "string \<Rightarrow> string \<Rightarrow> pool_config \<Rightarrow> config_error + pool_config" where
  "set_default_group gid g c =
     (case resolveGroupReference g (cfGroups c) of
        None \<Rightarrow> Inl (Missing ''routing target'')
      | Some t \<Rightarrow>
          (case find_index (\<lambda>r. rlType r = RuleMatch) (cfRules c) of
             Some i \<Rightarrow> Inr (c\<lparr>cfRules := (cfRules c)[i := (cfRules c ! i)\<lparr>rlGroup := rrCanonical t\<rparr>]\<rparr>)
           | None \<Rightarrow> Inr (c\<lparr>cfRules := cfRules c @
               [\<lparr>rlID = gid, rlType = RuleMatch, rlValue = [], rlGroup = rrCanonical t\<rparr>]\<rparr>)))"

definition SetDefaultGroup ::
    "config_env \<Rightarrow> string \<Rightarrow> string \<Rightarrow> config_store \<Rightarrow> config_store \<times> config_error option" where
  "SetDefaultGroup env gid g cs =
     (if trim_space g = [] then (cs, Some (Missing ''group'')) else mutate env (set_default_group gid g) cs)"

definition gfw_preset :: "(nat \<Rightarrow> string) \<Rightarrow> rule list" where
  "gfw_preset gid =
     [\<lparr>rlID = gid 0, rlType = RuleIPCIDR, rlValue = ''127.0.0.0/8'', rlGroup = GroupDirect\<rparr>,
      \<lparr>rlID = gid 1, rlType = RuleIPCIDR, rlValue = ''10.0.0.0/8'', rlGroup = GroupDirect\<rparr>,
      \<lparr>rlID = gid 2, rlType = RuleIPCIDR, rlValue = ''172.16.0.0/12'', rlGroup = GroupDirect\<rparr>,
      \<lparr>rlID = gid 3, rlType = RuleIPCIDR, rlValue = ''192.168.0.0/16'', rlGroup = GroupDirect\<rparr>,
      \<lparr>rlID = gid 4, rlType = RuleGeosite, rlValue = GeositeCN, rlGroup = GroupDirect\<rparr>,
      \<lparr>rlID = gid 5, rlType = RuleGeosite, rlValue = GeositeGFW, rlGroup = GroupAny\<rparr>,
      \<lparr>rlID = gid 6, rlType = RuleMatch, rlValue = [], rlGroup = GroupAny\<rparr>]"

definition InstallGFWPreset ::
    "config_env \<Rightarrow> (nat \<Rightarrow> string) \<Rightarrow> config_store \<Rightarrow> config_store \<times> config_error option" where
  "InstallGFWPreset env gid = mutate env (\<lambda>c. Inr (c\<lparr>cfRules := gfw_preset gid\<rparr>))"

section \<open>Groups\<close>

definition known_strategy :: "string \<Rightarrow> bool" where
  "known_strategy s \<longleftrightarrow>
     s \<in> set [''sticky'', ''round-robin'', ''random'', ''latency'', ''speed'', ''score'']"

definition AddGroup ::
    "config_env \<Rightarrow> string \<Rightarrow> group \<Rightarrow> config_store \<Rightarrow> config_store \<times> config_error option" where
  "AddGroup env gid g0 cs =
     (let name = trim_space (grName g0);
          strategy = (if grStrategy g0 = [] then ''sticky'' else grStrategy g0);
          g = g0\<lparr>grID := gid, grName := name, grStrategy := strategy\<rparr>
      in
      if name = [] then (cs, Some (Missing ''name''))
      else if equal_fold name GroupAny \<or> equal_fold name GroupDirect then (cs, Some (Refused ''reserved''))
      else if length countryGroupPrefix \<le> length name \<and>
              equal_fold (take (length countryGroupPrefix) name) countryGroupPrefix
      then (cs, Some (Refused ''country namespace''))
      else if \<not> known_strategy strategy then (cs, Some (Invalid ''strategy''))
      else mutate env (\<lambda>c.
        if list_ex (\<lambda>h. equal_fold (grName h) name) (cfGroups c) then Inl (Duplicate ''group'')
        else Inr (c\<lparr>cfGroups := cfGroups c @ [g]\<rparr>)) cs)"

definition SetGroupStrategy ::
    "config_env \<Rightarrow> string \<Rightarrow> string \<Rightarrow> config_store \<Rightarrow> config_store \<times> config_error option" where
  "SetGroupStrategy env gid strategy cs =
     (if \<not> known_strategy strategy then (cs, Some (Invalid ''strategy''))
      else mutate env (\<lambda>c.
        case find_index (\<lambda>g. grID g = gid) (cfGroups c) of
          None \<Rightarrow> Inl (Missing ''group'')
        | Some i \<Rightarrow> Inr (c\<lparr>cfGroups := (cfGroups c)[i := (cfGroups c ! i)\<lparr>grStrategy := strategy\<rparr>]\<rparr>)) cs)"

text \<open>Whether a reference resolves to the named group with the identifier.\<close>

definition refers_to :: "group list \<Rightarrow> string \<Rightarrow> string \<Rightarrow> bool" where
  "refers_to groups gid ref =
     (case resolveGroupReference ref groups of
        None \<Rightarrow> False
      | Some t \<Rightarrow> (case rrGroup t of None \<Rightarrow> False | Some g \<Rightarrow> grID g = gid))"

definition delete_group :: "string \<Rightarrow> pool_config \<Rightarrow> config_error + pool_config" where
  "delete_group gid c =
     (case find_index (\<lambda>g. grID g = gid) (cfGroups c) of
        None \<Rightarrow> Inl (Missing ''group'')
      | Some i \<Rightarrow>
          if list_ex (\<lambda>r. refers_to (cfGroups c) gid (rlGroup r)) (cfRules c)
          then Inl (Refused ''referenced by a rule'')
          else if list_ex (\<lambda>l. lsMode l = ListenerModeGroup \<and> refers_to (cfGroups c) gid (lsGroup l))
                    (cfListeners c)
          then Inl (Refused ''referenced by a listener'')
          else Inr (c\<lparr>cfGroups := delete_at i (cfGroups c)\<rparr>))"

definition DeleteGroup ::
    "config_env \<Rightarrow> string \<Rightarrow> config_store \<Rightarrow> config_store \<times> config_error option" where
  "DeleteGroup env gid = mutate env (delete_group gid)"

section \<open>Sources\<close>

definition SetSourceAutoRefresh ::
    "config_env \<Rightarrow> string \<Rightarrow> bool \<Rightarrow> int \<Rightarrow> config_store \<Rightarrow> config_store \<times> config_error option" where
  "SetSourceAutoRefresh env sid enabled interval cs =
     (if \<not> schedule_ok interval then (cs, Some (Invalid ''refresh interval''))
      else mutate env (\<lambda>c.
        case find_index (\<lambda>s. srID s = sid) (cfSources c) of
          None \<Rightarrow> Inl (Missing ''source'')
        | Some i \<Rightarrow> Inr (c\<lparr>cfSources := (cfSources c)[i :=
            (cfSources c ! i)\<lparr>srAutoRefresh := enabled, srRefreshInterval := interval\<rparr>]\<rparr>)) cs)"

definition AddSource ::
    "config_env \<Rightarrow> string \<Rightarrow> source \<Rightarrow> config_store \<Rightarrow> config_store \<times> config_error option" where
  "AddSource env gid s0 cs =
     (let s1 = (if trim_space (srKind s0) = [] then s0\<lparr>srKind := SourceKindRemote\<rparr> else s0) in
      case validateSourceDefinition (ceParse env) s1 of
        Inl e \<Rightarrow> (cs, Some e)
      | Inr v \<Rightarrow>
          if srKind v = SourceKindUpload then (cs, Some (Refused ''uploaded source''))
          else let s = v\<lparr>srID := gid, srBuiltin := False, srEnabled := True, srAutoRefresh := True\<rparr> in
          mutate env (\<lambda>c.
            if maxConfiguredSources \<le> length (cfSources c) then Inl (Limit ''sources'')
            else if list_ex (\<lambda>x. srURL x = srURL s) (cfSources c) then Inl (Duplicate ''source URL'')
            else Inr (c\<lparr>cfSources := cfSources c @ [s]\<rparr>)) cs)"

definition delete_source :: "string \<Rightarrow> pool_config \<Rightarrow> config_error + pool_config" where
  "delete_source sid c =
     (case find_index (\<lambda>s. srID s = sid) (cfSources c) of
        None \<Rightarrow> Inl (Missing ''source'')
      | Some i \<Rightarrow> Inr (c\<lparr>cfSources := delete_at i (cfSources c)\<rparr>))"

text \<open>
  DeleteSource: \<open>unlink\<close> is what removing the uploaded file reports. The file is touched only
  after the configuration was written, and only for an uploaded source.
\<close>

definition DeleteSource ::
    "config_env \<Rightarrow> (source \<Rightarrow> config_error option) \<Rightarrow> string \<Rightarrow> config_store \<Rightarrow>
     config_store \<times> config_error option" where
  "DeleteSource env unlink sid cs =
     (case mutate env (delete_source sid) cs of
        (cs', Some e) \<Rightarrow> (cs', Some e)
      | (cs', None) \<Rightarrow>
          (case find (\<lambda>s. srID s = sid) (cfSources (csCfg cs)) of
             None \<Rightarrow> (cs', None)
           | Some s \<Rightarrow> (cs', if srKind s = SourceKindUpload then unlink s else None)))"

definition toggle_source :: "string \<Rightarrow> bool \<Rightarrow> pool_config \<Rightarrow> config_error + pool_config" where
  "toggle_source sid enabled c =
     (case find_index (\<lambda>s. srID s = sid) (cfSources c) of
        None \<Rightarrow> Inl (Missing ''source'')
      | Some i \<Rightarrow>
          let s = cfSources c ! i in
          if srEnabled s \<noteq> enabled
          then Inr (c\<lparr>cfSources := (cfSources c)[i := s\<lparr>srEnabled := enabled, srRevision := srRevision s + 1\<rparr>]\<rparr>)
          else Inr c)"

definition ToggleSource ::
    "config_env \<Rightarrow> string \<Rightarrow> bool \<Rightarrow> config_store \<Rightarrow> config_store \<times> config_error option" where
  "ToggleSource env sid enabled = mutate env (toggle_source sid enabled)"

definition SetCheckURL ::
    "config_env \<Rightarrow> string \<Rightarrow> config_store \<Rightarrow> config_store \<times> config_error option" where
  "SetCheckURL env raw0 cs =
     (let raw = trim_space raw0 in
      case validateCheckURL (ceParse env) raw of
        Some e \<Rightarrow> (cs, Some e)
      | None \<Rightarrow> mutate env (\<lambda>c. Inr (c\<lparr>cfCheckURL := raw\<rparr>)) cs)"

section \<open>Listeners\<close>

definition validateListenerBindingForAdd :: "listener \<Rightarrow> config_error + listener" where
  "validateListenerBindingForAdd l0 =
     (let l = trim_listener l0 in
      if lsName l = [] then Inl (Missing ''name'')
      else if lsPort l < 1 \<or> 65535 < lsPort l then Inl (Invalid ''port'')
      else if \<not> validListenerMode (lsMode l) then Inl (Invalid ''mode'')
      else if list_ex bad_value [lsName l, lsGroup l, lsNodeKey l] then Inl (Invalid ''listener value'')
      else Inr l)"

definition lookupListener :: "string \<Rightarrow> config_store \<Rightarrow> config_error + listener" where
  "lookupListener lid cs =
     (case find (\<lambda>l. lsID l = lid) (cfListeners (csCfg cs)) of
        Some l \<Rightarrow> Inr l | None \<Rightarrow> Inl (Missing ''listener after write''))"

definition finish_listener ::
    "string \<Rightarrow> config_store \<times> config_error option \<Rightarrow> config_store \<times> (config_error + listener)" where
  "finish_listener lid r =
     (case r of (cs, Some e) \<Rightarrow> (cs, Inl e) | (cs, None) \<Rightarrow> (cs, lookupListener lid cs))"

definition add_listener ::
    "(string \<Rightarrow> url option) \<Rightarrow> listener \<Rightarrow> pool_config \<Rightarrow> config_error + pool_config" where
  "add_listener parse l c =
     (if maxConfigListeners \<le> length (cfListeners c) then Inl (Limit ''listeners'')
      else if list_ex (\<lambda>x. lsPort x = lsPort l) (cfListeners c) then Inl (Duplicate ''port'')
      else case validateListenerBinding parse (cfGroups c) l False of
          Inl e \<Rightarrow> Inl e
        | Inr n \<Rightarrow> Inr (c\<lparr>cfListeners := cfListeners c @ [n]\<rparr>))"

definition AddListener ::
    "config_env \<Rightarrow> string \<Rightarrow> listener \<Rightarrow> config_store \<Rightarrow> config_store \<times> (config_error + listener)" where
  "AddListener env gid l0 cs =
     (case validateListenerBindingForAdd (l0\<lparr>lsID := gid\<rparr>) of
        Inl e \<Rightarrow> (cs, Inl e)
      | Inr l \<Rightarrow> finish_listener gid (mutate env (add_listener (ceParse env) l) cs))"

definition update_listener ::
    "(string \<Rightarrow> url option) \<Rightarrow> listener \<Rightarrow> pool_config \<Rightarrow> config_error + pool_config" where
  "update_listener parse l c =
     (case find_index (\<lambda>x. lsID x = lsID l) (cfListeners c) of
        None \<Rightarrow> Inl (Missing ''listener'')
      | Some i \<Rightarrow>
          if list_ex (\<lambda>x. lsPort x = lsPort l) (delete_at i (cfListeners c)) then Inl (Duplicate ''port'')
          else case validateListenerBinding parse (cfGroups c) l False of
              Inl e \<Rightarrow> Inl e
            | Inr n \<Rightarrow> Inr (c\<lparr>cfListeners := (cfListeners c)[i := n]\<rparr>))"

definition UpdateListener ::
    "config_env \<Rightarrow> listener \<Rightarrow> config_store \<Rightarrow> config_store \<times> (config_error + listener)" where
  "UpdateListener env l0 cs =
     (let lid = trim_space (lsID l0) in
      if lid = [] then (cs, Inl (Missing ''id''))
      else case validateListenerBindingForAdd (l0\<lparr>lsID := lid\<rparr>) of
          Inl e \<Rightarrow> (cs, Inl e)
        | Inr l \<Rightarrow> finish_listener lid (mutate env (update_listener (ceParse env) l) cs))"

definition delete_listener :: "string \<Rightarrow> pool_config \<Rightarrow> config_error + pool_config" where
  "delete_listener lid c =
     (case find_index (\<lambda>l. lsID l = lid) (cfListeners c) of
        None \<Rightarrow> Inl (Missing ''listener'')
      | Some i \<Rightarrow> Inr (c\<lparr>cfListeners := delete_at i (cfListeners c)\<rparr>))"

definition DeleteListener ::
    "config_env \<Rightarrow> string \<Rightarrow> config_store \<Rightarrow> config_store \<times> config_error option" where
  "DeleteListener env lid0 cs =
     (let lid = trim_space lid0 in
      if lid = [] then (cs, Some (Missing ''id'')) else mutate env (delete_listener lid) cs)"

text \<open>The loop of ReplaceListeners before its transaction.\<close>

fun normalize_listeners :: "string set \<Rightarrow> int set \<Rightarrow> listener list \<Rightarrow> config_error + listener list" where
  "normalize_listeners ids ports [] = Inr []"
| "normalize_listeners ids ports (l0 # ls) =
     (let l = (trim_listener l0)\<lparr>lsID := trim_space (lsID l0)\<rparr> in
      if lsID l = [] then Inl (Missing ''id'')
      else if lsID l \<in> ids then Inl (Duplicate ''listener id'')
      else if lsPort l \<in> ports then Inl (Duplicate ''listener port'')
      else map_sum id ((#) l) (normalize_listeners (insert (lsID l) ids) (insert (lsPort l) ports) ls))"

fun finalize_listeners ::
    "(string \<Rightarrow> url option) \<Rightarrow> group list \<Rightarrow> listener list \<Rightarrow> config_error + listener list" where
  "finalize_listeners parse groups [] = Inr []"
| "finalize_listeners parse groups (l # ls) =
     (case validateListenerBinding parse groups l False of
        Inl e \<Rightarrow> Inl e
      | Inr n \<Rightarrow> map_sum id ((#) n) (finalize_listeners parse groups ls))"

definition ReplaceListeners ::
    "config_env \<Rightarrow> listener list \<Rightarrow> config_store \<Rightarrow> config_store \<times> config_error option" where
  "ReplaceListeners env ls cs =
     (if maxConfigListeners < length ls then (cs, Some (Limit ''listeners''))
      else case normalize_listeners {} {} ls of
          Inl e \<Rightarrow> (cs, Some e)
        | Inr ns \<Rightarrow> mutate env (\<lambda>c.
            case finalize_listeners (ceParse env) (cfGroups c) ns of
              Inl e \<Rightarrow> Inl e
            | Inr fs \<Rightarrow> Inr (c\<lparr>cfListeners := fs\<rparr>)) cs)"

section \<open>Runtime options\<close>

record runtime_update =
  ruMaxConcurrent :: "int option"
  ruCheckTimeout :: "int option"
  ruMaxCandidates :: "int option"
  ruSourceRefresh :: "int option"
  ruFullRecheck :: "int option"
  ruRequireIPChange :: "bool option"
  ruClearRequireIPChange :: bool
  ruAutoCandidateCheck :: "bool option"
  ruClearAutoCandidateCheck :: bool
  ruAutoCheckInterval :: "int option"

definition option_in :: "int \<Rightarrow> int \<Rightarrow> int option \<Rightarrow> bool" where
  "option_in lo hi v = (case v of None \<Rightarrow> True | Some n \<Rightarrow> n = 0 \<or> lo \<le> n \<and> n \<le> hi)"

definition check_runtime_update :: "runtime_update \<Rightarrow> config_error option" where
  "check_runtime_update u =
     (if \<not> option_in 1 512 (ruMaxConcurrent u) then Some (Invalid ''max_concurrent'')
      else if \<not> option_in 2 120 (ruCheckTimeout u) then Some (Invalid ''check_timeout_seconds'')
      else if \<not> option_in 100 100000 (ruMaxCandidates u) then Some (Invalid ''max_candidates'')
      else if \<not> option_in minSourceRefreshIntervalSeconds maxSourceRefreshIntervalSeconds (ruSourceRefresh u)
      then Some (Invalid ''source_refresh_interval_seconds'')
      else if \<not> option_in minSourceRefreshIntervalSeconds maxSourceRefreshIntervalSeconds (ruFullRecheck u)
      then Some (Invalid ''full_recheck_interval_seconds'')
      else if \<not> option_in 0 3600 (ruAutoCheckInterval u) then Some (Invalid ''auto_check_interval_seconds'')
      else None)"

definition apply_runtime_update :: "runtime_update \<Rightarrow> pool_config \<Rightarrow> pool_config" where
  "apply_runtime_update u c =
     c\<lparr>cfMaxConcurrent := (case ruMaxConcurrent u of Some v \<Rightarrow> v | None \<Rightarrow> cfMaxConcurrent c),
       cfCheckTimeout := (case ruCheckTimeout u of Some v \<Rightarrow> v | None \<Rightarrow> cfCheckTimeout c),
       cfMaxCandidates := (case ruMaxCandidates u of Some v \<Rightarrow> v | None \<Rightarrow> cfMaxCandidates c),
       cfSourceRefresh := (case ruSourceRefresh u of Some v \<Rightarrow> v | None \<Rightarrow> cfSourceRefresh c),
       cfFullRecheck := (case ruFullRecheck u of Some v \<Rightarrow> v | None \<Rightarrow> cfFullRecheck c),
       cfRequireIPChange :=
         (if ruClearRequireIPChange u then None
          else case ruRequireIPChange u of Some v \<Rightarrow> Some v | None \<Rightarrow> cfRequireIPChange c),
       cfAutoCandidateCheck :=
         (if ruClearAutoCandidateCheck u then None
          else case ruAutoCandidateCheck u of Some v \<Rightarrow> Some v | None \<Rightarrow> cfAutoCandidateCheck c),
       cfAutoCheckInterval := (case ruAutoCheckInterval u of Some v \<Rightarrow> v | None \<Rightarrow> cfAutoCheckInterval c)\<rparr>"

definition updateRuntimeOptions ::
    "config_env \<Rightarrow> runtime_update \<Rightarrow> config_store \<Rightarrow> config_store \<times> config_error option" where
  "updateRuntimeOptions env u cs =
     (case check_runtime_update u of
        Some e \<Rightarrow> (cs, Some e)
      | None \<Rightarrow> mutate env (\<lambda>c. Inr (apply_runtime_update u c)) cs)"

text \<open>The getters: a positive override wins over the command-line flag.\<close>

definition override_int :: "int \<Rightarrow> int \<Rightarrow> int" where
  "override_int v fallback = (if 0 < v then v else fallback)"

definition RequireIPChange :: "bool \<Rightarrow> pool_config \<Rightarrow> bool" where
  "RequireIPChange fallback c = (case cfRequireIPChange c of Some v \<Rightarrow> v | None \<Rightarrow> fallback)"

definition AutoCandidateCheckEnabled :: "pool_config \<Rightarrow> bool" where
  "AutoCandidateCheckEnabled c = (case cfAutoCandidateCheck c of None \<Rightarrow> True | Some v \<Rightarrow> v)"

definition AutoCheckInterval :: "pool_config \<Rightarrow> int" where
  "AutoCheckInterval c = (if cfAutoCheckInterval c \<le> 0 then 0 else cfAutoCheckInterval c)"

section \<open>Validation: lemmas\<close>

text \<open>What a validated configuration satisfies.\<close>

definition reference_ok :: "group list \<Rightarrow> string \<Rightarrow> bool" where
  "reference_ok groups ref \<longleftrightarrow> resolveGroupReference ref groups \<noteq> None"

definition listener_ok :: "group list \<Rightarrow> listener \<Rightarrow> bool" where
  "listener_ok groups l \<longleftrightarrow> lsID l \<noteq> [] \<and> trim_space (lsID l) = lsID l \<and> lsName l \<noteq> [] \<and> 1 \<le> lsPort l \<and> lsPort l \<le> 65535 \<and>
     (if lsMode l = ListenerModeGroup then reference_ok groups (lsGroup l) \<and> lsNodeKey l = []
      else if lsMode l = ListenerModeFixed then lsNodeKey l \<noteq> [] \<and> lsGroup l = []
      else lsMode l = ListenerModeRules \<and> lsGroup l = [] \<and> lsNodeKey l = [])"

definition wf_config :: "pool_config \<Rightarrow> bool" where
  "wf_config c \<longleftrightarrow>
     distinct (map srID (cfSources c)) \<and> length (cfSources c) \<le> maxConfiguredSources \<and>
     distinct (map grID (cfGroups c)) \<and> distinct (map (to_lower \<circ> grName) (cfGroups c)) \<and>
     (\<forall>r\<in>set (cfRules c). reference_ok (cfGroups c) (rlGroup r)) \<and>
     distinct (map lsID (cfListeners c)) \<and> distinct (map lsPort (cfListeners c)) \<and>
     (\<forall>l\<in>set (cfListeners c). listener_ok (cfGroups c) l) \<and>
     schedule_ok (cfSourceRefresh c) \<and> schedule_ok (cfFullRecheck c)"

lemma sum_InrE:
  assumes "map_sum id g x = Inr y"
  obtains z where "x = Inr z" "y = g z"
  using assms by (cases x) auto

lemma validateSourceDefinition_id: "validateSourceDefinition parse s = Inr n \<Longrightarrow> srID n = srID s"
  by (auto simp: validateSourceDefinition_def Let_def split: if_splits option.splits)

lemma validate_sources_ids:
  "validate_sources parse seen ss = Inr ns \<Longrightarrow>
   map srID ns = map srID ss \<and> distinct (map srID ss) \<and> set (map srID ss) \<inter> seen = {}"
proof (induction parse seen ss arbitrary: ns rule: validate_sources.induct)
  case (2 parse seen s ss)
  from 2(2) obtain n where n: "validateSourceDefinition parse s = Inr n" "srID s \<notin> seen"
    and rest: "map_sum id ((#) n) (validate_sources parse (insert (srID s) seen) ss) = Inr ns"
    by (auto split: if_splits sum.splits)
  from rest obtain ms where ms: "validate_sources parse (insert (srID s) seen) ss = Inr ms" "ns = n # ms"
    by (rule sum_InrE)
  from 2(2) n have "map srID ms = map srID ss \<and> distinct (map srID ss) \<and>
      set (map srID ss) \<inter> insert (srID s) seen = {}"
    by (intro 2(1) [OF _ _ n(1)]) (auto simp: ms split: if_splits)
  with n ms validateSourceDefinition_id [OF n(1)] show ?case by auto
qed simp

lemma validate_groups_distinct:
  "validate_groups prev gs = None \<Longrightarrow> distinct (map grID prev) \<Longrightarrow> distinct (map (to_lower \<circ> grName) prev) \<Longrightarrow>
   distinct (map grID (prev @ gs)) \<and> distinct (map (to_lower \<circ> grName) (prev @ gs))"
proof (induction gs arbitrary: prev)
  case (Cons g gs)
  from Cons.prems(1) have new: "\<not> list_ex (\<lambda>p. grID p = grID g) prev"
      "\<not> list_ex (\<lambda>p. equal_fold (grName p) (grName g)) prev" and rest: "validate_groups (prev @ [g]) gs = None"
    by (auto split: if_splits)
  have "distinct (map grID (prev @ [g]))" using Cons.prems(2) new(1) by (auto simp: list_ex_iff)
  moreover have "distinct (map (to_lower \<circ> grName) (prev @ [g]))"
    using Cons.prems(3) new(2) by (auto simp: list_ex_iff equal_fold_def comp_def)
  ultimately have "distinct (map grID ((prev @ [g]) @ gs)) \<and>
      distinct (map (to_lower \<circ> grName) ((prev @ [g]) @ gs))"
    by (rule Cons.IH [OF rest])
  then show ?case by (simp only: append.assoc append.simps)
qed simp

lemma canonical_rules_Inr:
  "canonical_rules groups rs = Inr ns \<Longrightarrow>
   list_all2 (\<lambda>r n. \<exists>t. resolveGroupReference (rlGroup r) groups = Some t \<and> n = r\<lparr>rlGroup := rrCanonical t\<rparr>) rs ns"
  by (induction groups rs arbitrary: ns rule: canonical_rules.induct)
    (auto split: if_splits option.splits elim!: sum_InrE)

text \<open>A canonical reference always resolves, even where it changes its target.\<close>

lemma resolve_canonical_ok:
  "resolveGroupReference ref groups = Some t \<Longrightarrow> reference_ok groups (rrCanonical t)"
  using resolve_canonical_some by (auto simp: reference_ok_def)

lemma canonicalListenerNodeKey_nonempty:
  "canonicalListenerNodeKey parse k = Some key \<Longrightarrow> key \<noteq> []"
  by (auto simp: canonicalListenerNodeKey_def canonicalProxyKey_def canonicalProxyEndpointKey_def Let_def
      split: option.splits sum.splits if_splits)

lemma validateListenerBinding_ok:
  assumes "validateListenerBinding parse groups l False = Inr n"
  shows "listener_ok groups n"
  using assms resolve_canonical_ok [of _ groups] canonicalListenerNodeKey_nonempty [of parse]
  by (auto simp: validateListenerBinding_def listener_ok_def validListenerMode_def Let_def
      split: if_splits option.splits)

lemma validate_listeners_Inr:
  "validate_listeners parse groups ids ports ls = Inr ns \<Longrightarrow>
   distinct (map lsID ns) \<and> distinct (map lsPort ns) \<and> set (map lsID ns) \<inter> ids = {} \<and>
   set (map lsPort ns) \<inter> ports = {} \<and> (\<forall>n\<in>set ns. listener_ok groups n)"
proof (induction ls arbitrary: ids ports ns)
  case (Cons l ls)
  from Cons.prems obtain n where n: "validateListenerBinding parse groups l False = Inr n"
      "lsID n \<notin> ids" "lsPort n \<notin> ports"
    and rest: "map_sum id ((#) n) (validate_listeners parse groups (insert (lsID n) ids) (insert (lsPort n) ports) ls) = Inr ns"
    by (auto split: if_splits sum.splits)
  from rest obtain ms where ms: "ns = n # ms"
    "validate_listeners parse groups (insert (lsID n) ids) (insert (lsPort n) ports) ls = Inr ms"
    by (auto elim: sum_InrE)
  from Cons.IH [OF ms(2)] n validateListenerBinding_ok [OF n(1)] ms(1) show ?case by auto
qed simp

lemma canonical_rules_ok:
  "canonical_rules groups rs = Inr ns \<Longrightarrow> (\<forall>r\<in>set ns. reference_ok groups (rlGroup r)) \<and>
   map rlType ns = map rlType rs \<and> map rlID ns = map rlID rs \<and> map rlValue ns = map rlValue rs"
proof (induction rs arbitrary: ns)
  case (Cons r rs)
  from Cons.prems obtain t where t: "resolveGroupReference (rlGroup r) groups = Some t"
    and rest: "map_sum id ((#) (r\<lparr>rlGroup := rrCanonical t\<rparr>)) (canonical_rules groups rs) = Inr ns"
    by (auto split: if_splits option.splits)
  from rest obtain ms where "ns = r\<lparr>rlGroup := rrCanonical t\<rparr> # ms" "canonical_rules groups rs = Inr ms"
    by (rule sum_InrE)
  with Cons.IH resolve_canonical_ok [OF t] show ?case by simp
qed simp

text \<open>validatePersistedPoolConfig in one elimination rule.\<close>

lemma validate_InrE:
  assumes "validatePersistedPoolConfig parse c = Inr c'"
  obtains ss rs ls where
    "schedule_ok (cfSourceRefresh c)" "schedule_ok (cfFullRecheck c)"
    "length (cfSources c) \<le> maxConfiguredSources"
    "validate_sources parse {} (cfSources c) = Inr ss"
    "validate_groups [] (cfGroups c) = None"
    "canonical_rules (cfGroups c) (cfRules c) = Inr rs"
    "validate_listeners parse (cfGroups c) {} {} (cfListeners c) = Inr ls"
    "c' = c\<lparr>cfSources := ss, cfRules := rs, cfListeners := ls,
            cfCheckURL := (if cfCheckURL c = [] then [] else trim_space (cfCheckURL c))\<rparr>"
  using assms unfolding validatePersistedPoolConfig_def
  by (auto simp: Let_def split: if_splits sum.splits option.splits)

lemma validate_wf:
  assumes "validatePersistedPoolConfig parse c = Inr c'"
  shows "wf_config c'"
  using assms
proof (rule validate_InrE)
  fix ss rs ls
  assume "schedule_ok (cfSourceRefresh c)" "schedule_ok (cfFullRecheck c)"
    "length (cfSources c) \<le> maxConfiguredSources"
    "validate_sources parse {} (cfSources c) = Inr ss" "validate_groups [] (cfGroups c) = None"
    "canonical_rules (cfGroups c) (cfRules c) = Inr rs"
    "validate_listeners parse (cfGroups c) {} {} (cfListeners c) = Inr ls"
    "c' = c\<lparr>cfSources := ss, cfRules := rs, cfListeners := ls,
            cfCheckURL := (if cfCheckURL c = [] then [] else trim_space (cfCheckURL c))\<rparr>"
  with validate_sources_ids [of parse "{}" "cfSources c" ss] validate_groups_distinct [of "[]" "cfGroups c"]
    canonical_rules_ok [of "cfGroups c" "cfRules c" rs]
    validate_listeners_Inr [of parse "cfGroups c" "{}" "{}" "cfListeners c" ls]
  show ?thesis by (auto simp: wf_config_def) (metis length_map)
qed

text \<open>The slices shared by writeConfigLocked keep memory and file equal.\<close>

lemma validate_fixed_fields:
  assumes "validatePersistedPoolConfig parse c = Inr n" "validatePersistedPoolConfig parse n = Inr w"
  shows "share_slices n w = w"
proof -
  from assms(1) have n: "cfCheckURL n = (if cfCheckURL c = [] then [] else trim_space (cfCheckURL c))"
    by (rule validate_InrE) simp
  from assms(2) obtain ss rs ls where w: "w = n\<lparr>cfSources := ss, cfRules := rs, cfListeners := ls,
      cfCheckURL := (if cfCheckURL n = [] then [] else trim_space (cfCheckURL n))\<rparr>"
    by (rule validate_InrE)
  from n have "(if cfCheckURL n = [] then [] else trim_space (cfCheckURL n)) = cfCheckURL n" by simp
  with w show ?thesis by (simp add: share_slices_def)
qed

lemma mutate_cases:
  obtains (failed) e where "mutate env f cs = (cs, Some e)"
  | (published) next0 n w err where "f (csCfg cs) = Inr next0"
      "validatePersistedPoolConfig (ceParse env) next0 = Inr n"
      "validatePersistedPoolConfig (ceParse env) n = Inr w"
      "mutate env f cs = (\<lparr>csCfg = w, csDisk = w\<rparr>, err)"
      "err = None \<and> ceOutcome env = Committed \<or>
       err = Some (Persistence DurabilityUncertain) \<and> ceOutcome env = DurabilityUncertain"
proof (cases "f (csCfg cs)")
  case (Inl e)
  then show ?thesis using failed by (simp add: mutate_def)
next
  case f: (Inr next0)
  show ?thesis
  proof (cases "validatePersistedPoolConfig (ceParse env) next0")
    case (Inl e)
    then show ?thesis using failed f by (simp add: mutate_def)
  next
    case n: (Inr n)
    show ?thesis
    proof (cases "writeConfigLocked env n")
      case (Pair err written)
      show ?thesis
      proof (cases written)
        case None
        with Pair f n have m: "mutate env f cs = (cs, err)" by (simp add: mutate_def)
        from Pair None have "err \<noteq> None"
          by (auto simp: writeConfigLocked_def split: sum.splits option.splits if_splits persist_outcome.splits)
        with m failed show ?thesis by auto
      next
        case (Some w)
        with Pair have w: "validatePersistedPoolConfig (ceParse env) n = Inr w"
            "err = None \<and> ceOutcome env = Committed \<or>
             err = Some (Persistence DurabilityUncertain) \<and> ceOutcome env = DurabilityUncertain"
          by (auto simp: writeConfigLocked_def split: sum.splits option.splits if_splits persist_outcome.splits)
        have "mutate env f cs = (\<lparr>csCfg = w, csDisk = w\<rparr>, err)"
          using Pair Some f n validate_fixed_fields [OF n w(1)] by (simp add: mutate_def)
        with published f n w show ?thesis by blast
      qed
    qed
  qed
qed

section \<open>Invariants of the store\<close>

text \<open>
  An interface for invariants: a predicate that validation keeps. Its client lemma is that
  a transaction keeps it whenever the edit does, whatever the file system reports. The second
  locale adds that validation establishes the predicate, so that any edit keeps it.
\<close>

locale config_guard =
  fixes P :: "pool_config \<Rightarrow> bool"
  assumes validate_keeps: "P c \<Longrightarrow> validatePersistedPoolConfig parse c = Inr c' \<Longrightarrow> P c'"
begin

lemma mutate_keeps:
  assumes "P (csCfg cs)" "\<And>c'. f (csCfg cs) = Inr c' \<Longrightarrow> P c'"
  shows "P (csCfg (fst (mutate env f cs)))"
proof (cases rule: mutate_cases [of env f cs])
  case (failed e)
  with assms(1) show ?thesis by simp
next
  case (published next0 n w err)
  with assms(2) [OF published(1)] have "P w" using validate_keeps by blast
  with published(4) show ?thesis by simp
qed

end

locale config_validated = config_guard +
  assumes validate_establishes: "validatePersistedPoolConfig parse c = Inr c' \<Longrightarrow> P c'"
begin

lemma mutate_establishes:
  assumes "P (csCfg cs)"
  shows "P (csCfg (fst (mutate env f cs)))"
proof (cases rule: mutate_cases [of env f cs])
  case (failed e)
  with assms show ?thesis by simp
next
  case (published next0 n w err)
  with validate_establishes show ?thesis by simp
qed

end

text \<open>The routing table always ends with its only MATCH rule.\<close>

definition match_last :: "pool_config \<Rightarrow> bool" where
  "match_last c \<longleftrightarrow>
     (let ts = map rlType (cfRules c) in
      ts \<noteq> [] \<and> last ts = RuleMatch \<and> RuleMatch \<notin> set (butlast ts))"

lemma match_last_types:
  "map rlType (cfRules c) = map rlType (cfRules d) \<Longrightarrow> match_last c = match_last d"
  by (simp add: match_last_def)

lemma validate_rule_types:
  assumes "validatePersistedPoolConfig parse c = Inr c'"
  shows "map rlType (cfRules c') = map rlType (cfRules c) \<and> map rlValue (cfRules c') = map rlValue (cfRules c)
    \<and> cfGroups c' = cfGroups c"
  using assms
  by (rule validate_InrE) (use canonical_rules_ok in auto)

interpretation ml: config_guard match_last
  by unfold_locales (use validate_rule_types match_last_types in blast)

interpretation wf: config_validated wf_config
  by unfold_locales (use validate_wf in blast)+

lemma match_last_split:
  "match_last c \<longleftrightarrow> (\<exists>pre m. cfRules c = pre @ [m] \<and> rlType m = RuleMatch \<and>
     (\<forall>r\<in>set pre. rlType r \<noteq> RuleMatch))"
proof
  assume "match_last c"
  then have "cfRules c = butlast (cfRules c) @ [last (cfRules c)]"
      "rlType (last (cfRules c)) = RuleMatch" "RuleMatch \<notin> rlType ` set (butlast (cfRules c))"
    by (auto simp: match_last_def last_map map_butlast [symmetric])
  then show "\<exists>pre m. cfRules c = pre @ [m] \<and> rlType m = RuleMatch \<and>
     (\<forall>r\<in>set pre. rlType r \<noteq> RuleMatch)" by (metis imageI)
next
  assume "\<exists>pre m. cfRules c = pre @ [m] \<and> rlType m = RuleMatch \<and> (\<forall>r\<in>set pre. rlType r \<noteq> RuleMatch)"
  then obtain pre m where m: "cfRules c = pre @ [m]" "rlType m = RuleMatch" "\<forall>r\<in>set pre. rlType r \<noteq> RuleMatch"
    by blast
  then have "RuleMatch \<notin> rlType ` set pre" by fastforce
  with m(1,2) show "match_last c" by (simp add: match_last_def)
qed

lemma find_match:
  assumes "rlType m = RuleMatch" "\<forall>r\<in>set pre. rlType r \<noteq> RuleMatch"
  shows "find_index (\<lambda>r. rlType r = RuleMatch) (pre @ [m]) = Some (length pre)"
  using assms by (simp add: find_index_Some nth_append)

lemma insert_before_match_split:
  assumes "rlType m = RuleMatch" "\<forall>r\<in>set pre. rlType r \<noteq> RuleMatch"
  shows "insert_before_match r (pre @ [m]) = pre @ [r, m]"
  using find_match [OF assms] by (simp add: insert_before_match_def insert_at_def)

lemma match_last_insert:
  assumes "match_last c" "rlType r \<noteq> RuleMatch"
  shows "match_last (c\<lparr>cfRules := insert_before_match r (cfRules c)\<rparr>)"
proof -
  obtain pre m where m: "cfRules c = pre @ [m]" "rlType m = RuleMatch" "\<forall>r\<in>set pre. rlType r \<noteq> RuleMatch"
    using assms(1) match_last_split by blast
  then have "insert_before_match r (cfRules c) = (pre @ [r]) @ [m]"
    using insert_before_match_split by simp
  with m assms(2) show ?thesis
    unfolding match_last_split by (intro exI [of _ "pre @ [r]"] exI [of _ m]) simp
qed

lemma match_last_delete:
  assumes "match_last c" "i < length (cfRules c)" "rlType (cfRules c ! i) \<noteq> RuleMatch"
  shows "match_last (c\<lparr>cfRules := delete_at i (cfRules c)\<rparr>)"
proof -
  obtain pre m where m: "cfRules c = pre @ [m]" "rlType m = RuleMatch" "\<forall>r\<in>set pre. rlType r \<noteq> RuleMatch"
    using assms(1) match_last_split by blast
  with assms(2,3) have i: "i < length pre" by (auto simp: nth_append less_Suc_eq)
  then have "delete_at i (cfRules c) = delete_at i pre @ [m]" by (simp add: m(1) delete_at_def)
  moreover have "\<forall>r\<in>set (delete_at i pre). rlType r \<noteq> RuleMatch" using m(3) set_delete_at [of i pre] by blast
  ultimately show ?thesis
    unfolding match_last_split using m(2) by (intro exI [of _ "delete_at i pre"] exI [of _ m]) simp
qed

lemma match_last_swap:
  assumes "match_last c" "i < length (cfRules c)" "j < length (cfRules c)"
    "rlType (cfRules c ! i) \<noteq> RuleMatch" "rlType (cfRules c ! j) \<noteq> RuleMatch"
  shows "match_last (c\<lparr>cfRules := swap_at i j (cfRules c)\<rparr>)"
proof -
  obtain pre m where m: "cfRules c = pre @ [m]" "rlType m = RuleMatch" "\<forall>r\<in>set pre. rlType r \<noteq> RuleMatch"
    using assms(1) match_last_split by blast
  with assms have ij: "i < length pre" "j < length pre" by (auto simp: nth_append less_Suc_eq)
  then have "swap_at i j (cfRules c) = swap_at i j pre @ [m]"
    by (simp add: m(1) swap_at_def nth_append list_update_append)
  moreover have "set (swap_at i j pre) = set pre"
    using ij by (simp add: swap_at_def set_swap)
  ultimately show ?thesis
    unfolding match_last_split using m by (intro exI [of _ "swap_at i j pre"] exI [of _ m]) simp
qed

lemma match_last_update:
  assumes "match_last c" "rlType (cfRules c ! i) = rlType r"
  shows "match_last (c\<lparr>cfRules := (cfRules c)[i := r]\<rparr>)"
proof -
  have "map rlType ((cfRules c)[i := r]) = map rlType (cfRules c)"
    using assms(2) by (cases "i < length (cfRules c)") (simp_all add: map_update list_update_same_conv list_update_beyond)
  with assms(1) show ?thesis by (simp add: match_last_def)
qed

lemma match_last_other [simp]:
  "match_last (c\<lparr>cfGroups := gs\<rparr>) = match_last c" "match_last (c\<lparr>cfSources := ss\<rparr>) = match_last c"
  "match_last (c\<lparr>cfListeners := ls\<rparr>) = match_last c" "match_last (c\<lparr>cfCheckURL := u\<rparr>) = match_last c"
  "match_last (apply_runtime_update ru c) = match_last c"
  by (simp_all add: match_last_def apply_runtime_update_def)

section \<open>Identifiers, ports and switches of the listeners\<close>

text \<open>
  Validation trims identifiers and leaves ports and enabled flags alone, so an operation that
  removes a listener really removes its identifier from the store.
\<close>

lemma validateListenerBinding_shape:
  "validateListenerBinding parse groups l a = Inr n \<Longrightarrow>
   lsID n = trim_space (lsID l) \<and> lsPort n = lsPort l \<and> lsEnabled n = lsEnabled l"
  by (auto simp: validateListenerBinding_def trim_listener_def Let_def split: if_splits option.splits)

lemma validate_listeners_shape:
  "validate_listeners parse groups ids ports ls = Inr ns \<Longrightarrow>
   map lsID ns = map (trim_space \<circ> lsID) ls \<and> map lsPort ns = map lsPort ls \<and> map lsEnabled ns = map lsEnabled ls"
proof (induction ls arbitrary: ids ports ns)
  case (Cons l ls)
  then obtain n where n: "validateListenerBinding parse groups l False = Inr n"
    and rest: "map_sum id ((#) n) (validate_listeners parse groups (insert (lsID n) ids) (insert (lsPort n) ports) ls) = Inr ns"
    by (auto split: if_splits sum.splits)
  from rest obtain ms where "ns = n # ms"
    "validate_listeners parse groups (insert (lsID n) ids) (insert (lsPort n) ports) ls = Inr ms"
    by (auto elim: sum_InrE)
  with Cons.IH n validateListenerBinding_shape show ?case by auto
qed simp

lemma validate_shape:
  assumes "validatePersistedPoolConfig parse c = Inr c'"
  shows "map lsID (cfListeners c') = map (trim_space \<circ> lsID) (cfListeners c) \<and>
    map lsPort (cfListeners c') = map lsPort (cfListeners c) \<and> map lsEnabled (cfListeners c') = map lsEnabled (cfListeners c)"
proof -
  from assms obtain ls where "validate_listeners parse (cfGroups c) {} {} (cfListeners c) = Inr ls" "cfListeners c' = ls"
    by (auto simp: validatePersistedPoolConfig_def Let_def split: if_splits sum.splits option.splits)
  with validate_listeners_shape show ?thesis by blast
qed

lemma mutate_ids:
  assumes "mutate env f cs = (cs', None)"
  shows "\<exists>next0. f (csCfg cs) = Inr next0 \<and>
    map lsID (cfListeners (csCfg cs')) = map (trim_space \<circ> lsID) (cfListeners next0)"
proof (cases rule: mutate_cases [of env f cs])
  case (failed e)
  with assms show ?thesis by simp
next
  case (published next0 n w err)
  then have c: "csCfg cs' = w" using assms by simp
  have "map lsID (cfListeners w) = map (trim_space \<circ> lsID) (cfListeners n)"
    using validate_shape [OF published(3)] by blast
  also have "\<dots> = map trim_space (map lsID (cfListeners n))" by simp
  also have "map lsID (cfListeners n) = map (trim_space \<circ> lsID) (cfListeners next0)"
    using validate_shape [OF published(2)] by blast
  also have "map trim_space \<dots> = map (trim_space \<circ> lsID) (cfListeners next0)"
    by (simp add: trim_space_idem)
  finally show ?thesis using published(1) c by blast
qed

lemma DeleteListener_gone:
  assumes wf: "wf_config (csCfg cs)" and del: "DeleteListener env k cs = (cs', None)"
  shows "trim_space k \<notin> lsID ` set (cfListeners (csCfg cs'))"
proof -
  let ?k = "trim_space k" and ?ls = "cfListeners (csCfg cs)"
  from del have "mutate env (delete_listener ?k) cs = (cs', None)"
    by (auto simp: DeleteListener_def Let_def split: if_splits)
  from mutate_ids [OF this] obtain next0 where n: "delete_listener ?k (csCfg cs) = Inr next0"
    "map lsID (cfListeners (csCfg cs')) = map (trim_space \<circ> lsID) (cfListeners next0)" by blast
  from n(1) obtain i where i: "find_index (\<lambda>l. lsID l = ?k) ?ls = Some i" "cfListeners next0 = delete_at i ?ls"
    by (auto simp: delete_listener_def split: option.splits)
  have dist: "distinct (map lsID ?ls)" and trim: "\<forall>l\<in>set ?ls. trim_space (lsID l) = lsID l"
    using wf by (auto simp: wf_config_def listener_ok_def)
  have at: "i < length ?ls" "lsID (?ls ! i) = ?k" using find_index_SomeD [OF i(1)] by auto
  have "?k \<notin> set (delete_at i (map lsID ?ls))"
    using distinct_delete_at_not_in [of "map lsID ?ls" i] dist at by simp
  then have "?k \<notin> lsID ` set (delete_at i ?ls)" by (simp add: map_delete_at [symmetric])
  moreover have "lsID ` set (cfListeners (csCfg cs')) = (trim_space \<circ> lsID) ` set (delete_at i ?ls)"
    using arg_cong [OF n(2), of set] i(2) by simp
  moreover have "(trim_space \<circ> lsID) ` set (delete_at i ?ls) = lsID ` set (delete_at i ?ls)"
    using trim set_delete_at [of i ?ls] by (intro image_cong) auto
  ultimately show ?thesis by auto
qed

section \<open>Reachable stores\<close>

text \<open>Every operation of the store as one step, with its environment and arguments free.\<close>

inductive config_step :: "config_store \<Rightarrow> config_store \<Rightarrow> bool" where
  add_rule: "config_step cs (fst (AddRule env gid r cs))"
| delete_rule: "config_step cs (fst (DeleteRule env rid cs))"
| move_rule: "config_step cs (fst (MoveRule env rid delta cs))"
| default_group: "config_step cs (fst (SetDefaultGroup env gid g cs))"
| gfw: "config_step cs (fst (InstallGFWPreset env gids cs))"
| add_group: "config_step cs (fst (AddGroup env gid gr cs))"
| strategy: "config_step cs (fst (SetGroupStrategy env gid strategy cs))"
| delete_group: "config_step cs (fst (DeleteGroup env gid cs))"
| auto_refresh: "config_step cs (fst (SetSourceAutoRefresh env sid enabled interval cs))"
| add_source: "config_step cs (fst (AddSource env gid src cs))"
| delete_source: "config_step cs (fst (DeleteSource env unlink sid cs))"
| toggle_source: "config_step cs (fst (ToggleSource env sid enabled cs))"
| check_url: "config_step cs (fst (SetCheckURL env raw cs))"
| add_listener: "config_step cs (fst (AddListener env gid l cs))"
| update_listener: "config_step cs (fst (UpdateListener env l cs))"
| delete_listener: "config_step cs (fst (DeleteListener env lid cs))"
| replace_listeners: "config_step cs (fst (ReplaceListeners env ls cs))"
| runtime_options: "config_step cs (fst (updateRuntimeOptions env u cs))"

inductive config_reach :: "config_store \<Rightarrow> config_store \<Rightarrow> bool" for start where
  init: "config_reach start start"
| step: "config_reach start cs \<Longrightarrow> config_step cs cs' \<Longrightarrow> config_reach start cs'"

text \<open>Every step is nothing or a transaction whose edit keeps the final MATCH rule.\<close>

definition keeps_match :: "(pool_config \<Rightarrow> config_error + pool_config) \<Rightarrow> bool" where
  "keeps_match f \<longleftrightarrow> (\<forall>c c'. match_last c \<longrightarrow> f c = Inr c' \<longrightarrow> match_last c')"

definition transacts :: "config_store \<Rightarrow> config_store \<Rightarrow> bool" where
  "transacts cs cs' \<longleftrightarrow> cs' = cs \<or> (\<exists>env f. keeps_match f \<and> cs' = fst (mutate env f cs))"

lemma transacts_refl [simp]: "transacts cs cs"
  by (simp add: transacts_def)

lemma transacts_mutate: "keeps_match f \<Longrightarrow> transacts cs (fst (mutate env f cs))"
  by (auto simp: transacts_def)

lemma fst_finish_listener [simp]: "fst (finish_listener lid r) = fst r"
  by (auto simp: finish_listener_def split: prod.splits option.splits)

lemma fst_DeleteSource [simp]: "fst (DeleteSource env unlink sid cs) = fst (mutate env (delete_source sid) cs)"
  by (auto simp: DeleteSource_def split: prod.splits option.splits)

lemma match_last_gfw: "match_last (c\<lparr>cfRules := gfw_preset gids\<rparr>)"
  by (simp add: match_last_def gfw_preset_def)

lemma keeps_match_rules:
  "keeps_match (delete_rule rid)" "keeps_match (move_rule rid delta)" "keeps_match (set_default_group gid g)"
  "rlType r \<noteq> RuleMatch \<Longrightarrow> keeps_match (\<lambda>c. case resolveGroupReference (rlGroup r) (cfGroups c) of
      None \<Rightarrow> Inl (Missing ''routing target'')
    | Some t \<Rightarrow> Inr (c\<lparr>cfRules := insert_before_match (r\<lparr>rlID := gid, rlGroup := rrCanonical t\<rparr>) (cfRules c)\<rparr>))"
  "keeps_match (\<lambda>c. Inr (c\<lparr>cfRules := gfw_preset gids\<rparr>))"
proof -
  show "keeps_match (delete_rule rid)"
    by (auto simp: keeps_match_def delete_rule_def dest!: find_index_SomeD intro!: match_last_delete
        split: option.splits if_splits)
  show "keeps_match (move_rule rid delta)"
    by (auto simp: keeps_match_def move_rule_def Let_def dest!: find_index_SomeD intro!: match_last_swap
        split: option.splits if_splits)
  show "keeps_match (set_default_group gid g)"
  proof -
    have none: False if "match_last c" "find_index (\<lambda>r. rlType r = RuleMatch) (cfRules c) = None" for c
      using that by (auto simp: match_last_split find_index_None)
    show ?thesis
      by (auto simp: keeps_match_def set_default_group_def dest: none dest!: find_index_SomeD
          intro!: match_last_update split: option.splits)
  qed
  show "rlType r \<noteq> RuleMatch \<Longrightarrow> keeps_match (\<lambda>c. case resolveGroupReference (rlGroup r) (cfGroups c) of
      None \<Rightarrow> Inl (Missing ''routing target'')
    | Some t \<Rightarrow> Inr (c\<lparr>cfRules := insert_before_match (r\<lparr>rlID := gid, rlGroup := rrCanonical t\<rparr>) (cfRules c)\<rparr>))"
    by (auto simp: keeps_match_def intro!: match_last_insert split: option.splits)
  show "keeps_match (\<lambda>c. Inr (c\<lparr>cfRules := gfw_preset gids\<rparr>))"
    by (simp add: keeps_match_def match_last_gfw)
qed

lemma keeps_match_others:
  assumes "\<And>c c'. f c = Inr c' \<Longrightarrow> cfRules c' = cfRules c"
  shows "keeps_match f"
  using assms by (auto simp: keeps_match_def match_last_def)

lemma step_transacts:
  assumes "config_step cs cs'"
  shows "transacts cs cs'"
  using assms
proof cases
  case (add_rule env gid r)
  then show ?thesis unfolding AddRule_def by (auto intro: transacts_mutate keeps_match_rules(4))
next
  case (delete_rule env rid)
  then show ?thesis unfolding DeleteRule_def by (simp add: transacts_mutate keeps_match_rules)
next
  case (move_rule env rid delta)
  then show ?thesis unfolding MoveRule_def by (simp add: transacts_mutate keeps_match_rules)
next
  case (default_group env gid g)
  then show ?thesis unfolding SetDefaultGroup_def by (simp add: transacts_mutate keeps_match_rules)
next
  case (gfw env gids)
  then show ?thesis unfolding InstallGFWPreset_def by (simp add: transacts_mutate keeps_match_rules)
next
  case (add_group env gid gr)
  then show ?thesis unfolding AddGroup_def Let_def
    by (auto intro!: transacts_mutate keeps_match_others split: if_splits)
next
  case (strategy env gid strategy)
  then show ?thesis unfolding SetGroupStrategy_def
    by (auto intro!: transacts_mutate keeps_match_others split: option.splits)
next
  case (delete_group env gid)
  then show ?thesis unfolding DeleteGroup_def
    by (auto intro!: transacts_mutate keeps_match_others simp: delete_group_def split: option.splits if_splits)
next
  case (auto_refresh env sid enabled interval)
  then show ?thesis unfolding SetSourceAutoRefresh_def
    by (auto intro!: transacts_mutate keeps_match_others split: option.splits)
next
  case (add_source env gid src)
  then show ?thesis unfolding AddSource_def Let_def
    by (auto intro!: transacts_mutate keeps_match_others split: if_splits sum.split)
next
  case (delete_source env unlink sid)
  then show ?thesis
    by (auto intro!: transacts_mutate keeps_match_others simp: delete_source_def split: option.splits)
next
  case (toggle_source env sid enabled)
  then show ?thesis unfolding ToggleSource_def
    by (auto intro!: transacts_mutate keeps_match_others simp: toggle_source_def Let_def split: option.splits if_splits)
next
  case (check_url env raw)
  then show ?thesis unfolding SetCheckURL_def Let_def
    by (auto intro!: transacts_mutate keeps_match_others split: option.split)
next
  case (add_listener env gid l)
  then show ?thesis unfolding AddListener_def
    by (auto intro!: transacts_mutate keeps_match_others simp: add_listener_def split: sum.splits if_splits)
next
  case (update_listener env l)
  then show ?thesis unfolding UpdateListener_def Let_def
    by (auto intro!: transacts_mutate keeps_match_others simp: update_listener_def split: sum.splits if_splits option.splits)
next
  case (delete_listener env lid)
  then show ?thesis unfolding DeleteListener_def Let_def
    by (auto intro!: transacts_mutate keeps_match_others simp: delete_listener_def split: option.splits)
next
  case (replace_listeners env ls)
  then show ?thesis unfolding ReplaceListeners_def
    by (auto intro!: transacts_mutate keeps_match_others split: sum.splits)
next
  case (runtime_options env u)
  then show ?thesis unfolding updateRuntimeOptions_def
    by (auto intro!: transacts_mutate keeps_match_others simp: apply_runtime_update_def split: option.split)
qed

lemma mutate_disk: "csDisk cs = csCfg cs \<Longrightarrow> csDisk (fst (mutate env f cs)) = csCfg (fst (mutate env f cs))"
  by (cases rule: mutate_cases [of env f cs]) simp_all

lemma reach_disk: "config_reach s cs \<Longrightarrow> csDisk s = csCfg s \<Longrightarrow> csDisk cs = csCfg cs"
  by (induction rule: config_reach.induct) (auto simp: transacts_def mutate_disk dest!: step_transacts)

lemma reach_wf: "config_reach s cs \<Longrightarrow> wf_config (csCfg s) \<Longrightarrow> wf_config (csCfg cs)"
  by (induction rule: config_reach.induct) (auto simp: transacts_def wf.mutate_establishes dest!: step_transacts)

lemma reach_match: "config_reach s cs \<Longrightarrow> match_last (csCfg s) \<Longrightarrow> match_last (csCfg cs)"
  by (induction rule: config_reach.induct)
    (auto simp: transacts_def keeps_match_def dest!: step_transacts intro!: ml.mutate_keeps)

section \<open>The store: properties\<close>

text \<open>
  C2: mutate is all or nothing. Either the live configuration and the file are untouched and
  an error is reported, or both now hold one and the same valid configuration; a reported
  error then means only that the rename happened but its durability is unknown. Nothing is
  ever published that was not written.
\<close>

theorem mutate_all_or_nothing:
  "fst (mutate env f cs) = cs \<and> snd (mutate env f cs) \<noteq> None \<or>
   csCfg (fst (mutate env f cs)) = csDisk (fst (mutate env f cs)) \<and>
   wf_config (csCfg (fst (mutate env f cs))) \<and>
   (snd (mutate env f cs) = None \<and> ceOutcome env = Committed \<or>
    snd (mutate env f cs) = Some (Persistence DurabilityUncertain) \<and> ceOutcome env = DurabilityUncertain)"
  by (cases rule: mutate_cases [of env f cs]) (use validate_wf in auto)

text \<open>
  C1: whatever sequence of operations runs, with whatever write failures, a store that starts
  well formed stays so: identifiers, group names, listener ports are unique, every rule and
  group listener points at an existing target, the schedules are within their bounds, the
  routing table ends with its only MATCH rule, and memory agrees with the file.
\<close>

theorem config_invariant:
  assumes "config_reach start cs" "wf_config (csCfg start)" "match_last (csCfg start)"
    "csDisk start = csCfg start"
  shows "wf_config (csCfg cs) \<and> match_last (csCfg cs) \<and> csDisk cs = csCfg cs"
  using reach_wf [OF assms(1,2)] reach_match [OF assms(1,3)] reach_disk [OF assms(1,4)] by blast

lemma match_last_route:
  assumes "match_last c"
  shows "MatchGroup (cfRules c) host \<in> rlGroup ` set (cfRules c)"
proof -
  obtain pre m where "cfRules c = pre @ [m]" "rlType m = RuleMatch"
    using assms match_last_split by blast
  let ?f = "find (rule_matches (canonicalRoutingHost host) (parse_ip (canonicalRoutingHost host))) (cfRules c)"
  have "?f \<noteq> None"
    using \<open>cfRules c = pre @ [m]\<close> rule_matches_match [OF \<open>rlType m = RuleMatch\<close>] by (auto simp: find_None_iff)
  then obtain r where "?f = Some r" by blast
  with find_SomeD [OF this] show ?thesis by (simp add: MatchGroup_def match_rules_find Let_def)
qed

text \<open>
  in every reachable store each host has a route, the group of one of the rules, and that
  group reference resolves: the fallback of MatchGroup for a lost MATCH rule is never taken
  and no connection is sent to a deleted group.
\<close>

theorem every_host_routed:
  assumes "config_reach start cs" "wf_config (csCfg start)" "match_last (csCfg start)"
  shows "MatchGroup (cfRules (csCfg cs)) host \<in> rlGroup ` set (cfRules (csCfg cs)) \<and>
    resolveGroupReference (MatchGroup (cfRules (csCfg cs)) host) (cfGroups (csCfg cs)) \<noteq> None"
  using match_last_route [OF reach_match [OF assms(1,3)], of host] reach_wf [OF assms(1,2)]
  by (auto simp: wf_config_def reference_ok_def)

lemma find_delete_at:
  assumes "i < length xs" "find P xs \<noteq> Some (xs ! i)"
  shows "find P (delete_at i xs) = find P xs"
  using assms
proof (induction xs arbitrary: i)
  case (Cons x xs)
  then show ?case by (cases i) (auto simp: delete_at_def)
qed simp

lemma resolve_delete_group:
  assumes "i < length groups" "\<not> refers_to groups (grID (groups ! i)) ref"
  shows "resolveGroupReference ref (delete_at i groups) = resolveGroupReference ref groups"
proof -
  let ?t = "trim_space ref"
  let ?I = "find (\<lambda>g. grID g = ?t)" and ?N = "find (\<lambda>g. equal_fold (grName g) ?t)"
  consider "?t = [] \<or> equal_fold ?t GroupAny \<or> equal_fold ?t GroupDirect \<or> parseCountryGroup ?t \<noteq> None"
    | "?t \<noteq> []" "\<not> equal_fold ?t GroupAny" "\<not> equal_fold ?t GroupDirect" "parseCountryGroup ?t = None"
    by blast
  then show ?thesis
  proof cases
    case 1
    then show ?thesis by (auto simp: resolveGroupReference_def Let_def)
  next
    case 2
    note named = resolve_named [OF trim_space_idem 2]
    have same: "resolveGroupReference ref gs = resolveGroupReference ?t gs" for gs
      by (simp add: resolveGroupReference_def)
    have no: "?I groups \<noteq> Some (groups ! i)" "?I groups = None \<longrightarrow> ?N groups \<noteq> Some (groups ! i)"
      using assms(2) unfolding refers_to_def same named by (auto split: option.splits)
    then have "?I (delete_at i groups) = ?I groups" "?I groups = None \<longrightarrow> ?N (delete_at i groups) = ?N groups"
      using find_delete_at [OF assms(1)] by blast+
    then show ?thesis unfolding same named by (auto split: option.split)
  qed
qed

text \<open>
  C3: deleting a group is safe for everything that stays. If DeleteGroup changes the groups
  at all, then no rule and no group listener referred to the deleted group, exactly that group
  is gone, and every reference in the rules and listeners still resolves to the very same
  target.
\<close>

theorem delete_group_safe:
  assumes "delete_group gid c = Inr c'"
  shows "(\<forall>r\<in>set (cfRules c). \<not> refers_to (cfGroups c) gid (rlGroup r) \<and>
            resolveGroupReference (rlGroup r) (cfGroups c') = resolveGroupReference (rlGroup r) (cfGroups c)) \<and>
         (\<forall>l\<in>set (cfListeners c). lsMode l = ListenerModeGroup \<longrightarrow>
            \<not> refers_to (cfGroups c) gid (lsGroup l) \<and>
            resolveGroupReference (lsGroup l) (cfGroups c') = resolveGroupReference (lsGroup l) (cfGroups c)) \<and>
         (\<exists>i. i < length (cfGroups c) \<and> grID (cfGroups c ! i) = gid \<and> c' = c\<lparr>cfGroups := delete_at i (cfGroups c)\<rparr>)"
proof -
  obtain i where i: "find_index (\<lambda>g. grID g = gid) (cfGroups c) = Some i"
      "\<not> list_ex (\<lambda>r. refers_to (cfGroups c) gid (rlGroup r)) (cfRules c)"
      "\<not> list_ex (\<lambda>l. lsMode l = ListenerModeGroup \<and> refers_to (cfGroups c) gid (lsGroup l)) (cfListeners c)"
      "c' = c\<lparr>cfGroups := delete_at i (cfGroups c)\<rparr>"
    using assms by (auto simp: delete_group_def split: option.splits if_splits)
  have at: "i < length (cfGroups c)" "grID (cfGroups c ! i) = gid"
    using find_index_SomeD [OF i(1)] by auto
  have "resolveGroupReference ref (cfGroups c') = resolveGroupReference ref (cfGroups c)"
    if "\<not> refers_to (cfGroups c) gid ref" for ref
    using resolve_delete_group [OF at(1)] that at(2) i(4) by simp
  with i at show ?thesis by (auto simp: list_ex_iff)
qed

section \<open>The domestic-direct preset\<close>

lemmas cidr_eval = parse_cidr_def has_prefix_def parse_addr_def parse_ipv4_def parse_octet_def
  is_digit_def byte_of_def dec_value_def digit_val_def dtoi_def cidr_mask_def ip_mask_def
  v4_in_v6_prefix_def upt_rec mask_eq_exp_minus_1 Let_def

lemma preset_networks:
  "parse_cidr ''127.0.0.0/8'' = Some ([127, 0, 0, 0], [255, 0, 0, 0])"
  "parse_cidr ''10.0.0.0/8'' = Some ([10, 0, 0, 0], [255, 0, 0, 0])"
  "parse_cidr ''172.16.0.0/12'' = Some ([172, 16, 0, 0], [255, 240, 0, 0])"
  "parse_cidr ''192.168.0.0/16'' = Some ([192, 168, 0, 0], [255, 255, 0, 0])"
  by (simp add: cidr_eval)+

definition domestic_ipv4 :: "u8 list \<Rightarrow> bool" where
  "domestic_ipv4 b \<longleftrightarrow> b ! 0 = 127 \<or> b ! 0 = 10 \<or> b ! 0 = 172 \<and> b ! 1 AND 240 = 16 \<or>
     b ! 0 = 192 \<and> b ! 1 = 168"

lemma and_255 [simp]: "(x :: u8) AND 255 = x" "255 AND (x :: u8) = x"
proof -
  have "(255 :: u8) = - 1" by simp
  then show "x AND 255 = x" "255 AND x = x" by (metis and.right_neutral and.left_neutral)+
qed

lemma contains_v4:
  assumes "length n = 4" "length m = 4" "length ip = 16"
  shows "cidr_contains (n, m) ip = (case to4 ip of None \<Rightarrow> False | Some b \<Rightarrow> map2 (AND) n m = map2 (AND) b m)"
  using assms to4_length [of ip] by (auto simp: cidr_contains_def to4_def [of n] split: option.split)

lemma preset_contains:
  assumes "length ip = 16"
  shows "(cidr_contains ([127, 0, 0, 0], [255, 0, 0, 0]) ip \<or> cidr_contains ([10, 0, 0, 0], [255, 0, 0, 0]) ip \<or>
      cidr_contains ([172, 16, 0, 0], [255, 240, 0, 0]) ip \<or>
      cidr_contains ([192, 168, 0, 0], [255, 255, 0, 0]) ip) \<longleftrightarrow>
    (case to4 ip of None \<Rightarrow> False | Some b \<Rightarrow> domestic_ipv4 b)"
proof (cases "to4 ip")
  case None
  with assms show ?thesis by (simp add: contains_v4)
next
  case (Some b)
  then obtain w x y z where "b = [w, x, y, z]" using to4_length [OF Some] length4_cases by blast
  with Some assms show ?thesis by (auto simp: contains_v4 domestic_ipv4_def)
qed

text \<open>
  the preset that InstallGFWPreset writes does what its comment says, for every host: the
  four private IPv4 ranges (in either notation) and the mainland domains go DIRECT, and
  everything else, names and addresses alike, goes to ANY.
\<close>

theorem gfw_preset_routes:
  "MatchGroup (gfw_preset gids) host =
     (let h = canonicalRoutingHost host in
      if (case parse_ip h of
            None \<Rightarrow> geositeMatch GeositeCN h
          | Some ip \<Rightarrow> (case to4 ip of None \<Rightarrow> False | Some b \<Rightarrow> domestic_ipv4 b))
      then GroupDirect else GroupAny)"
proof (cases "parse_ip (canonicalRoutingHost host)")
  case None
  then show ?thesis by (simp add: MatchGroup_def gfw_preset_def rule_matches_def Let_def)
next
  case (Some ip)
  with preset_contains [OF parse_ip_length [OF Some]] show ?thesis
    by (simp add: MatchGroup_def gfw_preset_def rule_matches_def preset_networks Let_def) blast
qed

section \<open>Witnesses\<close>

definition sample_config :: pool_config where
  "sample_config =
    \<lparr>cfSources = [], cfRules = sample_rules, cfGroups = sample_groups, cfListeners = [], cfCheckURL = [],
     cfMaxConcurrent = 0, cfCheckTimeout = 0, cfMaxCandidates = 0, cfSourceRefresh = 0, cfFullRecheck = 0,
     cfRequireIPChange = None, cfAutoCandidateCheck = None, cfAutoCheckInterval = 0, cfCatalogVersion = 1\<rparr>"

definition sample_store :: config_store where
  "sample_store = \<lparr>csCfg = sample_config, csDisk = sample_config\<rparr>"

definition sample_env :: config_env where
  "sample_env = \<lparr>ceParse = (\<lambda>_. None), ceEncode = (\<lambda>_. Some 100), ceOutcome = Committed\<rparr>"

lemma sample_match_last: "match_last sample_config"
  by (simp add: match_last_def sample_config_def sample_rules_def)

lemma sample_wf: "wf_config sample_config"
proof -
  have "resolveGroupReference ''COUNTRY:US'' sample_groups \<noteq> None"
    "resolveGroupReference GroupAny sample_groups \<noteq> None"
    by code_simp+
  then show ?thesis
    by (simp add: wf_config_def sample_config_def sample_rules_def reference_ok_def schedule_ok_def
        sample_groups_def)
qed

lemma config_invariant_witness:
  "wf_config (csCfg (fst (SetDefaultGroup sample_env ''r9'' ''work'' sample_store))) \<and>
   match_last (csCfg (fst (SetDefaultGroup sample_env ''r9'' ''work'' sample_store)))"
proof -
  have "config_reach sample_store (fst (SetDefaultGroup sample_env ''r9'' ''work'' sample_store))"
    by (rule config_reach.step [OF config_reach.init default_group])
  from config_invariant [OF this] sample_wf sample_match_last show ?thesis
    by (simp add: sample_store_def)
qed

lemma every_host_routed_witness:
  "MatchGroup (cfRules (csCfg sample_store)) ''a.example.com'' \<in> {''COUNTRY:US'', ''ANY''}"
proof -
  have "MatchGroup (cfRules (csCfg sample_store)) ''a.example.com'' \<in> rlGroup ` set (cfRules (csCfg sample_store))"
    using every_host_routed [OF config_reach.init [of sample_store], of "''a.example.com''"]
      sample_wf sample_match_last by (simp add: sample_store_def)
  then show ?thesis by (simp add: sample_store_def sample_config_def sample_rules_def)
qed

lemma delete_group_safe_witness:
  "\<exists>c'. delete_group ''grp-1'' sample_config = Inr c' \<and>
     resolveGroupReference ''COUNTRY:US'' (cfGroups c') = resolveGroupReference ''COUNTRY:US'' (cfGroups sample_config)"
proof -
  have "\<not> refers_to sample_groups ''grp-1'' ''COUNTRY:US''" "\<not> refers_to sample_groups ''grp-1'' GroupAny"
    by code_simp+
  then have "\<exists>c'. delete_group ''grp-1'' sample_config = Inr c'"
    by (simp add: delete_group_def sample_config_def sample_rules_def sample_groups_def)
  then obtain c' where "delete_group ''grp-1'' sample_config = Inr c'" ..
  with delete_group_safe [OF this] show ?thesis
    by (auto simp: sample_config_def sample_rules_def)
qed

end
