(* ===== verification/PoolState.thy ===== *)
theory PoolState
  imports ConfigStore
begin

text \<open>
  The live pool of pool.go: its state, the key index, per-node statistics and every
  operation that changes one node or the health criterion. Each operation is the body run
  under \<open>p.mu\<close>, so an execution of the program is an interleaving of these functions.

  Clock readings are an argument (nanoseconds, \<open>None\<close> for the zero time). Health generation,
  revisions and the debounce token are 64-bit words; the cache generation, which the
  cache file compares by order, is a natural number. A cancellation context is named by the
  run number under which it was created.
\<close>

section \<open>State\<close>

record node_stats =
  nsSuccesses :: nat
  nsFailures :: nat
  nsLastLatencyMs :: int
  nsHealthFailures :: nat
  nsFullFailures :: nat
  nsLastSuccess :: "int option"
  nsTerminal :: bool

record cursor =
  gcSticky :: string
  gcRR :: nat
  gcLast :: string
  gcPinned :: bool

record pool =
  plProxies :: "proxy list"
  plIndex :: "string \<Rightarrow> nat option"
  plInfo :: "proxy list"
  plGroups :: "string \<Rightarrow> cursor option"
  plStats :: "string \<Rightarrow> node_stats option"
  plCache :: "nat option"
  plCacheGen :: nat
  plTimer :: bool
  plToken :: u64
  plRecheckCursor :: string
  plHealthGen :: u64
  plHealthURL :: string
  plHealthRun :: u64
  plHealthCancel :: "u64 option"
  plCancelled :: "u64 set"
  plRecheckPending :: bool
  plRequireIPChange :: bool
  plPolicyFP :: string
  plRoutingRev :: u64
  plStatsRev :: u64
  plActiveRev :: u64

definition stats0 :: node_stats where
  "stats0 = \<lparr>nsSuccesses = 0, nsFailures = 0, nsLastLatencyMs = 0, nsHealthFailures = 0,
     nsFullFailures = 0, nsLastSuccess = None, nsTerminal = False\<rparr>"

definition cursor0 :: cursor where
  "cursor0 = \<lparr>gcSticky = [], gcRR = 0, gcLast = [], gcPinned = False\<rparr>"

definition NewProxyPool :: pool where
  "NewProxyPool = \<lparr>plProxies = [], plIndex = Map.empty, plInfo = [], plGroups = Map.empty,
     plStats = Map.empty, plCache = None, plCacheGen = 0, plTimer = False, plToken = 0,
     plRecheckCursor = [], plHealthGen = 0, plHealthURL = [], plHealthRun = 0,
     plHealthCancel = None, plCancelled = {}, plRecheckPending = False, plRequireIPChange = False,
     plPolicyFP = [], plRoutingRev = 0, plStatsRev = 0, plActiveRev = 0\<rparr>"

definition automaticHealthSuccessCooldown :: int where
  "automaticHealthSuccessCooldown = 86400000000000"

section \<open>Key index\<close>

definition build_index :: "proxy list \<Rightarrow> string \<Rightarrow> nat option" where
  "build_index ps =
     foldl (\<lambda>m i. if m (px_key (ps ! i)) = None then m(px_key (ps ! i) \<mapsto> i) else m)
       Map.empty [0..<length ps]"

definition rebuildProxyIndexLocked :: "pool \<Rightarrow> pool" where
  "rebuildProxyIndexLocked p = p\<lparr>plIndex := build_index (plProxies p)\<rparr>"

definition proxyIndexLookupLocked :: "string \<Rightarrow> pool \<Rightarrow> nat option" where
  "proxyIndexLookupLocked key p =
     (case plIndex p key of
        None \<Rightarrow> None
      | Some i \<Rightarrow>
          if length (plProxies p) \<le> i \<or> px_key (plProxies p ! i) \<noteq> key then None else Some i)"

definition set_proxy :: "nat \<Rightarrow> proxy \<Rightarrow> pool \<Rightarrow> pool" where
  "set_proxy i px p = p\<lparr>plProxies := (plProxies p)[i := px]\<rparr>"

text \<open>
  mutateProxyLocked: the closures of its callers that also touch the statistics are split
  into the node part, given here, and the statistics part of the caller.
\<close>

definition mutateProxyLocked :: "string \<Rightarrow> (proxy \<Rightarrow> proxy) \<Rightarrow> pool \<Rightarrow> pool \<times> bool" where
  "mutateProxyLocked key f p =
     (case proxyIndexLookupLocked key p of
        Some i \<Rightarrow>
          (let p' = set_proxy i (f (plProxies p ! i)) p
           in (p'\<lparr>plRoutingRev := plRoutingRev p' + 1\<rparr>, True))
      | None \<Rightarrow>
          (case find_index (\<lambda>px. px_key px = key) (plProxies p) of
             Some i \<Rightarrow>
               (let p' = rebuildProxyIndexLocked (set_proxy i (f (plProxies p ! i)) p)
                in (p'\<lparr>plRoutingRev := plRoutingRev p' + 1\<rparr>, True))
           | None \<Rightarrow> (p, False)))"

definition Find :: "string \<Rightarrow> pool \<Rightarrow> proxy option" where
  "Find key p =
     (case proxyIndexLookupLocked key p of
        Some i \<Rightarrow> Some (plProxies p ! i)
      | None \<Rightarrow> find (\<lambda>px. px_key px = key) (plProxies p))"

section \<open>Persistence queue\<close>

definition queuePersistenceLocked :: "pool \<Rightarrow> pool" where
  "queuePersistenceLocked p =
     (let p = p\<lparr>plCacheGen := plCacheGen p + 1\<rparr> in
      if plCache p = None then p else p\<lparr>plToken := plToken p + 1, plTimer := True\<rparr>)"

definition cancelScheduledPersistenceLocked :: "pool \<Rightarrow> pool" where
  "cancelScheduledPersistenceLocked p = p\<lparr>plToken := plToken p + 1, plTimer := False\<rparr>"

section \<open>Statistics\<close>

definition statsForKeyLocked :: "string \<Rightarrow> pool \<Rightarrow> node_stats" where
  "statsForKeyLocked key p = (case plStats p key of Some st \<Rightarrow> st | None \<Rightarrow> stats0)"

definition set_stats :: "string \<Rightarrow> node_stats \<Rightarrow> pool \<Rightarrow> pool" where
  "set_stats key st p = p\<lparr>plStats := (plStats p)(key \<mapsto> st)\<rparr>"

definition RecordResult :: "string \<Rightarrow> bool \<Rightarrow> int \<Rightarrow> pool \<Rightarrow> pool" where
  "RecordResult key ok latency p =
     (let st = statsForKeyLocked key p;
          st = (if ok then st\<lparr>nsSuccesses := nsSuccesses st + 1, nsHealthFailures := 0,
                              nsLastLatencyMs := (if 0 < latency then latency else nsLastLatencyMs st)\<rparr>
                else st\<lparr>nsFailures := nsFailures st + 1\<rparr>);
          p = set_stats key st p
      in queuePersistenceLocked (p\<lparr>plStatsRev := plStatsRev p + 1\<rparr>))"

definition statsEligibleForAutoRecheck :: "node_stats option \<Rightarrow> int \<Rightarrow> bool" where
  "statsEligibleForAutoRecheck st now =
     (case st of
        None \<Rightarrow> True
      | Some s \<Rightarrow>
          if nsTerminal s then False
          else case nsLastSuccess s of
              None \<Rightarrow> True
            | Some t \<Rightarrow> t + automaticHealthSuccessCooldown \<le> now)"

definition eligibleForAutoRecheckLocked :: "proxy \<Rightarrow> int \<Rightarrow> pool \<Rightarrow> bool" where
  "eligibleForAutoRecheckLocked px now p \<longleftrightarrow>
     \<not> pxSourceRetired px \<and> statsEligibleForAutoRecheck (plStats p (px_key px)) now"

definition FilterAutoRecheckCandidates :: "int \<Rightarrow> proxy list \<Rightarrow> pool \<Rightarrow> proxy list" where
  "FilterAutoRecheckCandidates now cs p =
     filter (\<lambda>px. statsEligibleForAutoRecheck (plStats p (px_key px)) now) cs"

definition scoreWithStats :: "proxy \<Rightarrow> node_stats option \<Rightarrow> rat" where
  "scoreWithStats px st =
     (let rate = (case st of
            None \<Rightarrow> 3 / 4
          | Some s \<Rightarrow> if 0 < nsSuccesses s + nsFailures s
                      then of_nat (nsSuccesses s) / of_nat (nsSuccesses s + nsFailures s) else 3 / 4);
          lat = (case st of
            None \<Rightarrow> pxLatencyMs px
          | Some s \<Rightarrow> if 0 < nsLastLatencyMs s then nsLastLatencyMs s else pxLatencyMs px);
          latScore = (if 0 < lat then 1 / (1 + of_int lat / 1000) else 1);
          speedScore = (if 0 < pxSpeedKbps px then min (pxSpeedKbps px / 10000) 1 else 0)
      in 100 * (6 / 10 * rate + 3 / 10 * latScore + 1 / 10 * speedScore))"

definition scoreLocked :: "proxy \<Rightarrow> pool \<Rightarrow> rat" where
  "scoreLocked px p = scoreWithStats px (plStats p (px_key px))"

section \<open>Health observations\<close>

definition proxyHardRoutable :: "proxy \<Rightarrow> bool" where
  "proxyHardRoutable px \<longleftrightarrow> \<not> pxSourceRetired px \<and> \<not> pxHealthInvalidated px \<and> \<not> pxPolicyExcluded px"

definition observe_reachable_stats :: "int \<Rightarrow> bool \<Rightarrow> bool \<Rightarrow> int \<Rightarrow> node_stats \<Rightarrow> node_stats" where
  "observe_reachable_stats now manual allowed latency st =
     st\<lparr>nsHealthFailures := 0, nsLastSuccess := Some now,
        nsTerminal := (if manual \<and> allowed then False else nsTerminal st),
        nsLastLatencyMs := (if 0 < latency then latency else nsLastLatencyMs st)\<rparr>"

definition observe_reachable_proxy :: "node_stats \<Rightarrow> bool \<Rightarrow> int \<Rightarrow> proxy \<Rightarrow> proxy" where
  "observe_reachable_proxy st allowed latency px =
     px\<lparr>pxHealthInvalidated := nsTerminal st, pxPolicyExcluded := \<not> allowed,
        pxAvailable := allowed \<and> \<not> pxSourceRetired px \<and> \<not> nsTerminal st, pxLatencyMs := latency\<rparr>"

definition observe_failed_proxy :: "proxy \<Rightarrow> proxy" where
  "observe_failed_proxy px =
     px\<lparr>pxHealthInvalidated := True, pxAvailable := False, pxPolicyExcluded := False\<rparr>"

definition observe_failed_stats :: "node_stats \<Rightarrow> node_stats" where
  "observe_failed_stats st = st\<lparr>nsHealthFailures := nsHealthFailures st + 1, nsTerminal := True\<rparr>"

definition observeHealthOutcome ::
    "int \<Rightarrow> string \<Rightarrow> bool \<Rightarrow> bool \<Rightarrow> int \<Rightarrow> u64 option \<Rightarrow> bool \<Rightarrow> pool \<Rightarrow> pool \<times> bool" where
  "observeHealthOutcome now key reachable allowed latency expected manual p =
     (if (case expected of Some g \<Rightarrow> plHealthGen p \<noteq> g | None \<Rightarrow> False) then (p, False)
      else if reachable \<and> \<not> manual \<and> (case plStats p key of Some st \<Rightarrow> nsTerminal st | None \<Rightarrow> False)
      then (p, False)
      else
        let st0 = statsForKeyLocked key p;
            st = (if reachable then observe_reachable_stats now manual allowed latency st0
                  else observe_failed_stats st0);
            f = (if reachable then observe_reachable_proxy st allowed latency else observe_failed_proxy);
            (p1, observed) = mutateProxyLocked key f p
        in if observed
           then (queuePersistenceLocked ((set_stats key st p1)\<lparr>plStatsRev := plStatsRev p1 + 1\<rparr>), True)
           else (p1, False))"

definition UpdateLatency :: "string \<Rightarrow> int \<Rightarrow> pool \<Rightarrow> pool" where
  "UpdateLatency key latency p =
     (case mutateProxyLocked key (\<lambda>px. px\<lparr>pxLatencyMs := latency\<rparr>) p of
        (p', True) \<Rightarrow> queuePersistenceLocked p'
      | (p', False) \<Rightarrow> p')"

definition SetAvailable :: "string \<Rightarrow> bool \<Rightarrow> pool \<Rightarrow> pool" where
  "SetAvailable key avail p =
     (case mutateProxyLocked key (\<lambda>px. px\<lparr>pxAvailable := avail \<and> proxyHardRoutable px\<rparr>) p of
        (p', False) \<Rightarrow> p'
      | (p', True) \<Rightarrow>
          queuePersistenceLocked
            (if avail then (case plStats p' key of
                              Some st \<Rightarrow> set_stats key (st\<lparr>nsHealthFailures := 0\<rparr>) p'
                            | None \<Rightarrow> p')
             else p'))"

definition SetPolicyExcludedAtGeneration :: "string \<Rightarrow> bool \<Rightarrow> u64 \<Rightarrow> pool \<Rightarrow> pool \<times> bool" where
  "SetPolicyExcludedAtGeneration key excluded gen p =
     (if plHealthGen p \<noteq> gen then (p, False)
      else
        let terminal = (case plStats p key of Some st \<Rightarrow> nsTerminal st | None \<Rightarrow> False);
            f = (\<lambda>px. px\<lparr>pxHealthInvalidated := terminal, pxPolicyExcluded := excluded,
                         pxAvailable := (if excluded \<or> terminal then False else pxAvailable px)\<rparr>)
        in case mutateProxyLocked key f p of
             (p', True) \<Rightarrow> (queuePersistenceLocked p', True)
           | (p', False) \<Rightarrow> (p', False))"

section \<open>Health criterion\<close>

definition reset_streaks :: "node_stats \<Rightarrow> node_stats" where
  "reset_streaks st = st\<lparr>nsHealthFailures := 0, nsFullFailures := 0, nsLastSuccess := None\<rparr>"

text \<open>\<open>url\<close> is the optional argument of InvalidateHealth; the result counts the nodes switched off.\<close>

definition InvalidateHealth :: "string option \<Rightarrow> pool \<Rightarrow> pool \<times> nat" where
  "InvalidateHealth url p =
     (let p1 = p\<lparr>plCancelled := (case plHealthCancel p of Some r \<Rightarrow> insert r (plCancelled p) | None \<Rightarrow> plCancelled p),
                 plHealthCancel := None, plHealthRun := plHealthRun p + 1, plHealthGen := plHealthGen p + 1\<rparr>;
          p2 = (case url of
                  None \<Rightarrow> p1
                | Some u \<Rightarrow> p1\<lparr>plHealthURL := trim_space u, plRecheckPending := True\<rparr>);
          changed = length (filter pxAvailable (plProxies p2));
          keys = px_key ` set (plProxies p2);
          p3 = p2\<lparr>plProxies := map (\<lambda>px. px\<lparr>pxHealthInvalidated := True, pxAvailable := False\<rparr>) (plProxies p2),
                  plStats := (\<lambda>k. if k \<in> keys then map_option reset_streaks (plStats p2 k) else plStats p2 k),
                  plRoutingRev := plRoutingRev p2 + 1\<rparr>
      in (queuePersistenceLocked p3, changed))"

text \<open>The argument \<open>baseline\<close> is the package variable read by BaselineExitIP.\<close>

definition healthPolicyFingerprint :: "string \<Rightarrow> bool \<Rightarrow> string" where
  "healthPolicyFingerprint baseline required =
     (if \<not> required then ''v1:require-ip-change=false''
      else ''v1:require-ip-change=true;baseline='' @ (if baseline = [] then ''unknown'' else baseline))"

definition validHealthPolicyFingerprint :: "string \<Rightarrow> bool" where
  "validHealthPolicyFingerprint v =
     (if v = ''v1:require-ip-change=false'' then True
      else if \<not> has_prefix ''v1:require-ip-change=true;baseline='' v then False
      else let b = trim_prefix ''v1:require-ip-change=true;baseline='' v
           in b = ''unknown'' \<or> parse_ip b \<noteq> None)"

definition SetRequireIPChangePolicy :: "string \<Rightarrow> bool \<Rightarrow> pool \<Rightarrow> pool \<times> bool" where
  "SetRequireIPChangePolicy baseline required p =
     (let fp = healthPolicyFingerprint baseline required
      in (p\<lparr>plRequireIPChange := required, plPolicyFP := fp\<rparr>, plPolicyFP p \<noteq> fp))"

definition CompleteHealthRecheck :: "u64 \<Rightarrow> pool \<Rightarrow> pool \<times> bool" where
  "CompleteHealthRecheck gen p =
     (if plHealthGen p \<noteq> gen then (p, False)
      else if \<not> plRecheckPending p then (p, True)
      else (queuePersistenceLocked (p\<lparr>plRecheckPending := False\<rparr>), True))"

text \<open>
  BeginHealthWork returns the name of the new context; \<open>FinishHealthWork\<close> is the closure it
  hands out, for the run it was created in.
\<close>

definition BeginHealthWork :: "u64 \<Rightarrow> pool \<Rightarrow> pool \<times> u64 option" where
  "BeginHealthWork gen p =
     (if plHealthGen p \<noteq> gen then (p, None)
      else
        let run = plHealthRun p + 1 in
        (p\<lparr>plCancelled := (case plHealthCancel p of Some r \<Rightarrow> insert r (plCancelled p) | None \<Rightarrow> plCancelled p),
           plHealthRun := run, plHealthCancel := Some run\<rparr>, Some run))"

definition FinishHealthWork :: "u64 \<Rightarrow> pool \<Rightarrow> pool" where
  "FinishHealthWork run p =
     (let p' = (if plHealthRun p = run then p\<lparr>plHealthCancel := None\<rparr> else p)
      in p'\<lparr>plCancelled := insert run (plCancelled p')\<rparr>)"

definition SetHealthCriterion :: "string \<Rightarrow> pool \<Rightarrow> pool" where
  "SetHealthCriterion url p = p\<lparr>plHealthURL := trim_space url\<rparr>"

definition RestoreHealthRecheckPending :: "pool \<Rightarrow> pool" where
  "RestoreHealthRecheckPending p = p\<lparr>plRecheckPending := True\<rparr>"

section \<open>Credentials, location and speed\<close>

definition UpdateVerifiedCredentialsAtGeneration :: "string \<Rightarrow> proxy \<Rightarrow> u64 \<Rightarrow> pool \<Rightarrow> pool \<times> bool" where
  "UpdateVerifiedCredentialsAtGeneration key v gen p =
     (if plHealthGen p \<noteq> gen then (p, False)
      else
        let same = (\<lambda>px. pxUsername px = pxUsername v \<and> pxPassword px = pxPassword v \<and>
                         pxAlternates px = pxAlternates v);
            f = (\<lambda>px. if same px then px
                      else px\<lparr>pxUsername := pxUsername v, pxPassword := pxPassword v,
                              pxAlternates := pxAlternates v\<rparr>);
            changed = (case Find key p of Some px \<Rightarrow> \<not> same px | None \<Rightarrow> False);
            (p', found) = mutateProxyLocked key f p
        in (if changed then queuePersistenceLocked p' else p', found))"

definition geo_update :: "string \<Rightarrow> string \<Rightarrow> string \<Rightarrow> string \<Rightarrow> bool \<Rightarrow> bool \<Rightarrow> proxy \<Rightarrow> proxy" where
  "geo_update exitip country city continent changed known px =
     (let px = px\<lparr>pxExitIP := exitip, pxIPChanged := changed, pxIPChangeKnown := known\<rparr>
      in if country \<noteq> [] then px\<lparr>pxCountry := country, pxCity := city, pxContinent := continent\<rparr> else px)"

definition updateGeo ::
    "string \<Rightarrow> string \<Rightarrow> string \<Rightarrow> string \<Rightarrow> string \<Rightarrow> bool \<Rightarrow> bool \<Rightarrow> u64 option \<Rightarrow> pool \<Rightarrow> pool \<times> bool" where
  "updateGeo key exitip country city continent changed known expected p =
     (if (case expected of Some g \<Rightarrow> plHealthGen p \<noteq> g | None \<Rightarrow> False) then (p, False)
      else case mutateProxyLocked key (geo_update exitip country city continent changed known) p of
          (p', True) \<Rightarrow> (queuePersistenceLocked p', True)
        | (p', False) \<Rightarrow> (p', False))"

definition speed_update :: "rat \<Rightarrow> int \<Rightarrow> int \<Rightarrow> int \<Rightarrow> proxy \<Rightarrow> proxy" where
  "speed_update kbps tested bytes dur px =
     px\<lparr>pxSpeedKbps := kbps, pxSpeedTestedAt := tested, pxSpeedBytes := bytes, pxSpeedDurationMs := dur\<rparr>"

definition UpdateSpeed :: "int \<Rightarrow> string \<Rightarrow> rat \<Rightarrow> int \<Rightarrow> int \<Rightarrow> pool \<Rightarrow> pool \<times> bool" where
  "UpdateSpeed now key kbps bytes dur p =
     (case mutateProxyLocked key (speed_update kbps now bytes dur) p of
        (p', True) \<Rightarrow> (queuePersistenceLocked p', True)
      | (p', False) \<Rightarrow> (p', False))"

section \<open>Source retirement\<close>

definition fold_name :: "string \<Rightarrow> string" where
  "fold_name s = to_lower (trim_space s)"

definition enabledSourceSets :: "source list \<Rightarrow> string set \<times> string set" where
  "enabledSourceSets ss =
     (let en = filter srEnabled ss in (set (map srID en), set (map (\<lambda>s. fold_name (srName s)) en)))"

text \<open>The names that own a node without source identifiers.\<close>

definition owner_names :: "proxy \<Rightarrow> string list" where
  "owner_names px =
     (if pxSourceNames px = [] \<and> trim_space (pxSourceName px) \<noteq> [] then [pxSourceName px]
      else pxSourceNames px)"

definition proxySourcesEnabled :: "string set \<Rightarrow> string set \<Rightarrow> proxy \<Rightarrow> bool" where
  "proxySourcesEnabled ids names px =
     (if pxSourceIDs px \<noteq> [] then list_all (\<lambda>i. i \<in> ids) (pxSourceIDs px)
      else list_all (\<lambda>n. fold_name n \<in> names) (owner_names px))"

definition proxy_owned :: "proxy \<Rightarrow> bool" where
  "proxy_owned px \<longleftrightarrow> pxSourceIDs px \<noteq> [] \<or> owner_names px \<noteq> []"

definition retire_proxy :: "string set \<Rightarrow> string set \<Rightarrow> proxy \<Rightarrow> proxy" where
  "retire_proxy ids names px =
     (if proxy_owned px \<and> \<not> proxySourcesEnabled ids names px
      then px\<lparr>pxSourceRetired := True, pxAvailable := False\<rparr> else px)"

definition newly_retired :: "string set \<Rightarrow> string set \<Rightarrow> proxy \<Rightarrow> bool" where
  "newly_retired ids names px \<longleftrightarrow>
     proxy_owned px \<and> \<not> proxySourcesEnabled ids names px \<and> (\<not> pxSourceRetired px \<or> pxAvailable px)"

definition applyEnabledSourcesLocked :: "string set \<Rightarrow> string set \<Rightarrow> pool \<Rightarrow> pool \<times> nat" where
  "applyEnabledSourcesLocked ids names p =
     (p\<lparr>plProxies := map (retire_proxy ids names) (plProxies p)\<rparr>,
      length (filter (newly_retired ids names) (plProxies p)))"

definition ApplyEnabledSources :: "source list \<Rightarrow> pool \<Rightarrow> pool \<times> nat" where
  "ApplyEnabledSources ss p =
     (let (ids, names) = enabledSourceSets ss;
          (p', n) = applyEnabledSourcesLocked ids names p
      in (if 0 < n then queuePersistenceLocked (p'\<lparr>plRoutingRev := plRoutingRev p' + 1\<rparr>) else p', n))"

section \<open>Rechecks\<close>

definition AvailableCount :: "pool \<Rightarrow> nat" where
  "AvailableCount p = length (filter (\<lambda>px. pxAvailable px \<and> proxyHardRoutable px) (plProxies p))"

definition FullRecheckCandidates :: "pool \<Rightarrow> proxy list" where
  "FullRecheckCandidates p = filter (\<lambda>px. \<not> pxSourceRetired px) (plProxies p)"

text \<open>The scan loop of RecheckCandidates: \<open>n\<close> nodes left to visit, \<open>room\<close> slots left.\<close>

fun recheck_scan :: "(proxy \<Rightarrow> bool) \<Rightarrow> proxy list \<Rightarrow> nat \<Rightarrow> nat \<Rightarrow> nat \<Rightarrow> string \<Rightarrow> proxy list \<times> string" where
  "recheck_scan ok ps i 0 room cur = ([], cur)"
| "recheck_scan ok ps i (Suc n) room cur =
     (if room = 0 then ([], cur)
      else
        let px = ps ! (i mod length ps) in
        if ok px then
          (let (out, c) = recheck_scan ok ps (i + 1) n (room - 1) (px_key px) in (px # out, c))
        else recheck_scan ok ps (i + 1) n room (px_key px))"

definition RecheckCandidates :: "int \<Rightarrow> int \<Rightarrow> pool \<Rightarrow> pool \<times> proxy list" where
  "RecheckCandidates now limit p =
     (let ps = plProxies p in
      if limit \<le> 0 \<or> ps = [] then (p, [])
      else
        let start = (if plRecheckCursor p \<noteq> []
                     then (case find_index (\<lambda>px. px_key px = plRecheckCursor p) ps of
                             Some i \<Rightarrow> (i + 1) mod length ps | None \<Rightarrow> 0)
                     else 0);
            (out, lst) = recheck_scan (\<lambda>px. eligibleForAutoRecheckLocked px now p) ps start
                            (length ps) (nat limit) []
        in (if lst \<noteq> [] then p\<lparr>plRecheckCursor := lst\<rparr> else p, out))"

section \<open>The index agrees with a linear search\<close>

abbreviation key_index :: "string \<Rightarrow> proxy list \<Rightarrow> nat option" where
  "key_index k ps \<equiv> find_index (\<lambda>px. px_key px = k) ps"

lemma find_index_snoc:
  "find_index P (xs @ [x]) =
     (case find_index P xs of Some i \<Rightarrow> Some i | None \<Rightarrow> if P x then Some (length xs) else None)"
  by (induction xs) (auto split: option.splits)

lemma build_index_take:
  "n \<le> length ps \<Longrightarrow>
   foldl (\<lambda>m i. if m (px_key (ps ! i)) = None then m(px_key (ps ! i) \<mapsto> i) else m) Map.empty [0..<n] k =
   key_index k (take n ps)"
proof (induction n)
  case (Suc n)
  then have "take (Suc n) ps = take n ps @ [ps ! n]" by (simp add: take_Suc_conv_app_nth)
  with Suc show ?case by (auto simp: find_index_snoc split: option.splits)
qed simp

lemma build_index_eq: "build_index ps k = key_index k ps"
  using build_index_take [of "length ps" ps k] by (simp add: build_index_def)

definition index_ok :: "pool \<Rightarrow> bool" where
  "index_ok p \<longleftrightarrow> (\<forall>k. plIndex p k = key_index k (plProxies p))"

lemma rebuild_index_ok [simp]: "index_ok (rebuildProxyIndexLocked p)"
  by (simp add: index_ok_def rebuildProxyIndexLocked_def build_index_eq)

lemma lookup_index_ok: "index_ok p \<Longrightarrow> proxyIndexLookupLocked k p = key_index k (plProxies p)"
  by (cases "key_index k (plProxies p)")
    (auto simp: index_ok_def proxyIndexLookupLocked_def dest: find_index_SomeD)

lemma find_find_index: "find P xs = map_option ((!) xs) (find_index P xs)"
  by (induction xs) (auto simp: option.map_comp comp_def split: option.splits)

lemma Find_eq: "index_ok p \<Longrightarrow> Find k p = find (\<lambda>px. px_key px = k) (plProxies p)"
  by (auto simp: Find_def lookup_index_ok find_find_index split: option.split)

lemma Find_cong: "plProxies p = plProxies q \<Longrightarrow> plIndex p = plIndex q \<Longrightarrow> Find k p = Find k q"
  by (simp add: Find_def proxyIndexLookupLocked_def split: option.split)

lemma key_index_map:
  "map px_key ps = map px_key qs \<Longrightarrow> key_index k ps = key_index k qs"
proof (induction ps arbitrary: qs)
  case (Cons p ps)
  then show ?case by (cases qs) auto
qed simp

lemma mutate_index_ok:
  assumes "index_ok p"
  shows "mutateProxyLocked k f p =
    (case key_index k (plProxies p) of
       None \<Rightarrow> (p, False)
     | Some i \<Rightarrow> (p\<lparr>plProxies := (plProxies p)[i := f (plProxies p ! i)], plRoutingRev := plRoutingRev p + 1\<rparr>, True))"
  using assms by (auto simp: mutateProxyLocked_def lookup_index_ok set_proxy_def Let_def split: option.split)

section \<open>Invariant of the pool\<close>

text \<open>
  The index is exact, keys are unique, a node offered as available is hard-routable, and a
  node whose last failure is terminal is not.
\<close>

definition proxy_sound :: "(string \<Rightarrow> node_stats option) \<Rightarrow> proxy \<Rightarrow> bool" where
  "proxy_sound stats px \<longleftrightarrow>
     (pxAvailable px \<longrightarrow> proxyHardRoutable px) \<and>
     (case stats (px_key px) of None \<Rightarrow> True | Some st \<Rightarrow> nsTerminal st \<longrightarrow> \<not> proxyHardRoutable px)"

definition pool_ok :: "pool \<Rightarrow> bool" where
  "pool_ok p \<longleftrightarrow> index_ok p \<and> distinct (map px_key (plProxies p)) \<and>
     (\<forall>px\<in>set (plProxies p). proxy_sound (plStats p) px)"

lemma pool_ok_NewProxyPool: "pool_ok NewProxyPool"
  by (simp add: pool_ok_def NewProxyPool_def index_ok_def)

text \<open>Only nodes, index and statistics matter.\<close>

lemma pool_ok_cong:
  "plProxies p = plProxies q \<Longrightarrow> plIndex p = plIndex q \<Longrightarrow> plStats p = plStats q \<Longrightarrow> pool_ok p = pool_ok q"
  by (simp add: pool_ok_def index_ok_def)

lemma queue_fields [simp]:
  "plProxies (queuePersistenceLocked p) = plProxies p" "plIndex (queuePersistenceLocked p) = plIndex p"
  "plStats (queuePersistenceLocked p) = plStats p" "plHealthGen (queuePersistenceLocked p) = plHealthGen p"
  "plGroups (queuePersistenceLocked p) = plGroups p" "plCache (queuePersistenceLocked p) = plCache p"
  "plInfo (queuePersistenceLocked p) = plInfo p" "plRoutingRev (queuePersistenceLocked p) = plRoutingRev p"
  "plCacheGen (queuePersistenceLocked p) = plCacheGen p + 1"
  "plHealthURL (queuePersistenceLocked p) = plHealthURL p"
  "plPolicyFP (queuePersistenceLocked p) = plPolicyFP p"
  "plRecheckPending (queuePersistenceLocked p) = plRecheckPending p"
  by (simp_all add: queuePersistenceLocked_def Let_def)

lemma pool_ok_queue [simp]: "pool_ok (queuePersistenceLocked p) = pool_ok p"
  by (rule pool_ok_cong) simp_all

lemma pool_ok_update [simp]:
  "pool_ok (p\<lparr>plRoutingRev := r\<rparr>) = pool_ok p" "pool_ok (p\<lparr>plStatsRev := r\<rparr>) = pool_ok p"
  "pool_ok (p\<lparr>plActiveRev := r\<rparr>) = pool_ok p" "pool_ok (p\<lparr>plGroups := gs\<rparr>) = pool_ok p"
  "pool_ok (p\<lparr>plRecheckPending := b\<rparr>) = pool_ok p" "pool_ok (p\<lparr>plRecheckCursor := s\<rparr>) = pool_ok p"
  "pool_ok (p\<lparr>plInfo := ps\<rparr>) = pool_ok p" "pool_ok (p\<lparr>plCacheGen := n\<rparr>) = pool_ok p"
  "pool_ok (p\<lparr>plTimer := b\<rparr>) = pool_ok p" "pool_ok (p\<lparr>plToken := r\<rparr>) = pool_ok p"
  "pool_ok (p\<lparr>plHealthURL := s\<rparr>) = pool_ok p" "pool_ok (p\<lparr>plCache := c\<rparr>) = pool_ok p"
  by (rule pool_ok_cong; simp)+

text \<open>One node and its statistics replaced.\<close>

lemma pool_ok_replace:
  assumes "pool_ok p" "key_index k (plProxies p) = Some i"
    and "px_key px' = k" "pxAvailable px' \<longrightarrow> proxyHardRoutable px'"
    and "plStats q = (plStats p)(k := sto)" "case sto of None \<Rightarrow> True | Some st \<Rightarrow> nsTerminal st \<longrightarrow> \<not> proxyHardRoutable px'"
    and "plProxies q = (plProxies p)[i := px']" "plIndex q = plIndex p"
  shows "pool_ok q"
proof -
  note i = find_index_SomeD [OF assms(2)]
  have keys: "map px_key (plProxies q) = map px_key (plProxies p)"
    using i assms(3,7) by (simp add: map_update list_update_same_conv)
  have dist: "distinct (map px_key (plProxies p))" using assms(1) by (simp add: pool_ok_def)
  have "proxy_sound (plStats q) px" if "px \<in> set (plProxies q)" for px
  proof -
    from that obtain j where j: "j < length (plProxies p)" "px = (plProxies p)[i := px'] ! j"
      using assms(7) by (auto simp: in_set_conv_nth)
    show ?thesis
    proof (cases "j = i")
      case True
      with j i have "px = px'" by simp
      with assms(3-6) show ?thesis by (simp add: proxy_sound_def)
    next
      case False
      with j have px: "px = plProxies p ! j" by simp
      have "px_key px \<noteq> k"
        using dist False i j(1) unfolding px distinct_conv_nth by (metis length_map nth_map)
      moreover have "proxy_sound (plStats p) px"
        using assms(1) j(1) by (simp add: pool_ok_def px)
      ultimately show ?thesis using assms(5) by (simp add: proxy_sound_def)
    qed
  qed
  moreover have "index_ok q"
    using assms(1,8) key_index_map [OF keys] by (simp add: pool_ok_def index_ok_def)
  ultimately show ?thesis using dist keys by (simp add: pool_ok_def)
qed

lemma pool_ok_mutate:
  assumes "pool_ok p"
    and "\<And>px. px \<in> set (plProxies p) \<Longrightarrow> px_key (f px) = px_key px"
    and "\<And>px. px \<in> set (plProxies p) \<Longrightarrow> px_key px = k \<Longrightarrow> proxy_sound (plStats p) (f px)"
  shows "pool_ok (fst (mutateProxyLocked k f p))"
proof (cases "key_index k (plProxies p)")
  case None
  with assms(1) show ?thesis by (simp add: mutate_index_ok pool_ok_def)
next
  case (Some i)
  note i = find_index_SomeD [OF Some]
  let ?px = "plProxies p ! i"
  have mem: "?px \<in> set (plProxies p)" using i by simp
  have s: "proxy_sound (plStats p) (f ?px)" using assms(3) [OF mem] i by simp
  have "index_ok p" using assms(1) by (simp add: pool_ok_def)
  with Some have m: "fst (mutateProxyLocked k f p) =
      p\<lparr>plProxies := (plProxies p)[i := f ?px], plRoutingRev := plRoutingRev p + 1\<rparr>"
    by (simp add: mutate_index_ok)
  show ?thesis
    by (rule pool_ok_replace [OF assms(1) Some, of "f ?px" _ "plStats p k"])
      (use s assms(2) [OF mem] i in \<open>simp_all add: m proxy_sound_def\<close>)
qed

lemma mutate_fields [simp]:
  "plStats (fst (mutateProxyLocked k f p)) = plStats p"
  "plHealthGen (fst (mutateProxyLocked k f p)) = plHealthGen p"
  "plGroups (fst (mutateProxyLocked k f p)) = plGroups p"
  by (simp_all add: mutateProxyLocked_def set_proxy_def rebuildProxyIndexLocked_def Let_def split: option.split)

section \<open>The operations keep the invariant\<close>

lemma RecordResult_ok [intro]: "pool_ok p \<Longrightarrow> pool_ok (RecordResult key ok latency p)"
proof -
  assume ok: "pool_ok p"
  let ?st = "statsForKeyLocked key p"
  have "pool_ok (set_stats key st p)" if "nsTerminal st = nsTerminal ?st" for st
    using ok that by (auto simp: pool_ok_def index_ok_def set_stats_def proxy_sound_def statsForKeyLocked_def
        stats0_def split: option.splits)
  then show ?thesis unfolding RecordResult_def Let_def by simp
qed

lemma proxy_sound_cong:
  "px_key px' = px_key px \<Longrightarrow> pxAvailable px' = pxAvailable px \<Longrightarrow>
   proxyHardRoutable px' = proxyHardRoutable px \<Longrightarrow> proxy_sound s px' = proxy_sound s px"
  by (simp add: proxy_sound_def split: option.split)

lemma sound_availability [simp]:
  "proxy_sound s (px\<lparr>pxLatencyMs := l\<rparr>) = proxy_sound s px"
  "proxy_sound s (geo_update e c ci co ch kn px) = proxy_sound s px"
  "proxy_sound s (speed_update k a b d px) = proxy_sound s px"
  "proxy_sound s (px\<lparr>pxUsername := u, pxPassword := w, pxAlternates := al\<rparr>) = proxy_sound s px"
  by (rule proxy_sound_cong; simp add: proxyHardRoutable_def geo_update_def speed_update_def Let_def)+

lemma key_updates [simp]:
  "px_key (geo_update e c ci co ch kn px) = px_key px"
  "px_key (speed_update k a b d px) = px_key px"
  "px_key (observe_reachable_proxy st al l px) = px_key px"
  "px_key (observe_failed_proxy px) = px_key px"
  "px_key (retire_proxy ids names px) = px_key px"
  by (simp_all add: geo_update_def speed_update_def observe_reachable_proxy_def observe_failed_proxy_def
      retire_proxy_def Let_def)

lemma fst_okD: "pool_ok (fst x) \<Longrightarrow> x = (a, b) \<Longrightarrow> pool_ok a"
  by simp

lemma pool_soundD: "pool_ok p \<Longrightarrow> px \<in> set (plProxies p) \<Longrightarrow> proxy_sound (plStats p) px"
  by (simp add: pool_ok_def)

lemma UpdateLatency_ok [intro]: "pool_ok p \<Longrightarrow> pool_ok (UpdateLatency key l p)"
  using pool_ok_mutate [of p "\<lambda>px. px\<lparr>pxLatencyMs := l\<rparr>" key]
  by (auto simp: UpdateLatency_def pool_soundD split: prod.split bool.split)

lemma updateGeo_ok [intro]: "pool_ok p \<Longrightarrow> pool_ok (fst (updateGeo key e c ci co ch kn g p))"
  using pool_ok_mutate [of p "geo_update e c ci co ch kn" key]
  by (auto simp: updateGeo_def pool_soundD split: prod.split bool.split)

lemma UpdateSpeed_ok [intro]: "pool_ok p \<Longrightarrow> pool_ok (fst (UpdateSpeed now key k b d p))"
  using pool_ok_mutate [of p "speed_update k now b d" key]
  by (auto simp: UpdateSpeed_def pool_soundD split: prod.split bool.split)

lemma UpdateVerified_ok [intro]: "pool_ok p \<Longrightarrow> pool_ok (fst (UpdateVerifiedCredentialsAtGeneration key v g p))"
proof -
  let ?same = "\<lambda>px. pxUsername px = pxUsername v \<and> pxPassword px = pxPassword v \<and> pxAlternates px = pxAlternates v"
  let ?f = "\<lambda>px. if ?same px then px
      else px\<lparr>pxUsername := pxUsername v, pxPassword := pxPassword v, pxAlternates := pxAlternates v\<rparr>"
  assume ok: "pool_ok p"
  then have "pool_ok (fst (mutateProxyLocked key ?f p))"
    by (intro pool_ok_mutate) (simp_all add: pool_soundD)
  with ok show ?thesis
    unfolding UpdateVerifiedCredentialsAtGeneration_def Let_def
    by (auto split: prod.splits)
qed

lemma SetAvailable_ok [intro]:
  assumes "pool_ok p"
  shows "pool_ok (SetAvailable key a p)"
proof -
  let ?f = "\<lambda>px. px\<lparr>pxAvailable := a \<and> proxyHardRoutable px\<rparr>"
  have "proxy_sound (plStats p) (?f px)" if "px \<in> set (plProxies p)" for px
    using pool_soundD [OF assms that] by (simp add: proxy_sound_def proxyHardRoutable_def split: option.splits)
  with assms have m: "pool_ok (fst (mutateProxyLocked key ?f p))" by (intro pool_ok_mutate) simp_all
  have "pool_ok (set_stats key (st\<lparr>nsHealthFailures := 0\<rparr>) q)" if "pool_ok q" "plStats q key = Some st" for q st
    using that by (auto simp: pool_ok_def index_ok_def set_stats_def proxy_sound_def split: option.splits)
  with m show ?thesis
    by (auto simp: SetAvailable_def split: prod.split bool.split option.split)
qed

lemma SetPolicyExcluded_ok [intro]:
  assumes "pool_ok p"
  shows "pool_ok (fst (SetPolicyExcludedAtGeneration key ex g p))"
proof (cases "plHealthGen p = g")
  case True
  define t where "t = (case plStats p key of Some st \<Rightarrow> nsTerminal st | None \<Rightarrow> False)"
  let ?f = "\<lambda>px. px\<lparr>pxHealthInvalidated := t, pxPolicyExcluded := ex,
                         pxAvailable := (if ex \<or> t then False else pxAvailable px)\<rparr>"
  have "proxy_sound (plStats p) (?f px)" if "px \<in> set (plProxies p)" "px_key px = key" for px
    using pool_soundD [OF assms that(1)] that(2)
    by (auto simp: proxy_sound_def proxyHardRoutable_def t_def split: option.splits)
  with assms have "pool_ok (fst (mutateProxyLocked key ?f p))" by (intro pool_ok_mutate) simp_all
  with True show ?thesis
    by (auto simp: SetPolicyExcludedAtGeneration_def t_def [symmetric] Let_def split: prod.split bool.split)
next
  case False
  with assms show ?thesis by (simp add: SetPolicyExcludedAtGeneration_def)
qed

lemma observe_ok [intro]:
  assumes "pool_ok p"
  shows "pool_ok (fst (observeHealthOutcome now key r al l g m p))"
proof -
  define st where "st = (if r then observe_reachable_stats now m al l (statsForKeyLocked key p)
      else observe_failed_stats (statsForKeyLocked key p))"
  define f where "f = (if r then observe_reachable_proxy st al l else observe_failed_proxy)"
  have fk: "px_key (f px) = px_key px" for px by (simp add: f_def)
  have fs: "(pxAvailable (f px) \<longrightarrow> proxyHardRoutable (f px)) \<and> (nsTerminal st \<longrightarrow> \<not> proxyHardRoutable (f px))" for px
    by (auto simp: f_def observe_reachable_proxy_def observe_failed_proxy_def proxyHardRoutable_def)
  have ix: "index_ok p" using assms by (simp add: pool_ok_def)
  have "pool_ok ((set_stats key st p1)\<lparr>plStatsRev := v\<rparr>)" if m: "mutateProxyLocked key f p = (p1, True)" for p1 v
  proof -
    obtain i where i: "key_index key (plProxies p) = Some i"
        "p1 = p\<lparr>plProxies := (plProxies p)[i := f (plProxies p ! i)], plRoutingRev := plRoutingRev p + 1\<rparr>"
      using m by (auto simp: mutate_index_ok [OF ix] split: option.splits)
    have k: "px_key (f (plProxies p ! i)) = key" using find_index_SomeD [OF i(1)] fk by simp
    show ?thesis
      by (rule pool_ok_replace [OF assms i(1) k, of _ "Some st"])
        (use fs in \<open>auto simp: i(2) set_stats_def\<close>)
  qed
  moreover have "p1 = p" if "mutateProxyLocked key f p = (p1, False)" for p1
    using that by (auto simp: mutate_index_ok [OF ix] split: option.splits)
  ultimately show ?thesis using assms
    unfolding observeHealthOutcome_def Let_def st_def [symmetric]
    unfolding f_def [symmetric]
    by (auto split: prod.splits)
qed

lemma distinct_map_key: "(\<And>px. px_key (f px) = px_key px) \<Longrightarrow> map px_key (map f ps) = map px_key ps"
  by simp

lemma pool_ok_map:
  assumes "pool_ok p" "\<And>px. px_key (f px) = px_key px"
    and "\<And>px. px \<in> set (plProxies p) \<Longrightarrow> proxy_sound (plStats q) (f px)"
    and "plProxies q = map f (plProxies p)" "plIndex q = plIndex p"
  shows "pool_ok q"
proof -
  have keys: "map px_key (plProxies q) = map px_key (plProxies p)"
    using assms(2,4) by simp
  have "distinct (map px_key (plProxies q))" using assms(1) keys by (simp add: pool_ok_def)
  moreover have "index_ok q"
    using assms(1,5) key_index_map [OF keys] by (simp add: pool_ok_def index_ok_def)
  ultimately show ?thesis using assms(3,4) by (auto simp: pool_ok_def)
qed

lemma InvalidateHealth_ok [intro]: "pool_ok p \<Longrightarrow> pool_ok (fst (InvalidateHealth url p))"
  unfolding InvalidateHealth_def Let_def fst_conv pool_ok_queue
  by (rule pool_ok_map [of p "\<lambda>px. px\<lparr>pxHealthInvalidated := True, pxAvailable := False\<rparr>"])
    (auto simp: proxy_sound_def proxyHardRoutable_def split: option.splits)

lemma retire_sound: "proxy_sound s px \<Longrightarrow> proxy_sound s (retire_proxy ids names px)"
  by (auto simp: proxy_sound_def retire_proxy_def proxyHardRoutable_def split: option.splits)

lemma applyEnabled_ok [intro]: "pool_ok p \<Longrightarrow> pool_ok (fst (applyEnabledSourcesLocked ids names p))"
  by (rule pool_ok_map [of p "retire_proxy ids names"])
    (auto simp: applyEnabledSourcesLocked_def retire_sound pool_soundD)

lemma ApplyEnabledSources_ok [intro]: "pool_ok p \<Longrightarrow> pool_ok (fst (ApplyEnabledSources ss p))"
  by (auto simp: ApplyEnabledSources_def Let_def split: prod.split dest: applyEnabled_ok [THEN fst_okD])

lemma criterion_ok [intro]:
  "pool_ok p \<Longrightarrow> pool_ok (fst (SetRequireIPChangePolicy b r p))"
  "pool_ok p \<Longrightarrow> pool_ok (fst (CompleteHealthRecheck g p))"
  "pool_ok p \<Longrightarrow> pool_ok (fst (BeginHealthWork g p))"
  "pool_ok p \<Longrightarrow> pool_ok (FinishHealthWork run p)"
  "pool_ok p \<Longrightarrow> pool_ok (SetHealthCriterion url p)"
  "pool_ok p \<Longrightarrow> pool_ok (RestoreHealthRecheckPending p)"
  "pool_ok p \<Longrightarrow> pool_ok (fst (RecheckCandidates now limit p))"
  by (auto simp: SetRequireIPChangePolicy_def CompleteHealthRecheck_def BeginHealthWork_def
      FinishHealthWork_def SetHealthCriterion_def RestoreHealthRecheckPending_def RecheckCandidates_def
      pool_ok_def index_ok_def Let_def split: prod.split option.splits)

section \<open>Results of an older health generation\<close>

text \<open>
  A guarded report carries the generation it was measured under. The contract: a report of
  another generation changes nothing, and no report changes the generation itself.
\<close>

locale generation_guard =
  fixes gen :: "'s \<Rightarrow> u64"
    and report :: "u64 \<Rightarrow> 'r \<Rightarrow> 's \<Rightarrow> 's"
  assumes stale: "gen s \<noteq> g \<Longrightarrow> report g r s = s"
    and keeps: "gen (report g r s) = gen s"
begin

lemma stale_run: "gen s \<noteq> g \<Longrightarrow> fold (report g) rs s = s"
  by (induction rs) (simp_all add: stale)

lemma run_keeps: "gen (fold (report g) rs s) = gen s"
  by (induction rs arbitrary: s) (simp_all add: keeps)

end

datatype late_result =
    LateOutcome int string bool bool int bool
  | LateGeo string string string string string bool bool
  | LatePolicy string bool
  | LateCredentials string proxy

fun apply_late :: "u64 \<Rightarrow> late_result \<Rightarrow> pool \<Rightarrow> pool" where
  "apply_late g (LateOutcome now key reachable allowed latency manual) p =
     fst (observeHealthOutcome now key reachable allowed latency (Some g) manual p)"
| "apply_late g (LateGeo key exitip country city continent changed known) p =
     fst (updateGeo key exitip country city continent changed known (Some g) p)"
| "apply_late g (LatePolicy key excluded) p = fst (SetPolicyExcludedAtGeneration key excluded g p)"
| "apply_late g (LateCredentials key v) p = fst (UpdateVerifiedCredentialsAtGeneration key v g p)"

lemma set_stats_fields [simp]:
  "plHealthGen (set_stats k st p) = plHealthGen p" "plProxies (set_stats k st p) = plProxies p"
  "plGroups (set_stats k st p) = plGroups p" "plIndex (set_stats k st p) = plIndex p"
  "plStats (set_stats k st p) = (plStats p)(k \<mapsto> st)"
  by (simp_all add: set_stats_def)

lemma mutate_gen: "mutateProxyLocked k f p = (q, b) \<Longrightarrow> plHealthGen q = plHealthGen p"
  by (metis fst_conv mutate_fields(2))

interpretation pool_guard: generation_guard plHealthGen apply_late
proof
  show "plHealthGen s \<noteq> g \<Longrightarrow> apply_late g r s = s" for s g r
    by (cases r) (simp_all add: observeHealthOutcome_def updateGeo_def SetPolicyExcludedAtGeneration_def
        UpdateVerifiedCredentialsAtGeneration_def)
  show "plHealthGen (apply_late g r s) = plHealthGen s" for g r s
    by (cases r) (auto simp: observeHealthOutcome_def updateGeo_def SetPolicyExcludedAtGeneration_def
        UpdateVerifiedCredentialsAtGeneration_def Let_def mutate_gen split: prod.split bool.split)
qed

lemma InvalidateHealth_gen: "plHealthGen (fst (InvalidateHealth url p)) = plHealthGen p + 1"
  by (simp add: InvalidateHealth_def Let_def split: option.split)

lemma InvalidateHealth_nodes:
  "px \<in> set (plProxies (fst (InvalidateHealth url p))) \<Longrightarrow> pxHealthInvalidated px \<and> \<not> pxAvailable px"
  by (auto simp: InvalidateHealth_def Let_def)


section \<open>The terminal latch\<close>

lemma Find_mutate:
  assumes "index_ok p" "\<And>px. px_key (f px) = px_key px"
  shows "Find k (fst (mutateProxyLocked k f p)) = map_option f (Find k p)"
proof (cases "key_index k (plProxies p)")
  case None
  then show ?thesis using assms(1) by (simp add: mutate_index_ok Find_eq find_find_index)
next
  case (Some i)
  note i = find_index_SomeD [OF Some]
  let ?q = "fst (mutateProxyLocked k f p)"
  have q: "?q = p\<lparr>plProxies := (plProxies p)[i := f (plProxies p ! i)], plRoutingRev := plRoutingRev p + 1\<rparr>"
    using assms(1) Some by (simp add: mutate_index_ok)
  have keys: "map px_key (plProxies ?q) = map px_key (plProxies p)"
    using i assms(2) by (simp add: q map_update list_update_same_conv)
  then have "index_ok ?q" using assms(1) key_index_map [OF keys] by (simp add: index_ok_def q)
  with assms(1) Some i key_index_map [OF keys] show ?thesis by (simp add: Find_eq find_find_index q)
qed

definition terminal_at :: "string \<Rightarrow> pool \<Rightarrow> bool" where
  "terminal_at k p \<longleftrightarrow> (case plStats p k of Some st \<Rightarrow> nsTerminal st | None \<Rightarrow> False)"

lemma observe_auto_latch:
  assumes "terminal_at k p"
  shows "terminal_at k (fst (observeHealthOutcome now key r al l g False p))"
proof -
  have "plStats p1 = plStats p" if "mutateProxyLocked key f p = (p1, b)" for f p1 b
    using that by (metis fst_conv mutate_fields(1))
  with assms show ?thesis
    by (auto simp: observeHealthOutcome_def terminal_at_def observe_failed_stats_def Let_def
        split: prod.splits option.splits)
qed

text \<open>An automatic outcome: clock, key, reachable, allowed by the policy, latency, generation.\<close>

type_synonym auto_outcome = "int \<times> string \<times> bool \<times> bool \<times> int \<times> u64 option"

fun observe_auto :: "auto_outcome \<Rightarrow> pool \<Rightarrow> pool" where
  "observe_auto (now, key, r, al, l, g) p = fst (observeHealthOutcome now key r al l g False p)"

lemma observe_auto_run:
  "pool_ok p \<Longrightarrow> terminal_at k p \<Longrightarrow> pool_ok (fold observe_auto os p) \<and> terminal_at k (fold observe_auto os p)"
proof (induction os arbitrary: p)
  case (Cons out os)
  obtain now key r al l g where o: "out = (now, key, r, al, l, g)" by (cases out)
  have "pool_ok (observe_auto out p)" "terminal_at k (observe_auto out p)"
    using Cons.prems observe_auto_latch by (auto simp: o)
  then show ?case using Cons.IH by simp
qed simp

text \<open>
  C8: A failed node stays out until it is rechecked by hand. In a well-formed pool, a node
  whose last failure is terminal is not available, is not hard-routable and is not a
  candidate of the automatic rechecks, and this stays so over every sequence of automatic
  outcomes, successes included, of any nodes and any generations.
\<close>

theorem terminal_latch:
  assumes "pool_ok p" "terminal_at k p"
  shows "terminal_at k (fold observe_auto os p) \<and>
    (\<forall>px\<in>set (plProxies (fold observe_auto os p)). px_key px = k \<longrightarrow>
       \<not> pxAvailable px \<and> \<not> proxyHardRoutable px \<and>
       \<not> eligibleForAutoRecheckLocked px now (fold observe_auto os p))"
  using observe_auto_run [OF assms, of os]
  by (auto simp: pool_ok_def proxy_sound_def terminal_at_def eligibleForAutoRecheckLocked_def
      statsEligibleForAutoRecheck_def split: option.splits)

definition failed_pool :: pool where
  "failed_pool = fst (observeHealthOutcome 7 (px_key sample_node) False False 0 None False
     (rebuildProxyIndexLocked (NewProxyPool\<lparr>plProxies := [sample_node\<lparr>pxAvailable := True\<rparr>]\<rparr>)))"

lemma failed_pool_ok: "pool_ok failed_pool" "terminal_at (px_key sample_node) failed_pool"
proof -
  have "pool_ok (rebuildProxyIndexLocked (NewProxyPool\<lparr>plProxies := [sample_node\<lparr>pxAvailable := True\<rparr>]\<rparr>))"
    by (simp add: pool_ok_def) (simp add: rebuildProxyIndexLocked_def NewProxyPool_def proxy_sound_def
        proxyHardRoutable_def sample_node_def proxy0_def)
  then show "pool_ok failed_pool" unfolding failed_pool_def by blast
  show "terminal_at (px_key sample_node) failed_pool"
    by (simp add: failed_pool_def observeHealthOutcome_def mutate_index_ok [OF rebuild_index_ok] terminal_at_def
        observe_failed_stats_def Let_def)
       (simp add: rebuildProxyIndexLocked_def)
qed

theorem terminal_latch_witness:
  "terminal_at (px_key sample_node) (fold observe_auto [(9, px_key sample_node, True, True, 30, None)] failed_pool)"
  using terminal_latch [OF failed_pool_ok] by blast

text \<open>
  A successful manual recheck is what lifts the latch: in a well-formed pool, a
  reachable and allowed outcome of a manual check on a listed node clears its terminal mark
  and its failure streak, and makes the node available exactly when its source is not retired.
\<close>

theorem manual_recheck_restores:
  assumes "pool_ok p" "Find k p = Some px" "case g of None \<Rightarrow> True | Some g \<Rightarrow> plHealthGen p = g"
  shows "\<exists>q. observeHealthOutcome now k True True lat g True p = (q, True) \<and> \<not> terminal_at k q \<and>
     nsHealthFailures (statsForKeyLocked k q) = 0 \<and> nsLastSuccess (statsForKeyLocked k q) = Some now \<and>
     map_option pxAvailable (Find k q) = Some (\<not> pxSourceRetired px)"
proof -
  let ?st = "observe_reachable_stats now True True lat (statsForKeyLocked k p)"
  let ?f = "observe_reachable_proxy ?st True lat"
  have ix: "index_ok p" using assms(1) by (simp add: pool_ok_def)
  with assms(2) obtain i where i: "key_index k (plProxies p) = Some i"
    by (auto simp: Find_eq find_find_index)
  obtain p1 where m: "mutateProxyLocked k ?f p = (p1, True)"
    using i by (simp add: mutate_index_ok [OF ix])
  have F: "Find k p1 = Some (?f px)"
    using Find_mutate [OF ix, of ?f k] m assms(2) by simp
  let ?q = "queuePersistenceLocked ((set_stats k ?st p1)\<lparr>plStatsRev := plStatsRev p1 + 1\<rparr>)"
  have "Find k ?q = Find k p1" by (rule Find_cong) simp_all
  moreover have "observeHealthOutcome now k True True lat g True p = (?q, True)"
    using assms(3) m by (simp add: observeHealthOutcome_def Let_def split: option.splits)
  moreover have "plStats ?q k = Some ?st" by simp
  ultimately show ?thesis
    using F by (auto simp: terminal_at_def statsForKeyLocked_def observe_reachable_stats_def observe_reachable_proxy_def)
qed

theorem manual_recheck_restores_witness:
  "\<exists>q. observeHealthOutcome 9 (px_key sample_node) True True 30 None True failed_pool = (q, True) \<and>
     \<not> terminal_at (px_key sample_node) q"
proof -
  have "index_ok failed_pool" using failed_pool_ok by (simp add: pool_ok_def)
  then have "Find (px_key sample_node) failed_pool \<noteq> None"
    by (simp add: Find_eq find_find_index failed_pool_def observeHealthOutcome_def
        mutate_index_ok [OF rebuild_index_ok] Let_def)
       (simp add: rebuildProxyIndexLocked_def)
  then obtain px where "Find (px_key sample_node) failed_pool = Some px" by blast
  from manual_recheck_restores [OF failed_pool_ok(1) this, of None 9 30] show ?thesis by auto
qed

section \<open>Fairness of the automatic rechecks\<close>

lemma length_filter_rotate: "length (filter P (rotate n xs)) = length (filter P xs)"
proof (induction n)
  case (Suc n)
  have "length (filter P (rotate1 ys)) = length (filter P ys)" for ys by (cases ys) auto
  with Suc show ?case by simp
qed simp

lemma recheck_scan_spec:
  assumes "ps \<noteq> []"
  shows "fst (recheck_scan ok ps i n room c) =
     take room (filter ok (map (\<lambda>j. ps ! ((i + j) mod length ps)) [0..<n]))"
proof (induction n arbitrary: i room c)
  case (Suc n)
  have "[0..<Suc n] = 0 # map Suc [0..<n]" by (simp add: map_Suc_upt upt_conv_Cons)
  moreover have "x = take r (filter ok (map (\<lambda>j. ps ! (Suc (i + j) mod length ps)) [0..<n]))"
    if "recheck_scan ok ps (Suc i) n r c = (x, y)" for r c x y
    using Suc [of "Suc i" r c] that by simp
  ultimately show ?case
    using Suc [of "Suc i"]
    by (cases room) (auto simp: Let_def comp_def split: prod.split simp del: upt_Suc)
qed simp

lemma map_mod_rotate:
  assumes "i < length ps"
  shows "map (\<lambda>j. ps ! ((i + j) mod length ps)) [0..<length ps] = rotate i ps"
  by (rule nth_equalityI) (use assms in \<open>simp_all add: nth_rotate\<close>)

definition recheck_start :: "pool \<Rightarrow> nat" where
  "recheck_start p =
     (case key_index (plRecheckCursor p) (plProxies p) of
        Some i \<Rightarrow> (i + 1) mod length (plProxies p) | None \<Rightarrow> 0)"

lemma px_key_nonempty [simp]: "px_key px \<noteq> []"
  by (auto simp: px_key_def canonicalProxyEndpointKey_def Let_def split: sum.split sum.splits option.splits if_splits prod.splits)

text \<open>
  A batch of automatic rechecks is a fair share of the work: it holds, in cyclic order
  from the node after the last one visited, the first \<open>limit\<close> nodes that are due. In
  particular it has no duplicates, only nodes that are due, and it is short only when fewer
  nodes are due.
\<close>

theorem RecheckCandidates_spec:
  assumes "pool_ok p"
  shows "snd (RecheckCandidates now limit p) =
      take (nat limit) (filter (\<lambda>px. eligibleForAutoRecheckLocked px now p) (rotate (recheck_start p) (plProxies p))) \<and>
    distinct (snd (RecheckCandidates now limit p)) \<and>
    length (snd (RecheckCandidates now limit p)) =
      min (nat limit) (length (filter (\<lambda>px. eligibleForAutoRecheckLocked px now p) (plProxies p)))"
proof -
  let ?ps = "plProxies p" and ?ok = "\<lambda>px. eligibleForAutoRecheckLocked px now p"
  have spec: "snd (RecheckCandidates now limit p) = take (nat limit) (filter ?ok (rotate (recheck_start p) ?ps))"
  proof (cases "limit \<le> 0 \<or> ?ps = []")
    case True
    then show ?thesis by (auto simp: RecheckCandidates_def Let_def)
  next
    case False
    then have lt: "recheck_start p < length ?ps"
      by (auto simp: recheck_start_def split: option.split)
    have c: "plRecheckCursor p = [] \<Longrightarrow> key_index (plRecheckCursor p) ?ps = None"
      by (simp add: find_index_None)
    have "snd (RecheckCandidates now limit p) =
        fst (recheck_scan ?ok ?ps (recheck_start p) (length ?ps) (nat limit) [])"
      using False c by (cases "plRecheckCursor p = []")
        (simp_all add: RecheckCandidates_def recheck_start_def Let_def split: prod.split)
    then show ?thesis using False by (simp add: recheck_scan_spec map_mod_rotate [OF lt])
  qed
  have "distinct ?ps" using assms by (auto simp: pool_ok_def distinct_map)
  then have "distinct (filter ?ok (rotate (recheck_start p) ?ps))" by simp
  moreover have "length (filter ?ok (rotate (recheck_start p) ?ps)) = length (filter ?ok ?ps)"
    by (metis (no_types) length_filter_rotate)
  ultimately show ?thesis using spec by (simp add: min.commute)
qed

theorem RecheckCandidates_spec_witness:
  "length (snd (RecheckCandidates 5 3 failed_pool)) \<le> 3"
  using RecheckCandidates_spec [OF failed_pool_ok(1), of 5 3] by simp

end
