(* ===== verification/PoolSelect.thy ===== *)
theory PoolSelect
  imports PoolState
begin

text \<open>
  Selection of an upstream in pool.go: group membership, the allocation-free scan
  \<open>selectProxyLocked\<close>, the optimistic \<open>pick\<close> with its serialized last resort, manual pinning,
  rotation and the read-only \<open>EffectiveCurrent\<close>.

  Metrics are rational numbers in place of \<open>float64\<close>. A random draw is a natural number given
  to the scan, which reduces it modulo the number of eligible nodes. What other goroutines do
  to the pool while \<open>pick\<close> holds no lock is an arbitrary function of the pool, one for each
  point where the lock is free.
\<close>

section \<open>Group membership\<close>

abbreviation "StrategySticky \<equiv> ''sticky''"
abbreviation "StrategyLatency \<equiv> ''latency''"
abbreviation "StrategyRoundRobin \<equiv> ''round-robin''"
abbreviation "StrategyRandom \<equiv> ''random''"
abbreviation "StrategySpeed \<equiv> ''speed''"
abbreviation "StrategyScore \<equiv> ''score''"

definition filterAvailable :: "proxy list \<Rightarrow> proxy list" where
  "filterAvailable ps = filter pxAvailable ps"

definition proxyMatchesSources :: "proxy \<Rightarrow> string list \<Rightarrow> bool" where
  "proxyMatchesSources px allowed \<longleftrightarrow>
     contains_fold allowed (pxSourceName px) \<or> list_ex (\<lambda>s. contains_fold allowed s) (pxSourceNames px)"

fun groupMatchesNode :: "string list \<Rightarrow> proxy \<Rightarrow> bool" where
  "groupMatchesNode [] px = False"
| "groupMatchesNode (v # vs) px =
     (let value = trim_space v in
      if contains ''://'' value
      then (if equal_fold value (px_key px) then True else groupMatchesNode vs px)
      else if equal_fold value (px_addr px) then True else groupMatchesNode vs px)"

definition in_group :: "group \<Rightarrow> proxy \<Rightarrow> bool" where
  "in_group g px \<longleftrightarrow>
     \<not> (grNodes g \<noteq> [] \<and> \<not> groupMatchesNode (grNodes g) px) \<and>
     \<not> (grCountries g \<noteq> [] \<and> \<not> contains_fold (grCountries g) (pxCountry px)) \<and>
     \<not> (grProtocols g \<noteq> [] \<and> \<not> contains_fold (grProtocols g) (pxProtocol px)) \<and>
     \<not> (grSources g \<noteq> [] \<and> \<not> proxyMatchesSources px (grSources g))"

definition resolveGroupCandidates :: "proxy list \<Rightarrow> string \<Rightarrow> group list \<Rightarrow> proxy list \<times> string" where
  "resolveGroupCandidates ps name groups =
     (case resolveGroupReference name groups of
        None \<Rightarrow> (ps, StrategySticky)
      | Some r \<Rightarrow>
          (case rrKind r of
             RefAny \<Rightarrow> (ps, StrategySticky)
           | RefDirect \<Rightarrow> ([], StrategySticky)
           | RefCountry \<Rightarrow> (filter (\<lambda>px. equal_fold (pxCountry px) (rrCountry r)) ps, StrategyLatency)
           | RefNamed \<Rightarrow>
               (case rrGroup r of
                  None \<Rightarrow> ([], StrategySticky)
                | Some g \<Rightarrow>
                    (filter (in_group g) ps,
                     if grStrategy g = [] then StrategySticky else grStrategy g))))"

definition resolveGroup :: "proxy list \<Rightarrow> string \<Rightarrow> group list \<Rightarrow> proxy list \<times> string" where
  "resolveGroup ps name groups =
     (let (out, strategy) = resolveGroupCandidates ps name groups;
          out = filter proxyHardRoutable out;
          live = filterAvailable out
      in (if live \<noteq> [] then live else out, strategy))"

record selector =
  slStrategy :: string
  slGroup :: "group option"
  slCountry :: string
  slAny :: bool

definition newPoolGroupSelector :: "string \<Rightarrow> group list \<Rightarrow> selector" where
  "newPoolGroupSelector name groups =
     (case resolveGroupReference name groups of
        None \<Rightarrow> \<lparr>slStrategy = StrategySticky, slGroup = None, slCountry = [], slAny = True\<rparr>
      | Some r \<Rightarrow>
          if rrKind r = RefAny
          then \<lparr>slStrategy = StrategySticky, slGroup = None, slCountry = [], slAny = True\<rparr>
          else if rrKind r = RefCountry
          then \<lparr>slStrategy = StrategyLatency, slGroup = None, slCountry = rrCountry r, slAny = False\<rparr>
          else case rrGroup r of
              None \<Rightarrow> \<lparr>slStrategy = StrategySticky, slGroup = None, slCountry = [], slAny = False\<rparr>
            | Some g \<Rightarrow>
                \<lparr>slStrategy = (if grStrategy g = [] then StrategySticky else grStrategy g),
                 slGroup = Some g, slCountry = [], slAny = False\<rparr>)"

definition selector_matches :: "selector \<Rightarrow> proxy \<Rightarrow> bool" where
  "selector_matches sl px =
     (if slAny sl then True
      else if slCountry sl \<noteq> [] then equal_fold (pxCountry px) (slCountry sl)
      else case slGroup sl of None \<Rightarrow> False | Some g \<Rightarrow> in_group g px)"

section \<open>The scan\<close>

datatype scan_result = Returned proxy | Finished "proxy option" bool

definition sticky_strategy :: "string \<Rightarrow> bool" where
  "sticky_strategy s \<longleftrightarrow> s = StrategySticky \<or> s = []"

definition indexed_strategy :: "string \<Rightarrow> bool" where
  "indexed_strategy s \<longleftrightarrow> s = StrategyRoundRobin \<or> s = StrategyRandom"

definition scan_metric :: "string \<Rightarrow> pool \<Rightarrow> proxy \<Rightarrow> rat" where
  "scan_metric s p px =
     (if s = StrategyLatency then of_int (pxLatencyMs px)
      else if s = StrategySpeed then pxSpeedKbps px
      else if s = StrategyScore then scoreLocked px p else 0)"

definition improves :: "bool \<Rightarrow> rat \<Rightarrow> rat \<Rightarrow> bool" where
  "improves higher metric best \<longleftrightarrow>
     best = 0 \<and> metric \<noteq> 0 \<or> metric \<noteq> 0 \<and> (higher \<and> best < metric \<or> \<not> higher \<and> metric < best)"

text \<open>
  The second loop of selectProxyLocked over the nodes: \<open>ok\<close> is the continue condition, then
  the chosen node, whether the sticky node was met, the count of eligible nodes seen and the
  best metric.
\<close>

fun select_scan ::
    "(proxy \<Rightarrow> bool) \<Rightarrow> string \<Rightarrow> (proxy \<Rightarrow> rat) \<Rightarrow> string \<Rightarrow> nat \<Rightarrow> proxy list \<Rightarrow>
     proxy option \<Rightarrow> bool \<Rightarrow> nat \<Rightarrow> rat \<Rightarrow> scan_result" where
  "select_scan ok s metric sticky target [] chosen stickyFound seen best = Finished chosen stickyFound"
| "select_scan ok s metric sticky target (px # ps) chosen stickyFound seen best =
     (if \<not> ok px then select_scan ok s metric sticky target ps chosen stickyFound seen best
      else if indexed_strategy s then
        (if seen = target then Returned px
         else select_scan ok s metric sticky target ps chosen stickyFound (seen + 1) best)
      else if sticky_strategy s then
        (let chosen = (if chosen = None then Some px else chosen);
             hit = px_key px = sticky
         in select_scan ok s metric sticky target ps (if hit then Some px else chosen) (stickyFound \<or> hit) seen best)
      else if chosen = None \<or> improves (s \<noteq> StrategyLatency) (metric px) best
      then select_scan ok s metric sticky target ps (Some px) stickyFound seen (metric px)
      else select_scan ok s metric sticky target ps chosen stickyFound seen best)"

definition eligible :: "selector \<Rightarrow> string set \<Rightarrow> proxy \<Rightarrow> bool" where
  "eligible sl exclude px \<longleftrightarrow> proxyHardRoutable px \<and> selector_matches sl px \<and> px_key px \<notin> exclude"

definition selectProxyLocked ::
    "selector \<Rightarrow> cursor \<Rightarrow> string set \<Rightarrow> nat \<Rightarrow> pool \<Rightarrow> (proxy \<times> bool) option" where
  "selectProxyLocked sl gc exclude draw p =
     (let cands = filter (eligible sl exclude) (plProxies p);
          count = length cands;
          availableCount = length (filter pxAvailable cands);
          requireAvailable = (0 < availableCount)
      in if count = 0 then None
         else
           let eligibleCount = (if requireAvailable then availableCount else count);
               target = (if slStrategy sl = StrategyRoundRobin then gcRR gc mod eligibleCount
                         else if slStrategy sl = StrategyRandom then draw mod eligibleCount else 0)
           in case select_scan (\<lambda>px. eligible sl exclude px \<and> (requireAvailable \<longrightarrow> pxAvailable px))
                     (slStrategy sl) (scan_metric (slStrategy sl) p) (gcSticky gc) target
                     (plProxies p) None False 0 0 of
                Returned px \<Rightarrow> Some (px, False)
              | Finished chosen stickyFound \<Rightarrow>
                  map_option (\<lambda>px. (px, gcPinned gc \<and> \<not> stickyFound)) chosen)"

definition proxySelectableAtCommitLocked :: "proxy \<Rightarrow> selector \<Rightarrow> string set \<Rightarrow> pool \<Rightarrow> bool" where
  "proxySelectableAtCommitLocked px sl exclude p =
     (if \<not> eligible sl exclude px then False
      else if pxAvailable px then True
      else \<not> list_ex (\<lambda>c. pxAvailable c \<and> eligible sl exclude c) (plProxies p))"

section \<open>Pick\<close>

datatype pick_result = Picked proxy | NoProxy | Direct

definition cursor_of :: "string \<Rightarrow> pool \<Rightarrow> cursor" where
  "cursor_of name p = (case plGroups p name of Some gc \<Rightarrow> gc | None \<Rightarrow> cursor0)"

definition set_cursor :: "string \<Rightarrow> cursor \<Rightarrow> pool \<Rightarrow> pool" where
  "set_cursor name gc p = p\<lparr>plGroups := (plGroups p)(name \<mapsto> gc)\<rparr>"

text \<open>The shared tail of both write sections: the cursor update and the active revision.\<close>

definition record_pick :: "string \<Rightarrow> selector \<Rightarrow> string \<Rightarrow> bool \<Rightarrow> pool \<Rightarrow> pool" where
  "record_pick name sl key preservePin p =
     (let gc = cursor_of name p;
          gc1 = (if slStrategy sl = StrategyRoundRobin then gc\<lparr>gcRR := gcRR gc + 1\<rparr> else gc);
          gc2 = (if sticky_strategy (slStrategy sl) \<and> \<not> preservePin then gc1\<lparr>gcSticky := key\<rparr> else gc1);
          gc3 = gc2\<lparr>gcLast := key\<rparr>;
          p1 = set_cursor name gc3 p
      in if (name = GroupAny \<or> name = []) \<and> gcSticky gc3 \<noteq> gcSticky gc
         then p1\<lparr>plActiveRev := plActiveRev p1 + 1\<rparr> else p1)"

text \<open>
  The write section of one optimistic attempt: \<open>q\<close> is the pool that was scanned,
  \<open>(chosen, preservePin)\<close> what the scan found. \<open>None\<close> means that the attempt is retried.
\<close>

definition pick_commit ::
    "string \<Rightarrow> selector \<Rightarrow> string set \<Rightarrow> pool \<Rightarrow> proxy \<Rightarrow> bool \<Rightarrow> pool \<Rightarrow> pool \<times> proxy option" where
  "pick_commit name sl exclude q chosen preservePin p =
     (if plRoutingRev p \<noteq> plRoutingRev q \<or> slStrategy sl = StrategyScore \<and> plStatsRev p \<noteq> plStatsRev q
      then (p, None)
      else
        let snap = cursor_of name q;
            gc = cursor_of name p;
            p1 = set_cursor name gc p
        in if slStrategy sl = StrategyRoundRobin \<and> gcRR gc \<noteq> gcRR snap then (p1, None)
           else if sticky_strategy (slStrategy sl) \<and>
                   (gcSticky gc \<noteq> gcSticky snap \<or> gcPinned gc \<noteq> gcPinned snap) then (p1, None)
           else case proxyIndexLookupLocked (px_key chosen) p1 of
               None \<Rightarrow> (p1, None)
             | Some i \<Rightarrow>
                 if \<not> proxySelectableAtCommitLocked (plProxies p1 ! i) sl exclude p1 then (p1, None)
                 else (record_pick name sl (px_key chosen) preservePin p1, Some (plProxies p1 ! i)))"

definition pick_serialized :: "string \<Rightarrow> selector \<Rightarrow> string set \<Rightarrow> nat \<Rightarrow> pool \<Rightarrow> pool \<times> pick_result" where
  "pick_serialized name sl exclude draw p =
     (case selectProxyLocked sl (cursor_of name p) exclude draw p of
        None \<Rightarrow> (p, NoProxy)
      | Some (chosen, preservePin) \<Rightarrow>
          (record_pick name sl (px_key chosen) preservePin (set_cursor name (cursor_of name p) p), Picked chosen))"

text \<open>
  \<open>n\<close> attempts are left; \<open>env k\<close> is what the other goroutines do at the \<open>k\<close>-th point where
  the lock is free, \<open>draw k\<close> the random draw of that scan.
\<close>

fun pick_attempts ::
    "nat \<Rightarrow> nat \<Rightarrow> (nat \<Rightarrow> pool \<Rightarrow> pool) \<Rightarrow> (nat \<Rightarrow> nat) \<Rightarrow> string \<Rightarrow> selector \<Rightarrow> string set \<Rightarrow> pool \<Rightarrow> pool \<times> pick_result" where
  "pick_attempts 0 k env draw name sl exclude p = pick_serialized name sl exclude (draw k) (env k p)"
| "pick_attempts (Suc n) k env draw name sl exclude p =
     (let q = env k p in
      case selectProxyLocked sl (cursor_of name q) exclude (draw k) q of
        None \<Rightarrow> (q, NoProxy)
      | Some (chosen, preservePin) \<Rightarrow>
          (case pick_commit name sl exclude q chosen preservePin (env (k + 1) q) of
             (p', Some px) \<Rightarrow> (p', Picked px)
           | (p', None) \<Rightarrow> pick_attempts n (k + 2) env draw name sl exclude p'))"

definition pick ::
    "(nat \<Rightarrow> pool \<Rightarrow> pool) \<Rightarrow> (nat \<Rightarrow> nat) \<Rightarrow> string \<Rightarrow> group list \<Rightarrow> string set \<Rightarrow> pool \<Rightarrow> pool \<times> pick_result" where
  "pick env draw groupName groups exclude p =
     (let r = resolveGroupReference groupName groups;
          name = (case r of Some r \<Rightarrow> rrCanonical r | None \<Rightarrow> groupName)
      in if (case r of Some r \<Rightarrow> rrKind r = RefDirect | None \<Rightarrow> False) then (p, Direct)
         else pick_attempts 8 0 env draw name (newPoolGroupSelector name groups) exclude p)"

section \<open>Manual choice and rotation\<close>

datatype forceStickyResult = ForceStickyOK | ForceStickyNotFound | ForceStickyUnavailable

definition stick_to :: "string \<Rightarrow> cursor \<Rightarrow> string \<Rightarrow> pool \<Rightarrow> pool" where
  "stick_to name gc key p =
     (let p1 = set_cursor name (gc\<lparr>gcSticky := key, gcLast := key\<rparr>) p
      in if (name = GroupAny \<or> name = []) \<and> key \<noteq> gcSticky gc
         then p1\<lparr>plActiveRev := plActiveRev p1 + 1\<rparr> else p1)"

definition forceSticky :: "string \<Rightarrow> string \<Rightarrow> pool \<Rightarrow> pool \<times> forceStickyResult" where
  "forceSticky name key p =
     (case proxyIndexLookupLocked key p of
        None \<Rightarrow> (p, ForceStickyNotFound)
      | Some i \<Rightarrow>
          if \<not> pxAvailable (plProxies p ! i) \<or> \<not> proxyHardRoutable (plProxies p ! i)
          then (p, ForceStickyUnavailable)
          else (stick_to name ((cursor_of name p)\<lparr>gcPinned := True\<rparr>) key p, ForceStickyOK))"

definition SetAuto :: "string \<Rightarrow> pool \<Rightarrow> pool" where
  "SetAuto name p =
     (case plGroups p name of Some gc \<Rightarrow> set_cursor name (gc\<lparr>gcPinned := False\<rparr>) p | None \<Rightarrow> p)"

definition IsPinned :: "string \<Rightarrow> pool \<Rightarrow> bool" where
  "IsPinned name p = (case plGroups p name of Some gc \<Rightarrow> gcPinned gc | None \<Rightarrow> False)"

text \<open>The first index after \<open>anchor\<close>, in cyclic order and ending with it, whose node is \<open>ok\<close>.\<close>

definition next_after :: "(proxy \<Rightarrow> bool) \<Rightarrow> nat option \<Rightarrow> proxy list \<Rightarrow> nat option" where
  "next_after ok anchor ps =
     find (\<lambda>i. ok (ps ! i))
       (map (\<lambda>offset. case anchor of Some a \<Rightarrow> (a + offset) mod length ps | None \<Rightarrow> offset - 1)
          [1..<length ps + 1])"

definition rotation_index :: "string \<Rightarrow> string \<Rightarrow> proxy list \<Rightarrow> nat option" where
  "rotation_index name sticky ps =
     (let anchor = find_index (\<lambda>px. px_key px = sticky) ps;
          live = (\<lambda>px. proxyHardRoutable px \<and> pxAvailable px);
          first = (if (name = GroupAny \<or> name = []) \<and> list_ex live ps
                   then (case anchor of None \<Rightarrow> find_index live ps
                                      | Some a \<Rightarrow> next_after live (Some a) ps)
                   else None)
      in if first \<noteq> None then first else next_after proxyHardRoutable anchor ps)"

definition rotateSticky :: "string \<Rightarrow> bool \<Rightarrow> pool \<Rightarrow> pool \<times> proxy option" where
  "rotateSticky name force p =
     (if plProxies p = [] then (p, None)
      else
        let gc = cursor_of name p;
            p1 = set_cursor name gc p
        in if gcPinned gc \<and> \<not> force then (p1, None)
           else if \<not> list_ex proxyHardRoutable (plProxies p) then (p1, None)
           else case rotation_index name (gcSticky gc) (plProxies p) of
               None \<Rightarrow> (p1, None)
             | Some i \<Rightarrow> (stick_to name gc (px_key (plProxies p ! i)) p1, Some (plProxies p ! i)))"

section \<open>The current node\<close>

definition bestBy :: "(proxy \<Rightarrow> rat) \<Rightarrow> bool \<Rightarrow> proxy list \<Rightarrow> proxy" where
  "bestBy metric higher cs =
     fst (foldl (\<lambda>(best, v) c. if metric c = 0 then (best, v)
                               else if v = 0 \<or> higher \<and> v < metric c \<or> \<not> higher \<and> metric c < v
                               then (c, metric c) else (best, v))
            (hd cs, metric (hd cs)) (tl cs))"

text \<open>
  The three reads of EffectiveCurrent are separate lock sections: \<open>pa\<close> is the pool copied
  for the candidates, \<open>pc\<close> the pool whose cursor is read, \<open>ps\<close> the pool used for scores. The
  result is the node and whether it changes with every connection.
\<close>

definition EffectiveCurrent :: "string \<Rightarrow> group list \<Rightarrow> pool \<Rightarrow> pool \<Rightarrow> pool \<Rightarrow> (proxy \<times> bool) option" where
  "EffectiveCurrent groupName groups pa pc ps =
     (let r = resolveGroupReference groupName groups;
          name = (case r of Some r \<Rightarrow> rrCanonical r | None \<Rightarrow> groupName)
      in if (case r of Some r \<Rightarrow> rrKind r = RefDirect | None \<Rightarrow> False) then None
         else
           let (cands, strategy) = resolveGroup (plProxies pa) name groups in
           if cands = [] then None
           else
             let gc = cursor_of name pc;
                 pick_key = (\<lambda>key. case find (\<lambda>c. px_key c = key) cands of Some c \<Rightarrow> c | None \<Rightarrow> hd cands)
             in if strategy = StrategyLatency then Some (bestBy (\<lambda>c. of_int (pxLatencyMs c)) False cands, False)
                else if strategy = StrategySpeed then Some (bestBy pxSpeedKbps True cands, False)
                else if strategy = StrategyScore then Some (bestBy (\<lambda>c. scoreLocked c ps) True cands, False)
                else if strategy = StrategyRoundRobin \<or> strategy = StrategyRandom
                then Some (pick_key (gcLast gc), True)
                else Some (pick_key (gcSticky gc), False))"

section \<open>What the scan computes\<close>

text \<open>The nodes a selection may return: the eligible ones, only the available ones if there are any.\<close>

definition candidates :: "selector \<Rightarrow> string set \<Rightarrow> proxy list \<Rightarrow> proxy list" where
  "candidates sl exclude ps =
     (let es = filter (eligible sl exclude) ps; live = filter pxAvailable es
      in if live \<noteq> [] then live else es)"

definition choice :: "string \<Rightarrow> (proxy \<Rightarrow> rat) \<Rightarrow> string \<Rightarrow> nat \<Rightarrow> proxy list \<Rightarrow> proxy" where
  "choice s metric sticky target cs =
     (if indexed_strategy s then cs ! target
      else if sticky_strategy s
      then (case find (\<lambda>c. px_key c = sticky) cs of Some c \<Rightarrow> c | None \<Rightarrow> hd cs)
      else bestBy metric (s \<noteq> StrategyLatency) cs)"

definition scan_target :: "string \<Rightarrow> nat \<Rightarrow> nat \<Rightarrow> nat \<Rightarrow> nat" where
  "scan_target s rr draw n =
     (if s = StrategyRoundRobin then rr mod n else if s = StrategyRandom then draw mod n else 0)"

lemma scan_filter:
  "select_scan ok s m st t ps ch sf seen best = select_scan (\<lambda>_. True) s m st t (filter ok ps) ch sf seen best"
  by (induction ok s m st t ps ch sf seen best rule: select_scan.induct) (simp_all add: Let_def)

lemma scan_indexed:
  "indexed_strategy s \<Longrightarrow> seen \<le> t \<Longrightarrow> t - seen < length cs \<Longrightarrow>
   select_scan (\<lambda>_. True) s m st t cs ch sf seen best = Returned (cs ! (t - seen))"
proof (induction cs arbitrary: seen)
  case (Cons c cs)
  show ?case
  proof (cases "seen = t")
    case False
    then have "t - seen = Suc (t - (seen + 1))" "seen + 1 \<le> t" using Cons.prems by auto
    with Cons.IH [of "seen + 1"] Cons.prems False show ?thesis by simp
  qed (use Cons.prems in simp)
qed simp

lemma find_key_tail: "distinct (map px_key (c # cs)) \<Longrightarrow> px_key c = k \<Longrightarrow> find (\<lambda>c. px_key c = k) cs = None"
  unfolding find_None_iff by (metis distinct.simps(2) image_eqI list.set_map list.simps(9))

lemma scan_sticky:
  assumes "sticky_strategy s"
  shows "distinct (map px_key cs) \<Longrightarrow>
    select_scan (\<lambda>_. True) s m st t cs (Some c) sf seen best =
    Finished (Some (case find (\<lambda>c. px_key c = st) cs of Some x \<Rightarrow> x | None \<Rightarrow> c))
      (sf \<or> find (\<lambda>c. px_key c = st) cs \<noteq> None)"
proof (induction cs arbitrary: c sf)
  case (Cons a cs)
  have ni: "\<not> indexed_strategy s" using assms by (auto simp: sticky_strategy_def indexed_strategy_def)
  have "find (\<lambda>c. px_key c = st) cs = None" if "px_key a = st"
    by (rule find_key_tail [OF Cons.prems that])
  with Cons assms ni show ?case by (simp add: Let_def split: option.split)
qed simp

lemma scan_best:
  assumes "\<not> sticky_strategy s" "\<not> indexed_strategy s"
  shows "select_scan (\<lambda>_. True) s m st t cs (Some c) sf seen best =
    Finished (Some (fst (foldl (\<lambda>(best, v) c. if m c = 0 then (best, v)
        else if v = 0 \<or> s \<noteq> StrategyLatency \<and> v < m c \<or> \<not> s \<noteq> StrategyLatency \<and> m c < v
        then (c, m c) else (best, v)) (c, best) cs))) sf"
proof (induction cs arbitrary: c best)
  case (Cons a cs)
  then show ?case using assms by (auto simp: improves_def)
qed simp

lemma scan_result_eq:
  assumes "cs \<noteq> []" "distinct (map px_key cs)" "indexed_strategy s \<longrightarrow> t < length cs"
  shows "select_scan (\<lambda>_. True) s m st t cs None False 0 0 =
    (if indexed_strategy s then Returned (choice s m st t cs)
     else Finished (Some (choice s m st t cs)) (sticky_strategy s \<and> find (\<lambda>c. px_key c = st) cs \<noteq> None))"
proof -
  obtain c cs' where cs: "cs = c # cs'" using assms(1) by (cases cs) auto
  consider "indexed_strategy s" | "sticky_strategy s" "\<not> indexed_strategy s"
    | "\<not> sticky_strategy s" "\<not> indexed_strategy s" by blast
  then show ?thesis
  proof cases
    case 1
    then show ?thesis using assms(3) scan_indexed [of s 0 t cs] by (simp add: choice_def)
  next
    case 2
    have "find (\<lambda>c. px_key c = st) cs' = None" if "px_key c = st"
      by (rule find_key_tail [OF assms(2) [unfolded cs] that])
    with 2 assms(2) show ?thesis
      by (auto simp: cs Let_def scan_sticky choice_def split: option.split)
  next
    case 3
    then show ?thesis by (simp add: cs scan_best choice_def bestBy_def)
  qed
qed

lemma select_eq:
  assumes "distinct (map px_key (plProxies p))"
  shows "selectProxyLocked sl gc exclude draw p =
    (let cs = candidates sl exclude (plProxies p); s = slStrategy sl in
     if cs = [] then None
     else Some (choice s (scan_metric s p) (gcSticky gc) (scan_target s (gcRR gc) draw (length cs)) cs,
                \<not> indexed_strategy s \<and> gcPinned gc \<and>
                \<not> (sticky_strategy s \<and> find (\<lambda>c. px_key c = gcSticky gc) cs \<noteq> None)))"
proof -
  let ?es = "filter (eligible sl exclude) (plProxies p)" and ?s = "slStrategy sl"
  let ?cs = "candidates sl exclude (plProxies p)"
  let ?req = "0 < length (filter pxAvailable ?es)"
  have fe: "filter (\<lambda>px. eligible sl exclude px \<and> (?req \<longrightarrow> pxAvailable px)) (plProxies p) = ?cs"
    by (auto simp: candidates_def Let_def filter_empty_conv intro!: filter_cong)
  have len: "(if ?req then length (filter pxAvailable ?es) else length ?es) = length ?cs"
    by (simp add: candidates_def Let_def)
  have ne: "?es = [] \<longleftrightarrow> ?cs = []" by (auto simp: candidates_def Let_def filter_empty_conv)
  have d: "distinct (map px_key ?cs)"
    using assms by (auto simp: candidates_def Let_def distinct_map_filter)
  show ?thesis
  proof (cases "?cs = []")
    case True
    then show ?thesis using ne by (simp add: selectProxyLocked_def Let_def)
  next
    case False
    then have t: "indexed_strategy ?s \<longrightarrow> scan_target ?s (gcRR gc) draw (length ?cs) < length ?cs"
      by (auto simp: scan_target_def indexed_strategy_def)
    have "selectProxyLocked sl gc exclude draw p =
        (case select_scan (\<lambda>_. True) ?s (scan_metric ?s p) (gcSticky gc)
            (scan_target ?s (gcRR gc) draw (length ?cs)) ?cs None False 0 0 of
           Returned px \<Rightarrow> Some (px, False)
         | Finished ch sf \<Rightarrow> map_option (\<lambda>px. (px, gcPinned gc \<and> \<not> sf)) ch)"
      unfolding selectProxyLocked_def Let_def scan_filter [of "\<lambda>px. eligible sl exclude px \<and> _ px"] fe len
        scan_target_def [symmetric]
      using False ne by simp
    then show ?thesis using False scan_result_eq [OF False d t] by (simp add: Let_def)
  qed
qed

section \<open>Safety and progress of pick\<close>

lemma selected_mem:
  assumes "selectProxyLocked sl gc exclude draw p = Some (px, b)"
  shows "px \<in> set (plProxies p) \<and> eligible sl exclude px \<and>
    (pxAvailable px \<or> (\<forall>c\<in>set (plProxies p). eligible sl exclude c \<longrightarrow> \<not> pxAvailable c))"
proof -
  have scan: "select_scan ok s m st t ps ch sf seen best = Returned px \<or>
      select_scan ok s m st t ps ch sf seen best = Finished (Some px) sf' \<Longrightarrow>
      px \<in> set ps \<and> ok px \<or> ch = Some px" for ok s m st t ps ch sf seen best sf'
    by (induction ok s m st t ps ch sf seen best rule: select_scan.induct)
      (auto simp: Let_def split: if_splits)
  let ?req = "0 < length (filter pxAvailable (filter (eligible sl exclude) (plProxies p)))"
  let ?ok = "\<lambda>px. eligible sl exclude px \<and> (?req \<longrightarrow> pxAvailable px)"
  have "px \<in> set (plProxies p) \<and> ?ok px"
    using assms scan by (auto simp: selectProxyLocked_def Let_def split: if_splits scan_result.splits; blast)
  then show ?thesis by (auto simp: filter_empty_conv)
qed

lemma commit_safe:
  assumes "pick_commit name sl exclude q chosen b p = (p', Some px)"
  shows "px \<in> set (plProxies p') \<and> eligible sl exclude px \<and>
    (pxAvailable px \<or> (\<forall>c\<in>set (plProxies p'). eligible sl exclude c \<longrightarrow> \<not> pxAvailable c))"
  using assms
  by (auto simp: pick_commit_def Let_def set_cursor_def record_pick_def proxySelectableAtCommitLocked_def
      proxyIndexLookupLocked_def list_ex_iff split: if_splits option.splits)

lemma record_pick_nodes [simp]: "plProxies (record_pick name sl key b p) = plProxies p"
  by (simp add: record_pick_def set_cursor_def Let_def)

lemma set_cursor_nodes [simp]: "plProxies (set_cursor name gc p) = plProxies p"
  by (simp add: set_cursor_def)

lemma attempts_safe:
  "pick_attempts n k env draw name sl exclude p = (p', Picked px) \<Longrightarrow>
   px \<in> set (plProxies p') \<and> eligible sl exclude px \<and>
   (pxAvailable px \<or> (\<forall>c\<in>set (plProxies p'). eligible sl exclude c \<longrightarrow> \<not> pxAvailable c))"
proof (induction n arbitrary: k p)
  case 0
  then show ?case using selected_mem
    by (fastforce simp: pick_serialized_def split: option.splits prod.splits)
next
  case (Suc n)
  from Suc.prems show ?case
    using Suc.IH commit_safe by (force simp: Let_def split: option.splits prod.splits)
qed

lemma pick_picked:
  assumes "pick env draw groupName groups exclude p = (p', Picked px)"
  shows "\<exists>name. px \<in> set (plProxies p') \<and> proxyHardRoutable px \<and>
    selector_matches (newPoolGroupSelector name groups) px \<and> px_key px \<notin> exclude \<and>
    name = (case resolveGroupReference groupName groups of Some r \<Rightarrow> rrCanonical r | None \<Rightarrow> groupName) \<and>
    (pxAvailable px \<or> (\<forall>c\<in>set (plProxies p').
       eligible (newPoolGroupSelector name groups) exclude c \<longrightarrow> \<not> pxAvailable c))"
  using assms attempts_safe
  by (fastforce simp: pick_def Let_def eligible_def split: if_splits)

text \<open>
  C9: Whatever the other goroutines do to the pool while \<open>pick\<close> holds no lock, the node it
  returns is in the pool at the moment of the return, is neither retired nor invalidated nor
  excluded by policy, belongs to the requested group, was not tried before in this request,
  and is available unless no available node of the group is left.
\<close>

theorem pick_safe:
  assumes "pick env draw groupName groups exclude p = (p', Picked px)"
  shows "\<exists>name. px \<in> set (plProxies p') \<and> proxyHardRoutable px \<and>
    selector_matches (newPoolGroupSelector name groups) px \<and> px_key px \<notin> exclude \<and>
    name = (case resolveGroupReference groupName groups of Some r \<Rightarrow> rrCanonical r | None \<Rightarrow> groupName) \<and>
    (pxAvailable px \<or> (\<forall>c\<in>set (plProxies p').
       eligible (newPoolGroupSelector name groups) exclude c \<longrightarrow> \<not> pxAvailable c))"
  by (rule pick_picked [OF assms])

lemma pool_ok_set_cursor [simp]: "pool_ok (set_cursor name gc p) = pool_ok p"
  by (simp add: set_cursor_def)

lemma pool_ok_record_pick [simp]: "pool_ok (record_pick name sl key b p) = pool_ok p"
  by (simp add: record_pick_def Let_def)

lemma pool_ok_distinct: "pool_ok p \<Longrightarrow> distinct (map px_key (plProxies p))"
  by (simp add: pool_ok_def)

lemma candidates_Nil: "candidates sl exclude ps = [] \<longleftrightarrow> (\<forall>c\<in>set ps. \<not> eligible sl exclude c)"
  by (auto simp: candidates_def Let_def filter_empty_conv)

lemma select_None:
  "pool_ok p \<Longrightarrow> selectProxyLocked sl gc exclude draw p = None \<longleftrightarrow> (\<forall>c\<in>set (plProxies p). \<not> eligible sl exclude c)"
  by (simp add: select_eq [OF pool_ok_distinct] Let_def candidates_Nil)

text \<open>A goroutine step that keeps the pool well formed and some node eligible.\<close>

definition keeps_candidate :: "selector \<Rightarrow> string set \<Rightarrow> (pool \<Rightarrow> pool) \<Rightarrow> bool" where
  "keeps_candidate sl exclude e \<longleftrightarrow>
     (\<forall>q. pool_ok q \<and> (\<exists>c\<in>set (plProxies q). eligible sl exclude c) \<longrightarrow>
          pool_ok (e q) \<and> (\<exists>c\<in>set (plProxies (e q)). eligible sl exclude c))"

lemma commit_fields:
  "pick_commit name sl exclude q chosen b p = (p', r) \<Longrightarrow> plProxies p' = plProxies p \<and> pool_ok p' = pool_ok p"
  by (auto simp: pick_commit_def Let_def split: if_splits option.splits)

lemma attempts_progress:
  assumes "\<forall>k. keeps_candidate sl exclude (env k)"
  shows "pool_ok p \<Longrightarrow> \<exists>c\<in>set (plProxies p). eligible sl exclude c \<Longrightarrow>
    \<exists>p' px. pick_attempts n k env draw name sl exclude p = (p', Picked px)"
proof (induction n arbitrary: k p)
  case 0
  then have "pool_ok (env k p)" "\<exists>c\<in>set (plProxies (env k p)). eligible sl exclude c"
    using assms unfolding keeps_candidate_def by blast+
  then have "selectProxyLocked sl gc exclude d (env k p) \<noteq> None" for gc d
    by (simp add: select_None)
  then show ?case by (auto simp: pick_serialized_def split: option.splits)
next
  case (Suc n)
  let ?q = "env k p"
  have q: "pool_ok ?q" "\<exists>c\<in>set (plProxies ?q). eligible sl exclude c"
    using Suc.prems assms unfolding keeps_candidate_def by blast+
  then obtain chosen b where sel: "selectProxyLocked sl (cursor_of name ?q) exclude (draw k) ?q = Some (chosen, b)"
    using select_None [of ?q] by (metis not_None_eq surj_pair)
  have e: "pool_ok (env (k + 1) ?q)" "\<exists>c\<in>set (plProxies (env (k + 1) ?q)). eligible sl exclude c"
    using q assms unfolding keeps_candidate_def by blast+
  obtain p' r where c: "pick_commit name sl exclude ?q chosen b (env (k + 1) ?q) = (p', r)"
    by (cases "pick_commit name sl exclude ?q chosen b (env (k + 1) ?q)")
  have "pool_ok p'" "\<exists>c\<in>set (plProxies p'). eligible sl exclude c"
    using commit_fields [OF c] e by simp_all
  with Suc.IH [of p' "k + 2"] show ?case using sel c
    by (cases r) (simp_all add: Let_def)
qed

text \<open>
  C10: \<open>pick\<close> always makes progress: if every interleaved step of the other goroutines leaves
  the pool well formed and some node of the group eligible, \<open>pick\<close> returns a node, however
  often its optimistic attempts are invalidated. It never reports a false "no proxy".
\<close>

theorem pick_progress:
  assumes "pool_ok p" "resolveGroupReference groupName groups = Some r" "rrKind r \<noteq> RefDirect"
    and "\<forall>k. keeps_candidate (newPoolGroupSelector (rrCanonical r) groups) exclude (env k)"
    and "\<exists>c\<in>set (plProxies p). eligible (newPoolGroupSelector (rrCanonical r) groups) exclude c"
  shows "\<exists>p' px. pick env draw groupName groups exclude p = (p', Picked px)"
  using attempts_progress [OF assms(4,1,5)] assms(2,3) by (simp add: pick_def Let_def)

section \<open>Pick without interference\<close>

lemma commit_self:
  assumes "pool_ok p" "px \<in> set (plProxies p)" "eligible sl exclude px"
    and "pxAvailable px \<or> (\<forall>c\<in>set (plProxies p). eligible sl exclude c \<longrightarrow> \<not> pxAvailable c)"
  shows "pick_commit name sl exclude p px b p =
    (record_pick name sl (px_key px) b (set_cursor name (cursor_of name p) p), Some px)"
proof -
  have ix: "index_ok (set_cursor name (cursor_of name p) p)"
    using assms(1) by (simp add: pool_ok_def index_ok_def set_cursor_def)
  obtain i where i: "i < length (plProxies p)" "plProxies p ! i = px"
    using assms(2) by (auto simp: in_set_conv_nth)
  have "key_index (px_key px) (plProxies p) \<noteq> None"
    using assms(2) by (auto simp: find_index_None)
  then obtain j where j: "key_index (px_key px) (plProxies p) = Some j" by blast
  note j' = find_index_SomeD [OF j]
  have "j = i" using i j' pool_ok_distinct [OF assms(1)]
    by (simp add: distinct_conv_nth) (metis (mono_tags, lifting))
  with i j ix have "proxyIndexLookupLocked (px_key px) (set_cursor name (cursor_of name p) p) = Some i"
    by (simp add: lookup_index_ok)
  with i assms(3,4) show ?thesis
    by (auto simp: pick_commit_def Let_def proxySelectableAtCommitLocked_def list_ex_iff)
qed

definition quiet :: "nat \<Rightarrow> pool \<Rightarrow> pool" where
  "quiet k p = p"

lemma attempts_quiet:
  assumes "pool_ok p"
  shows "pick_attempts (Suc n) k quiet draw name sl exclude p =
    (case selectProxyLocked sl (cursor_of name p) exclude (draw k) p of
       None \<Rightarrow> (p, NoProxy)
     | Some (px, b) \<Rightarrow>
         (record_pick name sl (px_key px) b (set_cursor name (cursor_of name p) p), Picked px))"
  using commit_self [OF assms] selected_mem
  by (auto simp: quiet_def Let_def split: option.split)

definition ref_name :: "string \<Rightarrow> group list \<Rightarrow> string" where
  "ref_name groupName groups =
     (case resolveGroupReference groupName groups of Some r \<Rightarrow> rrCanonical r | None \<Rightarrow> groupName)"

definition ref_direct :: "string \<Rightarrow> group list \<Rightarrow> bool" where
  "ref_direct groupName groups =
     (case resolveGroupReference groupName groups of Some r \<Rightarrow> rrKind r = RefDirect | None \<Rightarrow> False)"

definition ref_selector :: "string \<Rightarrow> group list \<Rightarrow> selector" where
  "ref_selector groupName groups = newPoolGroupSelector (ref_name groupName groups) groups"

lemma pick_quiet:
  assumes "pool_ok p" "\<not> ref_direct groupName groups"
  shows "pick quiet draw groupName groups exclude p =
    (let sl = ref_selector groupName groups; name = ref_name groupName groups in
     case selectProxyLocked sl (cursor_of name p) exclude (draw 0) p of
       None \<Rightarrow> (p, NoProxy)
     | Some (px, b) \<Rightarrow>
         (record_pick name sl (px_key px) b (set_cursor name (cursor_of name p) p), Picked px))"
  using assms(2) attempts_quiet [OF assms(1), of 7 0]
  by (simp add: pick_def ref_direct_def ref_name_def [symmetric] ref_selector_def Let_def numeral_nat del: pick_attempts.simps)

lemma country_nonempty:
  assumes "resolveGroupReference name groups = Some r" "rrKind r = RefCountry"
  shows "rrCountry r \<noteq> []"
proof -
  have "validCountryGroupCode c \<Longrightarrow> trim_space c \<noteq> []" for c
    by (auto simp: validCountryGroupCode_def Let_def)
  then have "validCountryGroupCode c \<Longrightarrow> to_upper (trim_space c) \<noteq> []" for c
    by (simp add: to_upper_def)
  with assms show ?thesis
    by (auto simp: resolveGroupReference_def Let_def split: if_splits option.splits)
qed

lemma resolveGroup_candidates:
  "resolveGroup ps name groups =
   (candidates (newPoolGroupSelector name groups) {} ps, slStrategy (newPoolGroupSelector name groups))"
proof -
  let ?sl = "newPoolGroupSelector name groups"
  have "resolveGroupCandidates ps name groups = (filter (selector_matches ?sl) ps, slStrategy ?sl)"
  proof (cases "resolveGroupReference name groups")
    case None
    then show ?thesis by (simp add: resolveGroupCandidates_def newPoolGroupSelector_def selector_matches_def)
  next
    case (Some r)
    show ?thesis
    proof (cases "rrKind r")
      case RefDirect
      then have "rrGroup r = None"
        using Some by (auto simp: resolveGroupReference_def Let_def split: if_splits option.splits)
      with RefDirect Some show ?thesis
        by (simp add: resolveGroupCandidates_def newPoolGroupSelector_def selector_matches_def)
    qed (use Some country_nonempty [OF Some] in
      \<open>auto simp: resolveGroupCandidates_def newPoolGroupSelector_def selector_matches_def
         intro!: filter_cong split: option.split\<close>)
  qed
  moreover have "filter proxyHardRoutable (filter (selector_matches ?sl) ps) = filter (eligible ?sl {}) ps"
    by (auto simp: eligible_def intro: filter_cong)
  ultimately show ?thesis
    by (simp add: resolveGroup_def candidates_def Let_def filterAvailable_def del: filter_filter)
qed

lemma metric_fun:
  "(\<lambda>c. of_int (pxLatencyMs c)) = scan_metric StrategyLatency p" "pxSpeedKbps = scan_metric StrategySpeed p"
  "(\<lambda>c. scoreLocked c p) = scan_metric StrategyScore p"
  by (simp_all add: scan_metric_def fun_eq_iff)

lemma resolved_group_mem:
  "resolveGroupReference name groups = Some r \<Longrightarrow> rrGroup r = Some g \<Longrightarrow> g \<in> set groups"
  by (auto simp: resolveGroupReference_def Let_def split: if_splits option.splits dest: find_SomeD)

lemma selector_strategy:
  assumes "\<forall>g\<in>set groups. grStrategy g = [] \<or> known_strategy (grStrategy g)"
  shows "slStrategy (newPoolGroupSelector name groups) \<in> {StrategyLatency, StrategySpeed, StrategyScore} \<or>
    sticky_strategy (slStrategy (newPoolGroupSelector name groups)) \<or>
    indexed_strategy (slStrategy (newPoolGroupSelector name groups))"
  using assms resolved_group_mem [of name groups]
  by (fastforce simp: newPoolGroupSelector_def sticky_strategy_def indexed_strategy_def known_strategy_def
      split: option.split)

text \<open>
  The dashboard shows the truth: in a well-formed pool, the node that EffectiveCurrent
  reports as fixed is the node the next undisturbed \<open>pick\<close> returns, and it reports none
  exactly when that pick finds no node or bypasses the proxies.
\<close>

theorem effective_current_is_pick:
  assumes "pool_ok p" "\<forall>g\<in>set groups. grStrategy g = [] \<or> known_strategy (grStrategy g)"
  shows "(EffectiveCurrent groupName groups p p p = Some (px, False) \<longrightarrow>
      snd (pick quiet draw groupName groups {} p) = Picked px) \<and>
    (EffectiveCurrent groupName groups p p p = None \<longleftrightarrow>
      snd (pick quiet draw groupName groups {} p) \<in> {NoProxy, Direct})"
proof (cases "ref_direct groupName groups")
  case True
  then show ?thesis
    by (auto simp: EffectiveCurrent_def pick_def ref_direct_def Let_def split: option.splits)
next
  case False
  let ?sl = "ref_selector groupName groups" and ?name = "ref_name groupName groups"
  let ?cs = "candidates ?sl {} (plProxies p)" and ?s = "slStrategy ?sl"
  have E: "EffectiveCurrent groupName groups p p p =
      (if ?cs = [] then None else
         let pick_key = (\<lambda>key. case find (\<lambda>c. px_key c = key) ?cs of Some c \<Rightarrow> c | None \<Rightarrow> hd ?cs) in
         if indexed_strategy ?s then Some (pick_key (gcLast (cursor_of ?name p)), True)
         else if ?s \<in> {StrategyLatency, StrategySpeed, StrategyScore}
         then Some (bestBy (scan_metric ?s p) (?s \<noteq> StrategyLatency) ?cs, False)
         else Some (pick_key (gcSticky (cursor_of ?name p)), False))"
    using False
    unfolding EffectiveCurrent_def ref_direct_def ref_name_def [symmetric] resolveGroup_candidates Let_def
      ref_selector_def [symmetric] indexed_strategy_def metric_fun [where p = p]
    by simp
  have P: "snd (pick quiet draw groupName groups {} p) =
      (if ?cs = [] then NoProxy else
         Picked (choice ?s (scan_metric ?s p) (gcSticky (cursor_of ?name p))
           (scan_target ?s (gcRR (cursor_of ?name p)) (draw 0) (length ?cs)) ?cs))"
    by (simp add: pick_quiet [OF assms(1) False] select_eq [OF pool_ok_distinct [OF assms(1)]] Let_def)
  have "?s \<in> {StrategyLatency, StrategySpeed, StrategyScore} \<or> sticky_strategy ?s \<or> indexed_strategy ?s"
    unfolding ref_selector_def by (rule selector_strategy [OF assms(2)])
  then show ?thesis unfolding E P
    by (auto simp: choice_def Let_def sticky_strategy_def indexed_strategy_def split: option.split)
qed

section \<open>Round robin, pins and rotation\<close>

fun pick_many :: "nat \<Rightarrow> (nat \<Rightarrow> nat) \<Rightarrow> string \<Rightarrow> group list \<Rightarrow> string set \<Rightarrow> pool \<Rightarrow> pool \<times> pick_result list" where
  "pick_many 0 draw groupName groups exclude p = (p, [])"
| "pick_many (Suc n) draw groupName groups exclude p =
     (let (p1, r) = pick quiet draw groupName groups exclude p;
          (p2, rs) = pick_many n draw groupName groups exclude p1
      in (p2, r # rs))"

lemma cursor_record_pick:
  "slStrategy sl = StrategyRoundRobin \<Longrightarrow>
   gcRR (cursor_of name (record_pick name sl key b (set_cursor name (cursor_of name p) p))) = Suc (gcRR (cursor_of name p))"
  by (simp add: record_pick_def cursor_of_def set_cursor_def Let_def sticky_strategy_def)

lemma pick_round_robin:
  assumes "pool_ok p" "\<not> ref_direct groupName groups"
    and "slStrategy (ref_selector groupName groups) = StrategyRoundRobin"
    and "cs = candidates (ref_selector groupName groups) exclude (plProxies p)" "cs \<noteq> []"
  shows "\<exists>p1. pick quiet draw groupName groups exclude p =
      (p1, Picked (cs ! (gcRR (cursor_of (ref_name groupName groups) p) mod length cs))) \<and>
    pool_ok p1 \<and> plProxies p1 = plProxies p \<and>
    gcRR (cursor_of (ref_name groupName groups) p1) = Suc (gcRR (cursor_of (ref_name groupName groups) p))"
  using assms
  by (simp add: pick_quiet select_eq [OF pool_ok_distinct] Let_def choice_def scan_target_def indexed_strategy_def
      cursor_record_pick)

lemma pick_many_round_robin:
  assumes "\<not> ref_direct groupName groups"
    and "slStrategy (ref_selector groupName groups) = StrategyRoundRobin" "cs \<noteq> []"
  shows "pool_ok p \<Longrightarrow> cs = candidates (ref_selector groupName groups) exclude (plProxies p) \<Longrightarrow>
    snd (pick_many n draw groupName groups exclude p) =
    map (\<lambda>i. Picked (cs ! ((gcRR (cursor_of (ref_name groupName groups) p) + i) mod length cs))) [0..<n]"
proof (induction n arbitrary: p)
  case (Suc n)
  let ?rr = "gcRR (cursor_of (ref_name groupName groups) p)"
  from pick_round_robin [OF Suc.prems(1) assms(1,2) Suc.prems(2) assms(3), of draw] obtain p1 where
    p1: "pick quiet draw groupName groups exclude p = (p1, Picked (cs ! (?rr mod length cs)))"
      "pool_ok p1" "plProxies p1 = plProxies p"
      "gcRR (cursor_of (ref_name groupName groups) p1) = Suc ?rr" by blast
  have "[0..<Suc n] = 0 # map Suc [0..<n]" by (simp add: map_Suc_upt upt_conv_Cons)
  with Suc.IH [OF p1(2)] Suc.prems(2) p1 show ?case
    by (simp add: Let_def comp_def split: prod.split del: upt_Suc) (metis snd_conv)
qed simp

text \<open>
  C11: Round robin is fair: undisturbed consecutive picks of a round-robin group serve its
  candidates in cyclic order, so that as many picks as there are candidates serve every one
  of them exactly once.
\<close>

theorem round_robin_fair:
  assumes "pool_ok p" "\<not> ref_direct groupName groups"
    and "slStrategy (ref_selector groupName groups) = StrategyRoundRobin"
    and "cs = candidates (ref_selector groupName groups) exclude (plProxies p)" "cs \<noteq> []"
  shows "snd (pick_many (length cs) draw groupName groups exclude p) =
      map Picked (rotate (gcRR (cursor_of (ref_name groupName groups) p)) cs)"
proof -
  let ?rr = "gcRR (cursor_of (ref_name groupName groups) p)"
  have "map (\<lambda>i. cs ! ((?rr + i) mod length cs)) [0..<length cs] = rotate ?rr cs"
    by (rule nth_equalityI) (simp_all add: nth_rotate)
  then have "map Picked (map (\<lambda>i. cs ! ((?rr + i) mod length cs)) [0..<length cs]) = map Picked (rotate ?rr cs)"
    by simp
  with pick_many_round_robin [OF assms(2,3,5,1,4)] show ?thesis by (simp add: comp_def)
qed

lemma next_after_Some:
  assumes "list_ex ok ps" "case anchor of Some a \<Rightarrow> a < length ps | None \<Rightarrow> True"
  shows "\<exists>i<length ps. next_after ok anchor ps = Some i \<and> ok (ps ! i)"
proof -
  obtain j where j: "j < length ps" "ok (ps ! j)"
    using assms(1) by (auto simp: list_ex_iff in_set_conv_nth)
  let ?f = "\<lambda>offset. case anchor of Some a \<Rightarrow> (a + offset) mod length ps | None \<Rightarrow> offset - 1"
  have "\<exists>offset\<in>set [1..<length ps + 1]. ?f offset = j"
  proof (cases anchor)
    case None
    then show ?thesis using j(1) by (intro bexI [of _ "j + 1"]) auto
  next
    case (Some a)
    with assms(2) have a: "a < length ps" by simp
    show ?thesis
    proof (cases "a < j")
      case True
      then show ?thesis using Some j(1) by (intro bexI [of _ "j - a"]) auto
    next
      case False
      then have "a + (length ps + j - a) = length ps + j" using a by simp
      then have "(a + (length ps + j - a)) mod length ps = j" using j(1) by simp
      then show ?thesis using Some j(1) False a by (intro bexI [of _ "length ps + j - a"]) auto
    qed
  qed
  with j(2) have "next_after ok anchor ps \<noteq> None"
    unfolding next_after_def find_None_iff set_map by blast
  then obtain i where i: "next_after ok anchor ps = Some i" by blast
  then have "ok (ps ! i)" "i \<in> ?f ` set [1..<length ps + 1]"
    by (auto simp: next_after_def dest!: find_SomeD)
  moreover have "?f o' < length ps" if "o' \<in> set [1..<length ps + 1]" for o'
    using that j(1) by (auto split: option.split intro: mod_less_divisor)
  ultimately show ?thesis using i by auto
qed

lemma rotation_index_Some:
  assumes "list_ex proxyHardRoutable ps"
  shows "\<exists>i<length ps. rotation_index name sticky ps = Some i \<and> proxyHardRoutable (ps ! i) \<and>
    (name = GroupAny \<and> (\<exists>px\<in>set ps. proxyHardRoutable px \<and> pxAvailable px) \<longrightarrow> pxAvailable (ps ! i))"
proof -
  let ?live = "\<lambda>px. proxyHardRoutable px \<and> pxAvailable px"
  let ?a = "find_index (\<lambda>px. px_key px = sticky) ps"
  have a: "case ?a of Some a \<Rightarrow> a < length ps | None \<Rightarrow> True"
    by (auto split: option.split dest: find_index_SomeD)
  have fb: "\<exists>i<length ps. next_after proxyHardRoutable ?a ps = Some i \<and> proxyHardRoutable (ps ! i)"
    by (rule next_after_Some [OF assms a])
  show ?thesis
  proof (cases "(name = GroupAny \<or> name = []) \<and> list_ex ?live ps")
    case True
    have "\<exists>i<length ps. (case ?a of None \<Rightarrow> find_index ?live ps | Some a \<Rightarrow> next_after ?live (Some a) ps) = Some i \<and> ?live (ps ! i)"
    proof (cases ?a)
      case None
      have "find_index ?live ps \<noteq> None" using True by (auto simp: find_index_None list_ex_iff)
      then show ?thesis using None by (auto dest: find_index_SomeD)
    next
      case (Some a')
      with a True next_after_Some [of ?live ps "Some a'"] show ?thesis by simp
    qed
    with True show ?thesis by (auto simp: rotation_index_def Let_def)
  next
    case False
    with fb show ?thesis by (auto simp: rotation_index_def Let_def list_ex_iff)
  qed
qed

lemma IsPinned_cursor: "IsPinned name p = gcPinned (cursor_of name p)"
  by (simp add: IsPinned_def cursor_of_def cursor0_def split: option.split)

lemma cursor_of_set [simp]:
  "cursor_of name (set_cursor n gc p) = (if name = n then gc else cursor_of name p)"
  "plGroups (set_cursor n gc p) = (plGroups p)(n \<mapsto> gc)"
  "cursor_of name (p\<lparr>plActiveRev := r\<rparr>) = cursor_of name p"
  by (simp_all add: cursor_of_def set_cursor_def)

text \<open>
  Rotation respects the operator and never blackholes: a pinned group is not rotated
  unless forced; otherwise, whenever some node is hard-routable, rotation moves the group to
  a hard-routable node of the pool, for the default group to an available one if there is
  any, keeps the pin as it was, and changes no other group.
\<close>

theorem rotate_sticky_spec:
  "(IsPinned name p \<and> \<not> force \<longrightarrow> snd (rotateSticky name force p) = None \<and>
      IsPinned name (fst (rotateSticky name force p)) \<and>
      gcSticky (cursor_of name (fst (rotateSticky name force p))) = gcSticky (cursor_of name p)) \<and>
   ((\<not> IsPinned name p \<or> force) \<and> list_ex proxyHardRoutable (plProxies p) \<longrightarrow>
      (\<exists>px\<in>set (plProxies p). snd (rotateSticky name force p) = Some px \<and> proxyHardRoutable px \<and>
         (name = GroupAny \<and> 0 < AvailableCount p \<longrightarrow> pxAvailable px) \<and>
         gcSticky (cursor_of name (fst (rotateSticky name force p))) = px_key px)) \<and>
   IsPinned name (fst (rotateSticky name force p)) = IsPinned name p \<and>
   (\<forall>other. other \<noteq> name \<longrightarrow> plGroups (fst (rotateSticky name force p)) other = plGroups p other)"
proof -
  show ?thesis
  proof (cases "plProxies p = [] \<or> gcPinned (cursor_of name p) \<and> \<not> force \<or> \<not> list_ex proxyHardRoutable (plProxies p)")
    case True
    then have "rotateSticky name force p = (p, None) \<or>
      rotateSticky name force p = (set_cursor name (cursor_of name p) p, None)"
      by (auto simp: rotateSticky_def Let_def)
    then consider "rotateSticky name force p = (p, None)"
      | "rotateSticky name force p = (set_cursor name (cursor_of name p) p, None)" by blast
    then show ?thesis using True by cases (auto simp: IsPinned_cursor cursor_of_set)
  next
    case False
    then obtain i where i: "i < length (plProxies p)"
      "rotation_index name (gcSticky (cursor_of name p)) (plProxies p) = Some i"
      "proxyHardRoutable (plProxies p ! i)"
      "name = GroupAny \<and> (\<exists>px\<in>set (plProxies p). proxyHardRoutable px \<and> pxAvailable px) \<longrightarrow> pxAvailable (plProxies p ! i)"
      using rotation_index_Some [of "plProxies p" name] by blast
    have r: "rotateSticky name force p = (stick_to name (cursor_of name p) (px_key (plProxies p ! i))
        (set_cursor name (cursor_of name p) p), Some (plProxies p ! i))"
      using False i(2) by (auto simp: rotateSticky_def Let_def)
    have av: "0 < AvailableCount p \<longleftrightarrow> (\<exists>px\<in>set (plProxies p). proxyHardRoutable px \<and> pxAvailable px)"
      by (auto simp: AvailableCount_def filter_empty_conv)
    show ?thesis unfolding r av using False i
      by (auto simp: stick_to_def IsPinned_cursor cursor_of_set Let_def intro!: bexI [of _ "plProxies p ! i"])
  qed
qed

text \<open>
  A manual choice is never taken away by traffic: an undisturbed pick of a pinned sticky
  group returns the pinned node whenever it is a candidate; when it is not, another node
  serves the request, and the pin and the pinned key stay for the next one.
\<close>

theorem pinned_pick:
  assumes "pool_ok p" "\<not> ref_direct groupName groups"
    and "sticky_strategy (slStrategy (ref_selector groupName groups))"
    and "IsPinned (ref_name groupName groups) p"
    and "pick quiet draw groupName groups exclude p = (p1, Picked px)"
  shows "IsPinned (ref_name groupName groups) p1 \<and>
    gcSticky (cursor_of (ref_name groupName groups) p1) = gcSticky (cursor_of (ref_name groupName groups) p) \<and>
    (px_key px = gcSticky (cursor_of (ref_name groupName groups) p) \<or>
     gcSticky (cursor_of (ref_name groupName groups) p) \<notin>
       px_key ` set (candidates (ref_selector groupName groups) exclude (plProxies p)))"
proof -
  let ?name = "ref_name groupName groups" and ?sl = "ref_selector groupName groups"
  let ?cs = "candidates ?sl exclude (plProxies p)" and ?k = "gcSticky (cursor_of ?name p)"
  let ?hit = "find (\<lambda>c. px_key c = ?k) ?cs"
  have s: "slStrategy ?sl \<noteq> StrategyRoundRobin" "\<not> indexed_strategy (slStrategy ?sl)"
    using assms(3) by (auto simp: sticky_strategy_def indexed_strategy_def)
  have px: "px = (case ?hit of Some c \<Rightarrow> c | None \<Rightarrow> hd ?cs)"
    and p1: "p1 = record_pick ?name ?sl (px_key px) (?hit = None) (set_cursor ?name (cursor_of ?name p) p)"
    using assms(3,4,5) s
    by (auto simp: pick_quiet [OF assms(1,2)] select_eq [OF pool_ok_distinct [OF assms(1)]] Let_def choice_def
        IsPinned_cursor split: if_splits)
  show ?thesis
  proof (cases ?hit)
    case None
    then have "?k \<notin> px_key ` set ?cs" by (auto simp: find_None_iff)
    with None p1 s assms(4) show ?thesis
      by (simp add: record_pick_def Let_def IsPinned_cursor)
  next
    case (Some c)
    then have "px_key px = ?k" using px by (auto dest: find_SomeD)
    with Some p1 s assms(3,4) show ?thesis
      by (simp add: record_pick_def Let_def IsPinned_cursor)
  qed
qed

section \<open>Witnesses\<close>

definition live_node :: "string \<Rightarrow> proxy" where
  "live_node host = sample_node\<lparr>pxIP := host, pxAvailable := True\<rparr>"

definition live_pool :: pool where
  "live_pool = rebuildProxyIndexLocked (NewProxyPool\<lparr>plProxies := [live_node ''a.example'', live_node ''b.example'']\<rparr>)"

definition rr_group :: group where
  "rr_group = \<lparr>grID = ''g1'', grName = ''Rotating'', grStrategy = StrategyRoundRobin, grCountries = [],
     grProtocols = [], grSources = [], grNodes = []\<rparr>"

lemma live_text:
  "canonicalProxyHost ''a.example'' = Inr ''a.example''" "canonicalProxyHost ''b.example'' = Inr ''b.example''"
  "isProxyProtocol ''http''" "to_lower (trim_space ''http'') = ''http''"
  "join_host_port ''a.example'' ''80'' = ''a.example:80''" "join_host_port ''b.example'' ''80'' = ''b.example:80''"
  by code_simp+

lemma live_port: "parse_uint 16 ''80'' = Some 80"
  by (simp add: conv_eval)

lemma live_keys:
  "px_key (live_node ''a.example'') = ''http://a.example:80''" "px_key (live_node ''b.example'') = ''http://b.example:80''"
  unfolding px_key_def canonicalProxyEndpointKey_def Let_def live_node_def sample_node_def proxy0_def
  by (simp_all add: live_text live_port sample_port(2))

lemma live_pool_ok: "pool_ok live_pool"
  unfolding pool_ok_def live_pool_def
  by (simp, simp add: rebuildProxyIndexLocked_def NewProxyPool_def live_keys proxy_sound_def proxyHardRoutable_def)
    (simp add: live_node_def sample_node_def proxy0_def)

lemma live_refs:
  "resolveGroupReference ''ANY'' [] = Some \<lparr>rrKind = RefAny, rrCanonical = ''ANY'', rrCountry = [], rrGroup = None\<rparr>"
  "resolveGroupReference ''g1'' [rr_group] = Some \<lparr>rrKind = RefNamed, rrCanonical = ''g1'', rrCountry = [], rrGroup = Some rr_group\<rparr>"
  by code_simp+

lemma rr_fields:
  "grStrategy rr_group = StrategyRoundRobin" "grCountries rr_group = []" "grProtocols rr_group = []"
  "grSources rr_group = []" "grNodes rr_group = []"
  by (simp_all add: rr_group_def)

lemma live_selectors:
  "\<not> ref_direct ''ANY'' []" "ref_name ''ANY'' [] = ''ANY''"
  "ref_selector ''ANY'' [] = \<lparr>slStrategy = StrategySticky, slGroup = None, slCountry = [], slAny = True\<rparr>"
  "\<not> ref_direct ''g1'' [rr_group]" "ref_name ''g1'' [rr_group] = ''g1''"
  "ref_selector ''g1'' [rr_group] = \<lparr>slStrategy = StrategyRoundRobin, slGroup = Some rr_group, slCountry = [], slAny = False\<rparr>"
  by (simp_all add: ref_direct_def ref_name_def ref_selector_def newPoolGroupSelector_def live_refs rr_fields)

lemma live_nodes: "plProxies live_pool = [live_node ''a.example'', live_node ''b.example'']"
  by (simp add: live_pool_def rebuildProxyIndexLocked_def)

lemma live_routable [simp]: "proxyHardRoutable (live_node h)" "pxAvailable (live_node h)"
  by (simp_all add: proxyHardRoutable_def live_node_def sample_node_def proxy0_def)

lemma live_eligible:
  "eligible (ref_selector ''ANY'' []) {} (live_node h)" "eligible (ref_selector ''g1'' [rr_group]) {} (live_node h)"
  by (simp_all add: eligible_def live_selectors selector_matches_def in_group_def rr_fields)

lemma live_candidates:
  "candidates (ref_selector ''ANY'' []) {} (plProxies live_pool) = plProxies live_pool"
  "candidates (ref_selector ''g1'' [rr_group]) {} (plProxies live_pool) = plProxies live_pool"
  by (simp_all add: candidates_def live_nodes live_eligible)

lemma live_cursor: "cursor_of name live_pool = cursor0"
  by (simp add: cursor_of_def live_pool_def rebuildProxyIndexLocked_def NewProxyPool_def)

lemma live_pick: "\<exists>p'. pick quiet draw ''ANY'' [] {} live_pool = (p', Picked (live_node ''a.example''))"
  by (simp add: pick_quiet [OF live_pool_ok live_selectors(1)] select_eq [OF pool_ok_distinct [OF live_pool_ok]]
      live_candidates Let_def choice_def live_cursor cursor0_def)
    (simp add: live_selectors live_nodes live_keys indexed_strategy_def sticky_strategy_def)

theorem pick_safe_witness:
  "\<exists>p' px. pick quiet (\<lambda>_. 0) ''ANY'' [] {} live_pool = (p', Picked px) \<and> px \<in> set (plProxies p') \<and> proxyHardRoutable px"
proof -
  obtain p' where p: "pick quiet (\<lambda>_. 0) ''ANY'' [] {} live_pool = (p', Picked (live_node ''a.example''))"
    using live_pick by blast
  with pick_safe [OF p] show ?thesis by blast
qed

theorem pick_progress_witness:
  "\<exists>p' px. pick (\<lambda>_. queuePersistenceLocked) (\<lambda>_. 0) ''ANY'' [] {} live_pool = (p', Picked px)"
proof (rule pick_progress [OF live_pool_ok live_refs(1)])
  show "\<forall>k. keeps_candidate (newPoolGroupSelector
      (rrCanonical \<lparr>rrKind = RefAny, rrCanonical = ''ANY'', rrCountry = [], rrGroup = None\<rparr>) []) {} queuePersistenceLocked"
    by (simp add: keeps_candidate_def)
  show "\<exists>c\<in>set (plProxies live_pool). eligible (newPoolGroupSelector
      (rrCanonical \<lparr>rrKind = RefAny, rrCanonical = ''ANY'', rrCountry = [], rrGroup = None\<rparr>) []) {} c"
    using live_eligible(1) [unfolded ref_selector_def live_selectors(2)] by (simp add: live_nodes)
qed simp

theorem effective_current_is_pick_witness:
  "EffectiveCurrent ''ANY'' [] live_pool live_pool live_pool \<noteq> None"
  using effective_current_is_pick [OF live_pool_ok, of "[]" "''ANY''" undefined "\<lambda>_. 0"] live_pick [of "\<lambda>_. 0"] by auto

theorem round_robin_fair_witness:
  "snd (pick_many 2 (\<lambda>_. 0) ''g1'' [rr_group] {} live_pool) =
   [Picked (live_node ''a.example''), Picked (live_node ''b.example'')]"
  using round_robin_fair [OF live_pool_ok live_selectors(4) _ live_candidates(2) [symmetric], of "\<lambda>_. 0"]
  by (simp add: live_selectors live_nodes live_cursor cursor0_def numeral_2_eq_2)

theorem rotate_sticky_spec_witness:
  "\<exists>px\<in>set (plProxies live_pool). snd (rotateSticky ''ANY'' False live_pool) = Some px \<and> pxAvailable px"
proof -
  have "\<not> IsPinned ''ANY'' live_pool" by (simp add: IsPinned_cursor live_cursor cursor0_def)
  moreover have "list_ex proxyHardRoutable (plProxies live_pool)" by (simp add: live_nodes)
  moreover have "0 < AvailableCount live_pool" by (simp add: AvailableCount_def live_nodes)
  ultimately show ?thesis using rotate_sticky_spec [of "''ANY''" live_pool False] by blast
qed

lemma forceSticky_ok [intro]: "pool_ok p \<Longrightarrow> pool_ok (fst (forceSticky name key p))"
  by (auto simp: forceSticky_def stick_to_def Let_def split: option.split)

lemma forceSticky_pins:
  "forceSticky name key p = (q, ForceStickyOK) \<Longrightarrow>
   IsPinned name q \<and> gcSticky (cursor_of name q) = key \<and> plProxies q = plProxies p"
  by (auto simp: forceSticky_def stick_to_def IsPinned_cursor Let_def split: option.splits if_splits)

theorem pinned_pick_witness:
  "\<exists>q p1 px. forceSticky ''ANY'' ''http://b.example:80'' live_pool = (q, ForceStickyOK) \<and>
     pick quiet (\<lambda>_. 0) ''ANY'' [] {} q = (p1, Picked px) \<and> px_key px = ''http://b.example:80'' \<and> IsPinned ''ANY'' p1"
proof -
  obtain q where f: "forceSticky ''ANY'' ''http://b.example:80'' live_pool = (q, ForceStickyOK)"
    using live_pool_ok
    by (simp add: forceSticky_def lookup_index_ok pool_ok_def live_nodes live_keys)
  then have q: "pool_ok q" "IsPinned ''ANY'' q" "gcSticky (cursor_of ''ANY'' q) = ''http://b.example:80''"
      "plProxies q = plProxies live_pool"
    using forceSticky_ok [OF live_pool_ok, of "''ANY''" "''http://b.example:80''"] forceSticky_pins [OF f] by simp_all
  have "candidates (ref_selector ''ANY'' []) {} (plProxies q) \<noteq> []"
    by (simp add: q(4) live_candidates) (simp add: live_nodes)
  then obtain p1 px where p1: "pick quiet (\<lambda>_. 0) ''ANY'' [] {} q = (p1, Picked px)"
    by (auto simp: pick_quiet [OF q(1) live_selectors(1)] select_eq [OF pool_ok_distinct [OF q(1)]] Let_def)
  have "''http://b.example:80'' \<in> px_key ` set (candidates (ref_selector ''ANY'' []) {} (plProxies q))"
    by (simp add: q(4) live_candidates) (simp add: live_nodes live_keys)
  with pinned_pick [OF q(1) live_selectors(1) _ _ p1] q(2,3) f p1 show ?thesis
    by (auto simp: live_selectors sticky_strategy_def)
qed

end
