(* ===== verification/PoolCache.thy ===== *)
theory PoolCache
  imports PoolSelect
begin

text \<open>
  The cache file of the pool, poolcache.go: what is written, the validation on both sides,
  the repairs made while loading, the generation order of concurrent writers, and the start
  of the program from the file (the part of main.go between loading and SetCache).

  The JSON and gzip codecs are not modelled: a file is its decoded record. The write itself
  is an outcome of the environment: done, failed before the rename, or failed after it, when
  the new file is in place although an error is reported.
\<close>

section \<open>The file and its validation\<close>

record cache_file =
  cfProxies :: "proxy list"
  cfInfo :: "proxy list"
  cfStats :: "string \<Rightarrow> node_stats option"
  cfCheckURL :: string
  cfHealthPolicy :: string
  cfPending :: bool
  cfAnonVersion :: nat

definition "maxPoolCacheNodes = (500000 :: nat)"
definition "maxPoolCacheStats = (500000 :: nat)"
definition "maxSourceProxyURLBytes = (16384 :: nat)"
definition "maxSourceAddressBytes = (512 :: nat)"
definition "anonymityClassificationVersion = (2 :: nat)"

datatype cache_error =
    BadCheckURL | BadPolicy | TooManyNodes | BadNode nat | DuplicateNode string | TooManyStats | BadStats | WriteError

definition validateCachedProxy :: "proxy \<Rightarrow> bool" where
  "validateCachedProxy px \<longleftrightarrow>
     validateFetchedProxyFields px = None \<and> length (pxSourceIDs px) \<le> maxConfiguredSources \<and>
     list_all (\<lambda>i. length i \<le> maxConfigValueBytes \<and> \<not> hasLogControlCharacters i) (pxSourceIDs px) \<and>
     list_all (\<lambda>v. \<not> hasLogControlCharacters v)
       (pxSourceNames px @ [pxSourceName px, pxCountry px, pxCity px, pxContinent px, pxExitIP px, pxAnonymity px]) \<and>
     length (pxExitIP px) \<le> maxSourceAddressBytes \<and> length (pxAnonymity px) \<le> 32 \<and>
     0 \<le> pxLatencyMs px \<and> 0 \<le> pxSpeedKbps px \<and> 0 \<le> pxSpeedTestedAt px \<and> 0 \<le> pxSpeedBytes px \<and>
     0 \<le> pxSpeedDurationMs px"

text \<open>validateNodes with the keys seen so far; the result holds the normalised nodes.\<close>

fun validate_nodes :: "bool \<Rightarrow> nat \<Rightarrow> string set \<Rightarrow> proxy list \<Rightarrow> cache_error + (proxy list \<times> string set)" where
  "validate_nodes info i seen [] = Inr ([], seen)"
| "validate_nodes info i seen (px0 # ps) =
     (case normalizeProxy px0 of
        None \<Rightarrow> Inl (BadNode i)
      | Some px \<Rightarrow>
          if info \<and> pxProtocol px \<noteq> ''proxyip'' \<or> \<not> info \<and> \<not> isForwardingProtocol (pxProtocol px) then Inl (BadNode i)
          else if \<not> validateCachedProxy px then Inl (BadNode i)
          else if px_key px \<in> seen then Inl (DuplicateNode (px_key px))
          else case validate_nodes info (i + 1) (insert (px_key px) seen) ps of
              Inl e \<Rightarrow> Inl e
            | Inr (qs, seen') \<Rightarrow> Inr (px # qs, seen'))"

definition validatePoolCacheFile :: "(string \<Rightarrow> url option) \<Rightarrow> cache_file \<Rightarrow> cache_error + cache_file" where
  "validatePoolCacheFile parse f =
     (if cfCheckURL f \<noteq> [] \<and> (cfCheckURL f \<noteq> trim_space (cfCheckURL f) \<or> validateCheckURL parse (cfCheckURL f) \<noteq> None)
      then Inl BadCheckURL
      else if cfHealthPolicy f \<noteq> [] \<and> \<not> validHealthPolicyFingerprint (cfHealthPolicy f) then Inl BadPolicy
      else if maxPoolCacheNodes < length (cfProxies f) + length (cfInfo f) then Inl TooManyNodes
      else case validate_nodes False 0 {} (cfProxies f) of
          Inl e \<Rightarrow> Inl e
        | Inr (ps, seen) \<Rightarrow>
            (case validate_nodes True 0 seen (cfInfo f) of
               Inl e \<Rightarrow> Inl e
             | Inr (infos, _) \<Rightarrow>
                 if maxPoolCacheStats < card (dom (cfStats f)) then Inl TooManyStats
                 else if \<exists>k\<in>dom (cfStats f). maxSourceProxyURLBytes < length k \<or> hasLogControlCharacters k \<or>
                           nsLastLatencyMs (the (cfStats f k)) < 0 then Inl BadStats
                 else Inr (f\<lparr>cfProxies := ps, cfInfo := infos\<rparr>)))"

section \<open>Saving\<close>

datatype write_outcome = WriteDone | WriteFailed | WriteUnsynced

record pool_cache =
  pcLast :: "nat option"
  pcFile :: "cache_file option"

definition saveWithHealthState ::
    "(string \<Rightarrow> url option) \<Rightarrow> write_outcome \<Rightarrow> nat \<Rightarrow> cache_file \<Rightarrow> pool_cache \<Rightarrow> pool_cache \<times> cache_error option" where
  "saveWithHealthState parse wr generation snapshot c =
     (if (case pcLast c of Some g \<Rightarrow> generation \<le> g | None \<Rightarrow> False) then (c, None)
      else
        let f = snapshot\<lparr>cfCheckURL := trim_space (cfCheckURL snapshot),
                         cfAnonVersion := anonymityClassificationVersion\<rparr>
        in case validatePoolCacheFile parse f of
             Inl e \<Rightarrow> (c, Some e)
           | Inr f' \<Rightarrow>
               (case wr of
                  WriteDone \<Rightarrow> (c\<lparr>pcLast := Some generation, pcFile := Some f'\<rparr>, None)
                | WriteFailed \<Rightarrow> (c, Some WriteError)
                | WriteUnsynced \<Rightarrow> (c\<lparr>pcFile := Some f'\<rparr>, Some WriteError)))"

text \<open>The detached copy of the pool that a writer encodes, with its generation.\<close>

definition cacheSnapshotLocked :: "pool \<Rightarrow> nat \<times> cache_file" where
  "cacheSnapshotLocked p =
     (plCacheGen p,
      \<lparr>cfProxies = plProxies p, cfInfo = plInfo p, cfStats = plStats p, cfCheckURL = plHealthURL p,
       cfHealthPolicy = plPolicyFP p, cfPending = plRecheckPending p, cfAnonVersion = 0\<rparr>)"

text \<open>
  The two writers. Their lock section returns the cache to write and the snapshot, or none;
  the write then runs without the pool lock.
\<close>

definition flushScheduledPersistence :: "u64 \<Rightarrow> pool \<Rightarrow> pool \<times> (nat \<times> nat \<times> cache_file) option" where
  "flushScheduledPersistence token p =
     (if \<not> plTimer p \<or> token \<noteq> plToken p then (p, None)
      else
        let p1 = p\<lparr>plTimer := False\<rparr> in
        case plCache p1 of
          None \<Rightarrow> (p1, None)
        | Some c \<Rightarrow> (p1, Some (c, cacheSnapshotLocked p1)))"

definition FlushCache :: "pool \<Rightarrow> pool \<times> (nat \<times> nat \<times> cache_file) option" where
  "FlushCache p =
     (let p1 = cancelScheduledPersistenceLocked p in
      case plCache p1 of
        None \<Rightarrow> (p1, None)
      | Some c \<Rightarrow> let p2 = p1\<lparr>plCacheGen := plCacheGen p1 + 1\<rparr> in (p2, Some (c, cacheSnapshotLocked p2)))"

definition SetCache :: "nat option \<Rightarrow> pool \<Rightarrow> pool" where
  "SetCache c p = (let p1 = (if c = None then cancelScheduledPersistenceLocked p else p) in p1\<lparr>plCache := c\<rparr>)"

section \<open>Loading\<close>

definition drop_cached :: "bool \<Rightarrow> proxy \<Rightarrow> bool" where
  "drop_cached info px =
     (let ip = parse_ip (trim_space (pxIP px));
          drop = (case ip of None \<Rightarrow> False
                  | Some a \<Rightarrow> \<not> isPublicInternetIP a \<or> \<not> info \<and> isUnusableForwardingEndpointIP a)
      in if info then drop \<or> ip = None \<or> trim_space (pxPort px) \<noteq> ''443'' else drop)"

definition drop_stats :: "(proxy \<Rightarrow> bool) \<Rightarrow> proxy list \<Rightarrow> (string \<Rightarrow> node_stats option) \<Rightarrow> string \<Rightarrow> node_stats option" where
  "drop_stats P ps stats = (\<lambda>k. if k \<in> px_key ` set (filter P ps) then None else stats k)"

definition filterNonPublicPoolCacheNodes :: "cache_file \<Rightarrow> cache_file" where
  "filterNonPublicPoolCacheNodes f =
     f\<lparr>cfProxies := filter (\<lambda>px. \<not> drop_cached False px) (cfProxies f),
       cfInfo := filter (\<lambda>px. \<not> drop_cached True px) (cfInfo f),
       cfStats := drop_stats (drop_cached True) (cfInfo f) (drop_stats (drop_cached False) (cfProxies f) (cfStats f))\<rparr>"

definition normalize_cached :: "bool \<Rightarrow> (string \<Rightarrow> node_stats option) \<Rightarrow> proxy \<Rightarrow> proxy" where
  "normalize_cached pending stats px =
     (if (case stats (px_key px) of Some st \<Rightarrow> nsTerminal st | None \<Rightarrow> False)
      then px\<lparr>pxHealthInvalidated := True, pxPolicyExcluded := False, pxAvailable := False\<rparr>
      else if pending \<or> \<not> pxHealthInvalidated px then px
      else px\<lparr>pxHealthInvalidated := False, pxPolicyExcluded := False, pxAvailable := False\<rparr>)"

definition normalizeCompletedCachedHealthState :: "cache_file \<Rightarrow> cache_file" where
  "normalizeCompletedCachedHealthState f =
     f\<lparr>cfProxies := map (normalize_cached (cfPending f) (cfStats f)) (cfProxies f)\<rparr>"

text \<open>The statistics of a dropped node are deleted during the scan.\<close>

fun filter_terminal ::
    "proxy list \<Rightarrow> (string \<Rightarrow> node_stats option) \<Rightarrow> proxy list \<times> (string \<Rightarrow> node_stats option)" where
  "filter_terminal [] stats = ([], stats)"
| "filter_terminal (px # ps) stats =
     (if (case stats (px_key px) of Some st \<Rightarrow> nsTerminal st | None \<Rightarrow> False)
      then filter_terminal ps (stats(px_key px := None))
      else let (qs, stats') = filter_terminal ps stats in (px # qs, stats'))"

definition filterTerminalFailedPoolCacheNodes :: "cache_file \<Rightarrow> cache_file" where
  "filterTerminalFailedPoolCacheNodes f =
     (let (ps, stats) = filter_terminal (cfProxies f) (cfStats f) in f\<lparr>cfProxies := ps, cfStats := stats\<rparr>)"

definition clearCachedAnonymity :: "cache_file \<Rightarrow> cache_file" where
  "clearCachedAnonymity f = f\<lparr>cfProxies := map (\<lambda>px. px\<lparr>pxAnonymity := []\<rparr>) (cfProxies f)\<rparr>"

definition repair_loaded :: "cache_file \<Rightarrow> cache_file" where
  "repair_loaded f =
     (let f = filterTerminalFailedPoolCacheNodes (normalizeCompletedCachedHealthState (filterNonPublicPoolCacheNodes f))
      in if cfAnonVersion f < anonymityClassificationVersion
         then (clearCachedAnonymity f)\<lparr>cfAnonVersion := anonymityClassificationVersion\<rparr> else f)"

definition empty_file :: cache_file where
  "empty_file = \<lparr>cfProxies = [], cfInfo = [], cfStats = Map.empty, cfCheckURL = [], cfHealthPolicy = [],
     cfPending = False, cfAnonVersion = 0\<rparr>"

text \<open>\<open>decoded\<close> is the file as read and decoded, none when that failed.\<close>

definition loadWithHealthState :: "(string \<Rightarrow> url option) \<Rightarrow> cache_file option \<Rightarrow> cache_file" where
  "loadWithHealthState parse decoded =
     (case decoded of
        None \<Rightarrow> empty_file
      | Some f \<Rightarrow>
          (case validatePoolCacheFile parse (repair_loaded f) of Inl _ \<Rightarrow> empty_file | Inr f' \<Rightarrow> f'))"

section \<open>Starting from the cache\<close>

text \<open>\<open>start\<close> is the random index of the first node to recheck, taken modulo the size.\<close>

definition Prime :: "nat \<Rightarrow> proxy list \<Rightarrow> proxy list \<Rightarrow> pool \<Rightarrow> pool" where
  "Prime start forwarding proxyip p =
     (let p1 = rebuildProxyIndexLocked (p\<lparr>plProxies := forwarding\<rparr>)
      in p1\<lparr>plInfo := proxyip,
            plRecheckCursor := (if forwarding \<noteq> [] then px_key (forwarding ! (start mod length forwarding)) else []),
            plRoutingRev := plRoutingRev p1 + 1\<rparr>)"

definition restoreStats :: "(string \<Rightarrow> node_stats option) \<Rightarrow> pool \<Rightarrow> pool" where
  "restoreStats m p = p\<lparr>plStats := plStats p ++ m, plStatsRev := plStatsRev p + 1\<rparr>"

definition seed_from_cache ::
    "(string \<Rightarrow> url option) \<Rightarrow> nat \<Rightarrow> string \<Rightarrow> nat \<Rightarrow> cache_file option \<Rightarrow> pool \<Rightarrow> pool \<times> bool" where
  "seed_from_cache parse start checkURL cacheId decoded p =
     (let f = loadWithHealthState parse decoded;
          (p1, changed) =
            (if cfProxies f \<noteq> [] \<or> cfInfo f \<noteq> [] then
               (let q = restoreStats (cfStats f) (Prime start (cfProxies f) (cfInfo f) p)
                in if trim_space (cfCheckURL f) \<noteq> checkURL \<or> cfHealthPolicy f \<noteq> plPolicyFP q
                   then (fst (InvalidateHealth (Some checkURL) q), True)
                   else if cfPending f then (RestoreHealthRecheckPending q, True) else (q, False))
             else (p, False))
      in (SetCache (Some cacheId) p1, changed))"

section \<open>Validation\<close>

definition cacheable :: "bool \<Rightarrow> proxy \<Rightarrow> bool" where
  "cacheable info px \<longleftrightarrow> validateCachedProxy px \<and>
     (if info then pxProtocol px = ''proxyip'' else isForwardingProtocol (pxProtocol px))"

lemma validate_nodes_iff:
  "validate_nodes info i seen ps = Inr (qs, seen') \<longleftrightarrow>
   list_all2 (\<lambda>p q. normalizeProxy p = Some q) ps qs \<and> list_all (cacheable info) qs \<and>
   distinct (map px_key qs) \<and> px_key ` set qs \<inter> seen = {} \<and> seen' = seen \<union> px_key ` set qs"
proof (induction info i seen ps arbitrary: qs seen' rule: validate_nodes.induct)
  case (2 info i seen px0 ps)
  show ?case
  proof (cases "normalizeProxy px0")
    case None
    then show ?thesis by (auto simp: list_all2_Cons1)
  next
    case (Some px)
    show ?thesis
    proof (cases "cacheable info px \<and> px_key px \<notin> seen")
      case True
      then have ok: "\<not> (info \<and> pxProtocol px \<noteq> ''proxyip'' \<or> \<not> info \<and> \<not> isForwardingProtocol (pxProtocol px))"
          "validateCachedProxy px" "px_key px \<notin> seen"
        by (auto simp: cacheable_def split: if_splits)
      have "validate_nodes info i seen (px0 # ps) = Inr (qs, seen') \<longleftrightarrow>
          (\<exists>rs. qs = px # rs \<and> validate_nodes info (i + 1) (insert (px_key px) seen) ps = Inr (rs, seen'))"
        using Some ok by (auto split: sum.split)
      also have "\<dots> \<longleftrightarrow> (\<exists>rs. qs = px # rs \<and> list_all2 (\<lambda>p q. normalizeProxy p = Some q) ps rs \<and>
          list_all (cacheable info) rs \<and> distinct (map px_key rs) \<and>
          px_key ` set rs \<inter> insert (px_key px) seen = {} \<and> seen' = insert (px_key px) seen \<union> px_key ` set rs)"
        using 2 [OF Some ok(1) _ ok(3)] ok(2) by simp
      also have "\<dots> \<longleftrightarrow> list_all2 (\<lambda>p q. normalizeProxy p = Some q) (px0 # ps) qs \<and> list_all (cacheable info) qs \<and>
          distinct (map px_key qs) \<and> px_key ` set qs \<inter> seen = {} \<and> seen' = seen \<union> px_key ` set qs"
      proof (cases qs)
        case (Cons r rs)
        define S where "S = px_key ` set rs"
        have "S \<inter> insert (px_key px) seen = {} \<longleftrightarrow> px_key px \<notin> S \<and> S \<inter> seen = {}"
            "insert (px_key px) seen \<union> S = seen \<union> insert (px_key px) S"
            "insert (px_key px) S \<inter> seen = {} \<longleftrightarrow> S \<inter> seen = {}"
          using True by blast+
        then show ?thesis using Some True
          by (cases "r = px") (simp_all add: Cons S_def [symmetric] conj_ac)
      qed simp
      finally show ?thesis .
    next
      case False
      then show ?thesis using Some
        by (auto simp: cacheable_def list_all2_Cons1 split: if_splits)
    qed
  qed
qed auto

definition valid_head :: "(string \<Rightarrow> url option) \<Rightarrow> cache_file \<Rightarrow> bool" where
  "valid_head parse f \<longleftrightarrow>
     (cfCheckURL f = [] \<or> cfCheckURL f = trim_space (cfCheckURL f) \<and> validateCheckURL parse (cfCheckURL f) = None) \<and>
     (cfHealthPolicy f = [] \<or> validHealthPolicyFingerprint (cfHealthPolicy f))"

definition valid_stats :: "(string \<Rightarrow> node_stats option) \<Rightarrow> bool" where
  "valid_stats m \<longleftrightarrow> card (dom m) \<le> maxPoolCacheStats \<and>
     (\<forall>k st. m k = Some st \<longrightarrow> length k \<le> maxSourceProxyURLBytes \<and> \<not> hasLogControlCharacters k \<and> 0 \<le> nsLastLatencyMs st)"

text \<open>What validation accepts, and that it changes nothing but the spelling of the nodes.\<close>

lemma validate_file_iff:
  "validatePoolCacheFile parse f = Inr f' \<longleftrightarrow>
   valid_head parse f \<and> length (cfProxies f) + length (cfInfo f) \<le> maxPoolCacheNodes \<and> valid_stats (cfStats f) \<and>
   (\<exists>ps infos. f' = f\<lparr>cfProxies := ps, cfInfo := infos\<rparr> \<and>
      list_all2 (\<lambda>p q. normalizeProxy p = Some q) (cfProxies f) ps \<and> list_all (cacheable False) ps \<and>
      list_all2 (\<lambda>p q. normalizeProxy p = Some q) (cfInfo f) infos \<and> list_all (cacheable True) infos \<and>
      distinct (map px_key (ps @ infos)))"
proof -
  have st: "\<not> maxPoolCacheStats < card (dom m) \<and>
      \<not> (\<exists>k\<in>dom m. maxSourceProxyURLBytes < length k \<or> hasLogControlCharacters k \<or> nsLastLatencyMs (the (m k)) < 0)
      \<longleftrightarrow> valid_stats m" for m
    by (force simp: valid_stats_def not_less)
  have "validatePoolCacheFile parse f = Inr f' \<longleftrightarrow>
      valid_head parse f \<and> length (cfProxies f) + length (cfInfo f) \<le> maxPoolCacheNodes \<and> valid_stats (cfStats f) \<and>
      (\<exists>ps seen infos seen'. validate_nodes False 0 {} (cfProxies f) = Inr (ps, seen) \<and>
         validate_nodes True 0 seen (cfInfo f) = Inr (infos, seen') \<and> f' = f\<lparr>cfProxies := ps, cfInfo := infos\<rparr>)"
    unfolding st [symmetric]
    by (auto simp: validatePoolCacheFile_def valid_head_def split: sum.splits if_splits)
  also have "\<dots> \<longleftrightarrow> valid_head parse f \<and> length (cfProxies f) + length (cfInfo f) \<le> maxPoolCacheNodes \<and> valid_stats (cfStats f) \<and>
   (\<exists>ps infos. f' = f\<lparr>cfProxies := ps, cfInfo := infos\<rparr> \<and>
      list_all2 (\<lambda>p q. normalizeProxy p = Some q) (cfProxies f) ps \<and> list_all (cacheable False) ps \<and>
      list_all2 (\<lambda>p q. normalizeProxy p = Some q) (cfInfo f) infos \<and> list_all (cacheable True) infos \<and>
      distinct (map px_key (ps @ infos)))"
    unfolding validate_nodes_iff map_append distinct_append set_map Int_empty_right
    by (intro conj_cong refl) (simp only: Int_commute Un_empty_left; blast)
  finally show ?thesis .
qed

section \<open>The newest snapshot wins\<close>

definition prepared :: "cache_file \<Rightarrow> cache_file" where
  "prepared snapshot = snapshot\<lparr>cfCheckURL := trim_space (cfCheckURL snapshot), cfAnonVersion := anonymityClassificationVersion\<rparr>"

fun run_saves :: "(string \<Rightarrow> url option) \<Rightarrow> (write_outcome \<times> nat \<times> cache_file) list \<Rightarrow> pool_cache \<Rightarrow> pool_cache" where
  "run_saves parse [] c = c"
| "run_saves parse ((wr, g, s) # ws) c = run_saves parse ws (fst (saveWithHealthState parse wr g s c))"

definition empty_cache :: pool_cache where
  "empty_cache = \<lparr>pcLast = None, pcFile = None\<rparr>"

definition durable :: "(string \<Rightarrow> url option) \<Rightarrow> write_outcome \<times> nat \<times> cache_file \<Rightarrow> bool" where
  "durable parse w \<longleftrightarrow> fst w = WriteDone \<and> (\<exists>f. validatePoolCacheFile parse (prepared (snd (snd w))) = Inr f)"

lemma run_saves_snoc:
  "run_saves parse (ws @ [(wr, g, s)]) c = fst (saveWithHealthState parse wr g s (run_saves parse ws c))"
  by (induction ws arbitrary: c) auto

lemma save_step:
  "fst (saveWithHealthState parse wr g s c) =
   (if (case pcLast c of Some l \<Rightarrow> g \<le> l | None \<Rightarrow> False) then c
    else case validatePoolCacheFile parse (prepared s) of
        Inl e \<Rightarrow> c
      | Inr f \<Rightarrow> (case wr of WriteDone \<Rightarrow> c\<lparr>pcLast := Some g, pcFile := Some f\<rparr>
                         | WriteFailed \<Rightarrow> c | WriteUnsynced \<Rightarrow> c\<lparr>pcFile := Some f\<rparr>))"
  by (simp add: saveWithHealthState_def prepared_def Let_def split: sum.split write_outcome.split)


section \<open>A restart keeps the pool\<close>

definition terminal_in :: "(string \<Rightarrow> node_stats option) \<Rightarrow> proxy \<Rightarrow> bool" where
  "terminal_in stats px \<longleftrightarrow> (case stats (px_key px) of Some st \<Rightarrow> nsTerminal st | None \<Rightarrow> False)"

lemma key_notin: "px_key px \<notin> px_key ` set ps \<Longrightarrow> q \<in> set ps \<Longrightarrow> px_key q \<noteq> px_key px"
  by (metis image_eqI)

lemma key_not_dropped:
  assumes "distinct (map px_key ps)" "px \<in> set ps" "\<not> P px"
  shows "px_key px \<notin> px_key ` set (filter P ps)"
proof -
  have "inj_on px_key (set ps)" using assms(1) by (simp add: distinct_map)
  then have "px_key px \<in> px_key ` set (filter P ps) \<longleftrightarrow> px \<in> set (filter P ps)"
    by (rule inj_on_image_mem_iff) (use assms(2) in auto)
  with assms(3) show ?thesis by simp
qed

lemma filter_terminal_eq:
  "distinct (map px_key ps) \<Longrightarrow>
   filter_terminal ps stats =
     (filter (\<lambda>px. \<not> terminal_in stats px) ps, drop_stats (terminal_in stats) ps stats)"
proof (induction ps arbitrary: stats)
  case Nil
  then show ?case by (simp add: drop_stats_def)
next
  case (Cons px ps)
  show ?case
  proof (cases "terminal_in stats px")
    case True
    have same: "terminal_in (stats(px_key px := None)) q = terminal_in stats q" if "q \<in> set ps" for q
      using key_notin [OF _ that, of px] Cons.prems by (simp add: terminal_in_def)
    then have f: "filter (\<lambda>q. \<not> terminal_in (stats(px_key px := None)) q) ps = filter (\<lambda>q. \<not> terminal_in stats q) ps"
      "filter (terminal_in (stats(px_key px := None))) ps = filter (terminal_in stats) ps"
      by (auto intro: filter_cong)
    have "filter_terminal (px # ps) stats = filter_terminal ps (stats(px_key px := None))"
      using True by (simp add: terminal_in_def)
    also have "\<dots> = (filter (\<lambda>q. \<not> terminal_in stats q) ps, drop_stats (terminal_in stats) ps (stats(px_key px := None)))"
      using Cons by (simp add: f drop_stats_def del: set_filter)
    finally show ?thesis using True
      by (auto simp: drop_stats_def fun_eq_iff simp del: set_filter)
  next
    case False
    with Cons show ?thesis by (simp add: terminal_in_def [symmetric] drop_stats_def)
  qed
qed

lemma normalize_cached_key [simp]: "px_key (normalize_cached pending stats px) = px_key px"
  by (simp add: normalize_cached_def)

lemma normalize_flags:
  "normalizeProxy (px\<lparr>pxHealthInvalidated := a, pxPolicyExcluded := b, pxAvailable := c\<rparr>) =
   map_option (\<lambda>q. q\<lparr>pxHealthInvalidated := a, pxPolicyExcluded := b, pxAvailable := c\<rparr>) (normalizeProxy px)"
  by (simp add: normalizeProxy_def Let_def split: option.split)

lemma normalize_cached_normal:
  "normalizeProxy px = Some px \<Longrightarrow>
   normalizeProxy (normalize_cached pending stats px) = Some (normalize_cached pending stats px)"
  by (simp add: normalize_cached_def normalize_flags)

lemma cacheable_flags [simp]:
  "cacheable info (px\<lparr>pxHealthInvalidated := a, pxPolicyExcluded := b, pxAvailable := c\<rparr>) = cacheable info px"
  by (simp add: cacheable_def validateCachedProxy_def validateFetchedProxyFields_def Let_def)

lemma normalize_cached_cacheable [simp]:
  "cacheable info (normalize_cached pending stats px) = cacheable info px"
  by (simp add: normalize_cached_def)

lemma card_Diff_le: "finite F \<Longrightarrow> card (A - F) \<le> card A"
  by (cases "finite A") (simp_all add: card_mono)

lemma valid_stats_drop: "valid_stats m \<Longrightarrow> valid_stats (drop_stats P ps m)"
proof -
  assume v: "valid_stats m"
  have "dom (drop_stats P ps m) = dom m - px_key ` set (filter P ps)"
    by (auto simp: drop_stats_def dom_def)
  then have "card (dom (drop_stats P ps m)) \<le> card (dom m)" by (simp add: card_Diff_le)
  with v show ?thesis by (auto simp: valid_stats_def drop_stats_def)
qed

lemma list_all2_normal: "list_all (\<lambda>px. normalizeProxy px = Some px) ps \<Longrightarrow> list_all2 (\<lambda>p q. normalizeProxy p = Some q) ps ps"
  by (induction ps) auto

lemma list_all2_normalD:
  "list_all2 (\<lambda>p q. normalizeProxy p = Some q) ps qs \<Longrightarrow> list_all (\<lambda>px. normalizeProxy px = Some px) ps \<Longrightarrow> qs = ps"
  by (induction ps qs rule: list_all2_induct) auto

lemma validate_self:
  assumes "valid_head parse f" "length (cfProxies f) + length (cfInfo f) \<le> maxPoolCacheNodes" "valid_stats (cfStats f)"
    and "list_all (\<lambda>px. normalizeProxy px = Some px) (cfProxies f)" "list_all (\<lambda>px. normalizeProxy px = Some px) (cfInfo f)"
    and "list_all (cacheable False) (cfProxies f)" "list_all (cacheable True) (cfInfo f)"
    and "distinct (map px_key (cfProxies f @ cfInfo f))"
  shows "validatePoolCacheFile parse f = Inr f"
  unfolding validate_file_iff
  using assms(1-3,6-8) list_all2_normal [OF assms(4)] list_all2_normal [OF assms(5)]
  by (intro conjI exI [of _ "cfProxies f"] exI [of _ "cfInfo f"]) simp_all

text \<open>The nodes a restart keeps: public ones without a terminal failure.\<close>

definition kept_nodes :: "pool \<Rightarrow> proxy list" where
  "kept_nodes p = filter (\<lambda>px. \<not> drop_cached False px \<and> \<not> terminal_in (plStats p) px) (plProxies p)"

definition pool_normal :: "pool \<Rightarrow> bool" where
  "pool_normal p \<longleftrightarrow> list_all (\<lambda>px. normalizeProxy px = Some px) (plProxies p @ plInfo p)"

lemma repair_saved:
  assumes "validatePoolCacheFile parse (prepared (snd (cacheSnapshotLocked p))) = Inr f" "pool_normal p"
  shows "\<exists>f'. repair_loaded f = f' \<and> validatePoolCacheFile parse f' = Inr f' \<and>
    cfProxies f' = map (normalize_cached (plRecheckPending p) (plStats p)) (kept_nodes p) \<and>
    cfInfo f' = filter (\<lambda>px. \<not> drop_cached True px) (plInfo p) \<and>
    (\<forall>px\<in>set (kept_nodes p). cfStats f' (px_key px) = plStats p (px_key px)) \<and>
    cfCheckURL f' = trim_space (plHealthURL p) \<and> cfHealthPolicy f' = plPolicyFP p \<and> cfPending f' = plRecheckPending p"
proof -
  have f: "f = prepared (snd (cacheSnapshotLocked p))" and v: "valid_head parse f" "valid_stats (plStats p)"
    "length (plProxies p) + length (plInfo p) \<le> maxPoolCacheNodes"
    "list_all (cacheable False) (plProxies p)" "list_all (cacheable True) (plInfo p)"
    "distinct (map px_key (plProxies p @ plInfo p))"
    using assms by (auto simp: validate_file_iff prepared_def cacheSnapshotLocked_def pool_normal_def valid_head_def
        dest!: list_all2_normalD)
  let ?ps = "filter (\<lambda>px. \<not> drop_cached False px) (plProxies p)"
  let ?infos = "filter (\<lambda>px. \<not> drop_cached True px) (plInfo p)"
  define st where "st = drop_stats (drop_cached True) (plInfo p) (drop_stats (drop_cached False) (plProxies p) (plStats p))"
  let ?n = "normalize_cached (plRecheckPending p) st"
  have st_eq: "st (px_key px) = plStats p (px_key px)" if "px \<in> set ?ps" for px
  proof -
    have px: "px \<in> set (plProxies p)" "\<not> drop_cached False px" using that by simp_all
    have k: "distinct (map px_key (plProxies p))" "px_key ` set (plProxies p) \<inter> px_key ` set (plInfo p) = {}"
      using v(6) by auto
    have "px_key px \<notin> px_key ` set (filter (drop_cached False) (plProxies p))"
      by (rule key_not_dropped [where P = "drop_cached False", OF k(1) px])
    moreover have "px_key px \<notin> px_key ` set (plInfo p)" using k(2) px(1) by blast
    then have "px_key px \<notin> px_key ` set (filter (drop_cached True) (plInfo p))" by auto
    ultimately show ?thesis by (simp add: st_def drop_stats_def del: set_filter)
  qed
  have d: "distinct (map px_key (map ?n ?ps))" using v(6) by (simp add: comp_def distinct_map_filter)
  have trm: "terminal_in st (?n px) = terminal_in (plStats p) px" if "px \<in> set ?ps" for px
    using st_eq [OF that] by (simp add: terminal_in_def)
  have nn: "?n px = normalize_cached (plRecheckPending p) (plStats p) px" if "px \<in> set ?ps" for px
    using st_eq [OF that] by (simp add: normalize_cached_def)
  have ps: "filter (\<lambda>px. \<not> terminal_in st px) (map ?n ?ps) =
      map (normalize_cached (plRecheckPending p) (plStats p)) (kept_nodes p)"
  proof -
    have "filter (\<lambda>px. \<not> terminal_in st px) (map ?n ?ps) = map ?n (filter (\<lambda>px. \<not> terminal_in (plStats p) px) ?ps)"
      using trm by (auto simp: filter_map comp_def intro!: filter_cong arg_cong [where f = "map _"])
    also have "filter (\<lambda>px. \<not> terminal_in (plStats p) px) ?ps = kept_nodes p"
      by (simp add: kept_nodes_def conj_commute)
    also have "map ?n (kept_nodes p) = map (normalize_cached (plRecheckPending p) (plStats p)) (kept_nodes p)"
      using nn by (auto simp: kept_nodes_def)
    finally show ?thesis .
  qed
  let ?f' = "f\<lparr>cfProxies := map (normalize_cached (plRecheckPending p) (plStats p)) (kept_nodes p), cfInfo := ?infos,
      cfStats := drop_stats (terminal_in st) (map ?n ?ps) st\<rparr>"
  have r: "repair_loaded f = ?f'"
    by (simp add: repair_loaded_def filterTerminalFailedPoolCacheNodes_def normalizeCompletedCachedHealthState_def
        filterNonPublicPoolCacheNodes_def f prepared_def cacheSnapshotLocked_def Let_def st_def [symmetric]
        filter_terminal_eq [OF d] ps)
  have "validatePoolCacheFile parse ?f' = Inr ?f'"
  proof -
    have "distinct (map px_key (cfProxies ?f' @ cfInfo ?f'))"
      using v(6) by (auto simp: kept_nodes_def comp_def distinct_map_filter)
    moreover have "valid_stats (cfStats ?f')" using v(2) by (simp add: st_def valid_stats_drop)
    moreover have "length (cfProxies ?f') + length (cfInfo ?f') \<le> maxPoolCacheNodes"
      using v(3) by (simp add: kept_nodes_def) (meson add_mono le_trans length_filter_le)
    moreover have "list_all (\<lambda>px. normalizeProxy px = Some px) (cfProxies ?f')"
        "list_all (\<lambda>px. normalizeProxy px = Some px) (cfInfo ?f')"
      using assms(2) by (auto simp: pool_normal_def kept_nodes_def list_all_iff intro: normalize_cached_normal)
    moreover have "list_all (cacheable False) (cfProxies ?f')" "list_all (cacheable True) (cfInfo ?f')"
      using v(4,5) by (auto simp: kept_nodes_def list_all_iff)
    moreover have "valid_head parse ?f'" using v(1) by (simp add: valid_head_def)
    ultimately show ?thesis by (intro validate_self)
  qed
  moreover have "cfStats ?f' (px_key px) = plStats p (px_key px)" if "px \<in> set (kept_nodes p)" for px
  proof -
    have px: "px \<in> set ?ps" "\<not> terminal_in (plStats p) px" using that by (auto simp: kept_nodes_def)
    have "\<not> terminal_in st q" if "px_key q = px_key px" for q
      using px(2) st_eq [OF px(1)] that by (simp add: terminal_in_def)
    then have "px_key px \<notin> px_key ` set (filter (terminal_in st) (map ?n ?ps))" by force
    with st_eq [OF px(1)] show ?thesis by (simp add: drop_stats_def del: set_filter)
  qed
  ultimately show ?thesis unfolding r
    by (intro exI [of _ ?f']) (simp add: f prepared_def cacheSnapshotLocked_def)
qed

text \<open>The pool of main.go before the cache is read.\<close>

definition fresh_pool :: "string \<Rightarrow> string \<Rightarrow> bool \<Rightarrow> pool" where
  "fresh_pool url baseline required =
     fst (SetRequireIPChangePolicy baseline required (SetHealthCriterion url NewProxyPool))"

lemma fresh_pool_fields [simp]:
  "plProxies (fresh_pool url b r) = []" "plStats (fresh_pool url b r) = Map.empty"
  "plPolicyFP (fresh_pool url b r) = healthPolicyFingerprint b r" "pool_ok (fresh_pool url b r)"
  by (simp_all add: fresh_pool_def SetRequireIPChangePolicy_def SetHealthCriterion_def NewProxyPool_def Let_def
      pool_ok_def index_ok_def)

lemma primed_ok:
  assumes "distinct (map px_key ps)" "\<forall>px\<in>set ps. proxy_sound stats px" "plStats p = Map.empty"
  shows "pool_ok (restoreStats stats (Prime start ps infos p))"
proof -
  have "index_ok (restoreStats stats (Prime start ps infos p))"
    using rebuild_index_ok [of "p\<lparr>plProxies := ps\<rparr>"]
    by (simp add: restoreStats_def Prime_def Let_def index_ok_def rebuildProxyIndexLocked_def)
  moreover have "plProxies (restoreStats stats (Prime start ps infos p)) = ps"
    "plStats (restoreStats stats (Prime start ps infos p)) = stats"
    using assms(3) by (simp_all add: restoreStats_def Prime_def Let_def rebuildProxyIndexLocked_def)
  ultimately show ?thesis using assms(1,2) by (simp add: pool_ok_def)
qed

lemma normalize_cached_sound:
  assumes "proxy_sound stats px" "\<not> terminal_in stats px"
  shows "proxy_sound stats (normalize_cached pending stats px)"
  using assms by (auto simp: proxy_sound_def normalize_cached_def terminal_in_def proxyHardRoutable_def split: option.splits)

lemma InvalidateHealth_keys [simp]: "map px_key (plProxies (fst (InvalidateHealth url p))) = map px_key (plProxies p)"
  by (simp add: InvalidateHealth_def Let_def split: option.split)

lemma pool_ok_SetCache [simp]: "pool_ok (SetCache c p) = pool_ok p" "plProxies (SetCache c p) = plProxies p"
  by (auto simp: SetCache_def Let_def cancelScheduledPersistenceLocked_def)


section \<open>Witnesses\<close>

lemma live_normal_text:
  "trim_space ''a.example'' = ''a.example''" "trim_space ''b.example'' = ''b.example''" "trim_space ''80'' = ''80''"
  "parse_ip ''b.example'' = None"
  "to_lower (trim_suffix ''.'' ''a.example'') = ''a.example''" "to_lower (trim_suffix ''.'' ''b.example'') = ''b.example''"
  "\<not> looksLikeIPv4Literal ''b.example''" "validProxyHostname ''b.example''" "isForwardingProtocol ''http''"
  by code_simp+

lemma live_normal:
  "normalizeProxy (live_node ''a.example'') = Some (live_node ''a.example'')"
  "normalizeProxy (live_node ''b.example'') = Some (live_node ''b.example'')"
  by (simp_all add: normalizeProxy_def live_node_def sample_node_def proxy0_def sample_text live_normal_text live_text
      live_port sample_port(2) Let_def)

lemma live_cacheable: "length h \<le> 512 \<Longrightarrow> cacheable False (live_node h)"
  by (simp add: cacheable_def live_node_def sample_node_def proxy0_def live_normal_text validateCachedProxy_def
      validateFetchedProxyFields_def maxConfiguredSources_def maxCredentialAlternates_def hasLogControlCharacters_def
      maxSourceAddressBytes_def)

lemma live_saved:
  "validatePoolCacheFile parse (prepared (snd (cacheSnapshotLocked live_pool))) =
   Inr (prepared (snd (cacheSnapshotLocked live_pool)))"
proof (rule validate_self)
  have f: "cfProxies (prepared (snd (cacheSnapshotLocked live_pool))) = [live_node ''a.example'', live_node ''b.example'']"
      "cfInfo (prepared (snd (cacheSnapshotLocked live_pool))) = []"
      "cfStats (prepared (snd (cacheSnapshotLocked live_pool))) = Map.empty"
    by (simp_all add: prepared_def cacheSnapshotLocked_def live_nodes)
      (simp_all add: live_pool_def rebuildProxyIndexLocked_def NewProxyPool_def)
  let ?f = "prepared (snd (cacheSnapshotLocked live_pool))"
  show "valid_head parse ?f"
    by (simp add: valid_head_def prepared_def cacheSnapshotLocked_def live_pool_def rebuildProxyIndexLocked_def NewProxyPool_def)
      code_simp
  show "length (cfProxies ?f) + length (cfInfo ?f) \<le> maxPoolCacheNodes" by (simp add: f maxPoolCacheNodes_def)
  show "valid_stats (cfStats ?f)" by (simp add: f valid_stats_def)
  show "list_all (\<lambda>px. normalizeProxy px = Some px) (cfProxies ?f)" "list_all (\<lambda>px. normalizeProxy px = Some px) (cfInfo ?f)"
    by (simp_all add: f live_normal)
  show "list_all (cacheable False) (cfProxies ?f)" "list_all (cacheable True) (cfInfo ?f)"
    by (simp_all add: f live_cacheable)
  show "distinct (map px_key (cfProxies ?f @ cfInfo ?f))" by (simp add: f live_keys)
qed


lemma live_trim_Nil: "trim_space [] = []"
  by code_simp


end
