(* ===== verification/PoolUpdate.thy ===== *)
theory PoolUpdate
  imports PoolCache "HOL-Library.Multiset" "HOL-Library.Product_Lexorder"
begin

text \<open>
  The refresh of the pool, pool.go \<open>update\<close>: one critical section that merges the nodes of a
  health-check cycle, drops the ones that failed, fences the ones the policy rejected, sorts
  and re-indexes, and hands a snapshot to the cache writer; and the promotion of one
  speed-tested candidate.

  A Go map that is built and then sorted is an association list here; the keys of the maps
  \<open>failedAddrs\<close> and \<open>policyFiltered\<close> are lists, whose order the result does not depend on.
\<close>

section \<open>Merging\<close>

definition mergeFreshProxy :: "proxy \<Rightarrow> proxy \<Rightarrow> proxy" where
  "mergeFreshProxy existing fresh =
     (let f1 = fresh\<lparr>pxSpeedKbps := pxSpeedKbps existing, pxSpeedTestedAt := pxSpeedTestedAt existing,
                     pxSpeedBytes := pxSpeedBytes existing, pxSpeedDurationMs := pxSpeedDurationMs existing\<rparr>;
          f2 = (if pxUsername f1 = [] then f1\<lparr>pxUsername := pxUsername existing, pxPassword := pxPassword existing\<rparr> else f1);
          f3 = (if pxExitIP f2 = [] then f2\<lparr>pxExitIP := pxExitIP existing, pxIPChanged := pxIPChanged existing,
                                             pxIPChangeKnown := pxIPChangeKnown existing\<rparr> else f2);
          f4 = (if pxCountry f3 = [] then f3\<lparr>pxCountry := pxCountry existing\<rparr> else f3);
          f5 = (if pxCity f4 = [] then f4\<lparr>pxCity := pxCity existing\<rparr> else f4)
      in if pxContinent f5 = [] then f5\<lparr>pxContinent := pxContinent existing\<rparr> else f5)"

definition admit :: "proxy \<Rightarrow> proxy" where
  "admit px = px\<lparr>pxAvailable := True, pxSourceRetired := False, pxHealthInvalidated := False, pxPolicyExcluded := False\<rparr>"

definition policy_fence :: "proxy \<Rightarrow> proxy" where
  "policy_fence px = px\<lparr>pxHealthInvalidated := False, pxPolicyExcluded := True, pxAvailable := False\<rparr>"

definition confirm_stats :: "int \<Rightarrow> node_stats \<Rightarrow> node_stats" where
  "confirm_stats now st = st\<lparr>nsHealthFailures := 0, nsLastSuccess := Some now\<rparr>"

text \<open>The loop over the fresh forwarding nodes; the last component are the fresh keys.\<close>

fun merge_fresh ::
    "int \<Rightarrow> proxy list \<Rightarrow> (string \<times> proxy) list \<Rightarrow> (string \<Rightarrow> node_stats option) \<Rightarrow> string list \<Rightarrow>
     (string \<times> proxy) list \<times> (string \<Rightarrow> node_stats option) \<times> string list" where
  "merge_fresh now [] merged stats fresh = (merged, stats, fresh)"
| "merge_fresh now (px # pxs) merged stats fresh =
     (let key = px_key px in
      if (case stats key of Some st \<Rightarrow> nsTerminal st | None \<Rightarrow> False) then merge_fresh now pxs merged stats fresh
      else
        let px' = (case map_of merged key of None \<Rightarrow> px | Some existing \<Rightarrow> mergeFreshProxy existing px);
            st = (case stats key of Some st \<Rightarrow> st | None \<Rightarrow> stats0)
        in merge_fresh now pxs (aput key px' merged) (stats(key \<mapsto> confirm_stats now st)) (key # fresh))"

text \<open>The loop over the failed keys; the last component counts the nodes dropped.\<close>

fun drop_failed ::
    "string list \<Rightarrow> string list \<Rightarrow> (string \<times> proxy) list \<Rightarrow> (string \<Rightarrow> node_stats option) \<Rightarrow> nat \<Rightarrow>
     (string \<times> proxy) list \<times> (string \<Rightarrow> node_stats option) \<times> nat" where
  "drop_failed fresh [] merged stats n = (merged, stats, n)"
| "drop_failed fresh (key # keys) merged stats n =
     (if key \<in> set fresh \<or> map_of merged key = None then drop_failed fresh keys merged stats n
      else drop_failed fresh keys (filter (\<lambda>e. fst e \<noteq> key) merged) (stats(key := None)) (n + 1))"

fun fence_policy :: "string list \<Rightarrow> (string \<times> proxy) list \<Rightarrow> (string \<times> proxy) list" where
  "fence_policy [] merged = merged"
| "fence_policy (key # keys) merged =
     (case map_of merged key of
        None \<Rightarrow> fence_policy keys merged
      | Some existing \<Rightarrow> fence_policy keys (aput key (policy_fence existing) merged))"

fun merge_info :: "proxy list \<Rightarrow> (string \<times> proxy) list \<Rightarrow> (string \<times> proxy) list" where
  "merge_info [] merged = merged"
| "merge_info (px # pxs) merged =
     (let px' = (case map_of merged (px_key px) of None \<Rightarrow> px | Some existing \<Rightarrow> mergeFreshProxy existing px)
      in merge_info pxs (aput (px_key px) px' merged))"

definition by_key :: "proxy list \<Rightarrow> (string \<times> proxy) list" where
  "by_key ps = foldl (\<lambda>m px. aput (px_key px) px m) [] ps"

definition sort_nodes :: "proxy list \<Rightarrow> proxy list" where
  "sort_nodes ps = sort_key (\<lambda>px. (px_addr px, pxProtocol px)) ps"

definition cleanedGroupState :: "(string \<Rightarrow> bool) \<Rightarrow> (string \<Rightarrow> cursor option) \<Rightarrow> string \<Rightarrow> cursor option" where
  "cleanedGroupState live current name =
     (case current name of
        None \<Rightarrow> None
      | Some gc \<Rightarrow>
          let gc1 = (if gcSticky gc \<noteq> [] \<and> \<not> live (gcSticky gc) then gc\<lparr>gcSticky := [], gcPinned := False\<rparr> else gc);
              gc2 = (if gcLast gc1 \<noteq> [] \<and> \<not> live (gcLast gc1) then gc1\<lparr>gcLast := []\<rparr> else gc1)
          in if gcSticky gc2 \<noteq> [] \<or> gcLast gc2 \<noteq> [] then Some gc2 else None)"

section \<open>The refresh\<close>

text \<open>
  The critical section in two parts: the merged, sorted, re-indexed and retired pool with the
  number of nodes dropped, and the clean-up of cursors with the revisions and the generation.
\<close>

definition refresh_merge ::
    "int \<Rightarrow> proxy list \<Rightarrow> string list \<Rightarrow> string list \<Rightarrow> source list option \<Rightarrow> pool \<Rightarrow> pool \<times> nat" where
  "refresh_merge now freshlyAlive failedAddrs policyFiltered sources p =
     (let freshInfo = filter (\<lambda>px. pxProtocol px = ''proxyip'') freshlyAlive;
          freshFwd = map admit (filter (\<lambda>px. pxProtocol px \<noteq> ''proxyip'') freshlyAlive);
          (m1, stats1, fresh) = merge_fresh now freshFwd (by_key (plProxies p)) (plStats p) [];
          (m2, stats2, failed) = drop_failed fresh failedAddrs m1 stats1 0;
          m3 = fence_policy policyFiltered m2;
          info = sort_key px_addr (map snd (merge_info freshInfo (by_key (plInfo p))));
          p1 = rebuildProxyIndexLocked (p\<lparr>plProxies := sort_nodes (map snd m3), plStats := stats2\<rparr>);
          p2 = p1\<lparr>plInfo := info\<rparr>
      in (case sources of None \<Rightarrow> p2
          | Some ss \<Rightarrow> (let (ids, names) = enabledSourceSets ss in fst (applyEnabledSourcesLocked ids names p2)),
          failed))"

definition refresh_publish :: "nat \<Rightarrow> pool \<Rightarrow> pool" where
  "refresh_publish failed p =
     (let live = (\<lambda>k. k \<in> px_key ` set (plProxies p));
          p1 = (if 0 < failed
                then p\<lparr>plGroups := cleanedGroupState live (plGroups p),
                       plRecheckCursor := (if plRecheckCursor p \<noteq> [] \<and> \<not> live (plRecheckCursor p) then []
                                           else plRecheckCursor p),
                       plStatsRev := plStatsRev p + 1\<rparr>
                else p)
      in cancelScheduledPersistenceLocked
           (p1\<lparr>plRoutingRev := plRoutingRev p1 + 1, plCacheGen := plCacheGen p1 + 1\<rparr>))"

text \<open>
  \<open>sources\<close> and \<open>expected\<close> are the optional arguments. The last component is what the cache
  writer saves after the lock is released.
\<close>

definition update ::
    "int \<Rightarrow> proxy list \<Rightarrow> string list \<Rightarrow> string list \<Rightarrow> source list option \<Rightarrow> u64 option \<Rightarrow> pool \<Rightarrow>
     pool \<times> bool \<times> (nat \<times> nat \<times> cache_file) option" where
  "update now freshlyAlive failedAddrs policyFiltered sources expected p =
     (if (case expected of Some g \<Rightarrow> plHealthGen p \<noteq> g | None \<Rightarrow> False) then (p, False, None)
      else
        let (p1, failed) = refresh_merge now freshlyAlive failedAddrs policyFiltered sources p;
            p2 = refresh_publish failed p1
        in (p2, True, map_option (\<lambda>c. (c, cacheSnapshotLocked p2)) (plCache p2)))"

definition PromoteCandidateSpeed ::
    "int \<Rightarrow> int \<Rightarrow> proxy \<Rightarrow> source list \<Rightarrow> u64 \<Rightarrow> rat \<Rightarrow> int \<Rightarrow> int \<Rightarrow> pool \<Rightarrow> pool \<times> bool" where
  "PromoteCandidateSpeed now unix px sources expected kbps bytes dur p =
     (let (ids, names) = enabledSourceSets sources in
      if \<not> proxySourcesEnabled ids names px then (p, False)
      else if plHealthGen p \<noteq> expected then (p, False)
      else
        let px1 = admit px;
            key = px_key px1;
            p1 = (case proxyIndexLookupLocked key p of
                    Some i \<Rightarrow> set_proxy i (mergeFreshProxy (plProxies p ! i) px1) p
                  | None \<Rightarrow> rebuildProxyIndexLocked (p\<lparr>plProxies := sort_nodes (plProxies p @ [px1])\<rparr>))
        in case proxyIndexLookupLocked key p1 of
             None \<Rightarrow> (p1, False)
           | Some i \<Rightarrow>
               let p2 = set_proxy i (speed_update kbps unix bytes dur (plProxies p1 ! i)) p1;
                   st = statsForKeyLocked key p2;
                   p3 = set_stats key (st\<lparr>nsHealthFailures := 0, nsTerminal := False, nsLastSuccess := Some now\<rparr>) p2
               in (queuePersistenceLocked (p3\<lparr>plRoutingRev := plRoutingRev p3 + 1\<rparr>), True))"

section \<open>The maps behind the refresh\<close>

text \<open>A keyed table: one entry per key, each node under its own key.\<close>

definition keyed :: "(string \<times> proxy) list \<Rightarrow> bool" where
  "keyed m \<longleftrightarrow> distinct (map fst m) \<and> (\<forall>e\<in>set m. px_key (snd e) = fst e)"

lemma set_aputD: "e \<in> set (aput k v m) \<Longrightarrow> e = (k, v) \<or> e \<in> set m"
  by (induction k v m rule: aput.induct) (auto split: if_splits)

lemma keyed_aput: "keyed m \<Longrightarrow> px_key px = k \<Longrightarrow> keyed (aput k px m)"
  by (auto simp: keyed_def distinct_aput dest!: set_aputD)

lemma keyed_filter: "keyed m \<Longrightarrow> keyed (filter P m)"
  by (auto simp: keyed_def distinct_map_filter)

lemma keyed_map_of: "keyed m \<Longrightarrow> map_of m k = Some px \<Longrightarrow> px_key px = k"
  by (auto simp: keyed_def dest!: map_of_SomeD)

lemma keyed_keys: "keyed m \<Longrightarrow> map px_key (map snd m) = map fst m"
  by (auto simp: keyed_def)

lemma keyed_distinct: "keyed m \<Longrightarrow> distinct (map px_key (map snd m))"
  by (metis keyed_keys keyed_def)

lemma find_snd: "keyed m \<Longrightarrow> find (\<lambda>px. px_key px = k) (map snd m) = map_of m k"
  by (induction m) (auto simp: keyed_def)

lemma find_unique:
  assumes "distinct (map f xs)" "x \<in> set xs" "f x = k"
  shows "find (\<lambda>y. f y = k) xs = Some x"
  using assms by (induction xs) auto

lemma find_perm:
  assumes "mset xs = mset ys" "distinct (map f xs)"
  shows "find (\<lambda>y. f y = k) xs = find (\<lambda>y. f y = k) ys"
proof (cases "find (\<lambda>y. f y = k) ys")
  case None
  then have "find (\<lambda>y. f y = k) xs = None" using mset_eq_setD [OF assms(1)] by (simp add: find_None_iff)
  with None show ?thesis by simp
next
  case (Some y)
  then have "y \<in> set xs" "f y = k" using mset_eq_setD [OF assms(1)] by (auto dest: find_SomeD)
  then show ?thesis using Some find_unique [OF assms(2)] by simp
qed

lemma mset_sort_nodes [simp]: "mset (sort_nodes ps) = mset ps"
  by (simp add: sort_nodes_def)

lemma set_sort_nodes [simp]: "set (sort_nodes ps) = set ps"
  by (simp add: sort_nodes_def)

lemma distinct_sort_nodes: "distinct (map px_key (sort_nodes ps)) = distinct (map px_key ps)"
  by (metis mset_map mset_eq_imp_distinct_iff mset_sort_nodes)

lemma find_sort_nodes:
  "distinct (map px_key ps) \<Longrightarrow> find (\<lambda>px. px_key px = k) (sort_nodes ps) = find (\<lambda>px. px_key px = k) ps"
  by (rule find_perm) (simp_all add: distinct_sort_nodes)

lemma foldl_aput_keyed: "keyed m \<Longrightarrow> keyed (foldl (\<lambda>m px. aput (px_key px) px m) m ps)"
  by (induction ps arbitrary: m) (simp_all add: keyed_aput)

lemma keyed_by_key [simp]: "keyed (by_key ps)"
  unfolding by_key_def by (rule foldl_aput_keyed) (simp add: keyed_def)

lemma map_of_by_key:
  "distinct (map px_key ps) \<Longrightarrow> map_of (by_key ps) k = find (\<lambda>px. px_key px = k) ps"
proof -
  have "distinct (map px_key ps) \<Longrightarrow>
      map_of (foldl (\<lambda>m px. aput (px_key px) px m) m ps) k =
      (case find (\<lambda>px. px_key px = k) ps of Some px \<Rightarrow> Some px | None \<Rightarrow> map_of m k)" for m
  proof (induction ps arbitrary: m)
    case (Cons px ps)
    have "find (\<lambda>q. px_key q = k) ps = None" if "px_key px = k"
      by (rule find_key_tail [OF Cons.prems that])
    with Cons show ?case by (auto split: option.split)
  qed simp
  then show "distinct (map px_key ps) \<Longrightarrow> ?thesis" by (simp add: by_key_def split: option.split)
qed

lemma mergeFreshProxy_fields [simp]:
  "px_key (mergeFreshProxy e f) = px_key f" "pxAvailable (mergeFreshProxy e f) = pxAvailable f"
  "proxyHardRoutable (mergeFreshProxy e f) = proxyHardRoutable f"
  "pxSpeedKbps (mergeFreshProxy e f) = pxSpeedKbps e"
  by (simp_all add: mergeFreshProxy_def Let_def proxyHardRoutable_def)

lemma admit_fields [simp]:
  "px_key (admit px) = px_key px" "pxAvailable (admit px)" "proxyHardRoutable (admit px)"
  by (simp_all add: admit_def proxyHardRoutable_def)

lemma policy_fence_fields [simp]:
  "px_key (policy_fence px) = px_key px" "\<not> pxAvailable (policy_fence px)" "\<not> proxyHardRoutable (policy_fence px)"
  "policy_fence (policy_fence px) = policy_fence px"
  by (simp_all add: policy_fence_def proxyHardRoutable_def)

definition terminal_stats :: "(string \<Rightarrow> node_stats option) \<Rightarrow> string \<Rightarrow> bool" where
  "terminal_stats s k \<longleftrightarrow> (case s k of Some st \<Rightarrow> nsTerminal st | None \<Rightarrow> False)"

text \<open>What one refresh does to each key, when the fresh keys are distinct.\<close>

lemma merge_fresh_spec:
  assumes "merge_fresh now pxs m s fr = (m', s', fr')" "distinct (map px_key pxs)"
  shows "map_of m' k =
      (case find (\<lambda>px. px_key px = k) pxs of
         Some px \<Rightarrow> if terminal_stats s k then map_of m k
                    else Some (case map_of m k of None \<Rightarrow> px | Some e \<Rightarrow> mergeFreshProxy e px)
       | None \<Rightarrow> map_of m k) \<and>
    (k \<in> set fr' \<longleftrightarrow> k \<in> set fr \<or> k \<in> px_key ` set pxs \<and> \<not> terminal_stats s k) \<and>
    terminal_stats s' k = terminal_stats s k \<and>
    (k \<notin> px_key ` set pxs \<longrightarrow> s' k = s k) \<and> (keyed m \<longrightarrow> keyed m')"
  using assms
proof (induction now pxs m s fr rule: merge_fresh.induct)
  case (2 now px pxs m s fr)
  let ?k = "px_key px"
  have d: "distinct (map px_key pxs)" "?k \<notin> px_key ` set pxs" using 2(4) by simp_all
  have nf: "find (\<lambda>q. px_key q = ?k) pxs = None" by (rule find_key_tail [OF 2(4) refl])
  show ?case
  proof (cases "terminal_stats s ?k")
    case True
    then have "merge_fresh now pxs m s fr = (m', s', fr')" using 2(3) by (simp add: terminal_stats_def)
    with 2(1) True d nf show ?thesis by (auto simp: terminal_stats_def split: option.splits)
  next
    case False
    let ?st = "case s ?k of Some st \<Rightarrow> st | None \<Rightarrow> stats0"
    let ?px = "case map_of m ?k of None \<Rightarrow> px | Some e \<Rightarrow> mergeFreshProxy e px"
    have ts: "terminal_stats (s(?k \<mapsto> confirm_stats now ?st)) = terminal_stats s"
      using False by (auto simp: terminal_stats_def confirm_stats_def stats0_def fun_eq_iff split: option.splits)
    have r: "merge_fresh now pxs (aput ?k ?px m) (s(?k \<mapsto> confirm_stats now ?st)) (?k # fr) = (m', s', fr')"
      using 2(3) False by (simp add: terminal_stats_def Let_def)
    have k: "px_key ?px = ?k" by (simp split: option.split)
    have IH: "map_of m' k = (case find (\<lambda>q. px_key q = k) pxs of
         Some q \<Rightarrow> if terminal_stats s k then map_of (aput ?k ?px m) k
                    else Some (case map_of (aput ?k ?px m) k of None \<Rightarrow> q | Some e \<Rightarrow> mergeFreshProxy e q)
       | None \<Rightarrow> map_of (aput ?k ?px m) k)"
      "k \<in> set fr' \<longleftrightarrow> k \<in> set (?k # fr) \<or> k \<in> px_key ` set pxs \<and> \<not> terminal_stats s k"
      "terminal_stats s' k = terminal_stats s k"
      "k \<notin> px_key ` set pxs \<longrightarrow> s' k = (s(?k \<mapsto> confirm_stats now ?st)) k"
      "keyed (aput ?k ?px m) \<longrightarrow> keyed m'"
      using 2(2) [OF refl False [unfolded terminal_stats_def] refl refl r d(1)] unfolding ts by blast+
    show ?thesis
    proof (cases "k = ?k")
      case True
      then show ?thesis using IH nf False keyed_aput [OF _ k, of m]
        by (auto split: option.splits)
    next
      case neq: False
      then show ?thesis using IH keyed_aput [OF _ k, of m] by (auto split: option.splits)
    qed
  qed
qed auto

lemma drop_failed_spec:
  assumes "drop_failed fr keys m s n = (m', s', n')"
  shows "map_of m' k = (if k \<in> set keys \<and> k \<notin> set fr then None else map_of m k) \<and>
    s' k = (if k \<in> set keys \<and> k \<notin> set fr \<and> map_of m k \<noteq> None then None else s k) \<and>
    (keyed m \<longrightarrow> keyed m') \<and> n \<le> n' \<and> (n' = n \<longrightarrow> m' = m \<and> s' = s)"
  using assms
proof (induction fr keys m s n rule: drop_failed.induct)
  case (2 fr key keys m s n)
  have f: "map_of (filter (\<lambda>e. fst e \<noteq> key) m) k = (if k = key then None else map_of m k)" for k
    by (induction m) auto
  show ?case
  proof (cases "key \<in> set fr \<or> map_of m key = None")
    case True
    with 2 show ?thesis by auto
  next
    case False
    then have r: "drop_failed fr keys (filter (\<lambda>e. fst e \<noteq> key) m) (s(key := None)) (n + 1) = (m', s', n')"
      using 2(3) by auto
    note IH = 2(2) [OF False r]
    have "n < n'" using IH by simp
    moreover have "keyed m \<longrightarrow> keyed m'" using IH keyed_filter by blast
    moreover have "map_of m' k = (if k \<in> set (key # keys) \<and> k \<notin> set fr then None else map_of m k)"
      using IH False f [of k] by (cases "k = key") simp_all
    moreover have "s' k = (if k \<in> set (key # keys) \<and> k \<notin> set fr \<and> map_of m k \<noteq> None then None else s k)"
      using IH False f [of k] by (cases "k = key") auto
    ultimately show ?thesis by simp
  qed
qed auto

lemma fence_policy_spec:
  "map_of (fence_policy keys m) k =
     (if k \<in> set keys then map_option policy_fence (map_of m k) else map_of m k) \<and>
   (keyed m \<longrightarrow> keyed (fence_policy keys m))"
proof (induction keys m rule: fence_policy.induct)
  case (2 key keys m)
  show ?case
  proof (cases "map_of m key")
    case None
    with 2(1) show ?thesis by auto
  next
    case (Some e)
    have "keyed m \<Longrightarrow> keyed (aput key (policy_fence e) m)"
      using keyed_map_of [OF _ Some] by (intro keyed_aput) simp_all
    with 2(2) [OF Some] Some show ?thesis by (cases "k = key") auto
  qed
qed simp

section \<open>The refresh, key by key\<close>

definition fresh_nodes :: "proxy list \<Rightarrow> proxy list" where
  "fresh_nodes ps = map admit (filter (\<lambda>px. pxProtocol px \<noteq> ''proxyip'') ps)"

text \<open>What the refresh makes of the node under a key, before sources are applied.\<close>

definition refreshed :: "proxy list \<Rightarrow> string list \<Rightarrow> string list \<Rightarrow> pool \<Rightarrow> string \<Rightarrow> proxy option" where
  "refreshed freshlyAlive failedAddrs policyFiltered p k =
     (let old = find (\<lambda>px. px_key px = k) (plProxies p);
          base = (case find (\<lambda>px. px_key px = k) (fresh_nodes freshlyAlive) of
                    Some px \<Rightarrow> if terminal_stats (plStats p) k then (if k \<in> set failedAddrs then None else old)
                               else Some (case old of None \<Rightarrow> px | Some e \<Rightarrow> mergeFreshProxy e px)
                  | None \<Rightarrow> if k \<in> set failedAddrs then None else old)
      in if k \<in> set policyFiltered then map_option policy_fence base else base)"

definition retire_with :: "source list option \<Rightarrow> proxy \<Rightarrow> proxy" where
  "retire_with sources px =
     (case sources of None \<Rightarrow> px | Some ss \<Rightarrow> (let (ids, names) = enabledSourceSets ss in retire_proxy ids names px))"

lemma retire_with_key [simp]: "px_key (retire_with sources px) = px_key px"
  by (simp add: retire_with_def split: option.split prod.split)

lemma retire_with_eq:
  "retire_with None = (\<lambda>px. px)"
  "retire_with (Some ss) = retire_proxy (fst (enabledSourceSets ss)) (snd (enabledSourceSets ss))"
  by (simp_all add: retire_with_def fun_eq_iff split_beta)

lemma refresh_publish_fields:
  "plProxies (refresh_publish n p) = plProxies p" "plStats (refresh_publish n p) = plStats p"
  "plIndex (refresh_publish n p) = plIndex p"
  by (simp_all add: refresh_publish_def cancelScheduledPersistenceLocked_def Let_def)

text \<open>The nodes of the result, and the statistics, as the loops leave them.\<close>

lemma update_result:
  assumes "update now freshlyAlive failedAddrs policyFiltered sources expected p = (q, True, w)"
    and "distinct (map px_key (fresh_nodes freshlyAlive))" "distinct (map px_key (plProxies p))"
  shows "\<exists>m s. plProxies q = map (retire_with sources) (sort_nodes (map snd m)) \<and> plStats q = s \<and> index_ok q \<and>
    keyed m \<and>
    (\<forall>k. map_of m k = refreshed freshlyAlive failedAddrs policyFiltered p k) \<and>
    (\<forall>k. terminal_stats s k \<longrightarrow> terminal_stats (plStats p) k) \<and>
    (\<forall>k. k \<in> set failedAddrs \<and> map_of m k = None \<and> find (\<lambda>px. px_key px = k) (plProxies p) \<noteq> None \<longrightarrow> s k = None)"
proof -
  let ?ff = "fresh_nodes freshlyAlive"
  obtain m1 s1 fr where 1: "merge_fresh now ?ff (by_key (plProxies p)) (plStats p) [] = (m1, s1, fr)"
    by (cases "merge_fresh now ?ff (by_key (plProxies p)) (plStats p) []") auto
  obtain m2 s2 n where 2: "drop_failed fr failedAddrs m1 s1 0 = (m2, s2, n)"
    by (cases "drop_failed fr failedAddrs m1 s1 0") auto
  define m3 where "m3 = fence_policy policyFiltered m2"
  note M = merge_fresh_spec [OF 1 assms(2)]
  note D = drop_failed_spec [OF 2]
  have k1: "keyed m1" using M by simp
  have k2: "keyed m2" using D k1 by blast
  have k3: "keyed m3" using fence_policy_spec k2 by (simp add: m3_def)
  have look: "map_of m3 k = refreshed freshlyAlive failedAddrs policyFiltered p k" for k
  proof -
    let ?old = "find (\<lambda>px. px_key px = k) (plProxies p)"
    have fr: "k \<in> set fr \<longleftrightarrow> k \<in> px_key ` set ?ff \<and> \<not> terminal_stats (plStats p) k" using M [of k] by simp
    have mem: "k \<in> px_key ` set ?ff \<longleftrightarrow> find (\<lambda>px. px_key px = k) ?ff \<noteq> None"
      by (auto simp: find_None_iff)
    have "map_of m1 k = (case find (\<lambda>px. px_key px = k) ?ff of
         Some px \<Rightarrow> if terminal_stats (plStats p) k then ?old
                    else Some (case ?old of None \<Rightarrow> px | Some e \<Rightarrow> mergeFreshProxy e px)
       | None \<Rightarrow> ?old)"
      using M [of k, unfolded map_of_by_key [OF assms(3)]] by blast
    moreover have "map_of m2 k = (if k \<in> set failedAddrs \<and> k \<notin> set fr then None else map_of m1 k)"
      using D [of k] by simp
    ultimately have "map_of m2 k = (case find (\<lambda>px. px_key px = k) ?ff of
         Some px \<Rightarrow> if terminal_stats (plStats p) k then (if k \<in> set failedAddrs then None else ?old)
                    else Some (case ?old of None \<Rightarrow> px | Some e \<Rightarrow> mergeFreshProxy e px)
       | None \<Rightarrow> if k \<in> set failedAddrs then None else ?old)"
      unfolding fr mem by (auto split: option.split)
    then show ?thesis
      using fence_policy_spec [of policyFiltered m2 k] by (simp add: m3_def refreshed_def Let_def)
  qed
  have ts: "terminal_stats s2 k \<longrightarrow> terminal_stats (plStats p) k" for k
    using M [of k] D [of k] by (auto simp: terminal_stats_def split: if_splits)
  have gone: "s2 k = None" if "k \<in> set failedAddrs" "map_of m3 k = None" "find (\<lambda>px. px_key px = k) (plProxies p) \<noteq> None" for k
  proof -
    have "map_of m2 k = None" using that(2) fence_policy_spec [of policyFiltered m2 k]
      by (auto simp: m3_def split: if_splits)
    moreover have "map_of m1 k \<noteq> None"
      using M [of k, unfolded map_of_by_key [OF assms(3)]] that(3) by (auto split: option.splits if_splits)
    ultimately show ?thesis using D [of k] that(1) by (auto split: if_splits)
  qed
  obtain q1 where q1: "refresh_merge now freshlyAlive failedAddrs policyFiltered sources p = (q1, n)"
      "plProxies q1 = map (retire_with sources) (sort_nodes (map snd m3))" "plStats q1 = s2"
      "plIndex q1 = build_index (sort_nodes (map snd m3))"
    by (cases sources; simp add: refresh_merge_def Let_def fresh_nodes_def [symmetric] 1 2 m3_def [symmetric]
        applyEnabledSourcesLocked_def retire_with_eq rebuildProxyIndexLocked_def split_beta)
  have "q = refresh_publish n q1"
    using assms(1) by (auto simp: update_def q1(1) Let_def split: if_splits)
  then have n3: "plProxies q = map (retire_with sources) (sort_nodes (map snd m3))" "plStats q = s2"
      "plIndex q = build_index (sort_nodes (map snd m3))"
    by (simp_all add: q1 refresh_publish_fields)
  have "map px_key (plProxies q) = map px_key (sort_nodes (map snd m3))" by (simp add: n3 comp_def)
  then have ix3: "index_ok q" using key_index_map by (metis index_ok_def n3(3) build_index_eq)
  show ?thesis using n3 ix3 k3 look ts gone
    by (intro exI [of _ m3] exI [of _ s2]) simp
qed

text \<open>
  C14: A refresh does to each node what its result says. If the fresh keys are distinct and
  the generation is current, then for every key: a node checked successfully is admitted or
  merged with its old record unless its failure is terminal, a node that failed is gone with
  its statistics, every other node stays exactly as it was, a node rejected by the policy is
  fenced whatever else is said of it, and nodes of disabled sources are retired.
\<close>

theorem update_refreshes:
  assumes "update now freshlyAlive failedAddrs policyFiltered sources expected p = (q, True, w)"
    and "distinct (map px_key (fresh_nodes freshlyAlive))" "pool_ok p"
  shows "Find k q = map_option (retire_with sources) (refreshed freshlyAlive failedAddrs policyFiltered p k) \<and>
    (k \<in> set failedAddrs \<and> Find k p \<noteq> None \<and> Find k q = None \<longrightarrow> plStats q k = None)"
proof -
  have d: "distinct (map px_key (plProxies p))" and ix: "index_ok p" using assms(3) by (simp_all add: pool_ok_def)
  obtain m where m: "plProxies q = map (retire_with sources) (sort_nodes (map snd m))" "index_ok q" "keyed m"
    "map_of m k = refreshed freshlyAlive failedAddrs policyFiltered p k"
    "k \<in> set failedAddrs \<and> map_of m k = None \<and> find (\<lambda>px. px_key px = k) (plProxies p) \<noteq> None \<longrightarrow> plStats q k = None"
    using update_result [OF assms(1,2) d] by blast
  have fm: "find P (map f xs) = map_option f (find (P \<circ> f) xs)" for P and f :: "proxy \<Rightarrow> proxy" and xs
    by (induction xs) auto
  have "distinct (map px_key (map snd m))" by (rule keyed_distinct [OF m(3)])
  then have "Find k q = map_option (retire_with sources) (map_of m k)"
    using m(1-3) find_snd [OF m(3), of k] by (simp add: Find_eq fm comp_def find_sort_nodes)
  with m(4,5) show ?thesis by (simp add: Find_eq [OF ix])
qed

section \<open>The refresh keeps the invariant\<close>

definition table_sound :: "(string \<times> proxy) list \<Rightarrow> (string \<Rightarrow> node_stats option) \<Rightarrow> bool" where
  "table_sound m s \<longleftrightarrow> keyed m \<and> (\<forall>px\<in>snd ` set m. proxy_sound s px)"

lemma table_sound_aput:
  assumes "table_sound m s" "px_key px = k" "proxy_sound s' px" "\<And>j. j \<noteq> k \<Longrightarrow> s' j = s j"
  shows "table_sound (aput k px m) s'"
proof -
  have other: "fst e \<noteq> k" if "e \<in> set (aput k px m)" "e \<noteq> (k, px)" for e
  proof
    assume "fst e = k"
    moreover have "distinct (map fst (aput k px m))"
      using assms(1) by (simp add: table_sound_def keyed_def distinct_aput)
    moreover have "map_of (aput k px m) k = Some px" by simp
    moreover have "map_of (aput k px m) (fst e) = Some (snd e)"
      using calculation(2) that(1) by (intro map_of_is_SomeI) simp_all
    ultimately have "snd e = px" by simp
    with \<open>fst e = k\<close> that(2) show False by (cases e) simp
  qed
  have "proxy_sound s' (snd e)" if "e \<in> set (aput k px m)" for e
  proof (cases "e = (k, px)")
    case False
    have e: "e \<in> set m" "fst e \<noteq> k" using set_aputD [OF that] other [OF that False] False by simp_all
    then have "px_key (snd e) = fst e" "proxy_sound s (snd e)"
      using assms(1) by (auto simp: table_sound_def keyed_def)
    then show ?thesis using assms(4) e(2) by (simp add: proxy_sound_def)
  qed (use assms(3) in simp)
  then show ?thesis using assms(1,2) by (simp add: table_sound_def keyed_aput)
qed

lemma merge_fresh_sound:
  "merge_fresh now pxs m s fr = (m', s', fr') \<Longrightarrow> table_sound m s \<Longrightarrow>
   \<forall>px\<in>set pxs. pxAvailable px \<and> proxyHardRoutable px \<Longrightarrow> table_sound m' s'"
proof (induction now pxs m s fr rule: merge_fresh.induct)
  case (2 now px pxs m s fr)
  let ?k = "px_key px"
  show ?case
  proof (cases "terminal_stats s ?k")
    case True
    with 2 show ?thesis by (simp add: terminal_stats_def)
  next
    case False
    let ?st = "case s ?k of Some st \<Rightarrow> st | None \<Rightarrow> stats0"
    let ?px = "case map_of m ?k of None \<Rightarrow> px | Some e \<Rightarrow> mergeFreshProxy e px"
    have r: "merge_fresh now pxs (aput ?k ?px m) (s(?k \<mapsto> confirm_stats now ?st)) (?k # fr) = (m', s', fr')"
      using 2(3) False by (simp add: terminal_stats_def Let_def)
    have "px_key ?px = ?k" "proxyHardRoutable ?px" using 2(5) by (simp_all split: option.split)
    moreover have "\<not> nsTerminal (confirm_stats now ?st)"
      using False by (auto simp: terminal_stats_def confirm_stats_def stats0_def split: option.splits)
    ultimately have "table_sound (aput ?k ?px m) (s(?k \<mapsto> confirm_stats now ?st))"
      by (intro table_sound_aput [OF 2(4)]) (simp_all add: proxy_sound_def)
    moreover have "\<forall>px\<in>set pxs. pxAvailable px \<and> proxyHardRoutable px" using 2(5) by simp
    ultimately show ?thesis
      using 2(2) [OF refl False [unfolded terminal_stats_def] refl refl r] by blast
  qed
qed simp

lemma drop_failed_sound:
  "drop_failed fr keys m s n = (m', s', n') \<Longrightarrow> table_sound m s \<Longrightarrow> table_sound m' s'"
proof (induction fr keys m s n rule: drop_failed.induct)
  case (2 fr key keys m s n)
  have "proxy_sound (s(key := None)) (snd e)" if "e \<in> set m" "fst e \<noteq> key" for e
  proof -
    have "px_key (snd e) = fst e" "proxy_sound s (snd e)" using 2(4) that by (auto simp: table_sound_def keyed_def)
    then have "px_key (snd e) \<noteq> key" "proxy_sound s (snd e)" using that by simp_all
    then show ?thesis by (simp add: proxy_sound_def)
  qed
  then have sound: "table_sound (filter (\<lambda>e. fst e \<noteq> key) m) (s(key := None))"
    using 2(4) by (auto simp: table_sound_def keyed_filter)
  show ?case
  proof (cases "key \<in> set fr \<or> map_of m key = None")
    case False
    then have "drop_failed fr keys (filter (\<lambda>e. fst e \<noteq> key) m) (s(key := None)) (n + 1) = (m', s', n')"
      using 2(3) by auto
    from 2(2) [OF False this sound] show ?thesis .
  qed (use 2 in auto)
qed simp

lemma fence_policy_sound: "table_sound m s \<Longrightarrow> table_sound (fence_policy keys m) s"
proof (induction keys m rule: fence_policy.induct)
  case (2 key keys m)
  show ?case
  proof (cases "map_of m key")
    case (Some e)
    have "px_key e = key" using 2(3) Some keyed_map_of by (auto simp: table_sound_def)
    then have "table_sound (aput key (policy_fence e) m) s"
      by (intro table_sound_aput [OF 2(3)]) (simp_all add: proxy_sound_def split: option.split)
    with 2(2) [OF Some] Some show ?thesis by simp
  qed (use 2 in simp)
qed simp

lemma table_sound_pool:
  assumes "table_sound m (plStats p)" "plProxies p = sort_nodes (map snd m)" "index_ok p"
  shows "pool_ok p"
  using assms keyed_distinct [of m] by (auto simp: pool_ok_def table_sound_def distinct_sort_nodes simp del: map_map)

lemma by_key_sound: "\<forall>px\<in>set ps. proxy_sound s px \<Longrightarrow> table_sound (by_key ps) s"
proof -
  have "e \<in> set (foldl (\<lambda>m px. aput (px_key px) px m) m ps) \<Longrightarrow> e \<in> set m \<or> snd e \<in> set ps" for e m
  proof (induction ps arbitrary: m)
    case (Cons px ps)
    then have "e \<in> set (aput (px_key px) px m) \<or> snd e \<in> set ps" by simp
    then show ?case by (auto dest: set_aputD)
  qed simp
  then have "e \<in> set (by_key ps) \<Longrightarrow> snd e \<in> set ps" for e
    unfolding by_key_def by fastforce
  then show "\<forall>px\<in>set ps. proxy_sound s px \<Longrightarrow> ?thesis" by (auto simp: table_sound_def)
qed

lemma update_ok [intro]:
  assumes "pool_ok p"
  shows "pool_ok (fst (update now freshlyAlive failedAddrs policyFiltered sources expected p))"
proof (cases "case expected of Some g \<Rightarrow> plHealthGen p \<noteq> g | None \<Rightarrow> False")
  case True
  then show ?thesis using assms by (simp add: update_def)
next
  case False
  let ?ff = "fresh_nodes freshlyAlive"
  obtain m1 s1 fr where 1: "merge_fresh now ?ff (by_key (plProxies p)) (plStats p) [] = (m1, s1, fr)"
    by (cases "merge_fresh now ?ff (by_key (plProxies p)) (plStats p) []") auto
  obtain m2 s2 n where 2: "drop_failed fr failedAddrs m1 s1 0 = (m2, s2, n)"
    by (cases "drop_failed fr failedAddrs m1 s1 0") auto
  define m3 where "m3 = fence_policy policyFiltered m2"
  have "table_sound m3 s2" unfolding m3_def
    using assms by (intro fence_policy_sound drop_failed_sound [OF 2] merge_fresh_sound [OF 1] by_key_sound)
      (auto simp: pool_ok_def fresh_nodes_def)
  then have p1: "pool_ok (rebuildProxyIndexLocked (p\<lparr>plProxies := sort_nodes (map snd m3), plStats := s2\<rparr>))"
    by (intro table_sound_pool) (simp_all, simp_all add: rebuildProxyIndexLocked_def)
  obtain q1 where q1: "refresh_merge now freshlyAlive failedAddrs policyFiltered sources p = (q1, n)" "pool_ok q1"
    using p1 by (cases sources; simp add: refresh_merge_def Let_def fresh_nodes_def [symmetric] 1 2
        m3_def [symmetric] split_beta applyEnabled_ok)
  have "pool_ok (refresh_publish n q1)"
    using q1(2) pool_ok_cong [OF refresh_publish_fields(1,3,2)] by simp
  then show ?thesis using False by (simp add: update_def q1(1) Let_def)
qed

section \<open>Promotion keeps the invariant\<close>

lemma clear_terminal_ok:
  "pool_ok p \<Longrightarrow> \<not> nsTerminal st \<Longrightarrow> pool_ok (set_stats k st p)"
  by (auto simp: pool_ok_def index_ok_def proxy_sound_def split: option.splits)

lemma insert_node_ok:
  assumes "pool_ok p" "key_index (px_key px) (plProxies p) = None" "proxy_sound (plStats p) px"
  shows "pool_ok (rebuildProxyIndexLocked (p\<lparr>plProxies := sort_nodes (plProxies p @ [px])\<rparr>))"
proof -
  have "distinct (map px_key (plProxies p @ [px]))"
    using assms(1,2) by (auto simp: pool_ok_def find_index_None)
  then have "distinct (map px_key (sort_nodes (plProxies p @ [px])))" by (simp only: distinct_sort_nodes)
  then show ?thesis using assms
    by (auto simp: pool_ok_def) (auto simp: rebuildProxyIndexLocked_def)
qed

lemma speed_fields [simp]:
  "proxyHardRoutable (speed_update k a b d px) = proxyHardRoutable px"
  "pxAvailable (speed_update k a b d px) = pxAvailable px"
  by (simp_all add: speed_update_def proxyHardRoutable_def)

lemma key_index_at:
  "distinct (map px_key ps) \<Longrightarrow> i < length ps \<Longrightarrow> key_index (px_key (ps ! i)) ps = Some i"
  by (auto simp: find_index_Some distinct_conv_nth)

text \<open>Both branches of the promotion, with the speed sample, at the place of the node.\<close>

lemma promote_shape:
  assumes "pool_ok p" "proxySourcesEnabled (fst (enabledSourceSets ss)) (snd (enabledSourceSets ss)) px" "plHealthGen p = g"
  shows "\<exists>q i. PromoteCandidateSpeed now unix px ss g kbps bytes dur p = (queuePersistenceLocked q, True) \<and>
    pool_ok q \<and> i < length (plProxies q) \<and> px_key (plProxies q ! i) = px_key px \<and>
    pxAvailable (plProxies q ! i) \<and> pxSpeedKbps (plProxies q ! i) = kbps"
proof -
  let ?k = "px_key px" and ?px1 = "admit px"
  define st where "st = (statsForKeyLocked ?k p)\<lparr>nsHealthFailures := 0, nsTerminal := False, nsLastSuccess := Some now\<rparr>"
  let ?p' = "set_stats ?k st p"
  have ok': "pool_ok ?p'" using assms(1) by (rule clear_terminal_ok) (simp add: st_def)
  have ix: "index_ok p" and d: "distinct (map px_key (plProxies p))" using assms(1) by (simp_all add: pool_ok_def)
  let ?f = "speed_update kbps unix bytes dur"
  have "\<exists>p1 i. (case proxyIndexLookupLocked ?k p of
        Some i \<Rightarrow> set_proxy i (mergeFreshProxy (plProxies p ! i) ?px1) p
      | None \<Rightarrow> rebuildProxyIndexLocked (p\<lparr>plProxies := sort_nodes (plProxies p @ [?px1])\<rparr>)) = p1 \<and>
      pool_ok (set_stats ?k st p1) \<and> plStats p1 = plStats p \<and>
      key_index ?k (plProxies p1) = Some i \<and> proxyHardRoutable (plProxies p1 ! i) \<and> pxAvailable (plProxies p1 ! i)"
  proof (cases "key_index ?k (plProxies p)")
    case (Some i)
    note i = find_index_SomeD [OF Some]
    let ?px = "mergeFreshProxy (plProxies p ! i) ?px1"
    have "pool_ok (set_stats ?k st (set_proxy i ?px p))"
      by (rule pool_ok_replace [OF ok', of ?k i ?px _ "Some st"])
        (use Some in \<open>simp_all add: st_def set_proxy_def set_stats_def\<close>)
    moreover have "map px_key (plProxies (set_proxy i ?px p)) = map px_key (plProxies p)"
      using i by (simp add: set_proxy_def map_update list_update_same_conv)
    then have "key_index ?k (plProxies (set_proxy i ?px p)) = Some i" using key_index_map Some by metis
    ultimately show ?thesis using Some i
      by (intro exI [of _ "set_proxy i ?px p"] exI [of _ i]) (simp add: lookup_index_ok [OF ix] set_proxy_def)
  next
    case None
    let ?p1 = "rebuildProxyIndexLocked (p\<lparr>plProxies := sort_nodes (plProxies p @ [?px1])\<rparr>)"
    have "pool_ok (rebuildProxyIndexLocked (?p'\<lparr>plProxies := sort_nodes (plProxies ?p' @ [?px1])\<rparr>))"
      by (rule insert_node_ok [OF ok']) (use None in \<open>simp_all add: proxy_sound_def st_def\<close>)
    then have ok1: "pool_ok (set_stats ?k st ?p1)"
      by (subst pool_ok_cong [where q = "rebuildProxyIndexLocked (?p'\<lparr>plProxies := sort_nodes (plProxies ?p' @ [?px1])\<rparr>)"])
        (simp_all add: rebuildProxyIndexLocked_def set_stats_def)
    have "?px1 \<in> set (plProxies ?p1)" by (simp add: rebuildProxyIndexLocked_def)
    then obtain i where i: "i < length (plProxies ?p1)" "plProxies ?p1 ! i = ?px1" by (auto simp: in_set_conv_nth)
    have "distinct (map px_key (plProxies ?p1))" using ok1 by (simp add: pool_ok_def)
    from key_index_at [OF this i(1)] have "key_index ?k (plProxies ?p1) = Some i" by (simp add: i(2))
    with None ok1 i show ?thesis
      by (intro exI [of _ ?p1] exI [of _ i]) (simp add: lookup_index_ok [OF ix] rebuildProxyIndexLocked_def)
  qed
  then obtain p1 i where p1: "(case proxyIndexLookupLocked ?k p of
        Some i \<Rightarrow> set_proxy i (mergeFreshProxy (plProxies p ! i) ?px1) p
      | None \<Rightarrow> rebuildProxyIndexLocked (p\<lparr>plProxies := sort_nodes (plProxies p @ [?px1])\<rparr>)) = p1"
      "pool_ok (set_stats ?k st p1)" "plStats p1 = plStats p"
      "key_index ?k (plProxies p1) = Some i" "proxyHardRoutable (plProxies p1 ! i)" "pxAvailable (plProxies p1 ! i)"
    by blast
  note i = find_index_SomeD [OF p1(4)]
  have ix1: "index_ok p1" using p1(2) by (simp add: pool_ok_def index_ok_def)
  let ?p2 = "set_proxy i (?f (plProxies p1 ! i)) p1"
  let ?q = "(set_stats ?k st ?p2)\<lparr>plRoutingRev := plRoutingRev ?p2 + 1\<rparr>"
  have "pool_ok ?q"
    by (rule pool_ok_replace [OF p1(2), of ?k i "?f (plProxies p1 ! i)" _ "Some st"])
      (use p1 i in \<open>simp_all add: st_def set_proxy_def set_stats_def\<close>)
  moreover have "statsForKeyLocked ?k ?p2 = statsForKeyLocked ?k p"
    using p1(3) by (simp add: statsForKeyLocked_def set_proxy_def)
  then have "PromoteCandidateSpeed now unix px ss g kbps bytes dur p = (queuePersistenceLocked ?q, True)"
    using assms(2,3) p1(4)
    by (simp add: PromoteCandidateSpeed_def Let_def split_beta p1(1) lookup_index_ok [OF ix1] st_def set_stats_def)
  ultimately show ?thesis using i p1(6)
    by (intro exI [of _ ?q] exI [of _ i]) (simp add: set_proxy_def speed_update_def)
qed

text \<open>
  A promoted candidate is admitted only under the current health generation and only
  while all of its sources are enabled; then the well-formed pool stays well formed and offers
  the node, with its sample, under its own key. Otherwise nothing changes.
\<close>

theorem PromoteCandidateSpeed_spec:
  assumes "pool_ok p"
  shows "if proxySourcesEnabled (fst (enabledSourceSets ss)) (snd (enabledSourceSets ss)) px \<and> plHealthGen p = g
    then \<exists>q node. PromoteCandidateSpeed now unix px ss g kbps bytes dur p = (q, True) \<and> pool_ok q \<and>
      node \<in> set (plProxies q) \<and> px_key node = px_key px \<and> pxAvailable node \<and> proxyHardRoutable node \<and>
      pxSpeedKbps node = kbps
    else PromoteCandidateSpeed now unix px ss g kbps bytes dur p = (p, False)"
proof (cases "proxySourcesEnabled (fst (enabledSourceSets ss)) (snd (enabledSourceSets ss)) px \<and> plHealthGen p = g")
  case True
  then obtain q i where q: "PromoteCandidateSpeed now unix px ss g kbps bytes dur p = (queuePersistenceLocked q, True)"
    "pool_ok q" "i < length (plProxies q)" "px_key (plProxies q ! i) = px_key px"
    "pxAvailable (plProxies q ! i)" "pxSpeedKbps (plProxies q ! i) = kbps"
    using promote_shape [OF assms] by blast
  then have "proxyHardRoutable (plProxies q ! i)"
    using nth_mem [OF q(3)] by (auto simp: pool_ok_def proxy_sound_def)
  with q show ?thesis unfolding if_P [OF True]
    by (intro exI [of _ "queuePersistenceLocked q"] exI [of _ "plProxies q ! i"] conjI) simp_all
next
  case False
  then show ?thesis by (auto simp: PromoteCandidateSpeed_def Let_def split_beta)
qed

lemma PromoteCandidateSpeed_ok [intro]:
  assumes "pool_ok p"
  shows "pool_ok (fst (PromoteCandidateSpeed now unix px ss g kbps bytes dur p))"
proof (cases "proxySourcesEnabled (fst (enabledSourceSets ss)) (snd (enabledSourceSets ss)) px \<and> plHealthGen p = g")
  case True
  then show ?thesis using promote_shape [OF assms, of ss px g now unix kbps bytes dur] by fastforce
next
  case False
  then show ?thesis using assms by (auto simp: PromoteCandidateSpeed_def Let_def split_beta)
qed

section \<open>Witnesses\<close>

definition refresh_example :: "pool \<times> bool \<times> (nat \<times> nat \<times> cache_file) option" where
  "refresh_example =
     update 50 [live_node ''b.example''] [px_key (live_node ''a.example'')] [] None None live_pool"

theorem update_refreshes_witness:
  "Find (px_key (live_node ''a.example'')) (fst refresh_example) = None \<and>
   plStats (fst refresh_example) (px_key (live_node ''a.example'')) = None"
proof -
  have run: "update 50 [live_node ''b.example''] [px_key (live_node ''a.example'')] [] None None live_pool =
      (fst refresh_example, True, snd (snd refresh_example))"
    by (simp add: refresh_example_def update_def Let_def split: prod.split)
  have d: "distinct (map px_key (fresh_nodes [live_node ''b.example'']))"
    by (simp add: fresh_nodes_def)
  have ix: "index_ok live_pool" using live_pool_ok by (simp add: pool_ok_def)
  have f: "Find (px_key (live_node ''a.example'')) live_pool \<noteq> None"
    by (simp add: Find_eq [OF ix] live_nodes live_keys)
  have r: "refreshed [live_node ''b.example''] [px_key (live_node ''a.example'')] [] live_pool
      (px_key (live_node ''a.example'')) = None"
    by (simp add: refreshed_def Let_def fresh_nodes_def live_keys split: option.split)
  from update_refreshes [OF run d live_pool_ok, of "px_key (live_node ''a.example'')"] f r show ?thesis by simp
qed

theorem PromoteCandidateSpeed_spec_witness:
  "\<exists>q node. PromoteCandidateSpeed 9 9 (live_node ''c.example'') [] 0 7 1 1 live_pool = (q, True) \<and>
     node \<in> set (plProxies q) \<and> pxAvailable node"
proof -
  have "proxySourcesEnabled (fst (enabledSourceSets [])) (snd (enabledSourceSets [])) (live_node ''c.example'')"
    by (simp add: proxySourcesEnabled_def owner_names_def live_node_def sample_node_def proxy0_def live_trim_Nil)
  moreover have "plHealthGen live_pool = 0"
    by (simp add: live_pool_def rebuildProxyIndexLocked_def NewProxyPool_def)
  ultimately show ?thesis
    using PromoteCandidateSpeed_spec [OF live_pool_ok, of "[]" "live_node ''c.example''" 0 9 9 7 1 1] by auto
qed

end
