(* ===== verification/PoolCommit.thy ===== *)
theory PoolCommit
  imports PoolUpdate
begin

text \<open>
  The transactions of pool.go that write the cache file before they change the live pool:
  ClearUnavailable, RemoveKeys and the commit of an exhaustive health cycle. Each builds a
  plan under the lock, writes it without the lock, and publishes it only if the pool has not
  moved on; it retries four times and repairs the files that abandoned attempts left behind.

  A world is the pool with all cache files. The other goroutines are a function of the world
  for each point where the lock is free; each write has an outcome given by the environment.
\<close>

record world =
  wPool :: pool
  wCaches :: "nat \<Rightarrow> pool_cache"

definition "maxPoolDeletePersistAttempts = (4 :: nat)"
definition "fullRecheckFailureRemovalThreshold = (3 :: nat)"

section \<open>Plans\<close>

record delete_plan =
  dpGen :: nat
  dpCache :: "nat option"
  dpProxies :: "proxy list"
  dpInfo :: "proxy list"
  dpStats :: "string \<Rightarrow> node_stats option"
  dpGroups :: "string \<Rightarrow> cursor option"
  dpURL :: string
  dpPolicy :: string
  dpPending :: bool
  dpRemoved :: "string list"
  dpNotFound :: "string list"

definition reserve_generation :: "pool \<Rightarrow> pool" where
  "reserve_generation p =
     (let p1 = cancelScheduledPersistenceLocked p in p1\<lparr>plCacheGen := plCacheGen p1 + 1\<rparr>)"

definition buildDeletePlanLocked :: "(proxy \<Rightarrow> bool) \<Rightarrow> string list \<Rightarrow> pool \<Rightarrow> pool \<times> delete_plan" where
  "buildDeletePlanLocked remove requested p =
     (let removed = map px_key (filter remove (plProxies p));
          proxies = filter (\<lambda>px. \<not> remove px) (plProxies p);
          notFound = filter (\<lambda>k. k \<notin> set removed) requested;
          plan0 = \<lparr>dpGen = 0, dpCache = plCache p, dpProxies = proxies, dpInfo = [], dpStats = Map.empty,
                   dpGroups = Map.empty, dpURL = [], dpPolicy = [], dpPending = False,
                   dpRemoved = removed, dpNotFound = notFound\<rparr>
      in if removed = [] then (p, plan0)
         else
           let live = (\<lambda>k. k \<in> px_key ` set proxies);
               plan = plan0\<lparr>dpStats := (\<lambda>k. if live k then plStats p k else None),
                            dpGroups := cleanedGroupState live (plGroups p), dpInfo := plInfo p,
                            dpURL := plHealthURL p, dpPolicy := plPolicyFP p, dpPending := plRecheckPending p\<rparr>
           in if plCache p = None then (p, plan)
              else let p1 = reserve_generation p in (p1, plan\<lparr>dpGen := plCacheGen p1\<rparr>))"

definition publishDeletePlanLocked :: "delete_plan \<Rightarrow> pool \<Rightarrow> pool" where
  "publishDeletePlanLocked plan p =
     (let p1 = rebuildProxyIndexLocked (p\<lparr>plProxies := dpProxies plan\<rparr>)
      in p1\<lparr>plStats := dpStats plan, plGroups := dpGroups plan, plRoutingRev := plRoutingRev p1 + 1,
            plStatsRev := plStatsRev p1 + 1\<rparr>)"

definition plan_snapshot :: "delete_plan \<Rightarrow> cache_file" where
  "plan_snapshot plan =
     \<lparr>cfProxies = dpProxies plan, cfInfo = dpInfo plan, cfStats = dpStats plan, cfCheckURL = dpURL plan,
      cfHealthPolicy = dpPolicy plan, cfPending = dpPending plan, cfAnonVersion = 0\<rparr>"

text \<open>
  Writing a plan. The validation normalises the nodes of the snapshot in place, and the
  snapshot shares its array with the plan.
\<close>

definition save_plan ::
    "(string \<Rightarrow> url option) \<Rightarrow> write_outcome \<Rightarrow> nat \<Rightarrow> delete_plan \<Rightarrow> world \<Rightarrow> world \<times> delete_plan \<times> cache_error option" where
  "save_plan parse wr cid plan w =
     (let c = wCaches w cid;
          (c', err) = saveWithHealthState parse wr (dpGen plan) (plan_snapshot plan) c;
          skipped = (case pcLast c of Some g \<Rightarrow> dpGen plan \<le> g | None \<Rightarrow> False);
          plan' = (if skipped then plan
                   else case validatePoolCacheFile parse (prepared (plan_snapshot plan)) of
                       Inl _ \<Rightarrow> plan | Inr f \<Rightarrow> plan\<lparr>dpProxies := cfProxies f\<rparr>)
      in (w\<lparr>wCaches := (wCaches w)(cid := c')\<rparr>, plan', err))"

definition requeuePersistenceAfterDeleteFailure :: "nat \<Rightarrow> pool \<Rightarrow> pool" where
  "requeuePersistenceAfterDeleteFailure generation p =
     (if plCacheGen p = generation then queuePersistenceLocked p else p)"

section \<open>Repairing the files\<close>

text \<open>The dirty caches in the order they are visited; \<open>k\<close> numbers the free points and the writes.\<close>

fun restoreLiveStateToCaches ::
    "(string \<Rightarrow> url option) \<Rightarrow> (nat \<Rightarrow> world \<Rightarrow> world) \<Rightarrow> (nat \<Rightarrow> write_outcome) \<Rightarrow> nat \<Rightarrow> nat list \<Rightarrow> world \<Rightarrow>
     world \<times> cache_error option" where
  "restoreLiveStateToCaches parse env wr k [] w = (w, None)"
| "restoreLiveStateToCaches parse env wr k (cid # cids) w =
     (let w1 = env k w;
          p = (wPool w1)\<lparr>plCacheGen := plCacheGen (wPool w1) + 1\<rparr>;
          w2 = env (k + 1) (w1\<lparr>wPool := p\<rparr>);
          (g, snap) = cacheSnapshotLocked p;
          (c', err) = saveWithHealthState parse (wr k) g snap (wCaches w2 cid);
          w3 = w2\<lparr>wCaches := (wCaches w2)(cid := c')\<rparr>
      in if err \<noteq> None then (w3, err) else restoreLiveStateToCaches parse env wr (k + 2) cids w3)"

section \<open>Deletions\<close>

datatype delete_result = DeleteDone "string list" "string list" | DeleteFailed

definition world_pool :: "(pool \<Rightarrow> pool) \<Rightarrow> world \<Rightarrow> world" where
  "world_pool f w = w\<lparr>wPool := f (wPool w)\<rparr>"

fun delete_attempts ::
    "(string \<Rightarrow> url option) \<Rightarrow> (nat \<Rightarrow> world \<Rightarrow> world) \<Rightarrow> (nat \<Rightarrow> write_outcome) \<Rightarrow> (proxy \<Rightarrow> bool) \<Rightarrow> string list \<Rightarrow>
     nat \<Rightarrow> nat \<Rightarrow> nat list \<Rightarrow> world \<Rightarrow> world \<times> delete_result" where
  "delete_attempts parse env wr remove requested 0 k dirty w =
     (fst (restoreLiveStateToCaches parse env wr k dirty w), DeleteFailed)"
| "delete_attempts parse env wr remove requested (Suc n) k dirty w =
     (let w0 = env k w;
          (p1, plan) = buildDeletePlanLocked remove requested (wPool w0);
          w1 = w0\<lparr>wPool := p1\<rparr>
      in if dpRemoved plan = [] then
           (case restoreLiveStateToCaches parse env wr (k + 1) dirty w1 of
              (w2, None) \<Rightarrow> (w2, DeleteDone [] (dpNotFound plan))
            | (w2, Some _) \<Rightarrow> (w2, DeleteFailed))
         else
           (case dpCache plan of
              None \<Rightarrow> (world_pool (publishDeletePlanLocked plan) w1, DeleteDone (dpRemoved plan) (dpNotFound plan))
            | Some cid \<Rightarrow>
                (let w2 = env (k + 1) w1;
                     (w3, plan', err) = save_plan parse (wr k) cid plan w2
                 in if err \<noteq> None
                    then (fst (restoreLiveStateToCaches parse env wr (k + 2) (List.insert cid dirty)
                                (world_pool (requeuePersistenceAfterDeleteFailure (dpGen plan)) w3)), DeleteFailed)
                    else
                      let w4 = env (k + 2) w3 in
                      if plCache (wPool w4) = dpCache plan \<and> plCacheGen (wPool w4) = dpGen plan
                      then (world_pool (publishDeletePlanLocked plan') w4,
                            DeleteDone (dpRemoved plan) (dpNotFound plan))
                      else delete_attempts parse env wr remove requested n (k + 3) (List.insert cid dirty) w4)))"

definition ClearUnavailable ::
    "(string \<Rightarrow> url option) \<Rightarrow> (nat \<Rightarrow> world \<Rightarrow> world) \<Rightarrow> (nat \<Rightarrow> write_outcome) \<Rightarrow> world \<Rightarrow> world \<times> delete_result" where
  "ClearUnavailable parse env wr w =
     delete_attempts parse env wr (\<lambda>px. \<not> pxAvailable px) [] maxPoolDeletePersistAttempts 0 [] w"

definition RemoveKeys ::
    "(string \<Rightarrow> url option) \<Rightarrow> (nat \<Rightarrow> world \<Rightarrow> world) \<Rightarrow> (nat \<Rightarrow> write_outcome) \<Rightarrow> string list \<Rightarrow> world \<Rightarrow>
     world \<times> delete_result" where
  "RemoveKeys parse env wr keys w =
     (if keys = [] then (w, DeleteDone [] [])
      else delete_attempts parse env wr (\<lambda>px. px_key px \<in> set keys) keys maxPoolDeletePersistAttempts 0 [] w)"

section \<open>Exhaustive health cycle\<close>

record full_observation =
  foKey :: string
  foVerified :: proxy
  foCredentials :: bool
  foReachable :: bool
  foAllowed :: bool
  foLatency :: int
  foExitIP :: string
  foCountry :: string
  foCity :: string
  foContinent :: string
  foIPChanged :: bool
  foIPChangeKnown :: bool

definition full_observe_proxy :: "full_observation \<Rightarrow> proxy \<Rightarrow> proxy" where
  "full_observe_proxy ob px0 =
     (let px1 = (if foCredentials ob
                 then px0\<lparr>pxUsername := pxUsername (foVerified ob), pxPassword := pxPassword (foVerified ob),
                          pxAlternates := pxAlternates (foVerified ob)\<rparr> else px0);
          px2 = (if foExitIP ob \<noteq> []
                 then (let q = px1\<lparr>pxExitIP := foExitIP ob, pxIPChanged := foIPChanged ob,
                                   pxIPChangeKnown := foIPChangeKnown ob\<rparr>
                       in if foCountry ob \<noteq> []
                          then q\<lparr>pxCountry := foCountry ob, pxCity := foCity ob, pxContinent := foContinent ob\<rparr> else q)
                 else px1)
      in if foReachable ob
         then px2\<lparr>pxHealthInvalidated := False, pxPolicyExcluded := \<not> foAllowed ob,
                  pxAvailable := foAllowed ob \<and> \<not> pxSourceRetired px2, pxLatencyMs := foLatency ob\<rparr>
         else px2\<lparr>pxHealthInvalidated := True, pxAvailable := False, pxPolicyExcluded := False\<rparr>)"

definition full_observe_stats :: "int \<Rightarrow> full_observation \<Rightarrow> node_stats \<Rightarrow> node_stats" where
  "full_observe_stats now ob st =
     (if foReachable ob
      then st\<lparr>nsHealthFailures := 0, nsFullFailures := 0, nsLastSuccess := Some now, nsTerminal := False,
              nsLastLatencyMs := (if 0 < foLatency ob then foLatency ob else nsLastLatencyMs st)\<rparr>
      else st\<lparr>nsHealthFailures := nsHealthFailures st + 1, nsFullFailures := nsFullFailures st + 1, nsTerminal := True\<rparr>)"

text \<open>The loop: nodes, statistics, keys seen and keys to remove, and the count of nodes observed.\<close>

fun full_observe ::
    "int \<Rightarrow> full_observation list \<Rightarrow> proxy list \<Rightarrow> (string \<Rightarrow> node_stats option) \<Rightarrow> string list \<Rightarrow> string list \<Rightarrow> nat \<Rightarrow>
     proxy list \<times> (string \<Rightarrow> node_stats option) \<times> string list \<times> nat" where
  "full_observe now [] ps stats seen remove n = (ps, stats, remove, n)"
| "full_observe now (ob # obs) ps stats seen remove n =
     (let key = foKey ob in
      if key \<in> set seen then full_observe now obs ps stats seen remove n
      else case key_index key ps of
          None \<Rightarrow> full_observe now obs ps stats seen remove n
        | Some i \<Rightarrow>
            let st = full_observe_stats now ob (case stats key of Some st \<Rightarrow> st | None \<Rightarrow> stats0);
                remove' = (if \<not> foReachable ob \<and> fullRecheckFailureRemovalThreshold \<le> nsFullFailures st
                           then key # remove else remove)
            in full_observe now obs (ps[i := full_observe_proxy ob (ps ! i)]) (stats(key \<mapsto> st))
                 (key # seen) remove' (n + 1))"

definition buildFullHealthCommitPlanLocked ::
    "int \<Rightarrow> full_observation list \<Rightarrow> pool \<Rightarrow> pool \<times> delete_plan \<times> nat" where
  "buildFullHealthCommitPlanLocked now obs p =
     (let (ps, stats, remove, observed) = full_observe now obs (plProxies p) (plStats p) [] [] 0;
          plan0 = \<lparr>dpGen = 0, dpCache = plCache p, dpProxies = ps, dpInfo = plInfo p, dpStats = stats,
                   dpGroups = plGroups p, dpURL = plHealthURL p, dpPolicy = plPolicyFP p,
                   dpPending = plRecheckPending p, dpRemoved = [], dpNotFound = []\<rparr>
      in if observed = 0 then (p, plan0, 0)
         else
           let gone = (\<lambda>px. px_key px \<in> set remove);
               kept = filter (\<lambda>px. \<not> gone px) ps;
               live = (\<lambda>k. k \<in> px_key ` set kept);
               plan1 = (if remove \<noteq> []
                        then plan0\<lparr>dpRemoved := map px_key (filter gone ps), dpProxies := kept,
                                   dpStats := (\<lambda>k. if k \<in> px_key ` set (filter gone ps) then None else stats k),
                                   dpGroups := cleanedGroupState live (plGroups p)\<rparr>
                        else plan0)
           in if plCache p = None then (p, plan1, observed)
              else let p1 = reserve_generation p in (p1, plan1\<lparr>dpGen := plCacheGen p1\<rparr>, observed))"

datatype commit_result = Applied nat "string list" | NotApplied | CommitFailed

text \<open>\<open>ctx k\<close> is whether the context is cancelled at the \<open>k\<close>-th test of it.\<close>

fun commit_attempts ::
    "(string \<Rightarrow> url option) \<Rightarrow> (nat \<Rightarrow> world \<Rightarrow> world) \<Rightarrow> (nat \<Rightarrow> write_outcome) \<Rightarrow> (nat \<Rightarrow> bool) \<Rightarrow> int \<Rightarrow>
     full_observation list \<Rightarrow> u64 \<Rightarrow> nat \<Rightarrow> nat \<Rightarrow> nat list \<Rightarrow> world \<Rightarrow> world \<times> commit_result" where
  "commit_attempts parse env wr ctx now obs hg 0 k dirty w =
     (fst (restoreLiveStateToCaches parse env wr k dirty w), CommitFailed)"
| "commit_attempts parse env wr ctx now obs hg (Suc n) k dirty w =
     (let stop = (\<lambda>k w. case restoreLiveStateToCaches parse env wr k dirty w of
                          (w', None) \<Rightarrow> (w', NotApplied) | (w', Some _) \<Rightarrow> (w', CommitFailed));
          w0 = env k w
      in if ctx k \<or> plHealthGen (wPool w0) \<noteq> hg then stop (k + 1) w0
         else
           let (p1, plan, observed) = buildFullHealthCommitPlanLocked now obs (wPool w0);
               w1 = w0\<lparr>wPool := p1\<rparr>
           in if observed = 0 then (w1, if ctx (k + 1) then NotApplied else Applied 0 [])
              else
                (case dpCache plan of
                   None \<Rightarrow>
                     if ctx (k + 1) then (w1, NotApplied)
                     else (world_pool (publishDeletePlanLocked plan) w1, Applied observed (dpRemoved plan))
                 | Some cid \<Rightarrow>
                     (let w2 = env (k + 1) w1 in
                      if ctx (k + 2)
                      then stop (k + 2) (world_pool (requeuePersistenceAfterDeleteFailure (dpGen plan)) w2)
                      else
                        let (w3, plan', err) = save_plan parse (wr k) cid plan w2;
                            dirty' = List.insert cid dirty
                        in if err \<noteq> None
                           then (fst (restoreLiveStateToCaches parse env wr (k + 2) dirty'
                                       (world_pool (requeuePersistenceAfterDeleteFailure (dpGen plan)) w3)), CommitFailed)
                           else
                             let w4 = env (k + 2) w3 in
                             if \<not> ctx (k + 3) \<and> plCache (wPool w4) = dpCache plan \<and>
                                plCacheGen (wPool w4) = dpGen plan \<and> plHealthGen (wPool w4) = hg
                             then (world_pool (publishDeletePlanLocked plan') w4, Applied observed (dpRemoved plan))
                             else if ctx (k + 3)
                             then (case restoreLiveStateToCaches parse env wr (k + 4) dirty' w4 of
                                     (w', None) \<Rightarrow> (w', NotApplied) | (w', Some _) \<Rightarrow> (w', CommitFailed))
                             else commit_attempts parse env wr ctx now obs hg n (k + 4) dirty' w4)))"

definition commitFullHealthRecheckContext ::
    "(string \<Rightarrow> url option) \<Rightarrow> (nat \<Rightarrow> world \<Rightarrow> world) \<Rightarrow> (nat \<Rightarrow> write_outcome) \<Rightarrow> (nat \<Rightarrow> bool) \<Rightarrow> int \<Rightarrow>
     full_observation list \<Rightarrow> u64 \<Rightarrow> world \<Rightarrow> world \<times> commit_result" where
  "commitFullHealthRecheckContext parse env wr ctx now obs hg w =
     commit_attempts parse env wr ctx now obs hg maxPoolDeletePersistAttempts 0 [] w"

section \<open>Plans are sound\<close>

definition plan_sound :: "delete_plan \<Rightarrow> bool" where
  "plan_sound plan \<longleftrightarrow> distinct (map px_key (dpProxies plan)) \<and>
     (\<forall>px\<in>set (dpProxies plan). proxy_sound (dpStats plan) px)"

lemma publish_fields [simp]:
  "plProxies (publishDeletePlanLocked plan p) = dpProxies plan" "plStats (publishDeletePlanLocked plan p) = dpStats plan"
  "plGroups (publishDeletePlanLocked plan p) = dpGroups plan" "plCacheGen (publishDeletePlanLocked plan p) = plCacheGen p"
  "plIndex (publishDeletePlanLocked plan p) = build_index (dpProxies plan)"
  "plHealthGen (publishDeletePlanLocked plan p) = plHealthGen p" "plInfo (publishDeletePlanLocked plan p) = plInfo p"
  by (simp_all add: publishDeletePlanLocked_def Let_def rebuildProxyIndexLocked_def)

lemma publish_ok: "plan_sound plan \<Longrightarrow> pool_ok (publishDeletePlanLocked plan p)"
  by (simp add: pool_ok_def plan_sound_def index_ok_def build_index_eq)

lemma reserve_fields [simp]:
  "plProxies (reserve_generation p) = plProxies p" "plStats (reserve_generation p) = plStats p"
  "plGroups (reserve_generation p) = plGroups p" "plIndex (reserve_generation p) = plIndex p"
  "plInfo (reserve_generation p) = plInfo p" "plCache (reserve_generation p) = plCache p"
  "plCacheGen (reserve_generation p) = Suc (plCacheGen p)" "plHealthGen (reserve_generation p) = plHealthGen p"
  "plHealthURL (reserve_generation p) = plHealthURL p" "plPolicyFP (reserve_generation p) = plPolicyFP p"
  by (simp_all add: reserve_generation_def cancelScheduledPersistenceLocked_def Let_def)

lemma build_delete_cases:
  assumes "buildDeletePlanLocked remove requested p = (p1, plan)"
  shows "dpRemoved plan = map px_key (filter remove (plProxies p)) \<and>
    dpProxies plan = filter (\<lambda>px. \<not> remove px) (plProxies p) \<and> dpCache plan = plCache p \<and>
    dpNotFound plan = filter (\<lambda>k. k \<notin> set (dpRemoved plan)) requested \<and>
    plProxies p1 = plProxies p \<and> plStats p1 = plStats p \<and> plGroups p1 = plGroups p \<and> plIndex p1 = plIndex p \<and>
    plInfo p1 = plInfo p \<and> plCache p1 = plCache p \<and> plHealthGen p1 = plHealthGen p \<and>
    (dpRemoved plan \<noteq> [] \<longrightarrow>
       dpStats plan = (\<lambda>k. if k \<in> px_key ` set (dpProxies plan) then plStats p k else None) \<and>
       dpGroups plan = cleanedGroupState (\<lambda>k. k \<in> px_key ` set (dpProxies plan)) (plGroups p) \<and>
       dpInfo plan = plInfo p \<and>
       (plCache p \<noteq> None \<longrightarrow> dpGen plan = Suc (plCacheGen p) \<and> plCacheGen p1 = Suc (plCacheGen p)))"
  using assms by (auto simp: buildDeletePlanLocked_def Let_def split: if_splits)

lemma build_delete_sound:
  assumes "buildDeletePlanLocked remove requested p = (p1, plan)" "pool_ok p" "dpRemoved plan \<noteq> []"
  shows "plan_sound plan"
proof -
  note b = build_delete_cases [OF assms(1)]
  have "dpStats plan (px_key px) = plStats p (px_key px)" if "px \<in> set (dpProxies plan)" for px
    using b assms(3) that by simp
  moreover have "proxy_sound (plStats p) px" if "px \<in> set (dpProxies plan)" for px
    using b assms(2) that by (auto simp: pool_ok_def)
  ultimately show ?thesis using b assms(2)
    by (auto simp: plan_sound_def proxy_sound_def pool_ok_def distinct_map_filter)
qed

section \<open>Deletions alone in the pool\<close>

definition quiet_world :: "nat \<Rightarrow> world \<Rightarrow> world" where
  "quiet_world k w = w"

definition live_part :: "pool \<Rightarrow> proxy list \<times> (string \<Rightarrow> nat option) \<times> (string \<Rightarrow> node_stats option) \<times> (string \<Rightarrow> cursor option)" where
  "live_part p = (plProxies p, plIndex p, plStats p, plGroups p)"

lemma restore_live:
  "live_part (wPool (fst (restoreLiveStateToCaches parse quiet_world wr k dirty w))) = live_part (wPool w)"
proof (induction dirty arbitrary: k w)
  case (Cons cid cids)
  have "live_part (wPool w') = live_part (wPool w)" if "wPool w' = (wPool w)\<lparr>plCacheGen := g\<rparr>" for w' g
    using that by (simp add: live_part_def)
  with Cons show ?case
    by (simp add: Let_def quiet_world_def split_beta) (simp add: live_part_def)
qed simp

lemma requeue_live [simp]: "live_part (requeuePersistenceAfterDeleteFailure g p) = live_part p"
  by (simp add: requeuePersistenceAfterDeleteFailure_def live_part_def)

lemma save_plan_pool: "save_plan parse wr cid plan w = (w', plan', err) \<Longrightarrow> wPool w' = wPool w"
  by (auto simp: save_plan_def Let_def split_beta)

text \<open>A plan of normalised nodes under a new generation: no error means that the file holds it.\<close>

lemma save_plan_done:
  assumes "save_plan parse wr cid plan w = (w', plan', None)"
    and "case pcLast (wCaches w cid) of Some g \<Rightarrow> g < dpGen plan | None \<Rightarrow> True"
    and "list_all (\<lambda>px. normalizeProxy px = Some px) (dpProxies plan)"
  shows "plan' = plan \<and> pcLast (wCaches w' cid) = Some (dpGen plan) \<and>
    (\<exists>f. pcFile (wCaches w' cid) = Some f \<and> cfProxies f = dpProxies plan \<and> cfStats f = dpStats plan)"
proof -
  have ns: "\<not> (case pcLast (wCaches w cid) of Some g \<Rightarrow> dpGen plan \<le> g | None \<Rightarrow> False)"
    using assms(2) by (auto split: option.splits)
  obtain f where f: "validatePoolCacheFile parse (prepared (plan_snapshot plan)) = Inr f"
    and w: "w' = w\<lparr>wCaches := (wCaches w)(cid := (wCaches w cid)\<lparr>pcLast := Some (dpGen plan), pcFile := Some f\<rparr>)\<rparr>"
    and p: "plan' = plan\<lparr>dpProxies := cfProxies f\<rparr>"
    using assms(1) ns
    by (auto simp: save_plan_def saveWithHealthState_def Let_def prepared_def split: sum.splits write_outcome.splits)
  have "cfProxies f = dpProxies plan" "cfStats f = dpStats plan"
    using f assms(3) by (auto simp: validate_file_iff prepared_def plan_snapshot_def dest!: list_all2_normalD)
  with w p show ?thesis by simp
qed

definition caches_behind :: "world \<Rightarrow> bool" where
  "caches_behind w \<longleftrightarrow>
     (\<forall>c g. pcLast (wCaches w c) = Some g \<longrightarrow> g \<le> plCacheGen (wPool w))"

lemma delete_quiet:
  assumes "delete_attempts parse quiet_world wr remove requested (Suc n) k [] w = (w', r)"
    and "pool_ok (wPool w)" "list_all (\<lambda>px. normalizeProxy px = Some px) (plProxies (wPool w))" "caches_behind w"
  shows "case r of
      DeleteFailed \<Rightarrow> live_part (wPool w') = live_part (wPool w)
    | DeleteDone removed notFound \<Rightarrow>
        removed = map px_key (filter remove (plProxies (wPool w))) \<and>
        notFound = filter (\<lambda>k. k \<notin> set removed) requested \<and>
        plProxies (wPool w') = filter (\<lambda>px. \<not> remove px) (plProxies (wPool w)) \<and> pool_ok (wPool w') \<and>
        (removed \<noteq> [] \<longrightarrow> (\<forall>c. plCache (wPool w) = Some c \<longrightarrow>
           (\<exists>f. pcFile (wCaches w' c) = Some f \<and> cfProxies f = plProxies (wPool w') \<and> cfStats f = plStats (wPool w'))))"
proof -
  obtain p1 plan where b: "buildDeletePlanLocked remove requested (wPool w) = (p1, plan)" by (cases "buildDeletePlanLocked remove requested (wPool w)")
  note B = build_delete_cases [OF b]
  show ?thesis
  proof (cases "dpRemoved plan = []")
    case True
    then have "w' = w\<lparr>wPool := p1\<rparr>" "r = DeleteDone [] (dpNotFound plan)"
      using assms(1) by (auto simp: quiet_world_def b Let_def)
    moreover have "pool_ok p1" using B assms(2) pool_ok_cong [of p1 "wPool w"] by simp
    moreover have "filter (\<lambda>px. \<not> remove px) (plProxies (wPool w)) = plProxies (wPool w)"
      using True B by (auto simp: filter_empty_conv intro: filter_True)
    ultimately show ?thesis using True B by simp
  next
    case False
    note sound = build_delete_sound [OF b assms(2) False]
    show ?thesis
    proof (cases "plCache (wPool w)")
      case None
      then have "w' = world_pool (publishDeletePlanLocked plan) (w\<lparr>wPool := p1\<rparr>)"
        "r = DeleteDone (dpRemoved plan) (dpNotFound plan)"
        using assms(1) False B by (auto simp: quiet_world_def b Let_def)
      with None B publish_ok [OF sound] show ?thesis by (simp add: world_pool_def)
    next
      case (Some cid)
      obtain w3 plan' err where s: "save_plan parse (wr k) cid plan (w\<lparr>wPool := p1\<rparr>) = (w3, plan', err)"
        by (cases "save_plan parse (wr k) cid plan (w\<lparr>wPool := p1\<rparr>)") auto
      have w3: "wPool w3 = p1" using save_plan_pool [OF s] by simp
      have c: "dpCache plan = Some cid" using B Some by simp
      show ?thesis
      proof (cases err)
        case (Some e)
        then have "w' = fst (restoreLiveStateToCaches parse quiet_world wr (k + 2) [cid]
            (world_pool (requeuePersistenceAfterDeleteFailure (dpGen plan)) w3))" "r = DeleteFailed"
          using assms(1) False c s by (auto simp: quiet_world_def b Let_def)
        then have "live_part (wPool w') = live_part p1" by (simp only: restore_live) (simp add: world_pool_def w3)
        with \<open>r = DeleteFailed\<close> B show ?thesis by (simp add: live_part_def)
      next
        case None
        have g: "dpGen plan = Suc (plCacheGen (wPool w))" "plCacheGen p1 = dpGen plan" "plCache p1 = dpCache plan"
          using B False Some by auto
        have "case pcLast (wCaches (w\<lparr>wPool := p1\<rparr>) cid) of Some g \<Rightarrow> g < dpGen plan | None \<Rightarrow> True"
          using assms(4) g(1) by (auto simp: caches_behind_def less_Suc_eq_le split: option.split)
        moreover have "list_all (\<lambda>px. normalizeProxy px = Some px) (dpProxies plan)"
          using B assms(3) by (auto simp: list_all_iff)
        ultimately have d: "plan' = plan" "\<exists>f. pcFile (wCaches w3 cid) = Some f \<and> cfProxies f = dpProxies plan \<and> cfStats f = dpStats plan"
          using save_plan_done [OF s [unfolded None]] by simp_all
        have w': "w' = world_pool (publishDeletePlanLocked plan) w3" and r: "r = DeleteDone (dpRemoved plan) (dpNotFound plan)"
          using assms(1) False c s None g w3 d(1) by (auto simp: quiet_world_def b Let_def)
        have "plProxies (wPool w') = dpProxies plan" "pool_ok (wPool w')"
          using publish_ok [OF sound] by (simp_all add: w' world_pool_def)
        moreover have "\<exists>f. pcFile (wCaches w' cid) = Some f \<and> cfProxies f = plProxies (wPool w') \<and> cfStats f = plStats (wPool w')"
          using d(2) by (simp add: w' world_pool_def)
        ultimately show ?thesis using B Some unfolding r by (simp del: filter_filter)
      qed
    qed
  qed
qed


section \<open>Exhaustive cycles\<close>

lemma full_observe_key [simp]: "px_key (full_observe_proxy ob px) = px_key px"
  by (simp add: full_observe_proxy_def Let_def)

lemma full_observe_sound:
  "pxAvailable (full_observe_proxy ob px) \<Longrightarrow> proxyHardRoutable (full_observe_proxy ob px)"
  "nsTerminal (full_observe_stats now ob st) \<Longrightarrow> \<not> proxyHardRoutable (full_observe_proxy ob px)"
  by (auto simp: full_observe_proxy_def full_observe_stats_def proxyHardRoutable_def Let_def split: if_splits)

lemma find_key_None: "find (\<lambda>x. f x = k) xs = None \<longleftrightarrow> k \<notin> f ` set xs"
  unfolding find_None_iff by blast

text \<open>Whether an observation is the third consecutive failure of its node.\<close>

definition strikes_out :: "(string \<Rightarrow> node_stats option) \<Rightarrow> full_observation \<Rightarrow> bool" where
  "strikes_out stats ob \<longleftrightarrow> \<not> foReachable ob \<and>
     fullRecheckFailureRemovalThreshold \<le> nsFullFailures (case stats (foKey ob) of Some st \<Rightarrow> st | None \<Rightarrow> stats0) + 1"

lemma find_update_key:
  assumes "distinct (map px_key ps)" "key_index k ps = Some i" "px_key px' = k"
  shows "find (\<lambda>px. px_key px = j) (ps[i := px']) = (if j = k then Some px' else find (\<lambda>px. px_key px = j) ps)"
proof -
  note i = find_index_SomeD [OF assms(2)]
  have keys: "map px_key (ps[i := px']) = map px_key ps"
    using i assms(3) by (simp add: map_update list_update_same_conv)
  show ?thesis
  proof (cases "j = k")
    case True
    have "find (\<lambda>px. px_key px = j) (ps[i := px']) = Some px'"
      by (rule find_unique) (use keys assms i True in \<open>simp_all add: set_update_memI\<close>)
    with True show ?thesis by simp
  next
    case False
    have "find (\<lambda>px. px_key px = j) (ps[i := px']) = map_option ((!) (ps[i := px'])) (key_index j ps)"
      by (simp add: find_find_index key_index_map [OF keys])
    moreover have "ps[i := px'] ! n = ps ! n" if "key_index j ps = Some n" for n
      using find_index_SomeD [OF that] i False by (cases "n = i") auto
    ultimately show ?thesis using False by (cases "key_index j ps") (simp_all add: find_find_index)
  qed
qed

lemma full_observe_spec:
  assumes "full_observe now obs ps stats seen remove n = (ps', stats', remove', n')"
    and "distinct (map foKey obs)" "set (map foKey obs) \<inter> set seen = {}" "distinct (map px_key ps)"
  shows "map px_key ps' = map px_key ps \<and> n \<le> n' \<and>
    (\<forall>k. find (\<lambda>px. px_key px = k) ps' =
       (case find (\<lambda>ob. foKey ob = k) obs of
          None \<Rightarrow> find (\<lambda>px. px_key px = k) ps
        | Some ob \<Rightarrow> map_option (full_observe_proxy ob) (find (\<lambda>px. px_key px = k) ps))) \<and>
    (\<forall>k. stats' k = (case find (\<lambda>ob. foKey ob = k) obs of
          None \<Rightarrow> stats k
        | Some ob \<Rightarrow> if k \<in> px_key ` set ps
                   then Some (full_observe_stats now ob (case stats k of Some st \<Rightarrow> st | None \<Rightarrow> stats0)) else stats k)) \<and>
    set remove' = set remove \<union> {k. \<exists>ob\<in>set obs. foKey ob = k \<and> k \<in> px_key ` set ps \<and> strikes_out stats ob} \<and>
    (n' = n \<longrightarrow> (\<forall>ob\<in>set obs. foKey ob \<notin> px_key ` set ps))"
  using assms
proof (induction now obs ps stats seen remove n rule: full_observe.induct)
  case (2 now ob obs ps stats seen remove n)
  let ?k = "foKey ob"
  have ns: "?k \<notin> set seen" using 2(6) by simp
  have fresh: "find (\<lambda>o'. foKey o' = ?k) obs = None" using 2(5) by (simp add: find_key_None)
  have d: "distinct (map foKey obs)" "set (map foKey obs) \<inter> set (?k # seen) = {}" "set (map foKey obs) \<inter> set seen = {}"
    using 2(5,6) by auto
  show ?case
  proof (cases "key_index ?k ps")
    case None
    then have nk: "?k \<notin> px_key ` set ps" by (auto simp: find_index_None)
    then have nf: "find (\<lambda>px. px_key px = ?k) ps = None" by (simp only: find_key_None not_False_eq_True)
    have r: "full_observe now obs ps stats seen remove n = (ps', stats', remove', n')"
      using 2(4) ns None by simp
    from 2(2) [OF refl ns None r d(1,3) 2(7)] nk nf fresh show ?thesis
      by (auto split: option.split)
  next
    case (Some i)
    note i = find_index_SomeD [OF Some]
    define old where "old = (case stats ?k of Some st \<Rightarrow> st | None \<Rightarrow> stats0)"
    define st where "st = full_observe_stats now ob old"
    define rm where "rm = (if \<not> foReachable ob \<and> fullRecheckFailureRemovalThreshold \<le> nsFullFailures st
        then ?k # remove else remove)"
    have rm_eq: "set rm = set remove \<union> (if strikes_out stats ob then {?k} else {})"
      by (auto simp: rm_def st_def old_def strikes_out_def full_observe_stats_def)
    let ?ps = "ps[i := full_observe_proxy ob (ps ! i)]"
    have keys: "map px_key ?ps = map px_key ps"
      using i by (simp add: map_update list_update_same_conv)
    then have kset: "px_key ` set ?ps = px_key ` set ps" by (metis set_map)
    have r: "full_observe now obs ?ps (stats(?k \<mapsto> st)) (?k # seen) rm (n + 1) = (ps', stats', remove', n')"
      using 2(4) ns Some by (simp add: Let_def st_def old_def rm_def)
    have dk: "distinct (map px_key ?ps)" using 2(7) keys by simp
    note IH = 2(3) [OF refl ns Some refl refl, folded old_def, folded st_def, folded rm_def, OF r d(1,2) dk]
    have kin: "?k \<in> px_key ` set ps" using i by (metis image_eqI nth_mem)
    have f: "find (\<lambda>px. px_key px = j) ?ps = (if j = ?k then Some (full_observe_proxy ob (ps ! i)) else find (\<lambda>px. px_key px = j) ps)" for j
      by (rule find_update_key [OF 2(7) Some]) (use i in simp)
    have fk: "find (\<lambda>px. px_key px = ?k) ps = Some (ps ! i)" by (simp add: find_find_index Some)
    have so: "strikes_out (stats(?k \<mapsto> st)) o' = strikes_out stats o'" if "o' \<in> set obs" for o'
    proof -
      have "foKey o' \<noteq> ?k" using 2(5) that by (metis distinct.simps(2) image_eqI list.set_map list.simps(9))
      then show ?thesis by (simp add: strikes_out_def)
    qed
    have A: "find (\<lambda>px. px_key px = k) ps' =
       (case find (\<lambda>ob. foKey ob = k) (ob # obs) of
          None \<Rightarrow> find (\<lambda>px. px_key px = k) ps
        | Some ob \<Rightarrow> map_option (full_observe_proxy ob) (find (\<lambda>px. px_key px = k) ps))" for k
      using IH f [of k] fk fresh by (cases "k = ?k") (auto cong: option.case_cong)
    have B: "stats' k = (case find (\<lambda>ob. foKey ob = k) (ob # obs) of
          None \<Rightarrow> stats k
        | Some ob \<Rightarrow> if k \<in> px_key ` set ps
                   then Some (full_observe_stats now ob (case stats k of Some st \<Rightarrow> st | None \<Rightarrow> stats0)) else stats k)" for k
    proof -
      have "stats' k = (case find (\<lambda>ob. foKey ob = k) obs of
          None \<Rightarrow> (stats(?k \<mapsto> st)) k
        | Some ob \<Rightarrow> if k \<in> px_key ` set ps
             then Some (full_observe_stats now ob (case (stats(?k \<mapsto> st)) k of Some st \<Rightarrow> st | None \<Rightarrow> stats0))
             else (stats(?k \<mapsto> st)) k)"
        using IH unfolding kset by blast
      moreover have "(stats(?k \<mapsto> st)) k = (if k = ?k then Some st else stats k)" by simp
      ultimately show ?thesis using fresh kin
        by (cases "k = ?k") (simp_all add: st_def old_def del: fun_upd_apply split: option.split)
    qed
    have C: "set remove' = set remove \<union> {k. \<exists>o'\<in>set (ob # obs). foKey o' = k \<and> k \<in> px_key ` set ps \<and> strikes_out stats o'}"
    proof -
      have "set remove' = set rm \<union> {k. \<exists>o'\<in>set obs. foKey o' = k \<and> k \<in> px_key ` set ps \<and> strikes_out (stats(?k \<mapsto> st)) o'}"
        using IH unfolding kset by blast
      moreover have "(\<exists>o'\<in>set obs. foKey o' = k \<and> k \<in> px_key ` set ps \<and> strikes_out (stats(?k \<mapsto> st)) o') \<longleftrightarrow>
          (\<exists>o'\<in>set obs. foKey o' = k \<and> k \<in> px_key ` set ps \<and> strikes_out stats o')" for k
        using so by blast
      ultimately show ?thesis using kin rm_eq by (simp del: fun_upd_apply) blast
    qed
    have D: "map px_key ps' = map px_key ps" "n + 1 \<le> n'" using IH keys by simp_all
    show ?thesis using A B C D by simp
  qed
qed auto

text \<open>Normalisation reads and writes the endpoint only.\<close>

definition endpoint_of :: "proxy \<Rightarrow> proxy" where
  "endpoint_of px = proxy0\<lparr>pxIP := pxIP px, pxPort := pxPort px, pxProtocol := pxProtocol px\<rparr>"

lemma normalizeProxy_endpoint:
  "normalizeProxy px = map_option (\<lambda>q. px\<lparr>pxIP := pxIP q, pxPort := pxPort q, pxProtocol := pxProtocol q\<rparr>)
     (normalizeProxy (endpoint_of px))"
  by (simp add: normalizeProxy_def endpoint_of_def proxy0_def Let_def split: option.split)

lemma normal_cong:
  assumes "normalizeProxy px = Some px" "pxIP q = pxIP px" "pxPort q = pxPort px" "pxProtocol q = pxProtocol px"
  shows "normalizeProxy q = Some q"
proof -
  have "endpoint_of q = endpoint_of px" using assms(2-4) by (simp add: endpoint_of_def)
  moreover obtain e where e: "normalizeProxy (endpoint_of px) = Some e"
    "px = px\<lparr>pxIP := pxIP e, pxPort := pxPort e, pxProtocol := pxProtocol e\<rparr>"
    using assms(1) by (subst (asm) normalizeProxy_endpoint) auto
  moreover from e(2) have "pxIP e = pxIP px" "pxPort e = pxPort px" "pxProtocol e = pxProtocol px"
    by (metis proxy.select_convs(1) proxy.surjective proxy.update_convs(1,2,6),
        metis proxy.select_convs(2) proxy.surjective proxy.update_convs(1,2,6),
        metis proxy.select_convs(6) proxy.surjective proxy.update_convs(1,2,6))
  ultimately show ?thesis using assms(2-4) by (subst normalizeProxy_endpoint) simp
qed

lemma full_observe_normal:
  "normalizeProxy px = Some px \<Longrightarrow> normalizeProxy (full_observe_proxy ob px) = Some (full_observe_proxy ob px)"
  by (erule normal_cong) (simp_all add: full_observe_proxy_def Let_def)

definition full_result :: "full_observation list \<Rightarrow> pool \<Rightarrow> string \<Rightarrow> proxy option" where
  "full_result obs p k =
     (case find (\<lambda>ob. foKey ob = k) obs of
        None \<Rightarrow> find (\<lambda>px. px_key px = k) (plProxies p)
      | Some ob \<Rightarrow> if strikes_out (plStats p) ob then None
                 else map_option (full_observe_proxy ob) (find (\<lambda>px. px_key px = k) (plProxies p)))"

lemma find_filter_key:
  "distinct (map f xs) \<Longrightarrow> find (\<lambda>x. f x = k) (filter P xs) =
   (case find (\<lambda>x. f x = k) xs of None \<Rightarrow> None | Some x \<Rightarrow> if P x then Some x else None)"
proof (induction xs)
  case (Cons x xs)
  have "f x \<notin> f ` set (filter P xs)" using Cons.prems by auto
  then have "find (\<lambda>y. f y = k) (filter P xs) = None" if "f x = k"
    using that unfolding find_key_None by simp
  with Cons show ?case by auto
qed simp

lemma mem_find_key: "px \<in> set ps \<Longrightarrow> distinct (map px_key ps) \<Longrightarrow> find (\<lambda>q. px_key q = px_key px) ps = Some px"
  by (rule find_unique) simp_all

lemma build_full_spec:
  assumes "buildFullHealthCommitPlanLocked now obs p = (p1, plan, n)" "distinct (map foKey obs)" "pool_ok p"
  shows "live_part p1 = live_part p \<and> plHealthGen p1 = plHealthGen p \<and> plCache p1 = plCache p \<and> dpCache plan = plCache p \<and>
    (n = 0 \<longrightarrow> (\<forall>k. full_result obs p k = find (\<lambda>px. px_key px = k) (plProxies p))) \<and>
    (n \<noteq> 0 \<longrightarrow> plan_sound plan \<and>
      (\<forall>k. find (\<lambda>px. px_key px = k) (dpProxies plan) = full_result obs p k) \<and>
      set (dpRemoved plan) = {k. \<exists>ob\<in>set obs. foKey ob = k \<and> k \<in> px_key ` set (plProxies p) \<and> strikes_out (plStats p) ob} \<and>
      (\<forall>k\<in>set (dpRemoved plan). dpStats plan k = None) \<and>
      (plCache p \<noteq> None \<longrightarrow> dpGen plan = Suc (plCacheGen p) \<and> plCacheGen p1 = dpGen plan) \<and>
      (list_all (\<lambda>px. normalizeProxy px = Some px) (plProxies p) \<longrightarrow>
         list_all (\<lambda>px. normalizeProxy px = Some px) (dpProxies plan)))"
proof -
  have d: "distinct (map px_key (plProxies p))" using assms(3) by (simp add: pool_ok_def)
  obtain ps st rm m where fo: "full_observe now obs (plProxies p) (plStats p) [] [] 0 = (ps, st, rm, m)"
    by (cases "full_observe now obs (plProxies p) (plStats p) [] [] 0")
  note F = full_observe_spec [OF fo assms(2) _ d]
  have keys: "map px_key ps = map px_key (plProxies p)" using F by simp
  have dps: "distinct (map px_key ps)" using d keys by simp
  have fps: "find (\<lambda>px. px_key px = k) ps = (case find (\<lambda>ob. foKey ob = k) obs of
          None \<Rightarrow> find (\<lambda>px. px_key px = k) (plProxies p)
        | Some ob \<Rightarrow> map_option (full_observe_proxy ob) (find (\<lambda>px. px_key px = k) (plProxies p)))" for k
    using F by simp
  have stk: "st k = (case find (\<lambda>ob. foKey ob = k) obs of
          None \<Rightarrow> plStats p k
        | Some ob \<Rightarrow> if k \<in> px_key ` set (plProxies p)
             then Some (full_observe_stats now ob (case plStats p k of Some st \<Rightarrow> st | None \<Rightarrow> stats0)) else plStats p k)" for k
    using F by simp
  have rm: "set rm = {k. \<exists>ob\<in>set obs. foKey ob = k \<and> k \<in> px_key ` set (plProxies p) \<and> strikes_out (plStats p) ob}"
    using F by simp
  have origin: "\<exists>q\<in>set (plProxies p). px_key q = px_key px \<and>
      (px = q \<and> find (\<lambda>ob. foKey ob = px_key px) obs = None \<or>
       (\<exists>ob. find (\<lambda>ob. foKey ob = px_key px) obs = Some ob \<and> px = full_observe_proxy ob q))" if "px \<in> set ps" for px
    using fps [of "px_key px"] mem_find_key [OF that dps]
    by (auto split: option.splits dest!: find_SomeD sym [of "Some _"])
  have sound: "proxy_sound st px" if "px \<in> set ps" for px
  proof -
    from origin [OF that] obtain q where q: "q \<in> set (plProxies p)" "px_key q = px_key px" "px = q \<and> find (\<lambda>ob. foKey ob = px_key px) obs = None \<or>
       (\<exists>ob. find (\<lambda>ob. foKey ob = px_key px) obs = Some ob \<and> px = full_observe_proxy ob q)"
      by blast
    have kin: "px_key px \<in> px_key ` set (plProxies p)" using q by (metis image_eqI)
    from q(3) show ?thesis
    proof
      assume e: "px = q \<and> find (\<lambda>ob. foKey ob = px_key px) obs = None"
      then have "find (\<lambda>ob. foKey ob = px_key px) obs = None" by blast
      then have "st (px_key px) = plStats p (px_key px)"
        unfolding stk [of "px_key px"] by (simp only: option.case)
      with assms(3) q(1) e show ?thesis by (simp add: pool_ok_def proxy_sound_def)
    next
      assume "\<exists>ob. find (\<lambda>ob. foKey ob = px_key px) obs = Some ob \<and> px = full_observe_proxy ob q"
      then obtain ob where ob: "find (\<lambda>ob. foKey ob = px_key px) obs = Some ob" "px = full_observe_proxy ob q" by blast
      have "\<exists>s. st (px_key px) = Some (full_observe_stats now ob s)"
        unfolding stk [of "px_key px"] by (simp only: ob(1) option.case kin if_True option.inject) blast
      with full_observe_sound ob(2) show ?thesis by (auto simp: proxy_sound_def)
    qed
  qed
  have normal: "normalizeProxy px = Some px" if "px \<in> set ps" "list_all (\<lambda>px. normalizeProxy px = Some px) (plProxies p)" for px
    using origin [OF that(1)] that(2) by (auto simp: list_all_iff intro: full_observe_normal)
  have so: "(\<exists>ob\<in>set obs. foKey ob = k \<and> strikes_out (plStats p) ob) \<longleftrightarrow>
      (\<exists>ob. find (\<lambda>ob. foKey ob = k) obs = Some ob \<and> strikes_out (plStats p) ob)" for k
    using find_unique [OF assms(2), of _ k] by (auto dest: find_SomeD)
  define gone where "gone = (\<lambda>px. px_key px \<in> set rm)"
  have live: "live_part p1 = live_part p" "plHealthGen p1 = plHealthGen p" "plCache p1 = plCache p" "dpCache plan = plCache p" "n = m"
    using assms(1) by (auto simp: buildFullHealthCommitPlanLocked_def fo Let_def live_part_def split: if_splits)
  have plan: "dpProxies plan = filter (\<lambda>px. \<not> gone px) ps \<and> dpRemoved plan = map px_key (filter gone ps) \<and>
      dpStats plan = (\<lambda>k. if k \<in> px_key ` set (filter gone ps) then None else st k) \<and>
      (plCache p \<noteq> None \<longrightarrow> dpGen plan = Suc (plCacheGen p) \<and> plCacheGen p1 = dpGen plan)" if "n \<noteq> 0"
    using assms(1) that
    by (cases rm; auto simp: buildFullHealthCommitPlanLocked_def fo Let_def gone_def split: if_splits)
  have zero: "full_result obs p k = find (\<lambda>px. px_key px = k) (plProxies p)" if "n = 0" for k
  proof (cases "find (\<lambda>ob. foKey ob = k) obs")
    case (Some ob)
    then have "ob \<in> set obs" "foKey ob = k" by (auto dest: find_SomeD)
    moreover have "\<forall>ob\<in>set obs. foKey ob \<notin> px_key ` set (plProxies p)" using F that live(5) by simp
    ultimately have "k \<notin> px_key ` set (plProxies p)" by blast
    then have "find (\<lambda>px. px_key px = k) (plProxies p) = None" by (simp add: find_key_None)
    with Some show ?thesis by (simp add: full_result_def)
  qed (simp add: full_result_def)
  have keyset: "px_key ` set ps = px_key ` set (plProxies p)" using keys by (metis set_map)
  have look: "find (\<lambda>px. px_key px = k) (filter (\<lambda>px. \<not> gone px) ps) = full_result obs p k" for k
  proof -
    have "find (\<lambda>px. px_key px = k) (filter (\<lambda>px. \<not> gone px) ps) =
        (if k \<in> set rm then None else find (\<lambda>px. px_key px = k) ps)"
      unfolding find_filter_key [OF dps] by (auto simp: gone_def split: option.splits dest: find_SomeD)
    moreover have "k \<in> set rm \<longleftrightarrow> (\<exists>ob. find (\<lambda>ob. foKey ob = k) obs = Some ob \<and> strikes_out (plStats p) ob) \<and>
        k \<in> px_key ` set (plProxies p)"
      using rm so [of k] by auto
    moreover have "k \<notin> px_key ` set (plProxies p) \<Longrightarrow> find (\<lambda>px. px_key px = k) (plProxies p) = None"
      by (simp add: find_key_None)
    ultimately show ?thesis by (auto simp: full_result_def fps split: option.splits)
  qed
  have removed: "px_key ` set (filter gone ps) = {k. \<exists>ob\<in>set obs. foKey ob = k \<and> k \<in> px_key ` set (plProxies p) \<and> strikes_out (plStats p) ob}"
  proof -
    have "px_key ` set (filter gone ps) = px_key ` set ps \<inter> set rm" by (auto simp: gone_def)
    then show ?thesis unfolding keyset rm by blast
  qed
  have psound: "plan_sound plan" if "n \<noteq> 0"
  proof -
    have "proxy_sound (dpStats plan) px" if "px \<in> set (filter (\<lambda>px. \<not> gone px) ps)" for px
    proof -
      have "px_key px \<notin> px_key ` set (filter gone ps)" using that by (auto simp: gone_def)
      with that sound [of px] plan [OF \<open>n \<noteq> 0\<close>] show ?thesis by (simp add: proxy_sound_def)
    qed
    with plan [OF that] dps show ?thesis by (simp add: plan_sound_def distinct_map_filter)
  qed
  show ?thesis using live zero plan psound look removed normal
    by (intro conjI impI) (simp_all add: list_all_iff)
qed

lemma live_partD:
  "live_part p = live_part q \<Longrightarrow> plProxies p = plProxies q \<and> plStats p = plStats q \<and> plGroups p = plGroups q \<and> plIndex p = plIndex q"
  by (simp add: live_part_def)

definition cycle_done :: "full_observation list \<Rightarrow> world \<Rightarrow> world \<Rightarrow> string list \<Rightarrow> bool" where
  "cycle_done obs w w' removed \<longleftrightarrow> pool_ok (wPool w') \<and>
     (\<forall>k. find (\<lambda>px. px_key px = k) (plProxies (wPool w')) = full_result obs (wPool w) k) \<and>
     set removed = {k. \<exists>ob\<in>set obs. foKey ob = k \<and> k \<in> px_key ` set (plProxies (wPool w)) \<and>
                                  strikes_out (plStats (wPool w)) ob} \<and>
     (\<forall>k\<in>set removed. plStats (wPool w') k = None)"

lemma cycle_done_publish:
  assumes "buildFullHealthCommitPlanLocked now obs (wPool w) = (p1, plan, n)" "n \<noteq> 0"
    and "distinct (map foKey obs)" "pool_ok (wPool w)" "wPool w' = publishDeletePlanLocked plan p"
  shows "cycle_done obs w w' (dpRemoved plan)"
  using build_full_spec [OF assms(1,3,4)] assms(2,5) publish_ok [of plan p] by (simp add: cycle_done_def)

lemma cycle_done_empty:
  assumes "buildFullHealthCommitPlanLocked now obs (wPool w) = (p1, plan, 0)"
    and "distinct (map foKey obs)" "pool_ok (wPool w)" "wPool w' = p1"
  shows "cycle_done obs w w' []"
proof -
  note b = build_full_spec [OF assms(1-3)]
  note l = live_partD [OF conjunct1 [OF b]]
  have "pool_ok p1" using l assms(3) by (simp add: pool_ok_cong [of p1 "wPool w"])
  moreover have "(\<exists>ob\<in>set obs. foKey ob = k \<and> k \<in> px_key ` set (plProxies (wPool w)) \<and> strikes_out (plStats (wPool w)) ob) = False" for k
  proof
    assume "\<exists>ob\<in>set obs. foKey ob = k \<and> k \<in> px_key ` set (plProxies (wPool w)) \<and> strikes_out (plStats (wPool w)) ob"
    then obtain ob where ob: "ob \<in> set obs" "foKey ob = k" "k \<in> px_key ` set (plProxies (wPool w))" "strikes_out (plStats (wPool w)) ob"
      by blast
    have "find (\<lambda>ob. foKey ob = k) obs = Some ob" by (rule find_unique [OF assms(2)]) (use ob in auto)
    then have "full_result obs (wPool w) k = None" using ob(4) by (simp add: full_result_def)
    moreover have "find (\<lambda>px. px_key px = k) (plProxies (wPool w)) \<noteq> None" using ob(3) by (simp add: find_key_None)
    ultimately show False using b by simp
  qed simp
  ultimately show ?thesis using l b assms(4) unfolding cycle_done_def by simp
qed

text \<open>Between a build and its publication the pool is the one the build left.\<close>

lemma commit_quiet_fails:
  assumes "commit_attempts parse quiet_world wr ctx now obs hg (Suc m) 0 [] w = (w', r)" "\<not> ctx 0" "plHealthGen (wPool w) = hg"
    and "buildFullHealthCommitPlanLocked now obs (wPool w) = (p1, plan, n)" "n \<noteq> 0" "dpCache plan = Some cid"
    and "save_plan parse (wr 0) cid plan (w\<lparr>wPool := p1\<rparr>) = (w3, plan', err)" "ctx 2 \<or> err \<noteq> None \<or> ctx 3"
  shows "live_part (wPool w') = live_part p1 \<and> (r = NotApplied \<or> r = CommitFailed)"
proof -
  have w3: "wPool w3 = p1" using save_plan_pool [OF assms(7)] by simp
  have stopped: "live_part (wPool w') = live_part (wPool v) \<and> (r = NotApplied \<or> r = CommitFailed)"
    if "(case restoreLiveStateToCaches parse quiet_world wr j ds v of (u, None) \<Rightarrow> (u, NotApplied) | (u, Some _) \<Rightarrow> (u, CommitFailed)) = (w', r)"
    for j ds v
    using that restore_live [of parse wr j ds v]
    by (cases "restoreLiveStateToCaches parse quiet_world wr j ds v") (auto split: option.splits)
  consider (early) "ctx 2" | (failed) e where "\<not> ctx 2" "err = Some e" | (late) "\<not> ctx 2" "err = None" "ctx 3"
    using assms(8) by (cases err) auto
  then show ?thesis
  proof cases
    case early
    then have "w' = world_pool (requeuePersistenceAfterDeleteFailure (dpGen plan)) (w\<lparr>wPool := p1\<rparr>)" "r = NotApplied"
      using assms(1-6) by (auto simp: quiet_world_def Let_def numeral_2_eq_2)
    then show ?thesis by (simp add: world_pool_def)
  next
    case failed
    then have "w' = fst (restoreLiveStateToCaches parse quiet_world wr 2 [cid]
        (world_pool (requeuePersistenceAfterDeleteFailure (dpGen plan)) w3))" "r = CommitFailed"
      using assms(1-7) by (auto simp: quiet_world_def Let_def numeral_2_eq_2)
    then show ?thesis by (simp only: restore_live) (simp add: world_pool_def w3)
  next
    case late
    then have "(case restoreLiveStateToCaches parse quiet_world wr 4 [cid] w3 of
         (u, None) \<Rightarrow> (u, NotApplied) | (u, Some _) \<Rightarrow> (u, CommitFailed)) = (w', r)"
      using assms(1-7) by (simp add: quiet_world_def Let_def eval_nat_numeral)
    from stopped [OF this] show ?thesis using w3 by simp
  qed
qed

lemma commit_quiet:
  assumes run: "commit_attempts parse quiet_world wr ctx now obs hg (Suc m) 0 [] w = (w', r)"
    and "distinct (map foKey obs)" "pool_ok (wPool w)"
    and "list_all (\<lambda>px. normalizeProxy px = Some px) (plProxies (wPool w))" "caches_behind w"
  shows "case r of
      Applied n removed \<Rightarrow> plHealthGen (wPool w) = hg \<and> cycle_done obs w w' removed
    | _ \<Rightarrow> live_part (wPool w') = live_part (wPool w)"
proof -
  obtain p1 plan n where b: "buildFullHealthCommitPlanLocked now obs (wPool w) = (p1, plan, n)"
    by (cases "buildFullHealthCommitPlanLocked now obs (wPool w)")
  note B = build_full_spec [OF b assms(2,3)]
  consider (gen) "ctx 0 \<or> plHealthGen (wPool w) \<noteq> hg"
    | (empty) "\<not> ctx 0" "plHealthGen (wPool w) = hg" "n = 0"
    | (nocache) "\<not> ctx 0" "plHealthGen (wPool w) = hg" "n \<noteq> 0" "dpCache plan = None"
    | (cache) cid where "\<not> ctx 0" "plHealthGen (wPool w) = hg" "n \<noteq> 0" "dpCache plan = Some cid"
    by (cases "dpCache plan") auto
  then show ?thesis
  proof cases
    case gen
    then have "w' = w" "r = NotApplied" using run by (auto simp: quiet_world_def)
    then show ?thesis by simp
  next
    case empty
    then have "w' = w\<lparr>wPool := p1\<rparr>" "r = (if ctx 1 then NotApplied else Applied 0 [])"
      using run by (auto simp: quiet_world_def b)
    with B empty cycle_done_empty [OF b [unfolded empty] assms(2,3)] show ?thesis by simp
  next
    case nocache
    then have "w' = (if ctx 1 then w\<lparr>wPool := p1\<rparr> else world_pool (publishDeletePlanLocked plan) (w\<lparr>wPool := p1\<rparr>))"
      "r = (if ctx 1 then NotApplied else Applied n (dpRemoved plan))"
      using run by (auto simp: quiet_world_def b)
    with B nocache cycle_done_publish [OF b _ assms(2,3)] show ?thesis by (simp add: world_pool_def)
  next
    case cache
    obtain w3 plan' err where s: "save_plan parse (wr 0) cid plan (w\<lparr>wPool := p1\<rparr>) = (w3, plan', err)"
      by (cases "save_plan parse (wr 0) cid plan (w\<lparr>wPool := p1\<rparr>)") auto
    have w3: "wPool w3 = p1" using save_plan_pool [OF s] by simp
    show ?thesis
    proof (cases "ctx 2 \<or> err \<noteq> None \<or> ctx 3")
      case True
      then show ?thesis using commit_quiet_fails [OF run cache(1,2) b cache(3,4) s] B by auto
    next
      case False
      have g: "dpGen plan = Suc (plCacheGen (wPool w))" "plCacheGen p1 = dpGen plan" "plCache p1 = dpCache plan"
        using B cache by auto
      have "case pcLast (wCaches (w\<lparr>wPool := p1\<rparr>) cid) of Some g \<Rightarrow> g < dpGen plan | None \<Rightarrow> True"
        using assms(5) g(1) by (auto simp: caches_behind_def less_Suc_eq_le split: option.split)
      then have d: "plan' = plan"
        using save_plan_done [of parse "wr 0" cid plan "w\<lparr>wPool := p1\<rparr>" w3 plan'] s False B cache(3) assms(4) by simp
      have "w' = world_pool (publishDeletePlanLocked plan) w3" "r = Applied n (dpRemoved plan)"
        using run cache s False g w3 d B by (auto simp: quiet_world_def b Let_def eval_nat_numeral)
      with cycle_done_publish [OF b cache(3) assms(2,3)] cache show ?thesis by (simp add: world_pool_def)
    qed
  qed
qed


section \<open>Witnesses\<close>

definition live_world :: world where
  "live_world = \<lparr>wPool = live_pool, wCaches = (\<lambda>_. empty_cache)\<rparr>"

lemma live_world_facts:
  "pool_ok (wPool live_world)" "caches_behind live_world" "plCache live_pool = None" "plHealthGen live_pool = 0"
  "list_all (\<lambda>px. normalizeProxy px = Some px) (plProxies (wPool live_world))"
  by (simp_all add: live_world_def live_pool_ok caches_behind_def empty_cache_def live_nodes live_normal)
    (simp_all add: live_pool_def rebuildProxyIndexLocked_def NewProxyPool_def)


definition third_failure :: full_observation where
  "third_failure = \<lparr>foKey = ''http://a.example:80'', foVerified = live_node ''a.example'', foCredentials = False,
     foReachable = False, foAllowed = False, foLatency = 0, foExitIP = [], foCountry = [], foCity = [], foContinent = [],
     foIPChanged = False, foIPChangeKnown = False\<rparr>"

definition failing_world :: world where
  "failing_world = live_world\<lparr>wPool := live_pool\<lparr>plStats := [''http://a.example:80'' \<mapsto> stats0\<lparr>nsFullFailures := 2\<rparr>]\<rparr>\<rparr>"


end
