(* ===== verification/PoolReach.thy ===== *)
theory PoolReach
  imports PoolCommit
begin

text \<open>
  The live pool as a state machine. A pool operation is one section under the lock of pool.go;
  \<open>apply_op\<close> dispatches to its definition. Beside the pool, the machine has the one plan that
  may be in flight: deleteMu admits one deletion or one commit of an exhaustive cycle at a
  time, and the lock is free while its file is written. The nodes of the pool are in normal
  form, so that the write leaves the plan as it was built (\<open>save_plan_done\<close>).
\<close>

section \<open>Operations\<close>

datatype pool_op =
    OpRecordResult string bool int
  | OpObserve int string bool bool int "u64 option" bool
  | OpUpdateLatency string int
  | OpSetAvailable string bool
  | OpSetPolicyExcluded string bool u64
  | OpInvalidateHealth "string option"
  | OpSetPolicy string bool
  | OpCompleteRecheck u64
  | OpBeginWork u64
  | OpFinishWork u64
  | OpSetCriterion string
  | OpRestorePending
  | OpCredentials string proxy u64
  | OpGeo string string string string string bool bool "u64 option"
  | OpSpeed int string rat int int
  | OpSources "source list"
  | OpRecheckCandidates int int
  | OpPickCommit string selector "string set" pool proxy bool
  | OpPickSerialized string selector "string set" nat
  | OpForceSticky string string
  | OpSetAuto string
  | OpRotate string bool
  | OpFlushScheduled u64
  | OpFlushCache
  | OpSetCache "nat option"
  | OpUpdate int "proxy list" "string list" "string list" "source list option" "u64 option"
  | OpPromote int int proxy "source list" u64 rat int int
  | OpRequeue nat

primrec apply_op :: "pool_op \<Rightarrow> pool \<Rightarrow> pool" where
  "apply_op (OpRecordResult key ok l) p = RecordResult key ok l p"
| "apply_op (OpObserve now key r al l g m) p = fst (observeHealthOutcome now key r al l g m p)"
| "apply_op (OpUpdateLatency key l) p = UpdateLatency key l p"
| "apply_op (OpSetAvailable key a) p = SetAvailable key a p"
| "apply_op (OpSetPolicyExcluded key ex g) p = fst (SetPolicyExcludedAtGeneration key ex g p)"
| "apply_op (OpInvalidateHealth url) p = fst (InvalidateHealth url p)"
| "apply_op (OpSetPolicy b r) p = fst (SetRequireIPChangePolicy b r p)"
| "apply_op (OpCompleteRecheck g) p = fst (CompleteHealthRecheck g p)"
| "apply_op (OpBeginWork g) p = fst (BeginHealthWork g p)"
| "apply_op (OpFinishWork run) p = FinishHealthWork run p"
| "apply_op (OpSetCriterion url) p = SetHealthCriterion url p"
| "apply_op OpRestorePending p = RestoreHealthRecheckPending p"
| "apply_op (OpCredentials key v g) p = fst (UpdateVerifiedCredentialsAtGeneration key v g p)"
| "apply_op (OpGeo key e c ci co ch kn g) p = fst (updateGeo key e c ci co ch kn g p)"
| "apply_op (OpSpeed now key k b d) p = fst (UpdateSpeed now key k b d p)"
| "apply_op (OpSources ss) p = fst (ApplyEnabledSources ss p)"
| "apply_op (OpRecheckCandidates now limit) p = fst (RecheckCandidates now limit p)"
| "apply_op (OpPickCommit name sl ex q chosen pin) p = fst (pick_commit name sl ex q chosen pin p)"
| "apply_op (OpPickSerialized name sl ex draw) p = fst (pick_serialized name sl ex draw p)"
| "apply_op (OpForceSticky name key) p = fst (forceSticky name key p)"
| "apply_op (OpSetAuto name) p = SetAuto name p"
| "apply_op (OpRotate name force) p = fst (rotateSticky name force p)"
| "apply_op (OpFlushScheduled t) p = fst (flushScheduledPersistence t p)"
| "apply_op OpFlushCache p = fst (FlushCache p)"
| "apply_op (OpSetCache c) p = SetCache c p"
| "apply_op (OpUpdate now alive failed filtered ss g) p = fst (update now alive failed filtered ss g p)"
| "apply_op (OpPromote now unix px ss g kbps b d) p = fst (PromoteCandidateSpeed now unix px ss g kbps b d p)"
| "apply_op (OpRequeue g) p = requeuePersistenceAfterDeleteFailure g p"

text \<open>Cursors, timers and revisions do not touch nodes, index or statistics.\<close>

definition same_nodes :: "pool \<Rightarrow> pool \<Rightarrow> bool" where
  "same_nodes p q \<longleftrightarrow> plProxies q = plProxies p \<and> plIndex q = plIndex p \<and> plStats q = plStats p"

lemma same_nodes_ok: "same_nodes p q \<Longrightarrow> pool_ok q = pool_ok p"
  unfolding same_nodes_def by (rule pool_ok_cong) simp_all

lemma cursor_fields:
  "plProxies (set_cursor name gc p) = plProxies p" "plIndex (set_cursor name gc p) = plIndex p"
  "plStats (set_cursor name gc p) = plStats p" "plCacheGen (set_cursor name gc p) = plCacheGen p"
  "plProxies (stick_to name gc key p) = plProxies p" "plIndex (stick_to name gc key p) = plIndex p"
  "plStats (stick_to name gc key p) = plStats p" "plCacheGen (stick_to name gc key p) = plCacheGen p"
  "plProxies (record_pick name sl key pin p) = plProxies p" "plIndex (record_pick name sl key pin p) = plIndex p"
  "plStats (record_pick name sl key pin p) = plStats p" "plCacheGen (record_pick name sl key pin p) = plCacheGen p"
  by (simp_all add: set_cursor_def stick_to_def record_pick_def Let_def)

definition untouched :: "pool \<Rightarrow> pool \<Rightarrow> bool" where
  "untouched p q \<longleftrightarrow> same_nodes p q \<and> plCacheGen p \<le> plCacheGen q"

lemma selection_untouched:
  "untouched p (fst (pick_commit name sl ex q chosen pin p))"
  "untouched p (fst (pick_serialized name sl ex draw p))"
  "untouched p (fst (forceSticky name key p))"
  "untouched p (SetAuto name p)"
  "untouched p (fst (rotateSticky name force p))"
  by (simp_all add: untouched_def same_nodes_def pick_commit_def pick_serialized_def forceSticky_def SetAuto_def
      rotateSticky_def cursor_fields Let_def split: option.split prod.split)

lemma bookkeeping_untouched:
  "untouched p (fst (SetRequireIPChangePolicy b r p))"
  "untouched p (fst (CompleteHealthRecheck g p))"
  "untouched p (fst (BeginHealthWork g p))"
  "untouched p (FinishHealthWork run p)"
  "untouched p (SetHealthCriterion url p)"
  "untouched p (RestoreHealthRecheckPending p)"
  "untouched p (fst (RecheckCandidates now limit p))"
  "untouched p (fst (flushScheduledPersistence t p))"
  "untouched p (fst (FlushCache p))"
  "untouched p (SetCache c p)"
  "untouched p (requeuePersistenceAfterDeleteFailure gen p)"
  by (auto simp: untouched_def same_nodes_def SetRequireIPChangePolicy_def CompleteHealthRecheck_def BeginHealthWork_def
      FinishHealthWork_def SetHealthCriterion_def RestoreHealthRecheckPending_def RecheckCandidates_def
      flushScheduledPersistence_def FlushCache_def SetCache_def requeuePersistenceAfterDeleteFailure_def
      cancelScheduledPersistenceLocked_def Let_def split: option.split prod.split)

section \<open>Invariant and generation\<close>

lemma untouched_ok: "untouched p q \<Longrightarrow> pool_ok p \<Longrightarrow> pool_ok q"
  unfolding untouched_def by (metis same_nodes_ok)

lemma apply_op_ok: "pool_ok p \<Longrightarrow> pool_ok (apply_op op p)"
  by (cases op)
    (auto intro: selection_untouched [THEN untouched_ok] bookkeeping_untouched [THEN untouched_ok])

text \<open>An operation that changes a node or a statistic moves the cache generation forward.\<close>

definition tracked :: "pool \<Rightarrow> pool \<Rightarrow> bool" where
  "tracked p q \<longleftrightarrow> plCacheGen p \<le> plCacheGen q \<and>
     (plCacheGen q = plCacheGen p \<longrightarrow> plProxies q = plProxies p \<and> plStats q = plStats p)"

lemma untouched_tracked: "untouched p q \<Longrightarrow> tracked p q"
  by (simp add: untouched_def tracked_def same_nodes_def)

lemma tracked_refl [simp]: "tracked p p"
  by (simp add: tracked_def)

lemma tracked_trans: "tracked p q \<Longrightarrow> tracked q r \<Longrightarrow> tracked p r"
  by (auto simp: tracked_def)

lemma tracked_queue [simp]: "plCacheGen q = plCacheGen p \<Longrightarrow> tracked p (queuePersistenceLocked q)"
  by (simp add: tracked_def)

lemma mutate_cache_gen:
  "mutateProxyLocked k f p = (q, b) \<Longrightarrow> plCacheGen q = plCacheGen p \<and> plStats q = plStats p \<and> (\<not> b \<longrightarrow> q = p)"
  by (auto simp: mutateProxyLocked_def set_proxy_def rebuildProxyIndexLocked_def Let_def split: option.splits)

lemma set_stats_gen [simp]: "plCacheGen (set_stats k st p) = plCacheGen p"
  by (simp add: set_stats_def)

lemma report_tracked:
  "tracked p (RecordResult key ok l p)"
  "tracked p (fst (observeHealthOutcome now key r al l g m p))"
  "tracked p (UpdateLatency key l p)"
  "tracked p (SetAvailable key a p)"
  "tracked p (fst (SetPolicyExcludedAtGeneration key ex hg p))"
  "tracked p (fst (InvalidateHealth url p))"
  "tracked p (fst (updateGeo key e c ci co ch kn g p))"
  "tracked p (fst (UpdateSpeed now key k b d p))"
  by (auto simp: RecordResult_def observeHealthOutcome_def UpdateLatency_def SetAvailable_def
      SetPolicyExcludedAtGeneration_def InvalidateHealth_def updateGeo_def UpdateSpeed_def Let_def
      dest!: mutate_cache_gen split: prod.split bool.split option.split)

lemma credentials_tracked:
  assumes "pool_ok p"
  shows "tracked p (fst (UpdateVerifiedCredentialsAtGeneration key v g p))"
proof -
  let ?same = "\<lambda>px. pxUsername px = pxUsername v \<and> pxPassword px = pxPassword v \<and> pxAlternates px = pxAlternates v"
  let ?f = "\<lambda>px. if ?same px then px
      else px\<lparr>pxUsername := pxUsername v, pxPassword := pxPassword v, pxAlternates := pxAlternates v\<rparr>"
  have ix: "index_ok p" using assms by (simp add: pool_ok_def)
  obtain q b where q: "mutateProxyLocked key ?f p = (q, b)" by (cases "mutateProxyLocked key ?f p") auto
  have "plProxies q = plProxies p" if "\<not> (case Find key p of Some px \<Rightarrow> \<not> ?same px | None \<Rightarrow> False)"
    using that q by (auto simp: mutate_index_ok [OF ix] Find_eq [OF ix] find_find_index split: option.splits)
  with mutate_cache_gen [OF q] show ?thesis
    unfolding UpdateVerifiedCredentialsAtGeneration_def Let_def q
    by (auto simp: tracked_def)
qed

lemma sources_tracked: "tracked p (fst (ApplyEnabledSources ss p))"
proof -
  have "map (retire_proxy ids names) ps = ps" if "length (filter (newly_retired ids names) ps) = 0" for ids names ps
    using that by (intro map_idI) (auto simp: filter_empty_conv newly_retired_def retire_proxy_def)
  then show ?thesis
    by (auto simp: ApplyEnabledSources_def applyEnabledSourcesLocked_def Let_def tracked_def split: prod.split)
qed

lemma update_tracked: "tracked p (fst (update now alive failed filtered ss g p))"
proof -
  have "plCacheGen (fst (refresh_merge now alive failed filtered ss p)) = plCacheGen p"
    by (simp add: refresh_merge_def Let_def split_beta applyEnabledSourcesLocked_def rebuildProxyIndexLocked_def split: option.split)
  moreover have "plCacheGen (refresh_publish n q) = Suc (plCacheGen q)" for n q
    by (simp add: refresh_publish_def Let_def cancelScheduledPersistenceLocked_def)
  ultimately show ?thesis by (auto simp: update_def tracked_def split_beta Let_def)
qed

lemma promote_gen:
  "PromoteCandidateSpeed now unix px ss g kbps b d p = (q, True) \<Longrightarrow> plCacheGen q = Suc (plCacheGen p)"
  by (auto simp: PromoteCandidateSpeed_def Let_def split_beta set_proxy_def rebuildProxyIndexLocked_def
      split: option.splits if_splits)

lemma promote_tracked:
  assumes "pool_ok p"
  shows "tracked p (fst (PromoteCandidateSpeed now unix px ss g kbps b d p))"
proof (cases "proxySourcesEnabled (fst (enabledSourceSets ss)) (snd (enabledSourceSets ss)) px \<and> plHealthGen p = g")
  case True
  then obtain q where "PromoteCandidateSpeed now unix px ss g kbps b d p = (q, True)"
    using promote_shape [OF assms, of ss px g now unix kbps b d] by blast
  with promote_gen [OF this] show ?thesis by (simp add: tracked_def)
next
  case False
  then show ?thesis by (auto simp: PromoteCandidateSpeed_def Let_def split_beta)
qed

lemma apply_op_tracked: "pool_ok p \<Longrightarrow> tracked p (apply_op op p)"
  by (cases op)
    (auto intro: selection_untouched [THEN untouched_tracked] bookkeeping_untouched [THEN untouched_tracked]
      report_tracked credentials_tracked sources_tracked update_tracked promote_tracked)

section \<open>The machine\<close>

datatype flight =
    Idle
  | Deleting "proxy \<Rightarrow> bool" delete_plan
  | Committing int "full_observation list" u64 delete_plan

inductive pool_step :: "pool \<times> flight \<Rightarrow> pool \<times> flight \<Rightarrow> bool" where
  operation: "pool_step (p, fl) (apply_op op p, fl)"
| delete_now: "buildDeletePlanLocked remove requested p = (p1, plan) \<Longrightarrow> dpRemoved plan \<noteq> [] \<Longrightarrow> dpCache plan = None \<Longrightarrow>
    pool_step (p, Idle) (publishDeletePlanLocked plan p1, Idle)"
| delete_plan: "buildDeletePlanLocked remove requested p = (p1, plan) \<Longrightarrow> dpRemoved plan \<noteq> [] \<Longrightarrow> dpCache plan \<noteq> None \<Longrightarrow>
    pool_step (p, Idle) (p1, Deleting remove plan)"
| delete_publish: "plCache p = dpCache plan \<Longrightarrow> plCacheGen p = dpGen plan \<Longrightarrow>
    pool_step (p, Deleting remove plan) (publishDeletePlanLocked plan p, Idle)"
| cycle_now: "plHealthGen p = hg \<Longrightarrow> buildFullHealthCommitPlanLocked now obs p = (p1, plan, n) \<Longrightarrow> n \<noteq> 0 \<Longrightarrow>
    distinct (map foKey obs) \<Longrightarrow> dpCache plan = None \<Longrightarrow>
    pool_step (p, Idle) (publishDeletePlanLocked plan p1, Idle)"
| cycle_plan: "plHealthGen p = hg \<Longrightarrow> buildFullHealthCommitPlanLocked now obs p = (p1, plan, n) \<Longrightarrow> n \<noteq> 0 \<Longrightarrow>
    distinct (map foKey obs) \<Longrightarrow> dpCache plan \<noteq> None \<Longrightarrow>
    pool_step (p, Idle) (p1, Committing now obs hg plan)"
| cycle_publish: "plCache p = dpCache plan \<Longrightarrow> plCacheGen p = dpGen plan \<Longrightarrow> plHealthGen p = hg \<Longrightarrow>
    pool_step (p, Committing now obs hg plan) (publishDeletePlanLocked plan p, Idle)"
| abandon: "pool_step (p, fl) (p, Idle)"

inductive pool_reach :: "pool \<Rightarrow> pool \<times> flight \<Rightarrow> bool" for p0 where
  start: "pool_reach p0 (p0, Idle)"
| step: "pool_reach p0 s \<Longrightarrow> pool_step s t \<Longrightarrow> pool_reach p0 t"

inductive_cases publish_stepE: "pool_step (p, Deleting remove plan) t"

text \<open>
  What the invariant says of the plan in flight: it is sound, and while the cache generation
  is still its own it describes the pool of this moment.
\<close>

definition delete_current :: "(proxy \<Rightarrow> bool) \<Rightarrow> delete_plan \<Rightarrow> pool \<Rightarrow> bool" where
  "delete_current remove plan p \<longleftrightarrow>
     dpProxies plan = filter (\<lambda>px. \<not> remove px) (plProxies p) \<and>
     dpStats plan = (\<lambda>k. if k \<in> px_key ` set (dpProxies plan) then plStats p k else None)"

definition cycle_current :: "full_observation list \<Rightarrow> delete_plan \<Rightarrow> pool \<Rightarrow> bool" where
  "cycle_current obs plan p \<longleftrightarrow>
     (\<forall>k. find (\<lambda>px. px_key px = k) (dpProxies plan) = full_result obs p k)"

fun flight_ok :: "flight \<Rightarrow> pool \<Rightarrow> bool" where
  "flight_ok Idle p = True"
| "flight_ok (Deleting remove plan) p \<longleftrightarrow> plan_sound plan \<and> dpGen plan \<le> plCacheGen p \<and>
     (plCacheGen p = dpGen plan \<longrightarrow> delete_current remove plan p)"
| "flight_ok (Committing now obs hg plan) p \<longleftrightarrow> plan_sound plan \<and> dpGen plan \<le> plCacheGen p \<and>
     (plCacheGen p = dpGen plan \<longrightarrow> cycle_current obs plan p)"

definition machine_ok :: "pool \<times> flight \<Rightarrow> bool" where
  "machine_ok s \<longleftrightarrow> pool_ok (fst s) \<and> flight_ok (snd s) (fst s)"

lemma full_result_cong:
  "plProxies p = plProxies q \<Longrightarrow> plStats p = plStats q \<Longrightarrow> full_result obs p k = full_result obs q k"
  by (simp add: full_result_def cong: option.case_cong if_cong)

lemma flight_tracked:
  assumes "flight_ok fl p" "tracked p q"
  shows "flight_ok fl q"
proof (cases fl)
  case (Deleting remove plan)
  with assms show ?thesis by (auto simp: tracked_def delete_current_def)
next
  case (Committing now obs hg plan)
  have "cycle_current obs plan q" if "plCacheGen q = dpGen plan"
  proof -
    have g: "plCacheGen q = plCacheGen p" using assms Committing that by (simp add: tracked_def)
    then have "full_result obs p k = full_result obs q k" for k
      using assms(2) by (intro full_result_cong) (simp_all add: tracked_def)
    then show ?thesis using assms(1) Committing that g by (simp add: cycle_current_def)
  qed
  with assms Committing show ?thesis by (auto simp: tracked_def)
qed simp

lemma plan_sound_publish: "plan_sound plan \<Longrightarrow> machine_ok (publishDeletePlanLocked plan p, Idle)"
  by (simp add: machine_ok_def publish_ok)

lemma machine_step: "pool_step s t \<Longrightarrow> machine_ok s \<Longrightarrow> machine_ok t"
proof (induction rule: pool_step.induct)
  case (operation p fl op)
  then show ?case
    by (auto simp: machine_ok_def intro: apply_op_ok flight_tracked apply_op_tracked)
next
  case (delete_now remove requested p p1 plan)
  then show ?case using build_delete_sound [of remove requested p p1 plan] by (simp add: machine_ok_def publish_ok)
next
  case (delete_plan remove requested p p1 plan)
  note b = build_delete_cases [OF delete_plan(1)]
  have "pool_ok p1" using b delete_plan by (simp add: machine_ok_def pool_ok_cong [of p1 p])
  moreover have "plan_sound plan" using build_delete_sound [OF delete_plan(1)] delete_plan by (simp add: machine_ok_def)
  ultimately show ?case using b delete_plan(2,3) by (simp add: machine_ok_def delete_current_def cong: if_cong)
next
  case (cycle_now p hg now obs p1 plan n)
  then show ?case using build_full_spec [of now obs p p1 plan n] by (simp add: machine_ok_def publish_ok)
next
  case (cycle_plan p hg now obs p1 plan n)
  have ok: "pool_ok p" using cycle_plan by (simp add: machine_ok_def)
  note b = build_full_spec [OF cycle_plan(2,4) ok]
  note l = live_partD [OF conjunct1 [OF b]]
  have "pool_ok p1" using l ok by (simp add: pool_ok_cong [of p1 p])
  moreover have "cycle_current obs plan p1"
    using b cycle_plan(3) full_result_cong [of p1 p obs] l by (simp add: cycle_current_def)
  ultimately show ?case using b cycle_plan(3,5) by (simp add: machine_ok_def)
qed (auto simp: machine_ok_def publish_ok)

lemma machine_reach: "pool_reach p0 s \<Longrightarrow> pool_ok p0 \<Longrightarrow> machine_ok s"
proof (induction rule: pool_reach.induct)
  case start
  then show ?case by (simp add: machine_ok_def)
next
  case (step s t)
  then show ?case using machine_step by blast
qed

section \<open>Properties\<close>

text \<open>
  C17: Every pool that the operations of pool.go can reach, in any order, interleaved with
  deletions and exhaustive cycles in any phase, is well formed: keys are unique and the index
  finds exactly the node of a key; an available node is neither retired, excluded by policy nor
  invalidated; and a node that failed terminally is not available until its state is cleared.
\<close>

theorem reachable_pool_ok:
  assumes "pool_reach p0 (p, fl)" "pool_ok p0"
  shows "distinct (map px_key (plProxies p)) \<and>
    Find k p = find (\<lambda>px. px_key px = k) (plProxies p) \<and>
    (\<forall>px\<in>set (plProxies p). (pxAvailable px \<longrightarrow> proxyHardRoutable px) \<and>
       (\<forall>st. plStats p (px_key px) = Some st \<longrightarrow> nsTerminal st \<longrightarrow> \<not> pxAvailable px))"
proof -
  have ok: "pool_ok p" using machine_reach [OF assms] by (simp add: machine_ok_def)
  then show ?thesis
    by (auto simp: pool_ok_def Find_eq proxy_sound_def split: option.splits)
qed

text \<open>
  No update is lost by a deletion. However other operations interleave while the file of
  a deletion is written, the step that ends it either leaves the pool as it is or publishes the
  pool of that moment less the selected nodes, with the statistics of that moment, and the
  result is well formed.
\<close>

theorem delete_no_lost_update:
  assumes "pool_reach p0 (p, Deleting remove plan)" "pool_ok p0"
    and "pool_step (p, Deleting remove plan) (q, Idle)"
  shows "q = p \<or> plProxies q = filter (\<lambda>px. \<not> remove px) (plProxies p) \<and> pool_ok q \<and>
    (\<forall>px\<in>set (plProxies q). plStats q (px_key px) = plStats p (px_key px))"
proof -
  have m: "machine_ok (p, Deleting remove plan)" by (rule machine_reach [OF assms(1,2)])
  from assms(3) consider "q = p" | "plCacheGen p = dpGen plan" "q = publishDeletePlanLocked plan p"
    by (auto elim!: publish_stepE)
  then show ?thesis
    by cases (use m in \<open>simp_all add: machine_ok_def delete_current_def publish_ok\<close>)
qed

text \<open>
  The selection cursors are not covered by the cache generation: a manual switch that was
  confirmed to the operator while a deletion writes its file is undone by the publication,
  although the chosen node survives it.
\<close>

definition persisted_pool :: pool where
  "persisted_pool = live_pool\<lparr>plCache := Some 0\<rparr>"

definition drop_a :: "proxy \<Rightarrow> bool" where
  "drop_a px \<longleftrightarrow> px_key px = ''http://a.example:80''"

lemma persisted_facts:
  "pool_ok persisted_pool" "plProxies persisted_pool = [live_node ''a.example'', live_node ''b.example'']"
  "plGroups persisted_pool = Map.empty" "plCache persisted_pool = Some 0"
proof -
  show "pool_ok persisted_pool"
    using live_pool_ok by (simp add: persisted_pool_def pool_ok_def index_ok_def)
  show "plProxies persisted_pool = [live_node ''a.example'', live_node ''b.example'']"
    by (simp add: persisted_pool_def live_nodes)
  show "plGroups persisted_pool = Map.empty" "plCache persisted_pool = Some 0"
    by (simp_all add: persisted_pool_def live_pool_def rebuildProxyIndexLocked_def NewProxyPool_def)
qed

lemma persisted_delete:
  "\<exists>p1 plan. buildDeletePlanLocked drop_a [] persisted_pool = (p1, plan) \<and>
     pool_reach persisted_pool (p1, Deleting drop_a plan) \<and> plProxies p1 = plProxies persisted_pool \<and> pool_ok p1 \<and>
     plCache p1 = dpCache plan \<and> plCacheGen p1 = dpGen plan \<and> dpGroups plan = Map.empty \<and>
     dpProxies plan = [live_node ''b.example'']"
proof -
  obtain p1 plan where b: "buildDeletePlanLocked drop_a [] persisted_pool = (p1, plan)"
    by (cases "buildDeletePlanLocked drop_a [] persisted_pool")
  note B = build_delete_cases [OF b]
  have r: "dpRemoved plan \<noteq> []" using B by (simp add: persisted_facts drop_a_def live_keys)
  have s: "pool_reach persisted_pool (p1, Deleting drop_a plan)"
    by (rule pool_reach.step [OF pool_reach.start pool_step.delete_plan [OF b r]]) (use B persisted_facts in simp)
  have ok: "pool_ok p1" using machine_reach [OF s persisted_facts(1)] by (simp add: machine_ok_def)
  have "dpGroups plan = Map.empty" using B r by (simp add: persisted_facts cleanedGroupState_def fun_eq_iff)
  with B r b s ok show ?thesis
    by (intro exI [of _ p1] exI [of _ plan]) (simp add: persisted_facts drop_a_def live_keys)
qed

theorem force_sticky_lost:
  "\<exists>p plan p' q. pool_reach persisted_pool (p, Deleting drop_a plan) \<and>
     forceSticky ''g1'' ''http://b.example:80'' p = (p', ForceStickyOK) \<and> IsPinned ''g1'' p' \<and>
     pool_step (p', Deleting drop_a plan) (q, Idle) \<and>
     Find ''http://b.example:80'' q \<noteq> None \<and> \<not> IsPinned ''g1'' q"
proof -
  from persisted_delete obtain p plan where p: "pool_reach persisted_pool (p, Deleting drop_a plan)"
    "plProxies p = [live_node ''a.example'', live_node ''b.example'']" "pool_ok p"
    "plCache p = dpCache plan" "plCacheGen p = dpGen plan" "dpGroups plan = Map.empty"
    "dpProxies plan = [live_node ''b.example'']"
    by (auto simp: persisted_facts)
  have ix: "index_ok p" using p by (simp add: pool_ok_def)
  define p' where "p' = fst (forceSticky ''g1'' ''http://b.example:80'' p)"
  have f: "forceSticky ''g1'' ''http://b.example:80'' p = (p', ForceStickyOK)"
    by (simp add: p'_def forceSticky_def lookup_index_ok [OF ix] p live_keys)
  have g: "IsPinned ''g1'' p'" "plCache p' = plCache p" "plCacheGen p' = plCacheGen p"
    by (simp_all add: p'_def forceSticky_def lookup_index_ok [OF ix] p live_keys IsPinned_def stick_to_def
        set_cursor_def Let_def)
  have s: "pool_step (p', Deleting drop_a plan) (publishDeletePlanLocked plan p', Idle)"
    by (rule pool_step.delete_publish) (simp_all add: g p)
  have "index_ok (publishDeletePlanLocked plan p')" by (simp add: index_ok_def build_index_eq)
  then have "Find ''http://b.example:80'' (publishDeletePlanLocked plan p') \<noteq> None"
    by (simp add: Find_eq p live_keys)
  with p(1) f g(1) s show ?thesis
    by (intro exI conjI) (assumption+, simp add: IsPinned_def p)
qed

section \<open>Witnesses\<close>

theorem reachable_pool_ok_witness:
  "distinct (map px_key (plProxies (RecordResult ''k'' True 5 persisted_pool)))"
proof -
  have "pool_reach persisted_pool (apply_op (OpRecordResult ''k'' True 5) persisted_pool, Idle)"
    by (rule pool_reach.step [OF pool_reach.start pool_step.operation])
  from reachable_pool_ok [OF this persisted_facts(1)] show ?thesis by simp
qed

theorem delete_no_lost_update_witness:
  "\<exists>p plan q. pool_step (p, Deleting drop_a plan) (q, Idle) \<and> plProxies q = [live_node ''b.example''] \<and> pool_ok q"
proof -
  from persisted_delete obtain p plan where p: "pool_reach persisted_pool (p, Deleting drop_a plan)"
    "plProxies p = [live_node ''a.example'', live_node ''b.example'']"
    "plCache p = dpCache plan" "plCacheGen p = dpGen plan" "dpProxies plan = [live_node ''b.example'']"
    by (auto simp: persisted_facts)
  have s: "pool_step (p, Deleting drop_a plan) (publishDeletePlanLocked plan p, Idle)"
    by (rule pool_step.delete_publish) (simp_all add: p)
  have ne: "publishDeletePlanLocked plan p \<noteq> p"
  proof
    assume "publishDeletePlanLocked plan p = p"
    from arg_cong [OF this, of "\<lambda>x. length (plProxies x)"] show False by (simp add: p)
  qed
  from delete_no_lost_update [OF p(1) persisted_facts(1) s] ne p s show ?thesis
    by (intro exI conjI) (assumption, simp_all add: drop_a_def live_keys)
qed

end
