(* ===== verification/SocksServe.thy ===== *)
theory SocksServe
  imports SocksDial PoolReach ConfigStore
begin

text \<open>
  handleConn of server.go: one client connection from the greeting to the relay. The store's
  rules and groups, the listener's policy and the pool meet here: the host is matched to a
  group, up to three upstreams of the group are tried, and the outcome of each dial is
  reported to the pool unless the server has been shut down.
\<close>

section \<open>Listener policy\<close>

record route_policy =
  rpMode :: string
  rpDirect :: bool
  rpTarget :: string
  rpGroup :: group



definition effectiveListenerGroup :: "route_policy \<Rightarrow> group list \<Rightarrow> group" where
  "effectiveListenerGroup policy groups =
     (if rpMode policy \<noteq> ListenerModeGroup \<or> rpTarget policy = [] then rpGroup policy
      else
        (case find (\<lambda>g. grName g = rpTarget policy \<or> grID g = rpTarget policy) groups of
           Some g \<Rightarrow> g\<lparr>grID := grID (rpGroup policy), grName := grName (rpGroup policy)\<rparr>
         | None \<Rightarrow> rpGroup policy))"

text \<open>The group to use, the groups to resolve it in, and whether ANY may step in.\<close>

definition route_of :: "route_policy option \<Rightarrow> string \<Rightarrow> group list \<Rightarrow> string \<times> group list \<times> bool" where
  "route_of policy name groups =
     (case policy of
        None \<Rightarrow> (name, groups, True)
      | Some pol \<Rightarrow>
          if rpMode pol = ListenerModeRules then (name, groups, True)
          else if rpDirect pol then (GroupDirect, groups, False)
          else let g = effectiveListenerGroup pol groups in (grName g, groups @ [g], False))"

section \<open>Direct dials\<close>

text \<open>What the error chain of a failed direct dial contains; a DNS error knows if it timed out.\<close>

record os_error =
  oeRefused :: bool
  oeNetUnreach :: bool
  oeHostUnreach :: bool
  oeDNS :: "bool option"
  oeTimeout :: bool
  oeUnsupported :: bool

definition directDialErrorReply :: "os_error \<Rightarrow> u8" where
  "directDialErrorReply e =
     (if oeRefused e then replyConnectionRefused
      else if oeNetUnreach e then replyNetworkUnreachable
      else if oeHostUnreach e then replyHostUnreachable
      else case oeDNS e of
          Some timeout \<Rightarrow> if timeout then replyTTLExpired else replyHostUnreachable
        | None \<Rightarrow>
            if oeTimeout e then replyTTLExpired
            else if oeUnsupported e then replyAddressTypeNotSupported
            else replyGeneralFailure)"

section \<open>Upstream attempts\<close>

text \<open>
  What surrounds the attempts. The index is the attempt: \<open>sePick\<close> and \<open>seDraw\<close> belong to the
  pick, \<open>seBefore\<close>, \<open>seDuring\<close> and \<open>seMid\<close> are the other goroutines before the health generation
  is read, during the dial and between the two reports, \<open>seDial\<close> is the dial over the declared
  logins, \<open>seStop\<close> whether the server is shutting down when the result is committed.
\<close>

record serve_env =
  sePick :: "nat \<Rightarrow> nat \<Rightarrow> pool \<Rightarrow> pool"
  seDraw :: "nat \<Rightarrow> nat \<Rightarrow> nat"
  seBefore :: "nat \<Rightarrow> pool \<Rightarrow> pool"
  seDuring :: "nat \<Rightarrow> pool \<Rightarrow> pool"
  seMid :: "nat \<Rightarrow> pool \<Rightarrow> pool"
  seDial :: "nat \<Rightarrow> proxy \<Rightarrow> string \<Rightarrow> (dial_error + unit) \<times> proxy"
  seStop :: "nat \<Rightarrow> bool"
  seLatency :: "nat \<Rightarrow> int"
  seNow :: "nat \<Rightarrow> int"
  seDirect :: "string \<Rightarrow> os_error option"
  seDirectStop :: bool
  seBound :: "(u8 list \<times> int) option"
  seDeadline :: "nat \<Rightarrow> bool"

datatype route_outcome =
    RouteDropped
  | RouteReply u8
  | RouteStopped
  | RouteDirect
  | RouteVia proxy

definition maxRetries :: nat where
  "maxRetries = 3"

text \<open>The two commits of a finished dial.\<close>

definition commit_failure :: "(pool \<Rightarrow> pool) \<Rightarrow> int \<Rightarrow> proxy \<Rightarrow> dial_error \<Rightarrow> u64 \<Rightarrow> pool \<Rightarrow> pool" where
  "commit_failure mid now up e hg p =
     (if upstreamFailureAffectsHealth e
      then fst (observeHealthOutcome now (px_key up) False False 0 (Some hg) False (mid (RecordResult (px_key up) False 0 p)))
      else p)"

definition commit_success :: "(pool \<Rightarrow> pool) \<Rightarrow> proxy \<Rightarrow> proxy \<Rightarrow> int \<Rightarrow> u64 \<Rightarrow> pool \<Rightarrow> pool" where
  "commit_success mid up verified latency hg p =
     RecordResult (px_key up) True latency (mid (fst (UpdateVerifiedCredentialsAtGeneration (px_key up) verified hg p)))"

text \<open>\<open>n\<close> attempts are left; the last component lists the upstreams that were dialled.\<close>

fun route_attempts ::
    "serve_env \<Rightarrow> bool \<Rightarrow> group list \<Rightarrow> string \<Rightarrow> nat \<Rightarrow> nat \<Rightarrow> string \<Rightarrow> string set \<Rightarrow> pool \<Rightarrow>
     pool \<times> route_outcome \<times> proxy list" where
  "route_attempts e allowAny groups target 0 i name exclude p = (p, RouteReply replyGeneralFailure, [])"
| "route_attempts e allowAny groups target (Suc n) i name exclude p =
     (case pick (sePick e i) (seDraw e i) name groups exclude p of
        (p1, Picked up) \<Rightarrow>
          if \<not> allowAny \<and> \<not> pxAvailable up then (p1, RouteReply replyGeneralFailure, [])
          else
            let p2 = seBefore e i p1;
                hg = plHealthGen p2;
                p3 = seDuring e i p2
            in (case seDial e i up target of
                  (Inl err, _) \<Rightarrow>
                    if seStop e i then (p3, RouteStopped, [up])
                    else
                      (case route_attempts e allowAny groups target n (i + 1) name (insert (px_key up) exclude)
                              (commit_failure (seMid e i) (seNow e i) up err hg p3) of
                         (q, out, tries) \<Rightarrow> (q, out, up # tries))
                | (Inr _, verified) \<Rightarrow>
                    if seStop e i then (p3, RouteStopped, [up])
                    else (commit_success (seMid e i) up verified (seLatency e i) hg p3, RouteVia verified, [up]))
      | (p1, _) \<Rightarrow>
          if allowAny \<and> name \<noteq> GroupAny
          then route_attempts e allowAny groups target n (i + 1) GroupAny exclude p1
          else (p1, RouteReply replyGeneralFailure, []))"

section \<open>One connection\<close>

definition route_request ::
    "serve_env \<Rightarrow> route_policy option \<Rightarrow> rule list \<Rightarrow> group list \<Rightarrow> string \<Rightarrow> pool \<Rightarrow>
     pool \<times> route_outcome \<times> proxy list" where
  "route_request e policy rules groups target p =
     (case split_host_port target of
        None \<Rightarrow> (p, RouteReply replyHostUnreachable, [])
      | Some (host, _) \<Rightarrow>
          (case route_of policy (MatchGroup rules host) groups of
             (name, groups', allowAny) \<Rightarrow>
               if name = GroupDirect then
                 (case seDirect e target of
                    Some err \<Rightarrow> (p, if seDirectStop e then RouteStopped else RouteReply (directDialErrorReply err), [])
                  | None \<Rightarrow> (p, if seDirectStop e then RouteStopped else RouteDirect, []))
               else route_attempts e allowAny groups' target maxRetries 0 name {} p))"

text \<open>The bytes that the outcome puts on the wire before the relay starts or the connection closes.\<close>

definition finish_conn :: "serve_env \<Rightarrow> route_outcome \<Rightarrow> conn \<Rightarrow> conn" where
  "finish_conn e out c =
     (case out of
        RouteReply status \<Rightarrow> sendReply status None c
      | RouteDirect \<Rightarrow> sendReply replySucceeded (seBound e) c
      | RouteVia _ \<Rightarrow> sendReply replySucceeded (seBound e) c
      | _ \<Rightarrow> c)"

definition handleConn ::
    "(u8 list \<Rightarrow> u8 list) \<Rightarrow> string \<Rightarrow> string \<Rightarrow> serve_env \<Rightarrow> route_policy option \<Rightarrow> rule list \<Rightarrow> group list \<Rightarrow>
     conn \<Rightarrow> pool \<Rightarrow> conn \<times> pool \<times> route_outcome \<times> proxy list" where
  "handleConn digest user pass e policy rules groups c p =
     (if \<not> seDeadline e 0 then (c, p, RouteDropped, [])
      else
        (case negotiate digest user pass c of
           (c1, False) \<Rightarrow> (c1, p, RouteDropped, [])
         | (c1, True) \<Rightarrow>
             (case readConnectRequest c1 of
                (c2, status, None) \<Rightarrow>
                  (if status \<noteq> 0 then (sendReply status None c2, p, RouteReply status, []) else (c2, p, RouteDropped, []))
              | (c2, status, Some target) \<Rightarrow>
                  if \<not> seDeadline e 1 then (c2, p, RouteDropped, [])
                  else
                    (case route_request e policy rules groups target p of
                       (p', out, tries) \<Rightarrow> (finish_conn e out c2, p', out, tries)))))"

section \<open>Which upstreams are dialled\<close>

definition canonical_name :: "string \<Rightarrow> group list \<Rightarrow> string" where
  "canonical_name name groups =
     (case resolveGroupReference name groups of Some r \<Rightarrow> rrCanonical r | None \<Rightarrow> name)"

lemma picked_facts:
  "pick env draw name groups exclude p = (p', Picked px) \<Longrightarrow>
   proxyHardRoutable px \<and> px_key px \<notin> exclude \<and> selector_matches (newPoolGroupSelector (canonical_name name groups) groups) px"
  using pick_picked [of env draw name groups exclude p p' px] by (auto simp: canonical_name_def)

lemma route_attempts_tries:
  assumes "route_attempts e allowAny groups target n i name exclude p = (q, out, tries)"
  shows "length tries \<le> n \<and> distinct (map px_key tries) \<and> px_key ` set tries \<inter> exclude = {} \<and>
    (\<forall>up\<in>set tries. proxyHardRoutable up) \<and>
    (\<not> allowAny \<longrightarrow> (\<forall>up\<in>set tries. pxAvailable up \<and>
       selector_matches (newPoolGroupSelector (canonical_name name groups) groups) up)) \<and>
    (\<forall>v. out = RouteVia v \<longrightarrow> tries \<noteq> [] \<and> (\<exists>j. seDial e j (last tries) target = (Inr (), v))) \<and>
    out \<noteq> RouteDirect \<and> out \<noteq> RouteDropped"
  using assms
proof (induction n arbitrary: i name exclude p q out tries)
  case (Suc n)
  obtain p1 r where pk: "pick (sePick e i) (seDraw e i) name groups exclude p = (p1, r)"
    by (cases "pick (sePick e i) (seDraw e i) name groups exclude p")
  consider (up) up where "r = Picked up" | (none) "r = NoProxy \<or> r = Direct" by (cases r) auto
  then show ?case
  proof cases
    case none
    show ?thesis
    proof (cases "allowAny \<and> name \<noteq> GroupAny")
      case True
      then have "route_attempts e allowAny groups target n (i + 1) GroupAny exclude p1 = (q, out, tries)"
        using Suc.prems none pk by auto
      from Suc.IH [OF this] True show ?thesis by auto
    next
      case False
      then show ?thesis using Suc.prems none pk by (auto split: if_splits)
    qed
  next
    case up
    note f = picked_facts [OF pk [unfolded up]]
    show ?thesis
    proof (cases "\<not> allowAny \<and> \<not> pxAvailable up")
      case True
      then show ?thesis using Suc.prems up pk by auto
    next
      case avail: False
      let ?p2 = "seBefore e i p1"
      let ?hg = "plHealthGen ?p2" and ?p3 = "seDuring e i ?p2"
      obtain dr verified where d: "seDial e i up target = (dr, verified)" by (cases "seDial e i up target")
      show ?thesis
      proof (cases "seStop e i")
        case True
        then have "tries = [up]" "out = RouteStopped"
          using Suc.prems up pk avail d by (auto simp: Let_def split: sum.splits)
        with f avail show ?thesis by auto
      next
        case go: False
        show ?thesis
        proof (cases dr)
          case (Inr u)
          then have "tries = [up]" "out = RouteVia verified"
            using Suc.prems up pk avail d go by (auto simp: Let_def)
          with f avail d Inr show ?thesis by auto
        next
          case (Inl err)
          let ?p4 = "commit_failure (seMid e i) (seNow e i) up err ?hg ?p3"
          obtain q' o' t' where rec: "route_attempts e allowAny groups target n (i + 1) name (insert (px_key up) exclude) ?p4 = (q', o', t')"
            by (cases "route_attempts e allowAny groups target n (i + 1) name (insert (px_key up) exclude) ?p4") auto
          then have "out = o'" "tries = up # t'"
            using Suc.prems up pk avail d go Inl by (auto simp: Let_def)
          with Suc.IH [OF rec] f avail show ?thesis by auto
        qed
      qed
    qed
  qed
qed auto

text \<open>
  However the pool changes underneath, one CONNECT request dials at most three upstreams,
  no endpoint twice, none that is retired, invalidated or excluded by policy, and reports
  success only for a login that a dial of this request has established.
\<close>

theorem route_request_tries:
  assumes "route_request e policy rules groups target p = (q, out, tries)"
  shows "length tries \<le> 3 \<and> distinct (map px_key tries) \<and> (\<forall>up\<in>set tries. proxyHardRoutable up) \<and>
    (\<forall>v. out = RouteVia v \<longrightarrow> tries \<noteq> [] \<and> (\<exists>j. seDial e j (last tries) target = (Inr (), v)))"
proof -
  have "\<exists>n allowAny groups' name. n \<le> 3 \<and> (tries = [] \<and> (\<forall>v. out \<noteq> RouteVia v) \<or>
      route_attempts e allowAny groups' target n 0 name {} p = (q, out, tries))"
    using assms by (fastforce simp: route_request_def maxRetries_def split: option.splits prod.splits if_splits)
  then obtain n allowAny groups' name where n: "n \<le> 3" "tries = [] \<and> (\<forall>v. out \<noteq> RouteVia v) \<or>
      route_attempts e allowAny groups' target n 0 name {} p = (q, out, tries)" by blast
  from n(2) show ?thesis
  proof
    assume "route_attempts e allowAny groups' target n 0 name {} p = (q, out, tries)"
    from route_attempts_tries [OF this] n(1) show ?thesis by auto
  qed simp
qed


section \<open>What a failed dial does to the pool\<close>

lemma RecordResult_fields [simp]:
  "plProxies (RecordResult key ok l p) = plProxies p" "plHealthGen (RecordResult key ok l p) = plHealthGen p"
  "plIndex (RecordResult key ok l p) = plIndex p"
  by (simp_all add: RecordResult_def set_stats_def Let_def)

lemma observe_failure:
  assumes "pool_ok p" "plHealthGen p = g" "Find key p = Some px"
  shows "Find key (fst (observeHealthOutcome now key False al l (Some g) m p)) = Some (observe_failed_proxy px)"
proof -
  have ix: "index_ok p" using assms(1) by (simp add: pool_ok_def)
  then obtain i where i: "key_index key (plProxies p) = Some i" "px = plProxies p ! i"
    using assms(3) by (auto simp: Find_eq find_find_index)
  let ?q = "fst (observeHealthOutcome now key False al l (Some g) m p)"
  have "plProxies ?q = (plProxies p)[i := observe_failed_proxy px]"
    using assms(2) i by (simp add: observeHealthOutcome_def mutate_index_ok [OF ix] set_stats_def Let_def)
  moreover have "index_ok ?q" using observe_ok [OF assms(1)] by (simp add: pool_ok_def)
  moreover have "px_key (observe_failed_proxy px) = key" using find_index_SomeD [OF i(1)] i(2) by simp
  ultimately show ?thesis
    using find_update_key [of "plProxies p" key i "observe_failed_proxy px" key] assms(1) i(1)
    by (simp add: Find_eq pool_ok_def)
qed

text \<open>
  A failed dial costs a node its place exactly when the node itself is at fault. If the
  connect, the authentication or the protocol with the upstream failed under the current health
  generation, the node is unavailable and not routable afterwards; if the upstream refused the
  target, or the dial was cancelled, the pool is exactly as before; and a report of an older
  generation leaves every node as it was.
\<close>

theorem commit_failure_spec:
  assumes "pool_ok p" "Find (px_key up) p = Some px" "q = commit_failure id now up err hg p"
  shows "pool_ok q \<and>
    (if \<not> upstreamFailureAffectsHealth err then q = p
     else if plHealthGen p \<noteq> hg then plProxies q = plProxies p
     else \<exists>px'. Find (px_key up) q = Some px' \<and> \<not> pxAvailable px' \<and> \<not> proxyHardRoutable px')"
proof -
  let ?r = "RecordResult (px_key up) False 0 p"
  have ok: "pool_ok ?r" using assms(1) by blast
  have f: "Find (px_key up) ?r = Some px"
    using assms(1,2) ok by (simp add: Find_eq pool_ok_def)
  show ?thesis
  proof (cases "upstreamFailureAffectsHealth err \<and> plHealthGen p = hg")
    case True
    then have "q = fst (observeHealthOutcome now (px_key up) False False 0 (Some hg) False ?r)"
      using assms(3) by (simp add: commit_failure_def)
    with observe_failure [OF ok _ f, of hg now False 0 False] observe_ok [OF ok] True show ?thesis
      by (auto simp: observe_failed_proxy_def proxyHardRoutable_def)
  next
    case False
    with assms ok show ?thesis by (auto simp: commit_failure_def observeHealthOutcome_def)
  qed
qed

text \<open>
  The fallback to ANY uses up one of the three attempts. When a group has lost its last usable
  member only at the third attempt, the fallback is taken, but nothing is dialled any more: the
  request fails although ANY may have a healthy node.
\<close>

theorem fallback_on_last_attempt:
  assumes "pick (sePick e 2) (seDraw e 2) name groups exclude p = (p1, NoProxy)" "name \<noteq> GroupAny"
  shows "route_attempts e True groups target 1 2 name exclude p = (p1, RouteReply replyGeneralFailure, [])"
  using assms by (simp add: numeral_2_eq_2)

section \<open>A whole connection\<close>

lemma finish_conn_in: "cnIn (finish_conn e out c) = cnIn c"
  using writeFull_spec [of _ c] by (auto simp: finish_conn_def sendReply_def split: route_outcome.split) (metis prod.collapse)+

text \<open>
  C18: Nobody is relayed through a listener with credentials who has not presented them. If a
  connection ends in a relay, the bytes the client sent are a greeting that offers
  username/password authentication, the configured user and password, one CONNECT frame, and
  the payload, which is still unread; the pool and the upstreams tried are those of the routing
  of that target alone; and when no write fails, the answers on the wire are the two acceptances
  and one success reply.
\<close>

theorem relayed_is_authenticated:
  assumes "handleConn digest user pass e policy rules groups c p = (c', p', out, tries)"
    and "out = RouteDirect \<or> out = RouteVia v" "user \<noteq> [] \<or> pass \<noteq> []"
    and "collision_free digest user" "collision_free digest pass"
  shows "\<exists>g d port. greeting_frame socks5UsernamePassword g \<and> dest_ok d \<and> 0 < port \<and> port < 65536 \<and>
    cnIn c = g @ auth_frame user pass @ dest_frame d port @ cnIn c' \<and>
    route_request e policy rules groups (dest_target d port) p = (p', out, tries) \<and>
    (cnWrites c = [] \<longrightarrow> cnOut c' = cnOut c @ server_bytes (seBound e))"
proof -
  from assms(1,2) obtain c1 c2 status target where
    n: "negotiate digest user pass c = (c1, True)" and r: "readConnectRequest c1 = (c2, status, Some target)"
    and q: "route_request e policy rules groups target p = (p', out, tries)" and c': "c' = finish_conn e out c2"
    by (auto simp: handleConn_def split: if_splits prod.splits bool.splits option.splits)
  note N = negotiate_True [OF n assms(3-5)]
  from readConnectRequest_Some [OF r] obtain d port where d: "dest_ok d" "0 < port" "port < 65536"
    "cnIn c1 = dest_frame d port @ cnIn c2" "target = dest_target d port" "c2 = c1\<lparr>cnIn := cnIn c2\<rparr>" by blast
  have "cnIn c' = cnIn c2" by (simp add: c' finish_conn_in)
  moreover have "cnOut c' = cnOut c @ server_bytes (seBound e)" if w: "cnWrites c = []"
  proof -
    have "cnWrites c1 = []"
      using n w assms(3) negotiate_writes [where c = c and digest = digest and user = user and pass = pass] by simp
    then have "cnWrites c2 = []" "cnOut c2 = cnOut c1"
      using d(6) by (metis conn.select_convs conn.surjective conn.update_convs(1))+
    then have "cnOut c' = cnOut c1 @ reply_bytes replySucceeded (seBound e)"
      using assms(2) by (auto simp: c' finish_conn_def sendReply_def)
    with N show ?thesis by (simp add: server_bytes_def)
  qed
  ultimately show ?thesis using N d q by auto
qed

section \<open>Witnesses\<close>

definition calm :: serve_env where
  "calm = \<lparr>sePick = (\<lambda>_. quiet), seDraw = (\<lambda>_ _. 0), seBefore = (\<lambda>_. id), seDuring = (\<lambda>_. id), seMid = (\<lambda>_. id),
     seDial = (\<lambda>_ up _. (Inr (), up)), seStop = (\<lambda>_. False), seLatency = (\<lambda>_. 7), seNow = (\<lambda>_. 9),
     seDirect = (\<lambda>_. None), seDirectStop = False, seBound = None, seDeadline = (\<lambda>_. True)\<rparr>"

lemma calm_route:
  "\<exists>q. route_request calm None [] [] (dest_target (D4 [1, 2, 3, 4]) 80) live_pool =
     (q, RouteVia (live_node ''a.example''), [live_node ''a.example''])"
proof -
  obtain p1 where "pick quiet (\<lambda>_. 0) ''ANY'' [] {} live_pool = (p1, Picked (live_node ''a.example''))"
    using live_pick by blast
  then show ?thesis
    by (simp add: route_request_def split_dest_target route_of_def MatchGroup_def Let_def maxRetries_def calm_def
        eval_nat_numeral)
qed

theorem route_request_tries_witness:
  "\<exists>q. route_request calm None [] [] (dest_target (D4 [1, 2, 3, 4]) 80) live_pool =
     (q, RouteVia (live_node ''a.example''), [live_node ''a.example'']) \<and> proxyHardRoutable (live_node ''a.example'')"
proof -
  obtain q where q: "route_request calm None [] [] (dest_target (D4 [1, 2, 3, 4]) 80) live_pool =
     (q, RouteVia (live_node ''a.example''), [live_node ''a.example''])" using calm_route by blast
  from route_request_tries [OF q] q show ?thesis by auto
qed

definition port_policy :: route_policy where
  "port_policy = \<lparr>rpMode = ListenerModeGroup, rpDirect = False, rpTarget = ''JP'', rpGroup = rr_group\<lparr>grID := ''listener:1'', grName := ''listener:1''\<rparr>\<rparr>"


theorem commit_failure_spec_witness:
  "\<exists>px'. Find (px_key (live_node ''a.example''))
      (commit_failure id 5 (live_node ''a.example'') (UpstreamError UpstreamErrorConnect) 0 live_pool) = Some px' \<and> \<not> pxAvailable px'"
proof -
  have ix: "index_ok live_pool" using live_pool_ok by (simp add: pool_ok_def)
  have f: "Find (px_key (live_node ''a.example'')) live_pool = Some (live_node ''a.example'')"
    by (simp add: Find_eq [OF ix] live_nodes)
  have "plHealthGen live_pool = 0" by (simp add: live_pool_def rebuildProxyIndexLocked_def NewProxyPool_def)
  with commit_failure_spec [OF live_pool_ok f refl, of 5 "UpstreamError UpstreamErrorConnect" 0] show ?thesis
    by (auto simp: upstreamFailureAffectsHealth_def)
qed

definition full_stream :: conn where
  "full_stream = \<lparr>cnIn = [5, 1, 2, 1, 1, 117, 1, 112] @ dest_frame (D4 [1, 2, 3, 4]) 80 @ [71], cnOut = [], cnWrites = []\<rparr>"

theorem relayed_is_authenticated_witness:
  "\<exists>c'. fst (handleConn id ''u'' ''p'' calm None [] [] full_stream live_pool) = c' \<and> cnOut c' = server_bytes None"
proof -
  let ?mid = "\<lparr>cnIn = dest_frame (D4 [1, 2, 3, 4]) 80 @ [71], cnOut = [5, 2, 1, 0], cnWrites = []\<rparr>"
  have n: "negotiate id ''u'' ''p'' full_stream = (?mid, True)"
    by (simp add: full_stream_def dest_frame_def) code_simp
  have r: "readConnectRequest ?mid = (?mid\<lparr>cnIn := [71]\<rparr>, 0, Some (dest_target (D4 [1, 2, 3, 4]) 80))"
    by (rule readConnectRequest_frame) simp_all
  obtain q where q: "route_request calm None [] [] (dest_target (D4 [1, 2, 3, 4]) 80) live_pool =
     (q, RouteVia (live_node ''a.example''), [live_node ''a.example''])" using calm_route by blast
  have dl: "seDeadline calm k" "seBound calm = None" for k by (simp_all add: calm_def)
  obtain c' where run: "handleConn id ''u'' ''p'' calm None [] [] full_stream live_pool =
      (c', q, RouteVia (live_node ''a.example''), [live_node ''a.example''])"
    by (simp add: handleConn_def n r q dl)
  have "collision_free id s" for s by (simp add: collision_free_def)
  from relayed_is_authenticated [OF run _ _ this this] show ?thesis
    by (auto simp: run dl) (simp_all add: full_stream_def)
qed

end
