(* ===== verification/ServerLife.thy ===== *)
theory ServerLife
  imports SocksServe
begin

text \<open>
  The life of a SOCKS server (server.go): starting and stopping it, the connections it tracks,
  and the admission slots that all servers of the process share.

  \<open>server\<close> has the fields guarded by stateMu; \<open>svWG\<close> is the counter of the wait group. A
  listening socket is named by its address. The channel \<open>connSlots\<close> is the number of tokens in
  it. The goroutines of accepted connections are the \<open>tasks\<close> of the machine \<open>door_step\<close>: a task
  is named by its connection and is in one of the phases between two lock sections.
\<close>

section \<open>One server\<close>

record server =
  svPolicy :: "route_policy option"
  svListener :: "string option"
  svActive :: "nat set"
  svWG :: nat
  svShutting :: bool

datatype start_error = StartClosed | StartRunning

definition defaultSOCKSMaxClientConnections :: int where
  "defaultSOCKSMaxClientConnections = 512"

definition admission_cap :: "int \<Rightarrow> nat" where
  "admission_cap maxConnections =
     nat (if maxConnections \<le> 0 then defaultSOCKSMaxClientConnections else maxConnections)"

definition new_server :: "route_policy option \<Rightarrow> server" where
  "new_server policy = \<lparr>svPolicy = policy, svListener = None, svActive = {}, svWG = 0, svShutting = False\<rparr>"

definition setRoutePolicy :: "route_policy option \<Rightarrow> server \<Rightarrow> server" where
  "setRoutePolicy policy s = s\<lparr>svPolicy := policy\<rparr>"

definition StartListener :: "string \<Rightarrow> server \<Rightarrow> server \<times> start_error option" where
  "StartListener sock s =
     (if svShutting s then (s, Some StartClosed)
      else if svListener s \<noteq> None then (s, Some StartRunning)
      else (s\<lparr>svListener := Some sock\<rparr>, None))"

text \<open>
  The end of the goroutine of StartListener: \<open>errClosed\<close> is whether serve returned net.ErrClosed.
  The second component is whether the callback receives an error.
\<close>

definition serve_exit :: "string \<Rightarrow> bool \<Rightarrow> server \<Rightarrow> server \<times> bool" where
  "serve_exit sock errClosed s =
     (s\<lparr>svListener := (if svListener s = Some sock then None else svListener s)\<rparr>, \<not> (errClosed \<and> svShutting s))"

text \<open>The critical section of Shutdown; the caller closes the socket that is returned.\<close>

definition begin_shutdown :: "server \<Rightarrow> server \<times> string option" where
  "begin_shutdown s = (s\<lparr>svShutting := True\<rparr>, svListener s)"

definition drained :: "server \<Rightarrow> bool" where
  "drained s \<longleftrightarrow> svWG s = 0"

definition registerActiveConnection :: "nat \<Rightarrow> server \<Rightarrow> server \<times> bool" where
  "registerActiveConnection c s =
     (if svShutting s then (s, False)
      else if c \<in> svActive s then (s, True)
      else (s\<lparr>svActive := insert c (svActive s), svWG := svWG s + 1\<rparr>, True))"

text \<open>The second component: whether a Done on the wait group follows the critical section.\<close>

definition unregisterActiveConnection :: "nat \<Rightarrow> server \<Rightarrow> server \<times> bool" where
  "unregisterActiveConnection c s =
     (if c \<notin> svActive s then (s, False) else (s\<lparr>svActive := svActive s - {c}\<rparr>, True))"

definition commitGenerationResult :: "('a \<Rightarrow> 'a) \<Rightarrow> server \<Rightarrow> 'a \<Rightarrow> 'a \<times> bool" where
  "commitGenerationResult commit s x = (if svShutting s then (x, True) else (commit x, False))"

text \<open>Whether the server owns an open socket on an address.\<close>

definition listens_on :: "string \<Rightarrow> server \<Rightarrow> bool" where
  "listens_on addr s \<longleftrightarrow> svListener s = Some addr \<and> \<not> svShutting s"

text \<open>The pause after temporary accept errors, in milliseconds.\<close>

definition next_delay :: "nat \<Rightarrow> nat" where
  "next_delay d = (if d = 0 then 5 else min (2 * d) 1000)"

lemma start_fresh [simp]: "StartListener sock (new_server policy) = ((new_server policy)\<lparr>svListener := Some sock\<rparr>, None)"
  by (simp add: StartListener_def new_server_def)

lemma next_delay_bounds: "0 < next_delay d \<and> next_delay d \<le> 1000"
  by (auto simp: next_delay_def)

section \<open>Admission\<close>

text \<open>
  \<open>Taken\<close>: a slot is held and registration is next. \<open>Running\<close>: registered. \<open>Relaying r\<close>: the
  remote connection \<open>r\<close> is registered too. \<open>Closing\<close>: the relay is over or was refused. \<open>Ended\<close>: the slot has been given back, which the
  deferred calls do before they unregister the connection.
\<close>

datatype phase = Taken | Running | Relaying nat | Closing | Ended

record door =
  drCap :: nat
  drSlots :: nat
  drServers :: "nat \<Rightarrow> server"
  drTasks :: "nat \<Rightarrow> (nat \<times> phase) option"
  drNext :: nat
  drDone :: "nat list"

definition put_server :: "nat \<Rightarrow> server \<Rightarrow> door \<Rightarrow> door" where
  "put_server n s d = d\<lparr>drServers := (drServers d)(n := s)\<rparr>"

definition put_task :: "nat \<Rightarrow> (nat \<times> phase) option \<Rightarrow> door \<Rightarrow> door" where
  "put_task c t d = d\<lparr>drTasks := (drTasks d)(c := t)\<rparr>"

text \<open>The accept loop with a new connection on server \<open>n\<close>: a free slot is taken or it is closed.\<close>

definition accept_conn :: "nat \<Rightarrow> door \<Rightarrow> door" where
  "accept_conn n d =
     (if drSlots d < drCap d
      then put_task (drNext d) (Some (n, Taken)) (d\<lparr>drSlots := drSlots d + 1, drNext := drNext d + 1\<rparr>)
      else d)"

definition admit_conn :: "nat \<Rightarrow> nat \<Rightarrow> door \<Rightarrow> door" where
  "admit_conn c n d =
     (case registerActiveConnection c (drServers d n) of
        (s, True) \<Rightarrow> put_task c (Some (n, Running)) (put_server n s d)
      | (s, False) \<Rightarrow> put_task c None (d\<lparr>drSlots := drSlots d - 1\<rparr>))"

definition relay_begin :: "nat \<Rightarrow> nat \<Rightarrow> door \<Rightarrow> door" where
  "relay_begin c n d =
     (case registerActiveConnection (drNext d) (drServers d n) of
        (s, True) \<Rightarrow> put_task c (Some (n, Relaying (drNext d))) (put_server n s (d\<lparr>drNext := drNext d + 1\<rparr>))
      | (s, False) \<Rightarrow> put_task c (Some (n, Closing)) (d\<lparr>drNext := drNext d + 1\<rparr>))"

definition drop_conn :: "nat \<Rightarrow> nat \<Rightarrow> door \<Rightarrow> door" where
  "drop_conn x n d =
     (case unregisterActiveConnection x (drServers d n) of
        (s, True) \<Rightarrow> put_server n s (d\<lparr>drDone := n # drDone d\<rparr>)
      | (s, False) \<Rightarrow> d)"

definition wg_done :: "nat \<Rightarrow> door \<Rightarrow> door" where
  "wg_done n d =
     put_server n ((drServers d n)\<lparr>svWG := svWG (drServers d n) - 1\<rparr>) (d\<lparr>drDone := remove1 n (drDone d)\<rparr>)"

text \<open>
  The steps of the goroutines. The label is the server whose connection goroutine acts, or None
  for an accept loop and for the goroutines that stop a server or change its policy.
\<close>

inductive door_step :: "nat option \<Rightarrow> door \<Rightarrow> door \<Rightarrow> bool" where
  accept: "door_step None d (accept_conn n d)"
| admit: "drTasks d c = Some (n, Taken) \<Longrightarrow> door_step (Some n) d (admit_conn c n d)"
| relay_start: "drTasks d c = Some (n, Running) \<Longrightarrow> door_step (Some n) d (relay_begin c n d)"
| relay_end: "drTasks d c = Some (n, Relaying r) \<Longrightarrow>
    door_step (Some n) d (put_task c (Some (n, Closing)) (drop_conn r n d))"
| leave: "drTasks d c = Some (n, ph) \<Longrightarrow> ph = Running \<or> ph = Closing \<Longrightarrow>
    door_step (Some n) d (put_task c (Some (n, Ended)) (d\<lparr>drSlots := drSlots d - 1\<rparr>))"
| unregister: "drTasks d c = Some (n, Ended) \<Longrightarrow> door_step (Some n) d (put_task c None (drop_conn c n d))"
| wg: "n \<in> set (drDone d) \<Longrightarrow> door_step (Some n) d (wg_done n d)"
| stop: "door_step None d (put_server n (fst (begin_shutdown (drServers d n))) d)"
| policy: "door_step None d (put_server n (setRoutePolicy pol (drServers d n)) d)"

inductive door_reach :: "door \<Rightarrow> door \<Rightarrow> bool" for d0 where
  init: "door_reach d0 d0"
| step: "door_reach d0 d \<Longrightarrow> door_step who d d' \<Longrightarrow> door_reach d0 d'"

definition fresh_door :: "int \<Rightarrow> door" where
  "fresh_door maxConnections = \<lparr>drCap = admission_cap maxConnections, drSlots = 0, drServers = (\<lambda>_. new_server None),
     drTasks = (\<lambda>_. None), drNext = 0, drDone = []\<rparr>"

section \<open>The invariant of the door\<close>

definition holding :: "(nat \<Rightarrow> (nat \<times> phase) option) \<Rightarrow> nat set" where
  "holding ts = {c. \<exists>n ph. ts c = Some (n, ph) \<and> ph \<noteq> Ended}"

definition remotes :: "(nat \<Rightarrow> (nat \<times> phase) option) \<Rightarrow> nat \<Rightarrow> nat set" where
  "remotes ts n = {r. \<exists>c. ts c = Some (n, Relaying r)}"

definition registered :: "(nat \<Rightarrow> (nat \<times> phase) option) \<Rightarrow> nat \<Rightarrow> nat set" where
  "registered ts n = {c. \<exists>ph. ts c = Some (n, ph) \<and> ph \<noteq> Taken} \<union> remotes ts n"

definition tasks_ok :: "nat \<Rightarrow> (nat \<Rightarrow> (nat \<times> phase) option) \<Rightarrow> bool" where
  "tasks_ok k ts \<longleftrightarrow> finite (dom ts) \<and> (\<forall>c\<in>dom ts. c < k) \<and>
     (\<forall>c n r. ts c = Some (n, Relaying r) \<longrightarrow> r < k \<and> r \<notin> dom ts \<and> (\<forall>c' n'. ts c' = Some (n', Relaying r) \<longrightarrow> c' = c))"

definition door_ok :: "door \<Rightarrow> bool" where
  "door_ok d \<longleftrightarrow> tasks_ok (drNext d) (drTasks d) \<and>
     drSlots d = card (holding (drTasks d)) \<and> drSlots d \<le> drCap d \<and>
     (\<forall>n. svActive (drServers d n) = registered (drTasks d) n \<and>
        svWG (drServers d n) = card (svActive (drServers d n)) + count_list (drDone d) n)"

lemma holding_upd: "holding (ts(c := t)) =
    (case t of Some (n, ph) \<Rightarrow> if ph \<noteq> Ended then insert c (holding ts) else holding ts - {c} | None \<Rightarrow> holding ts - {c})"
  by (auto simp: holding_def split: option.splits)

lemma holding_dom: "holding ts \<subseteq> dom ts"
  by (auto simp: holding_def)

lemma finite_registered: "tasks_ok k ts \<Longrightarrow> finite (registered ts n)"
proof -
  assume ok: "tasks_ok k ts"
  have "registered ts n \<subseteq> {..<k}" using ok by (auto simp: registered_def remotes_def tasks_ok_def dom_def)
  then show ?thesis by (rule finite_subset) simp
qed

lemma finite_holding: "tasks_ok k ts \<Longrightarrow> finite (holding ts)"
  using finite_subset [OF holding_dom] by (auto simp: tasks_ok_def)

lemma remotes_upd:
  assumes "\<forall>m r. ts c \<noteq> Some (m, Relaying r)"
  shows "remotes (ts(c := t)) n = remotes ts n \<union> {r. t = Some (n, Relaying r)}"
proof (intro set_eqI iffI)
  fix r assume "r \<in> remotes (ts(c := t)) n"
  then show "r \<in> remotes ts n \<union> {r. t = Some (n, Relaying r)}" by (auto simp: remotes_def split: if_splits)
next
  fix r assume "r \<in> remotes ts n \<union> {r. t = Some (n, Relaying r)}"
  then consider c' where "ts c' = Some (n, Relaying r)" | "t = Some (n, Relaying r)" by (auto simp: remotes_def)
  then show "r \<in> remotes (ts(c := t)) n"
  proof cases
    case 1
    with assms have "c' \<noteq> c" by auto
    with 1 show ?thesis by (auto simp: remotes_def)
  qed (auto simp: remotes_def)
qed

lemma remotes_end:
  assumes "tasks_ok k ts" "ts c = Some (n, Relaying r)"
  shows "remotes (ts(c := Some (n, Closing))) m = (if m = n then remotes ts n - {r} else remotes ts m)"
proof (intro set_eqI iffI)
  fix x assume "x \<in> remotes (ts(c := Some (n, Closing))) m"
  then obtain c' where c': "(ts(c := Some (n, Closing))) c' = Some (m, Relaying x)" by (auto simp only: remotes_def mem_Collect_eq)
  then have old: "c' \<noteq> c" "ts c' = Some (m, Relaying x)" by (auto split: if_splits)
  have "x \<noteq> r"
  proof
    assume "x = r"
    with old(2) assms have "c' = c" unfolding tasks_ok_def by blast
    with old(1) show False by simp
  qed
  with old show "x \<in> (if m = n then remotes ts n - {r} else remotes ts m)" by (auto simp: remotes_def)
next
  fix x assume x: "x \<in> (if m = n then remotes ts n - {r} else remotes ts m)"
  then obtain c' where c': "ts c' = Some (m, Relaying x)" by (auto simp: remotes_def split: if_splits)
  with x assms(2) have "c' \<noteq> c" by (auto split: if_splits)
  with c' show "x \<in> remotes (ts(c := Some (n, Closing))) m" unfolding remotes_def by (intro CollectI exI [of _ c']) simp
qed

lemma remotes_fresh: "tasks_ok k ts \<Longrightarrow> c \<in> dom ts \<Longrightarrow> c \<notin> remotes ts n"
  unfolding remotes_def tasks_ok_def by blast

lemma remotes_less: "tasks_ok k ts \<Longrightarrow> r \<in> remotes ts n \<Longrightarrow> r < k"
  unfolding remotes_def tasks_ok_def by blast

lemma tasks_ok_next: "tasks_ok k ts \<Longrightarrow> ts k = None"
  unfolding tasks_ok_def by (metis domIff less_irrefl)

lemma remote_no_task: "tasks_ok k ts \<Longrightarrow> ts c = Some (n, Relaying r) \<Longrightarrow> ts r = None"
  unfolding tasks_ok_def by blast

lemma tasks_ok_put:
  assumes "tasks_ok k ts" "c < k" "\<forall>m. c \<notin> remotes ts m" "\<forall>m r. t \<noteq> (m, Relaying r)"
  shows "tasks_ok k (ts(c := Some t))"
  unfolding tasks_ok_def
proof (intro conjI ballI allI impI)
  show "finite (dom (ts(c \<mapsto> t)))" using assms(1) by (simp add: tasks_ok_def)
next
  fix x assume "x \<in> dom (ts(c \<mapsto> t))"
  then show "x < k" using assms(1, 2) by (auto simp: tasks_ok_def split: if_splits)
next
  fix x m r assume "(ts(c \<mapsto> t)) x = Some (m, Relaying r)"
  then have x: "x \<noteq> c" "ts x = Some (m, Relaying r)" using assms(4) by (auto split: if_splits)
  with assms(1) have f: "r < k" "r \<notin> dom ts" "\<And>c' n'. ts c' = Some (n', Relaying r) \<Longrightarrow> c' = x"
    unfolding tasks_ok_def by blast+
  show "r < k" by (rule f(1))
  show "r \<notin> dom (ts(c \<mapsto> t))" using f(2) assms(3) x(2) by (auto simp: remotes_def)
  fix c' n' assume "(ts(c \<mapsto> t)) c' = Some (n', Relaying r)"
  then show "c' = x" using f(3) assms(4) by (auto split: if_splits)
qed

lemma tasks_ok_drop: "tasks_ok k ts \<Longrightarrow> tasks_ok k (ts(c := None))"
  unfolding tasks_ok_def by (auto split: if_splits)

lemma tasks_ok_relay:
  assumes ok: "tasks_ok k ts" and t: "ts c = Some (n, Running)"
  shows "tasks_ok (Suc k) (ts(c := Some (n, Relaying k)))"
  unfolding tasks_ok_def
proof (intro conjI ballI allI impI)
  show "finite (dom (ts(c \<mapsto> (n, Relaying k))))" using ok by (simp add: tasks_ok_def)
next
  fix x assume "x \<in> dom (ts(c \<mapsto> (n, Relaying k)))"
  then have "x \<in> dom ts" using t by (auto split: if_splits)
  then show "x < Suc k" using ok by (simp add: tasks_ok_def less_SucI)
next
  fix x m r assume "(ts(c \<mapsto> (n, Relaying k))) x = Some (m, Relaying r)"
  then consider "x = c" "r = k" | "x \<noteq> c" "ts x = Some (m, Relaying r)" by (auto split: if_splits)
  then have new: "r < Suc k \<and> ts r = None \<and> r \<noteq> c \<and> (\<forall>c' n'. (ts(c \<mapsto> (n, Relaying k))) c' = Some (n', Relaying r) \<longrightarrow> c' = x)"
  proof cases
    case 1
    have "r \<notin> remotes ts n'" for n' using remotes_less [OF ok] 1 by blast
    with 1 tasks_ok_next [OF ok] t show ?thesis by (auto simp: remotes_def split: if_splits)
  next
    case 2
    from ok 2(2) have "r < k" "ts r = None" "\<forall>c' n'. ts c' = Some (n', Relaying r) \<longrightarrow> c' = x"
      unfolding tasks_ok_def by blast+
    with t show ?thesis by (auto split: if_splits)
  qed
  then show "r < Suc k" by blast
  show "r \<notin> dom (ts(c \<mapsto> (n, Relaying k)))" using new by auto
  fix c' n' assume "(ts(c \<mapsto> (n, Relaying k))) c' = Some (n', Relaying r)"
  with new show "c' = x" by blast
qed

lemma tasks_ok_phase:
  assumes "tasks_ok k ts" "ts c \<noteq> None" "\<forall>m r. t \<noteq> (m, Relaying r)"
  shows "tasks_ok k (ts(c := Some t))"
  using assms remotes_fresh [OF assms(1), of c] by (intro tasks_ok_put) (auto simp: tasks_ok_def)

lemma tasks_ok_Suc: "tasks_ok k ts \<Longrightarrow> tasks_ok (Suc k) ts"
  unfolding tasks_ok_def by (meson less_SucI)

lemmas door_defs = accept_conn_def admit_conn_def relay_begin_def drop_conn_def wg_done_def put_task_def
  put_server_def registerActiveConnection_def unregisterActiveConnection_def begin_shutdown_def setRoutePolicy_def

lemma door_accept: "door_ok d \<Longrightarrow> door_ok (accept_conn n d)"
proof -
  assume ok: "door_ok d"
  let ?ts = "drTasks d" and ?c = "drNext d"
  have new: "?c \<notin> dom ?ts" "?c \<notin> holding ?ts"
    using ok holding_dom [of ?ts] by (auto simp: door_ok_def tasks_ok_def)
  have tok: "tasks_ok ?c ?ts" using ok by (simp add: door_ok_def)
  have "tasks_ok (Suc ?c) (?ts(?c := Some (n, Taken)))"
    using remotes_less [OF tok] by (intro tasks_ok_put tasks_ok_Suc [OF tok]) auto
  moreover have "card (holding (?ts(?c := Some (n, Taken)))) = drSlots d + 1"
    using ok new finite_holding by (auto simp: holding_upd door_ok_def)
  moreover have "registered (?ts(?c := Some (n, Taken))) m = registered ?ts m" for m
    using new(1) by (auto simp: registered_def dom_def remotes_upd)
  ultimately show ?thesis using ok by (auto simp: accept_conn_def put_task_def door_ok_def)
qed

lemma door_admit:
  assumes ok: "door_ok d" and t: "drTasks d c = Some (n, Taken)"
  shows "door_ok (admit_conn c n d)"
proof -
  let ?ts = "drTasks d"
  have tok: "tasks_ok (drNext d) ?ts" using ok by (simp add: door_ok_def)
  have h: "c \<in> holding ?ts" "finite (holding ?ts)" using t finite_holding [OF tok] by (auto simp: holding_def)
  show ?thesis
  proof (cases "svShutting (drServers d n)")
    case True
    have "tasks_ok (drNext d) (?ts(c := None))" by (rule tasks_ok_drop [OF tok])
    moreover have "registered (?ts(c := None)) m = registered ?ts m" for m
      using t by (auto simp: registered_def remotes_upd)
    moreover have "drSlots d - Suc 0 = card (holding (?ts(c := None)))" using ok h by (simp add: holding_upd door_ok_def)
    ultimately show ?thesis using ok True by (auto simp: admit_conn_def registerActiveConnection_def put_task_def door_ok_def)
  next
    case False
    have nin: "c \<notin> registered ?ts n" using t remotes_fresh [OF tok, of c] by (auto simp: registered_def)
    have reg: "registered (?ts(c := Some (n, Running))) m = (if m = n then insert c (registered ?ts n) else registered ?ts m)" for m
      using t by (auto simp: registered_def remotes_upd)
    have "tasks_ok (drNext d) (?ts(c := Some (n, Running)))" using t by (intro tasks_ok_phase [OF tok]) auto
    moreover have "holding (?ts(c := Some (n, Running))) = holding ?ts" using h(1) by (auto simp: holding_upd)
    ultimately show ?thesis using ok False nin finite_registered [OF tok, of n]
      by (auto simp: admit_conn_def registerActiveConnection_def put_task_def put_server_def door_ok_def reg)
  qed
qed

lemma door_relay_begin:
  assumes ok: "door_ok d" and t: "drTasks d c = Some (n, Running)"
  shows "door_ok (relay_begin c n d)"
proof -
  let ?ts = "drTasks d" and ?r = "drNext d"
  have tok: "tasks_ok ?r ?ts" using ok by (simp add: door_ok_def)
  then have tok': "tasks_ok (Suc ?r) ?ts" by (simp add: tasks_ok_Suc)
  show ?thesis
  proof (cases "svShutting (drServers d n)")
    case True
    have "tasks_ok (Suc ?r) (?ts(c := Some (n, Closing)))" using t by (intro tasks_ok_phase [OF tok']) auto
    moreover have "registered (?ts(c := Some (n, Closing))) m = registered ?ts m" for m
      using t by (auto simp: registered_def remotes_upd)
    moreover have "holding (?ts(c := Some (n, Closing))) = holding ?ts" using t by (auto simp: holding_upd holding_def)
    ultimately show ?thesis using ok True by (simp add: relay_begin_def registerActiveConnection_def put_task_def door_ok_def)
  next
    case False
    have nin: "?r \<notin> registered ?ts n"
      using tasks_ok_next [OF tok] remotes_less [OF tok] by (auto simp: registered_def)
    have reg: "registered (?ts(c := Some (n, Relaying ?r))) m = (if m = n then insert ?r (registered ?ts n) else registered ?ts m)" for m
      using t by (auto simp: registered_def remotes_upd)
    have "tasks_ok (Suc ?r) (?ts(c := Some (n, Relaying ?r)))" by (rule tasks_ok_relay [OF tok t])
    moreover have "holding (?ts(c := Some (n, Relaying ?r))) = holding ?ts" using t by (auto simp: holding_upd holding_def)
    ultimately show ?thesis using ok False nin finite_registered [OF tok, of n]
      by (auto simp: relay_begin_def registerActiveConnection_def put_task_def put_server_def door_ok_def reg)
  qed
qed

lemma drop_conn_ok:
  assumes ok: "door_ok d" and r: "r \<in> registered (drTasks d) n"
    and reg: "\<And>m. registered ts m = (if m = n then registered (drTasks d) n - {r} else registered (drTasks d) m)"
    and rest: "tasks_ok (drNext d) ts" "holding ts = holding (drTasks d)"
  shows "door_ok ((drop_conn r n d)\<lparr>drTasks := ts\<rparr>)"
proof -
  have fin: "finite (registered (drTasks d) n)" using ok finite_registered by (auto simp: door_ok_def)
  have c1: "card (registered (drTasks d) n) = Suc (card (registered (drTasks d) n - {r}))"
    using card_Suc_Diff1 [OF fin r] by simp
  show ?thesis using ok r rest c1
    by (simp add: drop_conn_def unregisterActiveConnection_def put_server_def door_ok_def reg)
qed

lemma door_relay_end:
  assumes ok: "door_ok d" and t: "drTasks d c = Some (n, Relaying r)"
  shows "door_ok (put_task c (Some (n, Closing)) (drop_conn r n d))"
proof -
  let ?ts = "(drTasks d)(c := Some (n, Closing))"
  have tok: "tasks_ok (drNext d) (drTasks d)" using ok by (simp add: door_ok_def)
  have keep: "drTasks (drop_conn r n d) = drTasks d"
    by (simp add: drop_conn_def put_server_def split: prod.split bool.split)
  have "door_ok ((drop_conn r n d)\<lparr>drTasks := ?ts\<rparr>)"
  proof (rule drop_conn_ok [OF ok])
    show "r \<in> registered (drTasks d) n" using t by (auto simp: registered_def remotes_def)
    show "registered ?ts m = (if m = n then registered (drTasks d) n - {r} else registered (drTasks d) m)" for m
      using t tok remote_no_task [OF tok t] unfolding registered_def remotes_end [OF tok t] by auto
    show "tasks_ok (drNext d) ?ts" using t by (intro tasks_ok_phase [OF tok]) auto
    show "holding ?ts = holding (drTasks d)" using t by (auto simp: holding_upd holding_def)
  qed
  then show ?thesis by (simp add: put_task_def keep)
qed

lemma door_leave:
  assumes ok: "door_ok d" and t: "drTasks d c = Some (n, ph)" "ph = Running \<or> ph = Closing"
  shows "door_ok (put_task c (Some (n, Ended)) (d\<lparr>drSlots := drSlots d - 1\<rparr>))"
proof -
  let ?ts = "(drTasks d)(c := Some (n, Ended))"
  have tok: "tasks_ok (drNext d) (drTasks d)" using ok by (simp add: door_ok_def)
  have h: "c \<in> holding (drTasks d)" "finite (holding (drTasks d))" using t finite_holding [OF tok] by (auto simp: holding_def)
  have "tasks_ok (drNext d) ?ts" using t by (intro tasks_ok_phase [OF tok]) auto
  moreover have "registered ?ts m = registered (drTasks d) m" for m using t by (auto simp: registered_def remotes_upd)
  moreover have "card (holding ?ts) = drSlots d - 1" using ok h by (simp add: holding_upd door_ok_def)
  moreover have "drSlots d - 1 \<le> drCap d" using ok unfolding door_ok_def by linarith
  ultimately show ?thesis using ok by (simp add: put_task_def door_ok_def)
qed

lemma door_unregister:
  assumes ok: "door_ok d" and t: "drTasks d c = Some (n, Ended)"
  shows "door_ok (put_task c None (drop_conn c n d))"
proof -
  let ?ts = "(drTasks d)(c := None)"
  have tok: "tasks_ok (drNext d) (drTasks d)" using ok by (simp add: door_ok_def)
  have keep: "drTasks (drop_conn c n d) = drTasks d"
    by (simp add: drop_conn_def put_server_def split: prod.split bool.split)
  have "door_ok ((drop_conn c n d)\<lparr>drTasks := ?ts\<rparr>)"
  proof (rule drop_conn_ok [OF ok])
    show "c \<in> registered (drTasks d) n" using t by (auto simp: registered_def)
    show "registered ?ts m = (if m = n then registered (drTasks d) n - {c} else registered (drTasks d) m)" for m
      using t remotes_fresh [OF tok, of c] by (auto simp: registered_def remotes_upd)
    show "tasks_ok (drNext d) ?ts" by (rule tasks_ok_drop [OF tok])
    show "holding ?ts = holding (drTasks d)" using t by (auto simp: holding_upd holding_def)
  qed
  then show ?thesis by (simp add: put_task_def keep)
qed

lemma door_wg:
  assumes "door_ok d" "n \<in> set (drDone d)"
  shows "door_ok (wg_done n d)"
proof -
  have pos: "0 < count_list (drDone d) n" using assms(2) by (metis count_list_0_iff gr0I)
  have "svWG (drServers (wg_done n d) m) = card (svActive (drServers (wg_done n d) m)) + count_list (drDone (wg_done n d)) m" for m
    using assms(1) pos by (simp add: wg_done_def put_server_def door_ok_def)
  with assms(1) show ?thesis by (simp add: wg_done_def put_server_def door_ok_def)
qed

lemma door_fields: "door_ok d \<Longrightarrow> svActive s = svActive (drServers d n) \<Longrightarrow> svWG s = svWG (drServers d n) \<Longrightarrow>
    door_ok (put_server n s d)"
  by (simp add: put_server_def door_ok_def)

lemma door_step_ok: "door_step who d d' \<Longrightarrow> door_ok d \<Longrightarrow> door_ok d'"
  by (induction rule: door_step.induct)
    (auto intro: door_accept door_admit door_relay_begin door_relay_end door_leave [unfolded One_nat_def] door_unregister door_wg door_fields
      simp: begin_shutdown_def setRoutePolicy_def)

lemma door_reach_ok: "door_reach d0 d \<Longrightarrow> door_ok d0 \<Longrightarrow> door_ok d"
  by (induction rule: door_reach.induct) (auto dest: door_step_ok)

lemma fresh_door_ok: "door_ok (fresh_door m)"
  by (simp add: fresh_door_def door_ok_def tasks_ok_def holding_def registered_def remotes_def new_server_def)

section \<open>Admission, shutdown and drain\<close>

lemma cap_step: "door_step who d d' \<Longrightarrow> drCap d' = drCap d"
  by (induction rule: door_step.induct) (auto simp: door_defs split: prod.splits bool.splits if_splits)

lemma cap_reach: "door_reach d0 d \<Longrightarrow> drCap d = drCap d0"
  by (induction rule: door_reach.induct) (auto dest: cap_step)

text \<open>
  C25: All listeners together never exceed the configured number of clients. In every state that
  the accept loops, the connection goroutines and shutdowns can reach, the tokens in the
  admission channel are exactly the connections whose goroutine has not given its slot back,
  and there are at most as many as the configured limit (512 if it is not positive); and each
  wait group counts the registered connections of its server and the Done calls still to come.
\<close>
theorem admission_bound:
  assumes "door_reach (fresh_door maxConnections) d"
  shows "drSlots d = card {c. \<exists>n ph. drTasks d c = Some (n, ph) \<and> ph \<noteq> Ended} \<and>
         int (drSlots d) \<le> (if maxConnections \<le> 0 then 512 else maxConnections) \<and>
         (\<forall>n. svWG (drServers d n) = card (svActive (drServers d n)) + count_list (drDone d) n)"
proof -
  from door_reach_ok [OF assms fresh_door_ok] have ok: "door_ok d" .
  have "drCap d = admission_cap maxConnections" using cap_reach [OF assms] by (simp add: fresh_door_def)
  then have "int (drCap d) = (if maxConnections \<le> 0 then 512 else maxConnections)"
    by (simp add: admission_cap_def defaultSOCKSMaxClientConnections_def)
  moreover have "drSlots d \<le> drCap d" using ok by (simp add: door_ok_def)
  ultimately show ?thesis using ok by (simp add: door_ok_def holding_def)
qed

lemma shutting_step:
  "door_step who d d' \<Longrightarrow> svShutting (drServers d n) \<Longrightarrow>
   svShutting (drServers d' n) \<and> svActive (drServers d' n) \<subseteq> svActive (drServers d n)"
  by (induction rule: door_step.induct) (auto simp: door_defs split: prod.splits bool.splits if_splits)

lemma shutting_reach:
  "door_reach d d' \<Longrightarrow> svShutting (drServers d n) \<Longrightarrow>
   svShutting (drServers d' n) \<and> svActive (drServers d' n) \<subseteq> svActive (drServers d n)"
  by (induction rule: door_reach.induct) (auto dest!: shutting_step)

lemma reach_trans: "door_reach d0 d \<Longrightarrow> door_reach d d' \<Longrightarrow> door_reach d0 d'"
  by (rotate_tac, induction rule: door_reach.induct) (auto intro: door_reach.step)


text \<open>How much a stopped server still has to do, in steps of its connection goroutines.\<close>

fun phase_work :: "phase \<Rightarrow> nat" where
  "phase_work Taken = 1"
| "phase_work Ended = 2"
| "phase_work Closing = 3"
| "phase_work Running = 4"
| "phase_work (Relaying r) = 5"

definition task_work :: "nat \<Rightarrow> (nat \<times> phase) option \<Rightarrow> nat" where
  "task_work n t = (case t of Some (m, ph) \<Rightarrow> if m = n then phase_work ph else 0 | None \<Rightarrow> 0)"

definition door_work :: "nat \<Rightarrow> door \<Rightarrow> nat" where
  "door_work n d = (\<Sum>c\<in>dom (drTasks d). task_work n (drTasks d c)) + count_list (drDone d) n"

lemma sum_task_upd:
  assumes "finite (dom ts)" "ts c = Some s"
  shows "(\<Sum>x\<in>dom (ts(c := t)). task_work n ((ts(c := t)) x)) + task_work n (Some s) =
         (\<Sum>x\<in>dom ts. task_work n (ts x)) + task_work n t"
proof -
  have c: "c \<in> dom ts" using assms(2) by auto
  have rest: "(\<Sum>x\<in>dom ts - {c}. task_work n ((ts(c := t)) x)) = (\<Sum>x\<in>dom ts - {c}. task_work n (ts x))"
    by (rule sum.cong) auto
  have "(\<Sum>x\<in>dom (ts(c := t)). task_work n ((ts(c := t)) x)) = (\<Sum>x\<in>dom ts - {c}. task_work n (ts x)) + task_work n t"
  proof (cases t)
    case None
    then have "dom (ts(c := t)) = dom ts - {c}" by auto
    with rest None show ?thesis by (simp add: task_work_def)
  next
    case (Some s')
    then have "dom (ts(c := t)) = insert c (dom ts - {c})" using c by auto
    then have "(\<Sum>x\<in>dom (ts(c := t)). task_work n ((ts(c := t)) x)) =
        task_work n ((ts(c := t)) c) + (\<Sum>x\<in>dom ts - {c}. task_work n ((ts(c := t)) x))"
      using assms(1) by (metis Diff_iff finite_Diff insertI1 sum.insert)
    with rest show ?thesis by simp
  qed
  moreover have "(\<Sum>x\<in>dom ts. task_work n (ts x)) = task_work n (ts c) + (\<Sum>x\<in>dom ts - {c}. task_work n (ts x))"
    by (rule sum.remove [OF assms(1) c])
  ultimately show ?thesis using assms(2) by simp
qed

lemma work_move:
  assumes "finite (dom (drTasks d))" "drTasks d c = Some (n, ph)"
    "drTasks d' = (drTasks d)(c := t)" "count_list (drDone d') n + task_work n t < count_list (drDone d) n + phase_work ph"
  shows "door_work n d' < door_work n d"
  using sum_task_upd [OF assms(1, 2), of n t] assms(3, 4) by (simp add: door_work_def task_work_def [of n "Some _"])

lemma drop_conn_fields:
  "drTasks (drop_conn r n d) = drTasks d" "count_list (drDone (drop_conn r n d)) n \<le> count_list (drDone d) n + 1"
  by (simp_all add: drop_conn_def put_server_def split: prod.split bool.split)

lemma drain_decreases:
  assumes st: "door_step (Some n) d d'" and sh: "svShutting (drServers d n)" and fin: "finite (dom (drTasks d))"
  shows "door_work n d' < door_work n d"
  using st
proof cases
  case (admit c)
  show ?thesis
    by (rule work_move [OF fin admit(2), of _ None])
      (simp_all add: admit(1) admit_conn_def registerActiveConnection_def sh put_task_def task_work_def)
next
  case (relay_start c)
  show ?thesis
    by (rule work_move [OF fin relay_start(2), of _ "Some (n, Closing)"])
      (simp_all add: relay_start(1) relay_begin_def registerActiveConnection_def sh put_task_def task_work_def)
next
  case (relay_end c r)
  show ?thesis
    by (rule work_move [OF fin relay_end(2), of _ "Some (n, Closing)"])
      (use drop_conn_fields [of r n d] in \<open>simp_all add: relay_end(1) put_task_def task_work_def\<close>)
next
  case (leave c ph)
  then show ?thesis
    by (intro work_move [OF fin leave(2), of _ "Some (n, Ended)"])
      (auto simp: put_task_def task_work_def)
next
  case (unregister c)
  show ?thesis
    by (rule work_move [OF fin unregister(2), of _ None])
      (use drop_conn_fields [of c n d] in \<open>simp_all add: unregister(1) put_task_def task_work_def\<close>)
next
  case wg
  then have "0 < count_list (drDone d) n" by (metis count_list_0_iff gr0I)
  with wg show ?thesis by (simp add: door_work_def wg_done_def put_server_def)
qed

inductive drains :: "nat \<Rightarrow> nat \<Rightarrow> door \<Rightarrow> door \<Rightarrow> bool" for n where
  rest: "drains n 0 d d"
| more: "door_step (Some n) d d' \<Longrightarrow> drains n k d' d'' \<Longrightarrow> drains n (Suc k) d d''"

lemma drains_bound:
  "drains n k d d' \<Longrightarrow> door_ok d \<Longrightarrow> svShutting (drServers d n) \<Longrightarrow>
   door_ok d' \<and> k + door_work n d' \<le> door_work n d"
proof (induction rule: drains.induct)
  case (more d d' k d'')
  have "finite (dom (drTasks d))" using more.prems(1) by (simp add: door_ok_def tasks_ok_def)
  from drain_decreases [OF more.hyps(1) more.prems(2) this] have "door_work n d' < door_work n d" .
  moreover have "door_ok d'" "svShutting (drServers d' n)"
    using door_step_ok [OF more.hyps(1)] shutting_step [OF more.hyps(1)] more.prems by auto
  ultimately show ?case using more.IH by simp
qed simp

lemma stuck_drained:
  assumes ok: "door_ok d" and stuck: "\<nexists>d'. door_step (Some n) d d'"
  shows "drained (drServers d n)"
proof -
  have "drTasks d c \<noteq> Some (n, ph)" for c ph
    using stuck door_step.admit [of d c n] door_step.relay_start [of d c n] door_step.leave [of d c n ph]
      door_step.unregister [of d c n] door_step.relay_end [of d c n] by (cases ph) blast+
  then have "registered (drTasks d) n = {}" by (auto simp: registered_def remotes_def)
  moreover have "n \<notin> set (drDone d)" using stuck door_step.wg by blast
  ultimately show ?thesis using ok by (simp add: drained_def door_ok_def)
qed

text \<open>
  C27: The drain of a stopped server terminates. From any reachable state in which the shutdown
  flag of a server is set, the goroutines of its connections make at most \<open>door_work\<close> further
  steps (five per connection and one per outstanding Done), and when none of them can take a
  step any more the wait group is at zero, so that Shutdown returns without error.
\<close>
theorem drain_terminates:
  assumes "door_reach (fresh_door maxConnections) d" "svShutting (drServers d n)" "drains n k d d'"
  shows "k \<le> door_work n d \<and> ((\<nexists>d''. door_step (Some n) d' d'') \<longrightarrow> drained (drServers d' n))"
  using drains_bound [OF assms(3) door_reach_ok [OF assms(1) fresh_door_ok] assms(2)] stuck_drained by auto

section \<open>Witnesses\<close>

definition one_client :: door where
  "one_client = admit_conn 0 0 (accept_conn 0 (fresh_door 1))"

lemma one_client_reach: "door_reach (fresh_door 1) one_client"
proof -
  have "door_reach (fresh_door 1) (accept_conn 0 (fresh_door 1))"
    by (rule door_reach.step [OF door_reach.init door_step.accept])
  moreover have "drTasks (accept_conn 0 (fresh_door 1)) 0 = Some (0, Taken)"
    by (simp add: accept_conn_def fresh_door_def put_task_def admission_cap_def)
  ultimately show ?thesis unfolding one_client_def by (metis door_reach.step door_step.admit)
qed

definition stopped_client :: door where
  "stopped_client = put_server 0 (fst (begin_shutdown (drServers one_client 0))) one_client"

lemma stopped_client_reach: "door_reach (fresh_door 1) stopped_client"
  unfolding stopped_client_def by (rule door_reach.step [OF one_client_reach door_step.stop])

lemma stopped_shutting: "svShutting (drServers stopped_client 0)"
  by (simp add: stopped_client_def put_server_def begin_shutdown_def)

lemma one_client_task: "drTasks one_client 0 = Some (0, Running)"
  by (simp add: one_client_def door_defs fresh_door_def admission_cap_def new_server_def)

theorem admission_bound_witness: "int (drSlots one_client) \<le> 1"
  using admission_bound [OF one_client_reach] by simp


theorem drain_terminates_witness:
  "drains 0 1 stopped_client (put_task 0 (Some (0, Ended)) (stopped_client\<lparr>drSlots := drSlots stopped_client - 1\<rparr>)) \<and>
   1 \<le> door_work 0 stopped_client"
proof -
  have "drTasks stopped_client 0 = Some (0, Running)"
    using one_client_task by (simp add: stopped_client_def put_server_def)
  then have "drains 0 1 stopped_client (put_task 0 (Some (0, Ended)) (stopped_client\<lparr>drSlots := drSlots stopped_client - 1\<rparr>))"
    using drains.more [OF door_step.leave drains.rest] by auto
  with drain_terminates [OF stopped_client_reach stopped_shutting this] show ?thesis by blast
qed

end
