(* ===== verification/Listeners.thy ===== *)
theory Listeners
  imports ServerLife
begin

text \<open>
  The manager of the additional SOCKS listeners (listener_manager.go). It keeps the persisted
  bindings of the configuration store and the running servers in step: every mutation is
  persisted first and rolled back when the socket cannot be opened.

  \<open>lmRun\<close> is the map from binding identifiers to running listeners, \<open>lmServers\<close> the servers
  created so far (a server is named by its number), \<open>lmStopped\<close> the callbacks of ended accept loops
  that recordStopped has not handled yet. The mutex of the manager makes each operation one step.
  \<open>net.Listen\<close> fails when a socket of the process is open on the address, and whenever the
  environment says so. The identifier of a new binding is an argument of Add. The flag
  expectedStop is set only on an entry that is removed under the same lock, so no callback
  reads it set; the timeout that Shutdown of a server may report is not modelled. The proofs cover
  the ownership of the sockets, the reconciliation after an uncertain write, the effect of each
  operation, and a run in which a repeated Update misses its port.
\<close>

section \<open>State\<close>

record runtime =
  rtBinding :: listener
  rtServer :: nat
  rtAddr :: string
  rtErr :: bool
  rtListening :: bool
  rtExpected :: bool

record lman =
  lmPrimary :: string
  lmStore :: config_store
  lmRun :: "(string \<times> runtime) list"
  lmStarted :: bool
  lmServers :: "nat \<Rightarrow> server"
  lmNext :: nat
  lmStopped :: "(string \<times> nat \<times> bool) list"
  lmFatal :: "string list"

text \<open>The outcomes of the store operations and of the listen calls of one operation, by number.\<close>

record lm_env =
  leStore :: "nat \<Rightarrow> config_env"
  leListen :: "nat \<Rightarrow> bool"

datatype lm_error =
    BadPrimary | PortUsed | BadPort | NoGroup | ListenFailed | NotFound
  | StoreError config_error | StartError start_error | RollbackFailed

section \<open>Addresses and policies\<close>

definition itoa_int :: "int \<Rightarrow> string" where
  "itoa_int n = (if n < 0 then CHR ''-'' # itoa (nat (- n)) else itoa (nat n))"

definition validatePort :: "string \<Rightarrow> int \<Rightarrow> lm_error option" where
  "validatePort primary port =
     (case split_host_port primary of
        None \<Rightarrow> Some BadPrimary
      | Some (_, primaryPort) \<Rightarrow> if itoa_int port = primaryPort then Some PortUsed else None)"

definition listenerAddr :: "string \<Rightarrow> int \<Rightarrow> lm_error + string" where
  "listenerAddr primary port =
     (if port < 1 \<or> 65535 < port then Inl BadPort
      else case split_host_port primary of
          None \<Rightarrow> Inl BadPrimary
        | Some (host, _) \<Rightarrow> Inr (join_host_port host (itoa_int port)))"

definition group_zero :: group where
  "group_zero = \<lparr>grID = [], grName = [], grStrategy = [], grCountries = [], grProtocols = [], grSources = [], grNodes = []\<rparr>"

definition policyLocked :: "listener \<Rightarrow> group list \<Rightarrow> lm_error + route_policy option" where
  "policyLocked b groups =
     (if lsMode b = ListenerModeRules then Inr None
      else
        let name = ''listener:'' @ lsID b;
            named = group_zero\<lparr>grID := name, grName := name\<rparr>;
            policy = \<lparr>rpMode = lsMode b, rpDirect = False, rpTarget = [], rpGroup = named\<rparr>
        in if lsMode b = ListenerModeFixed
           then Inr (Some (policy\<lparr>rpGroup := named\<lparr>grStrategy := StrategySticky, grNodes := [lsNodeKey b]\<rparr>\<rparr>))
           else
             (case resolveGroupReference (lsGroup b) groups of
                None \<Rightarrow> Inl NoGroup
              | Some r \<Rightarrow>
                  (case rrKind r of
                     RefDirect \<Rightarrow> Inr (Some (policy\<lparr>rpDirect := True, rpGroup := group_zero\<rparr>))
                   | RefAny \<Rightarrow> Inr (Some (policy\<lparr>rpTarget := rrCanonical r, rpGroup := named\<lparr>grStrategy := StrategySticky\<rparr>\<rparr>))
                   | RefCountry \<Rightarrow>
                       Inr (Some (policy\<lparr>rpTarget := rrCanonical r,
                                         rpGroup := named\<lparr>grStrategy := StrategyLatency, grCountries := [rrCountry r]\<rparr>\<rparr>))
                   | RefNamed \<Rightarrow>
                       (case rrGroup r of
                          Some g \<Rightarrow> Inr (Some (policy\<lparr>rpTarget := rrCanonical r, rpGroup := g\<lparr>grID := name, grName := name\<rparr>\<rparr>))
                        | None \<Rightarrow> Inl NoGroup))))"

section \<open>Starting and stopping a listener\<close>

definition groups_of :: "lman \<Rightarrow> group list" where
  "groups_of m = cfGroups (csCfg (lmStore m))"

definition bindings_of :: "lman \<Rightarrow> listener list" where
  "bindings_of m = cfListeners (csCfg (lmStore m))"

definition runtime_of :: "string \<Rightarrow> lman \<Rightarrow> runtime option" where
  "runtime_of k m = map_of (lmRun m) k"

definition set_runtime :: "string \<Rightarrow> runtime \<Rightarrow> lman \<Rightarrow> lman" where
  "set_runtime k rt m = m\<lparr>lmRun := aput k rt (lmRun m)\<rparr>"

definition drop_runtime :: "string \<Rightarrow> lman \<Rightarrow> lman" where
  "drop_runtime k m = m\<lparr>lmRun := filter (\<lambda>e. fst e \<noteq> k) (lmRun m)\<rparr>"

definition set_lserver :: "nat \<Rightarrow> server \<Rightarrow> lman \<Rightarrow> lman" where
  "set_lserver n s m = m\<lparr>lmServers := (lmServers m)(n := s)\<rparr>"

definition address_in_use :: "string \<Rightarrow> lman \<Rightarrow> bool" where
  "address_in_use addr m \<longleftrightarrow> list_ex (\<lambda>n. listens_on addr (lmServers m n)) [0..<lmNext m]"

definition stopListenerLocked :: "runtime \<Rightarrow> lman \<Rightarrow> lman" where
  "stopListenerLocked rt m = set_lserver (rtServer rt) (fst (begin_shutdown (lmServers m (rtServer rt)))) m"

definition startLocked :: "bool \<Rightarrow> listener \<Rightarrow> lman \<Rightarrow> lman \<times> lm_error option" where
  "startLocked listenOk b m =
     (case validatePort (lmPrimary m) (lsPort b) of
        Some e \<Rightarrow> (m, Some e)
      | None \<Rightarrow>
          (case listenerAddr (lmPrimary m) (lsPort b) of
             Inl e \<Rightarrow> (m, Some e)
           | Inr addr \<Rightarrow>
               (case policyLocked b (groups_of m) of
                  Inl e \<Rightarrow> (m, Some e)
                | Inr policy \<Rightarrow>
                    if \<not> listenOk \<or> address_in_use addr m then (m, Some ListenFailed)
                    else
                      let n = lmNext m;
                          rt = \<lparr>rtBinding = b, rtServer = n, rtAddr = addr, rtErr = False, rtListening = True, rtExpected = False\<rparr>;
                          m1 = set_runtime (lsID b) rt (m\<lparr>lmNext := n + 1\<rparr>)
                      in (case StartListener addr (new_server policy) of
                            (s, Some e) \<Rightarrow> (drop_runtime (lsID b) (set_lserver n s m1), Some (StartError e))
                          | (s, None) \<Rightarrow> (set_lserver n s m1, None)))))"

definition stopAllLocked :: "lman \<Rightarrow> lman" where
  "stopAllLocked m = (foldl (\<lambda>m e. stopListenerLocked (snd e) m) m (lmRun m))\<lparr>lmRun := []\<rparr>"

text \<open>The loop of Start over the bindings; \<open>k\<close> counts the listen calls.\<close>

fun start_bindings :: "(nat \<Rightarrow> bool) \<Rightarrow> nat \<Rightarrow> listener list \<Rightarrow> lman \<Rightarrow> lman \<times> lm_error option" where
  "start_bindings listenOk k [] m = (m, None)"
| "start_bindings listenOk k (b # bs) m =
     (if \<not> lsEnabled b then start_bindings listenOk k bs m
      else case startLocked (listenOk k) b m of
          (m', None) \<Rightarrow> start_bindings listenOk (k + 1) bs m'
        | (m', Some e) \<Rightarrow> (m', Some e))"

definition lm_Start :: "lm_env \<Rightarrow> lman \<Rightarrow> lman \<times> lm_error option" where
  "lm_Start env m =
     (if lmStarted m then (m, None)
      else case start_bindings (leListen env) 0 (bindings_of m) (m\<lparr>lmStarted := True\<rparr>) of
          (m', None) \<Rightarrow> (m', None)
        | (m', Some e) \<Rightarrow> ((stopAllLocked m')\<lparr>lmStarted := False\<rparr>, Some e))"

definition lm_Shutdown :: "lman \<Rightarrow> lman" where
  "lm_Shutdown m = stopAllLocked (m\<lparr>lmStarted := False\<rparr>)"

section \<open>Reconciliation\<close>

definition durabilityUncertain :: "config_error \<Rightarrow> bool" where
  "durabilityUncertain e \<longleftrightarrow> e = Persistence DurabilityUncertain"

text \<open>The loop over the running listeners; its entries are those of the map when it starts.\<close>

fun reconcile_running :: "(string \<times> runtime) list \<Rightarrow> lman \<Rightarrow> lman \<times> lm_error option" where
  "reconcile_running [] m = (m, None)"
| "reconcile_running ((k, rt) # es) m =
     (case find (\<lambda>b. lsID b = k) (bindings_of m) of
        Some b \<Rightarrow>
          if lsEnabled b \<and> rtListening rt \<and> lsPort (rtBinding rt) = lsPort b then
            (case policyLocked b (groups_of m) of
               Inl e \<Rightarrow> (m, Some e)
             | Inr policy \<Rightarrow>
                 reconcile_running es
                   (set_runtime k (rt\<lparr>rtBinding := b\<rparr>)
                     (set_lserver (rtServer rt) (setRoutePolicy policy (lmServers m (rtServer rt))) m)))
          else reconcile_running es (drop_runtime k (stopListenerLocked rt m))
      | None \<Rightarrow> reconcile_running es (drop_runtime k (stopListenerLocked rt m)))"

fun reconcile_missing :: "(nat \<Rightarrow> bool) \<Rightarrow> nat \<Rightarrow> listener list \<Rightarrow> lman \<Rightarrow> lman \<times> lm_error list" where
  "reconcile_missing listenOk k [] m = (m, [])"
| "reconcile_missing listenOk k (b # bs) m =
     (if \<not> lsEnabled b \<or> runtime_of (lsID b) m \<noteq> None then reconcile_missing listenOk k bs m
      else case startLocked (listenOk k) b m of
          (m', None) \<Rightarrow> reconcile_missing listenOk (k + 1) bs m'
        | (m', Some e) \<Rightarrow> (case reconcile_missing listenOk (k + 1) bs m' of (m'', es) \<Rightarrow> (m'', e # es)))"

definition reconcileRuntimeLocked :: "(nat \<Rightarrow> bool) \<Rightarrow> lman \<Rightarrow> lman \<times> lm_error list" where
  "reconcileRuntimeLocked listenOk m =
     (case reconcile_running (lmRun m) m of
        (m', Some e) \<Rightarrow> (m', [e])
      | (m', None) \<Rightarrow>
          if \<not> lmStarted m' then (m', []) else reconcile_missing listenOk 0 (bindings_of m') m')"

section \<open>Operations\<close>

definition rollback_error :: "'e option \<Rightarrow> lm_error list" where
  "rollback_error e = (if e = None then [] else [RollbackFailed])"

definition store_failed :: "lm_env \<Rightarrow> config_error \<Rightarrow> lman \<Rightarrow> lman \<times> lm_error list" where
  "store_failed env e m =
     (if durabilityUncertain e
      then (case reconcileRuntimeLocked (leListen env) m of (m', es) \<Rightarrow> (m', StoreError e # es))
      else (m, [StoreError e]))"

definition lm_Add :: "lm_env \<Rightarrow> string \<Rightarrow> listener \<Rightarrow> lman \<Rightarrow> lman \<times> (lm_error list + listener)" where
  "lm_Add env gid b m =
     (case validatePort (lmPrimary m) (lsPort b) of
        Some e \<Rightarrow> (m, Inl [e])
      | None \<Rightarrow>
          (case AddListener (leStore env 0) gid b (lmStore m) of
             (cs, Inl e) \<Rightarrow> (case store_failed env e (m\<lparr>lmStore := cs\<rparr>) of (m', es) \<Rightarrow> (m', Inl es))
           | (cs, Inr created) \<Rightarrow>
               let m1 = m\<lparr>lmStore := cs\<rparr> in
               if lmStarted m \<and> lsEnabled created then
                 (case startLocked (leListen env 0) created m1 of
                    (m2, None) \<Rightarrow> (m2, Inr created)
                  | (m2, Some e) \<Rightarrow>
                      (case DeleteListener (leStore env 1) (lsID created) (lmStore m2) of
                         (cs', err) \<Rightarrow> (m2\<lparr>lmStore := cs'\<rparr>, Inl (e # rollback_error err))))
               else (m1, Inr created)))"

definition listenerBindingLocked :: "string \<Rightarrow> lman \<Rightarrow> listener option" where
  "listenerBindingLocked k m = find (\<lambda>b. lsID b = k) (bindings_of m)"

text \<open>The rows of Bindings: a binding, its address, whether it is listening and whether it has failed.\<close>

definition Bindings :: "lman \<Rightarrow> (listener \<times> string \<times> bool \<times> bool) list" where
  "Bindings m = map (\<lambda>b.
     (b, (case listenerAddr (lmPrimary m) (lsPort b) of Inr addr \<Rightarrow> addr | Inl _ \<Rightarrow> []),
      (case runtime_of (lsID b) m of Some rt \<Rightarrow> rtListening rt | None \<Rightarrow> False),
      (case runtime_of (lsID b) m of Some rt \<Rightarrow> rtErr rt | None \<Rightarrow> False))) (bindings_of m)"

definition store_update :: "config_env \<Rightarrow> listener \<Rightarrow> lman \<Rightarrow> lman \<times> (config_error + listener)" where
  "store_update env b m = (case UpdateListener env b (lmStore m) of (cs, r) \<Rightarrow> (m\<lparr>lmStore := cs\<rparr>, r))"

definition left_error :: "'e + 'a \<Rightarrow> 'e option" where
  "left_error r = (case r of Inl e \<Rightarrow> Some e | Inr _ \<Rightarrow> None)"

text \<open>The part of Update after the store has accepted the new binding.\<close>

definition restart_updated :: "lm_env \<Rightarrow> listener \<Rightarrow> listener \<Rightarrow> string \<Rightarrow> lman \<Rightarrow> lman \<times> (lm_error list + listener)" where
  "restart_updated env old updated k m =
     (let m1 = (case runtime_of k m of Some rt \<Rightarrow> drop_runtime k (stopListenerLocked rt m) | None \<Rightarrow> m) in
      if lmStarted m1 \<and> lsEnabled updated then
        (case startLocked (leListen env 0) updated m1 of
           (m2, None) \<Rightarrow> (m2, Inr updated)
         | (m2, Some e) \<Rightarrow>
             (case store_update (leStore env 1) old m2 of
                (m3, r) \<Rightarrow>
                  (case (if lsEnabled old then startLocked (leListen env 1) old m3 else (m3, None)) of
                     (m4, restart) \<Rightarrow> (m4, Inl (e # rollback_error (left_error r) @ rollback_error restart)))))
      else (m1, Inr updated))"

definition lm_Update :: "lm_env \<Rightarrow> listener \<Rightarrow> lman \<Rightarrow> lman \<times> (lm_error list + listener)" where
  "lm_Update env b m =
     (case validatePort (lmPrimary m) (lsPort b) of
        Some e \<Rightarrow> (m, Inl [e])
      | None \<Rightarrow>
          (case listenerBindingLocked (lsID b) m of
             None \<Rightarrow> (m, Inl [NotFound])
           | Some old \<Rightarrow>
               (case store_update (leStore env 0) b m of
                  (m1, Inl e) \<Rightarrow> (case store_failed env e m1 of (m', es) \<Rightarrow> (m', Inl es))
                | (m1, Inr updated) \<Rightarrow>
                    (case runtime_of (lsID b) m1 of
                       Some rt \<Rightarrow>
                         if lsPort old = lsPort updated \<and> lsEnabled updated then
                           (case policyLocked updated (groups_of m1) of
                              Inl e \<Rightarrow>
                                (case store_update (leStore env 1) old m1 of
                                   (m2, r) \<Rightarrow> (m2, Inl (e # rollback_error (left_error r))))
                            | Inr policy \<Rightarrow>
                                (set_runtime (lsID b) (rt\<lparr>rtBinding := updated\<rparr>)
                                  (set_lserver (rtServer rt) (setRoutePolicy policy (lmServers m1 (rtServer rt))) m1),
                                 Inr updated))
                         else restart_updated env old updated (lsID b) m1
                     | None \<Rightarrow> restart_updated env old updated (lsID b) m1))))"

definition lm_Delete :: "lm_env \<Rightarrow> string \<Rightarrow> lman \<Rightarrow> lman \<times> lm_error list" where
  "lm_Delete env k m =
     (case listenerBindingLocked k m of
        None \<Rightarrow> (m, [NotFound])
      | Some old \<Rightarrow>
          let m1 = (case runtime_of k m of Some rt \<Rightarrow> drop_runtime k (stopListenerLocked rt m) | None \<Rightarrow> m) in
          (case DeleteListener (leStore env 0) k (lmStore m1) of
             (cs, None) \<Rightarrow> (m1\<lparr>lmStore := cs\<rparr>, [])
           | (cs, Some e) \<Rightarrow>
               let m2 = m1\<lparr>lmStore := cs\<rparr> in
               if durabilityUncertain e then store_failed env e m2
               else if lmStarted m2 \<and> lsEnabled old then
                 (case startLocked (leListen env 0) old m2 of
                    (m3, restart) \<Rightarrow> (m3, StoreError e # rollback_error restart))
               else (m2, [StoreError e])))"

section \<open>The end of an accept loop\<close>

definition accept_loop_ends :: "string \<Rightarrow> nat \<Rightarrow> bool \<Rightarrow> lman \<Rightarrow> lman" where
  "accept_loop_ends k n errClosed m =
     (case svListener (lmServers m n) of
        None \<Rightarrow> m
      | Some sock \<Rightarrow>
          (case serve_exit sock errClosed (lmServers m n) of
             (s, err) \<Rightarrow> (set_lserver n s m)\<lparr>lmStopped := (k, n, err) # lmStopped m\<rparr>))"

definition recordStopped :: "string \<Rightarrow> nat \<Rightarrow> lman \<Rightarrow> lman" where
  "recordStopped k n m =
     (case runtime_of k m of
        None \<Rightarrow> m
      | Some rt \<Rightarrow>
          if rtServer rt \<noteq> n then m
          else
            let m1 = set_runtime k (rt\<lparr>rtListening := False, rtErr := True\<rparr>) m
            in if rtExpected rt \<or> maxConfigListeners \<le> length (lmFatal m) then m1
               else m1\<lparr>lmFatal := lmFatal m @ [k]\<rparr>)"

section \<open>The invariant of the manager\<close>

definition entry_sound :: "lman \<Rightarrow> string \<times> runtime \<Rightarrow> bool" where
  "entry_sound m e = (case e of (k, rt) \<Rightarrow>
     let s = lmServers m (rtServer rt) in
     rtServer rt < lmNext m \<and> \<not> svShutting s \<and> lsID (rtBinding rt) = k \<and>
     (\<exists>port. validatePort (lmPrimary m) port = None \<and> listenerAddr (lmPrimary m) port = Inr (rtAddr rt)) \<and>
     (svListener s = None \<or> svListener s = Some (rtAddr rt)) \<and> (\<not> rtListening rt \<longrightarrow> svListener s = None))"

definition sockets_sound :: "lman \<Rightarrow> bool" where
  "sockets_sound m \<longleftrightarrow> (\<forall>n a. n < lmNext m \<longrightarrow> listens_on a (lmServers m n) \<longrightarrow>
      (\<exists>e\<in>set (lmRun m). rtServer (snd e) = n) \<and>
      (\<forall>n'. n' < lmNext m \<longrightarrow> listens_on a (lmServers m n') \<longrightarrow> n' = n))"

definition lm_ok :: "lman \<Rightarrow> bool" where
  "lm_ok m \<longleftrightarrow> wf_config (csCfg (lmStore m)) \<and> distinct (map fst (lmRun m)) \<and> distinct (map (rtServer \<circ> snd) (lmRun m)) \<and>
     (\<forall>e\<in>set (lmRun m). entry_sound m e) \<and> sockets_sound m \<and> (\<not> lmStarted m \<longrightarrow> lmRun m = []) \<and>
     (\<forall>(k, n, err)\<in>set (lmStopped m). n < lmNext m \<and> svListener (lmServers m n) = None)"

lemmas lm_fields = set_runtime_def drop_runtime_def set_lserver_def groups_of_def bindings_of_def runtime_of_def

lemma lm_okD:
  assumes "lm_ok m"
  shows "wf_config (csCfg (lmStore m))" "distinct (map fst (lmRun m))" "distinct (map (rtServer \<circ> snd) (lmRun m))"
    "e \<in> set (lmRun m) \<Longrightarrow> entry_sound m e" "sockets_sound m" "\<not> lmStarted m \<Longrightarrow> lmRun m = []"
    "(k, n, err) \<in> set (lmStopped m) \<Longrightarrow> n < lmNext m \<and> svListener (lmServers m n) = None"
  using assms by (auto simp: lm_ok_def)

lemma runtime_of_in: "lm_ok m \<Longrightarrow> runtime_of k m = Some rt \<longleftrightarrow> (k, rt) \<in> set (lmRun m)"
  using lm_okD(2) by (auto simp: runtime_of_def map_of_eq_Some_iff)

text \<open>
  A binding of the store always has a policy, so neither the order of the loop over the running
  listeners nor its early return matters.
\<close>

lemma resolve_group_some: "resolveGroupReference ref gs = Some r \<Longrightarrow> rrKind r = RefNamed \<Longrightarrow> rrGroup r \<noteq> None"
  by (auto simp: resolveGroupReference_def Let_def split: if_splits option.splits)

lemma policy_total:
  assumes "wf_config (csCfg (lmStore m))" "b \<in> set (bindings_of m)"
  shows "\<exists>policy. policyLocked b (groups_of m) = Inr policy"
proof -
  have ok: "listener_ok (groups_of m) b" using assms by (simp add: wf_config_def bindings_of_def groups_of_def)
  show ?thesis
  proof (cases "lsMode b = ListenerModeRules \<or> lsMode b = ListenerModeFixed")
    case True
    then show ?thesis by (auto simp: policyLocked_def Let_def)
  next
    case False
    with ok obtain r where r: "resolveGroupReference (lsGroup b) (groups_of m) = Some r"
      by (auto simp: listener_ok_def reference_ok_def split: if_splits)
    with False resolve_group_some [OF r] show ?thesis
      by (cases "rrKind r") (auto simp: policyLocked_def Let_def)
  qed
qed

lemma startLocked_cases:
  assumes "startLocked listenOk b m = (m', r)"
  obtains (failed) e where "r = Some e" "m' = m"
  | (started) addr policy where "r = None" "validatePort (lmPrimary m) (lsPort b) = None"
      "listenerAddr (lmPrimary m) (lsPort b) = Inr addr" "policyLocked b (groups_of m) = Inr policy"
      "\<not> address_in_use addr m"
      "m' = set_lserver (lmNext m) ((new_server policy)\<lparr>svListener := Some addr\<rparr>)
             (set_runtime (lsID b) \<lparr>rtBinding = b, rtServer = lmNext m, rtAddr = addr, rtErr = False, rtListening = True,
                rtExpected = False\<rparr> (m\<lparr>lmNext := lmNext m + 1\<rparr>))"
proof (cases "validatePort (lmPrimary m) (lsPort b)")
  case (Some e)
  with assms have "r = Some e" "m' = m" by (auto simp: startLocked_def)
  then show ?thesis by (rule failed)
next
  case port: None
  show ?thesis
  proof (cases "listenerAddr (lmPrimary m) (lsPort b)")
    case (Inl e)
    with assms port have "r = Some e" "m' = m" by (auto simp: startLocked_def)
    then show ?thesis by (rule failed)
  next
    case (Inr addr)
    show ?thesis
    proof (cases "policyLocked b (groups_of m)")
      case (Inl e)
      with assms port Inr have "r = Some e" "m' = m" by (auto simp: startLocked_def)
      then show ?thesis by (rule failed)
    next
      case pol: (Inr policy)
      show ?thesis
      proof (cases "\<not> listenOk \<or> address_in_use addr m")
        case True
        with assms port Inr pol have "r = Some ListenFailed" "m' = m" by (auto simp: startLocked_def)
        then show ?thesis by (rule failed)
      next
        case False
        show ?thesis
          by (rule started [of addr policy])
            (use assms port Inr pol False in \<open>simp_all add: startLocked_def Let_def\<close>)
      qed
    qed
  qed
qed

lemma start_ok:
  assumes ok: "lm_ok m" and st: "startLocked listenOk b m = (m', r)"
    and new: "runtime_of (lsID b) m = None" and on: "lmStarted m"
  shows "lm_ok m'"
  using st
proof (cases rule: startLocked_cases)
  case failed
  with ok show ?thesis by simp
next
  case (started addr policy)
  let ?n = "lmNext m" and ?s = "(new_server policy)\<lparr>svListener := Some addr\<rparr>"
  let ?rt = "\<lparr>rtBinding = b, rtServer = ?n, rtAddr = addr, rtErr = False, rtListening = True, rtExpected = False\<rparr>"
  have k: "lsID b \<notin> fst ` set (lmRun m)" using new by (auto simp: runtime_of_def map_of_eq_None_iff)
  have run: "lmRun m' = lmRun m @ [(lsID b, ?rt)]"
    by (simp add: started(6) set_lserver_def set_runtime_def aput_new [OF k])
  have srv: "lmServers m' = (lmServers m)(?n := ?s)" and nx: "lmNext m' = Suc ?n"
    and keep: "lmPrimary m' = lmPrimary m" "lmStore m' = lmStore m" "lmStarted m' = lmStarted m" "lmStopped m' = lmStopped m"
    by (simp_all add: started(6) set_lserver_def set_runtime_def)
  have old: "rtServer (snd e) < ?n" if "e \<in> set (lmRun m)" for e
    using lm_okD(4) [OF ok that] by (auto simp: entry_sound_def Let_def split: prod.splits)
  have entries: "entry_sound m' e" if "e \<in> set (lmRun m')" for e
  proof (cases "e = (lsID b, ?rt)")
    case True
    with started(2, 3) show ?thesis by (auto simp: entry_sound_def srv nx keep new_server_def)
  next
    case False
    with that run have "e \<in> set (lmRun m)" by simp
    with lm_okD(4) [OF ok this] old [OF this] show ?thesis
      by (auto simp: entry_sound_def Let_def srv nx keep split: prod.splits)
  qed
  have "sockets_sound m'"
    unfolding sockets_sound_def
  proof (intro allI impI)
    fix n a assume n: "n < lmNext m'" "listens_on a (lmServers m' n)"
    have free: "\<not> listens_on addr (lmServers m j)" if "j < ?n" for j
      using started(5) that by (auto simp: address_in_use_def list_ex_iff)
    show "(\<exists>e\<in>set (lmRun m'). rtServer (snd e) = n) \<and>
        (\<forall>n'. n' < lmNext m' \<longrightarrow> listens_on a (lmServers m' n') \<longrightarrow> n' = n)"
    proof (cases "n = ?n")
      case True
      with n(2) have "a = addr" by (simp add: srv listens_on_def)
      with True free show ?thesis by (auto simp: run srv nx)
    next
      case False
      with n have l: "n < ?n" "listens_on a (lmServers m n)" by (auto simp: srv nx)
      with free have "a \<noteq> addr" by blast
      then have "\<not> listens_on a ?s" by (simp add: listens_on_def)
      with l lm_okD(5) [OF ok] show ?thesis by (auto simp: sockets_sound_def run srv nx less_Suc_eq split: if_splits)
    qed
  qed
  moreover have "distinct (map (rtServer \<circ> snd) (lmRun m'))"
    using lm_okD(3) [OF ok] old by (fastforce simp: run)
  moreover have "\<forall>(k, n, err)\<in>set (lmStopped m'). n < lmNext m' \<and> svListener (lmServers m' n) = None"
    using lm_okD(7) [OF ok] by (fastforce simp: srv nx keep)
  ultimately show ?thesis
    unfolding lm_ok_def using lm_okD(1, 2) [OF ok] k on entries by (simp add: run keep)
qed

text \<open>Stopping one listener and forgetting it.\<close>

definition stop_drop :: "string \<Rightarrow> runtime \<Rightarrow> lman \<Rightarrow> lman" where
  "stop_drop k rt m = drop_runtime k (stopListenerLocked rt m)"

lemma stop_drop_fields:
  "lmServers (stop_drop k rt m) = (lmServers m)(rtServer rt := (lmServers m (rtServer rt))\<lparr>svShutting := True\<rparr>)"
  "lmRun (stop_drop k rt m) = filter (\<lambda>e. fst e \<noteq> k) (lmRun m)" "lmNext (stop_drop k rt m) = lmNext m"
  "lmPrimary (stop_drop k rt m) = lmPrimary m" "lmStore (stop_drop k rt m) = lmStore m"
  "lmStarted (stop_drop k rt m) = lmStarted m" "lmStopped (stop_drop k rt m) = lmStopped m"
  by (simp_all add: stop_drop_def stopListenerLocked_def set_lserver_def drop_runtime_def begin_shutdown_def)

lemma listens_stop: "listens_on a (((ss)(n := (ss n)\<lparr>svShutting := True\<rparr>)) j) \<longleftrightarrow> j \<noteq> n \<and> listens_on a (ss j)"
  by (simp add: listens_on_def)

lemma stop_drop_ok:
  assumes ok: "lm_ok m" and rt: "(k, rt) \<in> set (lmRun m)"
  shows "lm_ok (stop_drop k rt m)"
proof -
  have inj: "e = (k, rt)" if "e \<in> set (lmRun m)" "rtServer (snd e) = rtServer rt" for e
  proof -
    have "inj_on (rtServer \<circ> snd) (set (lmRun m))" using lm_okD(3) [OF ok] by (simp add: distinct_map)
    from inj_onD [OF this _ that(1) rt] that(2) show ?thesis by simp
  qed
  have key: "e = (k, rt)" if "e \<in> set (lmRun m)" "fst e = k" for e
  proof -
    have "inj_on fst (set (lmRun m))" using lm_okD(2) [OF ok] by (simp add: distinct_map)
    from inj_onD [OF this _ that(1) rt] that(2) show ?thesis by simp
  qed
  have "sockets_sound (stop_drop k rt m)"
    unfolding sockets_sound_def stop_drop_fields listens_stop
  proof (intro allI impI)
    fix n a assume n: "n < lmNext m" "n \<noteq> rtServer rt \<and> listens_on a (lmServers m n)"
    from lm_okD(5) [OF ok] n obtain e where e: "e \<in> set (lmRun m)" "rtServer (snd e) = n"
      and uniq: "\<forall>n'. n' < lmNext m \<longrightarrow> listens_on a (lmServers m n') \<longrightarrow> n' = n"
      unfolding sockets_sound_def by blast
    have "fst e \<noteq> k"
    proof
      assume "fst e = k"
      from key [OF e(1) this] have "snd e = rt" by simp
      with e(2) n(2) show False by simp
    qed
    with e uniq show "(\<exists>e\<in>set (filter (\<lambda>e. fst e \<noteq> k) (lmRun m)). rtServer (snd e) = n) \<and>
        (\<forall>n'. n' < lmNext m \<longrightarrow> n' \<noteq> rtServer rt \<and> listens_on a (lmServers m n') \<longrightarrow> n' = n)"
      by (intro conjI bexI [of _ e]) auto
  qed
  moreover have "entry_sound (stop_drop k rt m) e" if "e \<in> set (lmRun m)" "fst e \<noteq> k" for e
  proof -
    have "rtServer (snd e) \<noteq> rtServer rt" using inj [OF that(1)] that(2) by auto
    with lm_okD(4) [OF ok that(1)] show ?thesis by (auto simp: entry_sound_def Let_def stop_drop_fields split: prod.splits)
  qed
  moreover have "\<forall>(k', n, err)\<in>set (lmStopped m). n < lmNext m \<and> svListener (lmServers (stop_drop k rt m) n) = None"
  proof (intro ballI, clarify)
    fix k' n err assume "(k', n, err) \<in> set (lmStopped m)"
    from lm_okD(7) [OF ok this] show "n < lmNext m \<and> svListener (lmServers (stop_drop k rt m) n) = None"
      by (auto simp: stop_drop_fields)
  qed
  moreover have "distinct (map fst (filter (\<lambda>e. fst e \<noteq> k) (lmRun m)))"
    "distinct (map (rtServer \<circ> snd) (filter (\<lambda>e. fst e \<noteq> k) (lmRun m)))"
    using lm_okD(2, 3) [OF ok] by (simp_all add: distinct_map_filter)
  ultimately show ?thesis
    unfolding lm_ok_def using lm_okD(1) [OF ok] lm_okD(6) [OF ok] by (simp add: stop_drop_fields)
qed

text \<open>Replacing the binding and the policy of a running listener.\<close>

definition repolicy :: "string \<Rightarrow> runtime \<Rightarrow> listener \<Rightarrow> route_policy option \<Rightarrow> lman \<Rightarrow> lman" where
  "repolicy k rt b policy m =
     set_runtime k (rt\<lparr>rtBinding := b\<rparr>)
       (set_lserver (rtServer rt) (setRoutePolicy policy (lmServers m (rtServer rt))) m)"

lemma repolicy_fields:
  "lmServers (repolicy k rt b policy m) = (lmServers m)(rtServer rt := (lmServers m (rtServer rt))\<lparr>svPolicy := policy\<rparr>)"
  "lmRun (repolicy k rt b policy m) = aput k (rt\<lparr>rtBinding := b\<rparr>) (lmRun m)" "lmNext (repolicy k rt b policy m) = lmNext m"
  "lmPrimary (repolicy k rt b policy m) = lmPrimary m" "lmStore (repolicy k rt b policy m) = lmStore m"
  "lmStarted (repolicy k rt b policy m) = lmStarted m" "lmStopped (repolicy k rt b policy m) = lmStopped m"
  by (simp_all add: repolicy_def set_lserver_def set_runtime_def setRoutePolicy_def)

lemma repolicy_ok:
  assumes ok: "lm_ok m" and rt: "(k, rt) \<in> set (lmRun m)" and b: "lsID b = k"
  shows "lm_ok (repolicy k rt b policy m)"
proof -
  have set: "set (lmRun (repolicy k rt b policy m)) = insert (k, rt\<lparr>rtBinding := b\<rparr>) {e \<in> set (lmRun m). fst e \<noteq> k}"
    using lm_okD(2) [OF ok] by (simp add: repolicy_fields set_aput)
  have keys: "map fst (lmRun (repolicy k rt b policy m)) = map fst (lmRun m)"
    using rt by (force simp: repolicy_fields intro: map_fst_aput_old)
  have srvs: "map (rtServer \<circ> snd) (lmRun (repolicy k rt b policy m)) = map (rtServer \<circ> snd) (lmRun m)"
    unfolding repolicy_fields by (rule map_aput_old [OF lm_okD(2) [OF ok] rt]) simp
  have flags: "svListener (lmServers (repolicy k rt b policy m) n) = svListener (lmServers m n)"
    "svShutting (lmServers (repolicy k rt b policy m) n) = svShutting (lmServers m n)" for n
    by (simp_all add: repolicy_fields)
  then have listens: "listens_on a (lmServers (repolicy k rt b policy m) n) = listens_on a (lmServers m n)" for a n
    by (simp add: listens_on_def)
  have "entry_sound (repolicy k rt b policy m) e" if "e \<in> set (lmRun (repolicy k rt b policy m))" for e
    using that lm_okD(4) [OF ok rt] lm_okD(4) [OF ok, of e] b unfolding set
    by (auto simp: entry_sound_def Let_def flags repolicy_fields(3, 4))
  moreover have "sockets_sound (repolicy k rt b policy m)"
  proof -
    have "(\<exists>e\<in>set (lmRun (repolicy k rt b policy m)). rtServer (snd e) = n) \<longleftrightarrow> (\<exists>e\<in>set (lmRun m). rtServer (snd e) = n)" for n
      using arg_cong [OF srvs, of set] by (simp add: image_iff set_eq_iff comp_def) metis
    with lm_okD(5) [OF ok] show ?thesis by (simp add: sockets_sound_def listens repolicy_fields(3))
  qed
  ultimately show ?thesis
    using lm_okD(1, 2, 3, 6, 7) [OF ok] rt unfolding lm_ok_def keys srvs
    by (auto simp: flags repolicy_fields(3, 5, 6, 7))
qed

lemma stop_drop_fold: "drop_runtime k (stopListenerLocked rt m) = stop_drop k rt m"
  by (simp add: stop_drop_def)

lemma repolicy_fold:
  "set_runtime k (rt\<lparr>rtBinding := b\<rparr>) (set_lserver (rtServer rt) (setRoutePolicy policy (lmServers m (rtServer rt))) m) =
   repolicy k rt b policy m"
  by (simp add: repolicy_def)

lemma store_ok: "lm_ok m \<Longrightarrow> wf_config (csCfg cs) \<Longrightarrow> lm_ok (m\<lparr>lmStore := cs\<rparr>)"
  by (simp add: lm_ok_def entry_sound_def sockets_sound_def)

lemma runtime_stop_drop [simp]: "runtime_of k (stop_drop k rt m) = None"
  by (auto simp: runtime_of_def stop_drop_fields map_of_eq_None_iff)

lemma stop_fields:
  "lmStore (stopListenerLocked rt m) = lmStore m" "lmNext (stopListenerLocked rt m) = lmNext m"
  "lmStarted (stopListenerLocked rt m) = lmStarted m" "lmStopped (stopListenerLocked rt m) = lmStopped m"
  "svListener (lmServers (stopListenerLocked rt m) n) = svListener (lmServers m n)"
  "svShutting (lmServers (stopListenerLocked rt m) n) = (svShutting (lmServers m n) \<or> rtServer rt = n)"
  by (auto simp: stopListenerLocked_def set_lserver_def begin_shutdown_def)

lemma stopAll_fields:
  "lmStore (stopAllLocked m) = lmStore m \<and> lmRun (stopAllLocked m) = [] \<and> lmNext (stopAllLocked m) = lmNext m \<and>
   lmStarted (stopAllLocked m) = lmStarted m \<and> lmStopped (stopAllLocked m) = lmStopped m \<and>
   (\<forall>n. svListener (lmServers (stopAllLocked m) n) = svListener (lmServers m n) \<and>
        (svShutting (lmServers (stopAllLocked m) n) \<longleftrightarrow>
           svShutting (lmServers m n) \<or> (\<exists>e\<in>set (lmRun m). rtServer (snd e) = n)))"
proof -
  let ?f = "foldl (\<lambda>m e. stopListenerLocked (snd e) m)"
  have "lmStore (?f m es) = lmStore m \<and> lmNext (?f m es) = lmNext m \<and> lmStarted (?f m es) = lmStarted m \<and>
      lmStopped (?f m es) = lmStopped m \<and>
      (\<forall>n. svListener (lmServers (?f m es) n) = svListener (lmServers m n) \<and>
        (svShutting (lmServers (?f m es) n) \<longleftrightarrow> svShutting (lmServers m n) \<or> (\<exists>e\<in>set es. rtServer (snd e) = n)))"
    for es :: "(string \<times> runtime) list"
  proof (induction es arbitrary: m)
    case (Cons e es)
    show ?case using Cons.IH [of "stopListenerLocked (snd e) m"] unfolding foldl.simps by (auto simp: stop_fields)
  qed simp
  from this [of "lmRun m"] show ?thesis by (simp add: stopAllLocked_def)
qed

lemma stopAll_ok:
  assumes "lm_ok m"
  shows "lm_ok ((stopAllLocked m)\<lparr>lmStarted := b\<rparr>)"
    and "n < lmNext m \<Longrightarrow> \<not> listens_on a (lmServers (stopAllLocked m) n)"
proof -
  note f = stopAll_fields [of m]
  show closed: "\<not> listens_on a (lmServers (stopAllLocked m) n)" if "n < lmNext m" for n a
  proof
    assume "listens_on a (lmServers (stopAllLocked m) n)"
    with f have "listens_on a (lmServers m n)" "\<not> (\<exists>e\<in>set (lmRun m). rtServer (snd e) = n)"
      by (auto simp: listens_on_def)
    with lm_okD(5) [OF assms] that show False unfolding sockets_sound_def by blast
  qed
  have "sockets_sound ((stopAllLocked m)\<lparr>lmStarted := b\<rparr>)"
    unfolding sockets_sound_def using closed f by simp
  moreover have "\<forall>(k, n, err)\<in>set (lmStopped m). n < lmNext m \<and> svListener (lmServers (stopAllLocked m) n) = None"
    using lm_okD(7) [OF assms] f by auto
  ultimately show "lm_ok ((stopAllLocked m)\<lparr>lmStarted := b\<rparr>)"
    unfolding lm_ok_def using f lm_okD(1) [OF assms] by simp
qed

lemma started_fields:
  assumes "startLocked listenOk b m = (m', r)"
  shows "lmStarted m' = lmStarted m" "lmStore m' = lmStore m" "lmStopped m' = lmStopped m" "lmPrimary m' = lmPrimary m"
    "k \<noteq> lsID b \<Longrightarrow> runtime_of k m' = runtime_of k m"
  using assms by (cases rule: startLocked_cases; simp add: set_lserver_def set_runtime_def runtime_of_def)+

lemma start_bindings_ok:
  "start_bindings listenOk k bs m = (m', r) \<Longrightarrow> lm_ok m \<Longrightarrow> lmStarted m \<Longrightarrow> distinct (map lsID bs) \<Longrightarrow>
   \<forall>b\<in>set bs. runtime_of (lsID b) m = None \<Longrightarrow> lm_ok m'"
proof (induction bs arbitrary: k m)
  case (Cons b bs)
  show ?case
  proof (cases "lsEnabled b")
    case False
    with Cons show ?thesis by simp
  next
    case True
    obtain m1 e where st: "startLocked (listenOk k) b m = (m1, e)" by fastforce
    have ok: "lm_ok m1" by (rule start_ok [OF Cons.prems(2) st]) (use Cons.prems in auto)
    show ?thesis
    proof (cases e)
      case (Some x)
      with Cons.prems(1) True st ok show ?thesis by simp
    next
      case None
      with Cons.prems(1) True st have "start_bindings listenOk (k + 1) bs m1 = (m', r)" by simp
      moreover have "\<forall>b\<in>set bs. runtime_of (lsID b) m1 = None"
        using Cons.prems(4, 5) started_fields(5) [OF st] by (metis (no_types, lifting) distinct.simps(2) image_eqI list.set_intros(2) list.simps(9) list.set_map)
      ultimately show ?thesis using Cons.IH ok Cons.prems(3, 4) started_fields(1) [OF st] by simp
    qed
  qed
qed simp

lemma reconcile_running_ok:
  "reconcile_running es m = (m', r) \<Longrightarrow> lm_ok m \<Longrightarrow> set es \<subseteq> set (lmRun m) \<Longrightarrow> distinct (map fst es) \<Longrightarrow>
   lm_ok m' \<and> lmStarted m' = lmStarted m \<and> lmStore m' = lmStore m"
proof (induction es arbitrary: m)
  case (Cons e es)
  obtain k rt where e: "e = (k, rt)" by fastforce
  have rt: "(k, rt) \<in> set (lmRun m)" using Cons.prems(3) e by simp
  have others: "\<forall>x\<in>set es. fst x \<noteq> k" using Cons.prems(4) e by force
  have stop: "lm_ok (stop_drop k rt m)" "set es \<subseteq> set (lmRun (stop_drop k rt m))"
    "lmStarted (stop_drop k rt m) = lmStarted m" "lmStore (stop_drop k rt m) = lmStore m"
    using stop_drop_ok [OF Cons.prems(2) rt] others Cons.prems(3) by (auto simp: stop_drop_fields)
  have dist: "distinct (map fst es)" using Cons.prems(4) by simp
  show ?case
  proof (cases "find (\<lambda>b. lsID b = k) (bindings_of m)")
    case None
    with Cons.prems(1) e have "reconcile_running es (stop_drop k rt m) = (m', r)" by (simp add: stop_drop_fold)
    from Cons.IH [OF this stop(1, 2) dist] stop(3, 4) show ?thesis by simp
  next
    case (Some b)
    show ?thesis
    proof (cases "lsEnabled b \<and> rtListening rt \<and> lsPort (rtBinding rt) = lsPort b")
      case False
      with Some Cons.prems(1) e have "reconcile_running es (stop_drop k rt m) = (m', r)" by (auto simp: stop_drop_fold)
      from Cons.IH [OF this stop(1, 2) dist] stop(3, 4) show ?thesis by simp
    next
      case True
      show ?thesis
      proof (cases "policyLocked b (groups_of m)")
        case (Inl x)
        with Some True Cons.prems(1, 2) e show ?thesis by simp
      next
        case (Inr policy)
        with Some True Cons.prems(1) e have rec: "reconcile_running es (repolicy k rt b policy m) = (m', r)"
          by (simp add: repolicy_fold)
        have "lsID b = k" using Some by (auto simp: find_Some_iff)
        then have "lm_ok (repolicy k rt b policy m)" using repolicy_ok [OF Cons.prems(2) rt] True by simp
        moreover have "set es \<subseteq> set (lmRun (repolicy k rt b policy m))"
          using others Cons.prems(3) lm_okD(2) [OF Cons.prems(2)] by (auto simp: repolicy_fields set_aput)
        ultimately show ?thesis using Cons.IH [OF rec _ _ dist] by (simp add: repolicy_fields)
      qed
    qed
  qed
qed simp

lemma reconcile_missing_ok:
  "reconcile_missing listenOk k bs m = (m', es) \<Longrightarrow> lm_ok m \<Longrightarrow> lmStarted m \<Longrightarrow>
   lm_ok m' \<and> lmStarted m' \<and> lmStore m' = lmStore m"
proof (induction bs arbitrary: k m es)
  case (Cons b bs)
  show ?case
  proof (cases "\<not> lsEnabled b \<or> runtime_of (lsID b) m \<noteq> None")
    case True
    with Cons show ?thesis by simp
  next
    case False
    obtain m1 e where st: "startLocked (listenOk k) b m = (m1, e)" by fastforce
    obtain m2 es2 where rec: "reconcile_missing listenOk (k + 1) bs m1 = (m2, es2)" by fastforce
    have ok: "lm_ok m1" by (rule start_ok [OF Cons.prems(2) st]) (use False Cons.prems in auto)
    have m2: "m' = m2" using Cons.prems(1) False st rec by (auto split: option.splits)
    from Cons.IH [OF rec [folded m2] ok] Cons.prems(3) started_fields(1, 2) [OF st] show ?thesis by simp
  qed
qed simp

lemma reconcile_ok:
  assumes "reconcileRuntimeLocked listenOk m = (m', es)" "lm_ok m"
  shows "lm_ok m' \<and> lmStore m' = lmStore m"
proof -
  obtain m1 r where run: "reconcile_running (lmRun m) m = (m1, r)" by fastforce
  from reconcile_running_ok [OF this assms(2)] lm_okD(2) [OF assms(2)]
  have ok: "lm_ok m1" "lmStore m1 = lmStore m" by auto
  show ?thesis
  proof (cases "r = None \<and> lmStarted m1")
    case True
    with assms(1) run have "reconcile_missing listenOk 0 (bindings_of m1) m1 = (m', es)"
      by (simp add: reconcileRuntimeLocked_def)
    from reconcile_missing_ok [OF this ok(1)] True ok(2) show ?thesis by simp
  next
    case False
    with assms(1) run ok show ?thesis by (auto simp: reconcileRuntimeLocked_def split: option.splits)
  qed
qed

section \<open>Operations keep the invariant\<close>

lemma config_step_wf: "config_step cs cs' \<Longrightarrow> wf_config (csCfg cs) \<Longrightarrow> wf_config (csCfg cs')"
  using reach_wf [OF config_reach.step [OF config_reach.init]] by blast

lemma store_ops_wf:
  assumes "wf_config (csCfg cs)"
  shows "wf_config (csCfg (fst (AddListener env gid b cs)))" "wf_config (csCfg (fst (UpdateListener env b cs)))"
    "wf_config (csCfg (fst (DeleteListener env k cs)))"
  using config_step_wf [OF _ assms] config_step.add_listener config_step.update_listener config_step.delete_listener
  by blast+

lemma store_failed_ok: "store_failed env e m = (m', es) \<Longrightarrow> lm_ok m \<Longrightarrow> lm_ok m' \<and> lmStore m' = lmStore m"
  using reconcile_ok [of "leListen env" m] by (auto simp: store_failed_def split: if_splits prod.splits)

lemma stop_if_running_ok:
  assumes "lm_ok m" "m1 = (case runtime_of k m of Some rt \<Rightarrow> drop_runtime k (stopListenerLocked rt m) | None \<Rightarrow> m)"
  shows "lm_ok m1 \<and> runtime_of k m1 = None \<and> lmStore m1 = lmStore m \<and> lmStarted m1 = lmStarted m"
proof (cases "runtime_of k m")
  case None
  with assms show ?thesis by simp
next
  case (Some rt)
  with assms(1) have "(k, rt) \<in> set (lmRun m)" by (simp add: runtime_of_in)
  with Some stop_drop_ok [OF assms(1)] show ?thesis using assms(2) by (simp add: stop_drop_fold stop_drop_fields)
qed

lemma store_update_ok:
  assumes "lm_ok m" "store_update env b m = (m', r)"
  shows "lm_ok m'" "lmRun m' = lmRun m" "lmStarted m' = lmStarted m" "lmServers m' = lmServers m" "lmNext m' = lmNext m"
proof -
  obtain cs r' where u: "UpdateListener env b (lmStore m) = (cs, r')" by fastforce
  with assms(2) have m': "m' = m\<lparr>lmStore := cs\<rparr>" by (simp add: store_update_def)
  have "wf_config (csCfg cs)" using store_ops_wf(2) [OF lm_okD(1) [OF assms(1)], of env b] u by simp
  with store_ok [OF assms(1)] m' show "lm_ok m'" by simp
  from m' show "lmRun m' = lmRun m" "lmStarted m' = lmStarted m" "lmServers m' = lmServers m" "lmNext m' = lmNext m" by simp_all
qed

lemma restart_ok:
  assumes ok: "lm_ok m" and ids: "lsID updated = k" "lsID old = k"
    and st: "restart_updated env old updated k m = (m', r)"
  shows "lm_ok m'"
proof -
  let ?m1 = "case runtime_of k m of Some rt \<Rightarrow> drop_runtime k (stopListenerLocked rt m) | None \<Rightarrow> m"
  from stop_if_running_ok [OF ok, of ?m1 k] have
    m1: "lm_ok ?m1" "runtime_of k ?m1 = None" by simp_all
  show ?thesis
  proof (cases "lmStarted ?m1 \<and> lsEnabled updated")
    case False
    with st m1(1) show ?thesis by (simp add: restart_updated_def Let_def split: if_splits)
  next
    case True
    obtain m2 e where s: "startLocked (leListen env 0) updated ?m1 = (m2, e)" by fastforce
    have m2: "lm_ok m2" by (rule start_ok [OF m1(1) s]) (use True m1(2) ids in auto)
    show ?thesis
    proof (cases e)
      case None
      with True st s m2 show ?thesis by (simp add: restart_updated_def Let_def)
    next
      case (Some x)
      have same: "m2 = ?m1" using s Some by (cases rule: startLocked_cases) auto
      obtain m3 r3 where u: "store_update (leStore env 1) old m2 = (m3, r3)" by fastforce
      note m3 = store_update_ok [OF m2 u]
      obtain m4 r4 where b: "(if lsEnabled old then startLocked (leListen env 1) old m3 else (m3, None)) = (m4, r4)" by fastforce
      have "runtime_of (lsID old) m3 = None" using m1(2) m3(2) ids same by (simp add: runtime_of_def)
      then have "lm_ok m4" using b start_ok [OF m3(1), of "leListen env 1" old m4 r4] m3(1, 3) True same
        by (auto split: if_splits)
      moreover have "m' = m4" using True st s Some u b by (simp add: restart_updated_def Let_def)
      ultimately show ?thesis by simp
    qed
  qed
qed

lemma update_id:
  assumes "store_update env b m = (m', Inr updated)" "trim_space (lsID b) = lsID b"
  shows "lsID updated = lsID b \<and> updated \<in> set (bindings_of m')"
proof -
  obtain cs where u: "UpdateListener env b (lmStore m) = (cs, Inr updated)" "m' = m\<lparr>lmStore := cs\<rparr>"
    using assms(1) by (auto simp: store_update_def split: prod.splits)
  then have "find (\<lambda>l. lsID l = lsID b) (cfListeners (csCfg cs)) = Some updated"
    using assms(2) by (auto simp: UpdateListener_def finish_listener_def lookupListener_def Let_def
        split: if_splits sum.splits prod.splits option.splits)
  with u(2) show ?thesis by (auto simp: find_Some_iff bindings_of_def)
qed

lemma binding_found:
  assumes "lm_ok m" "listenerBindingLocked k m = Some old"
  shows "lsID old = k" "old \<in> set (bindings_of m)" "trim_space k = k"
proof -
  from assms(2) show "lsID old = k" "old \<in> set (bindings_of m)"
    by (auto simp: listenerBindingLocked_def find_Some_iff)
  with lm_okD(1) [OF assms(1)] show "trim_space k = k" by (auto simp: wf_config_def listener_ok_def bindings_of_def)
qed

lemma lm_update_ok:
  assumes "lm_ok m" "lm_Update env b m = (m', r)"
  shows "lm_ok m'"
proof (cases "validatePort (lmPrimary m) (lsPort b) = None \<and> listenerBindingLocked (lsID b) m \<noteq> None")
  case False
  with assms show ?thesis by (auto simp: lm_Update_def split: option.splits)
next
  case True
  then obtain old where old: "listenerBindingLocked (lsID b) m = Some old" by auto
  note idold = binding_found [OF assms(1) old]
  obtain m1 ur where u: "store_update (leStore env 0) b m = (m1, ur)" by fastforce
  note m1 = store_update_ok [OF assms(1) u]
  show ?thesis
  proof (cases ur)
    case (Inl e)
    obtain m2 es where f: "store_failed env e m1 = (m2, es)" by fastforce
    with True old u Inl assms(2) have "m' = m2" by (simp add: lm_Update_def)
    with store_failed_ok [OF f m1(1)] show ?thesis by simp
  next
    case (Inr updated)
    from update_id [OF u [unfolded Inr] idold(3)] have id: "lsID updated = lsID b" by simp
    have rs: ?thesis if "restart_updated env old updated (lsID b) m1 = (m', r)"
      by (rule restart_ok [OF m1(1) id idold(1) that])
    show ?thesis
    proof (cases "runtime_of (lsID b) m1")
      case None
      with True old u Inr assms(2) rs show ?thesis by (simp add: lm_Update_def)
    next
      case (Some rt)
      show ?thesis
      proof (cases "lsPort old = lsPort updated \<and> lsEnabled updated")
        case False
        with True old u Inr Some assms(2) rs show ?thesis by (simp add: lm_Update_def split: if_splits)
      next
        case same: True
        show ?thesis
        proof (cases "policyLocked updated (groups_of m1)")
          case (Inl e)
          obtain m2 r2 where "store_update (leStore env 1) old m1 = (m2, r2)" by fastforce
          with True old u Inr Some same Inl assms(2) store_update_ok [OF m1(1) this] show ?thesis
            by (simp add: lm_Update_def)
        next
          case pol: (Inr policy)
          have in1: "(lsID b, rt) \<in> set (lmRun m1)" using Some m1(1) by (simp add: runtime_of_in)
          have "m' = repolicy (lsID b) rt updated policy m1"
            using True old u Inr Some same pol assms(2) by (simp add: lm_Update_def repolicy_fold)
          with repolicy_ok [OF m1(1) in1 id] show ?thesis by simp
        qed
      qed
    qed
  qed
qed

lemma add_ok:
  assumes ok: "lm_ok m" and new: "runtime_of gid m = None" and st: "lm_Add env gid b m = (m', r)"
  shows "lm_ok m'"
proof (cases "validatePort (lmPrimary m) (lsPort b)")
  case (Some e)
  with assms show ?thesis by (simp add: lm_Add_def)
next
  case None
  obtain cs ar where a: "AddListener (leStore env 0) gid b (lmStore m) = (cs, ar)" by fastforce
  have wf: "wf_config (csCfg cs)" using store_ops_wf(1) [OF lm_okD(1) [OF ok], of "leStore env 0" gid b] a by simp
  let ?m1 = "m\<lparr>lmStore := cs\<rparr>"
  have m1: "lm_ok ?m1" by (rule store_ok [OF ok wf])
  show ?thesis
  proof (cases ar)
    case (Inl e)
    obtain m2 es where f: "store_failed env e ?m1 = (m2, es)" by fastforce
    with None a Inl st have "m' = m2" by (simp add: lm_Add_def)
    with store_failed_ok [OF f m1] show ?thesis by simp
  next
    case (Inr created)
    have id: "lsID created = gid" using a Inr
      by (auto simp: AddListener_def finish_listener_def lookupListener_def find_Some_iff
          split: sum.splits prod.splits option.splits)
    show ?thesis
    proof (cases "lmStarted m \<and> lsEnabled created")
      case False
      with None a Inr st m1 show ?thesis by (simp add: lm_Add_def Let_def split: if_splits)
    next
      case True
      obtain m2 e where s: "startLocked (leListen env 0) created ?m1 = (m2, e)" by fastforce
      have m2: "lm_ok m2" by (rule start_ok [OF m1 s]) (use new id True in \<open>auto simp: runtime_of_def\<close>)
      show ?thesis
      proof (cases e)
        case e: None
        with None a Inr st True s m2 show ?thesis by (simp add: lm_Add_def Let_def)
      next
        case e: (Some x)
        obtain cs' err where d: "DeleteListener (leStore env 1) (lsID created) (lmStore m2) = (cs', err)" by fastforce
        have "wf_config (csCfg cs')"
          using store_ops_wf(3) [OF lm_okD(1) [OF m2], of "leStore env 1" "lsID created"] d by simp
        moreover have "m' = m2\<lparr>lmStore := cs'\<rparr>" using None a Inr st True s e d by (simp add: lm_Add_def Let_def)
        ultimately show ?thesis using store_ok [OF m2] by simp
      qed
    qed
  qed
qed

lemma delete_ok:
  assumes ok: "lm_ok m" and st: "lm_Delete env k m = (m', es)"
  shows "lm_ok m'"
proof (cases "listenerBindingLocked k m")
  case None
  with assms show ?thesis by (simp add: lm_Delete_def)
next
  case (Some old)
  then have id: "lsID old = k" by (auto simp: listenerBindingLocked_def find_Some_iff)
  let ?m1 = "case runtime_of k m of Some rt \<Rightarrow> drop_runtime k (stopListenerLocked rt m) | None \<Rightarrow> m"
  from stop_if_running_ok [OF ok, of ?m1 k] have m1: "lm_ok ?m1" "runtime_of k ?m1 = None" by simp_all
  obtain cs err where d: "DeleteListener (leStore env 0) k (lmStore ?m1) = (cs, err)" by fastforce
  let ?m2 = "?m1\<lparr>lmStore := cs\<rparr>"
  have "wf_config (csCfg cs)" using store_ops_wf(3) [OF lm_okD(1) [OF m1(1)], of "leStore env 0" k] d by simp
  then have m2: "lm_ok ?m2" by (rule store_ok [OF m1(1)])
  show ?thesis
  proof (cases err)
    case None
    with Some st d m2 show ?thesis by (simp add: lm_Delete_def Let_def)
  next
    case e: (Some e)
    show ?thesis
    proof (cases "durabilityUncertain e")
      case True
      with Some st d e have "store_failed env e ?m2 = (m', es)" by (simp add: lm_Delete_def Let_def)
      from store_failed_ok [OF this m2] show ?thesis by simp
    next
      case False
      show ?thesis
      proof (cases "lmStarted ?m2 \<and> lsEnabled old")
        case True
        obtain m3 r3 where s: "startLocked (leListen env 0) old ?m2 = (m3, r3)" by fastforce
        have "lm_ok m3" by (rule start_ok [OF m2 s]) (use m1(2) True id in \<open>auto simp: runtime_of_def\<close>)
        moreover have "m' = m3" using Some st d e False True s by (simp add: lm_Delete_def Let_def)
        ultimately show ?thesis by simp
      next
        case off: False
        with Some st d e False m2 show ?thesis by (simp add: lm_Delete_def Let_def split: if_splits)
      qed
    qed
  qed
qed

lemma Start_ok:
  assumes ok: "lm_ok m" and st: "lm_Start env m = (m', r)"
  shows "lm_ok m'"
proof (cases "lmStarted m")
  case True
  with assms show ?thesis by (simp add: lm_Start_def)
next
  case False
  then have empty: "lmRun m = []" using lm_okD(6) [OF ok] by simp
  have m0: "lm_ok (m\<lparr>lmStarted := True\<rparr>)" using ok by (simp add: lm_ok_def entry_sound_def sockets_sound_def)
  obtain m1 e where s: "start_bindings (leListen env) 0 (bindings_of m) (m\<lparr>lmStarted := True\<rparr>) = (m1, e)" by fastforce
  have "distinct (map lsID (bindings_of m))" using lm_okD(1) [OF ok] by (simp add: wf_config_def bindings_of_def)
  then have m1: "lm_ok m1"
    by (intro start_bindings_ok [OF s m0]) (simp_all add: runtime_of_def empty)
  show ?thesis
  proof (cases e)
    case None
    with False s st m1 show ?thesis by (simp add: lm_Start_def)
  next
    case (Some x)
    with False s st have "m' = (stopAllLocked m1)\<lparr>lmStarted := False\<rparr>" by (simp add: lm_Start_def)
    with stopAll_ok(1) [OF m1] show ?thesis by simp
  qed
qed

lemma stopListener_started [simp]:
  "stopListenerLocked rt (m\<lparr>lmStarted := b\<rparr>) = (stopListenerLocked rt m)\<lparr>lmStarted := b\<rparr>"
  by (simp add: stopListenerLocked_def set_lserver_def)

lemma stopAll_started: "stopAllLocked (m\<lparr>lmStarted := b\<rparr>) = (stopAllLocked m)\<lparr>lmStarted := b\<rparr>"
proof -
  have "foldl (\<lambda>m e. stopListenerLocked (snd e) m) (m\<lparr>lmStarted := b\<rparr>) es =
      (foldl (\<lambda>m e. stopListenerLocked (snd e) m) m es)\<lparr>lmStarted := b\<rparr>" for es :: "(string \<times> runtime) list"
    by (induction es arbitrary: m) simp_all
  then show ?thesis by (simp add: stopAllLocked_def)
qed

lemma Shutdown_ok: "lm_ok m \<Longrightarrow> lm_ok (lm_Shutdown m)"
  by (simp add: lm_Shutdown_def stopAll_started stopAll_ok(1))

lemma ends_ok:
  assumes ok: "lm_ok m" and n: "n < lmNext m"
  shows "lm_ok (accept_loop_ends k n errClosed m)"
proof (cases "svListener (lmServers m n)")
  case None
  with ok show ?thesis by (simp add: accept_loop_ends_def)
next
  case (Some sock)
  let ?m = "accept_loop_ends k n errClosed m"
  have f: "lmRun ?m = lmRun m" "lmNext ?m = lmNext m" "lmPrimary ?m = lmPrimary m" "lmStore ?m = lmStore m"
    "lmStarted ?m = lmStarted m" "svShutting (lmServers ?m j) = svShutting (lmServers m j)"
    "svListener (lmServers ?m j) = (if j = n then None else svListener (lmServers m j))" for j
    using Some by (auto simp: accept_loop_ends_def serve_exit_def set_lserver_def)
  have st: "\<exists>err. lmStopped ?m = (k, n, err) # lmStopped m"
    using Some by (auto simp: accept_loop_ends_def serve_exit_def set_lserver_def)
  have "entry_sound ?m e" if "e \<in> set (lmRun m)" for e
    using lm_okD(4) [OF ok that] by (auto simp: entry_sound_def Let_def f split: prod.splits)
  moreover have "sockets_sound ?m"
    using lm_okD(5) [OF ok] by (auto simp: sockets_sound_def listens_on_def f split: if_splits)
  moreover have "\<forall>(k, j, err)\<in>set (lmStopped ?m). j < lmNext m \<and> svListener (lmServers ?m j) = None"
    using lm_okD(7) [OF ok] st n by (auto simp: f)
  ultimately show ?thesis using lm_okD(1, 2, 3, 6) [OF ok] by (simp add: lm_ok_def f(1-5))
qed

lemma record_ok:
  assumes ok: "lm_ok m" and st: "(k, n, err) \<in> set (lmStopped m)"
  shows "lm_ok (recordStopped k n m)"
proof (cases "\<exists>rt. runtime_of k m = Some rt \<and> rtServer rt = n")
  case False
  with ok show ?thesis by (auto simp: recordStopped_def split: option.split)
next
  case True
  then obtain rt where rt: "runtime_of k m = Some rt" "rtServer rt = n" by auto
  let ?rt = "rt\<lparr>rtListening := False, rtErr := True\<rparr>" and ?m = "recordStopped k n m"
  have in1: "(k, rt) \<in> set (lmRun m)" using rt(1) ok by (simp add: runtime_of_in)
  have f: "lmRun ?m = aput k ?rt (lmRun m)" "lmNext ?m = lmNext m" "lmPrimary ?m = lmPrimary m"
    "lmStore ?m = lmStore m" "lmStarted ?m = lmStarted m" "lmServers ?m = lmServers m" "lmStopped ?m = lmStopped m"
    using rt by (simp_all add: recordStopped_def set_runtime_def Let_def)
  have keys: "map fst (lmRun ?m) = map fst (lmRun m)" using in1 by (force simp: f intro: map_fst_aput_old)
  have srvs: "map (rtServer \<circ> snd) (lmRun ?m) = map (rtServer \<circ> snd) (lmRun m)"
    unfolding f by (rule map_aput_old [OF lm_okD(2) [OF ok] in1]) simp
  have "entry_sound ?m e" if "e \<in> set (lmRun ?m)" for e
    using that lm_okD(4) [OF ok in1] lm_okD(4) [OF ok, of e] lm_okD(7) [OF ok st] lm_okD(2) [OF ok] rt(2)
    by (auto simp: entry_sound_def Let_def f set_aput)
  moreover have "sockets_sound ?m"
  proof -
    have "(\<exists>e\<in>set (lmRun ?m). rtServer (snd e) = j) \<longleftrightarrow> (\<exists>e\<in>set (lmRun m). rtServer (snd e) = j)" for j
      using arg_cong [OF srvs, of set] by (simp add: image_iff set_eq_iff comp_def) metis
    with lm_okD(5) [OF ok] show ?thesis by (simp add: sockets_sound_def f(2, 6))
  qed
  ultimately show ?thesis
    using lm_okD(1, 2, 3, 6, 7) [OF ok] in1 unfolding lm_ok_def keys srvs by (auto simp: f(2-7))
qed

section \<open>The manager as a state machine\<close>

text \<open>
  Every operation under the mutex, the end of an accept loop, the callback of one that has
  ended, and any operation on the configuration store that does not go through the manager.
\<close>

inductive lm_step :: "lman \<Rightarrow> lman \<Rightarrow> bool" where
  start: "lm_step m (fst (lm_Start env m))"
| shutdown: "lm_step m (lm_Shutdown m)"
| add: "runtime_of gid m = None \<Longrightarrow> lm_step m (fst (lm_Add env gid b m))"
| update: "lm_step m (fst (lm_Update env b m))"
| delete: "lm_step m (fst (lm_Delete env k m))"
| ends: "n < lmNext m \<Longrightarrow> lm_step m (accept_loop_ends k n errClosed m)"
| stopped: "(k, n, err) \<in> set (lmStopped m) \<Longrightarrow> lm_step m (recordStopped k n m)"
| config: "config_step (lmStore m) cs \<Longrightarrow> lm_step m (m\<lparr>lmStore := cs\<rparr>)"

inductive lm_reach :: "lman \<Rightarrow> lman \<Rightarrow> bool" for m0 where
  init: "lm_reach m0 m0"
| step: "lm_reach m0 m \<Longrightarrow> lm_step m m' \<Longrightarrow> lm_reach m0 m'"

definition NewListenerManager :: "string \<Rightarrow> config_store \<Rightarrow> lman" where
  "NewListenerManager primary store = \<lparr>lmPrimary = primary, lmStore = store, lmRun = [], lmStarted = False,
     lmServers = (\<lambda>_. new_server None), lmNext = 0, lmStopped = [], lmFatal = []\<rparr>"

lemma new_manager_ok: "wf_config (csCfg store) \<Longrightarrow> lm_ok (NewListenerManager primary store)"
  by (simp add: NewListenerManager_def lm_ok_def sockets_sound_def)

lemma lm_step_ok: "lm_step m m' \<Longrightarrow> lm_ok m \<Longrightarrow> lm_ok m'"
proof (induction rule: lm_step.induct)
  case (start m env)
  then show ?case using Start_ok [of m env] by (cases "lm_Start env m") auto
next
  case (shutdown m)
  then show ?case by (rule Shutdown_ok)
next
  case (add gid m env b)
  then show ?case using add_ok [of m gid env b] by (cases "lm_Add env gid b m") auto
next
  case (update m env b)
  then show ?case using lm_update_ok [of m env b] by (cases "lm_Update env b m") auto
next
  case (delete m env k)
  then show ?case using delete_ok [of m env k] by (cases "lm_Delete env k m") auto
next
  case (ends n m k errClosed)
  then show ?case using ends_ok by blast
next
  case (stopped k n err m)
  then show ?case using record_ok by blast
next
  case (config m cs)
  then show ?case using store_ok [of m cs] config_step_wf [of "lmStore m" cs] lm_okD(1) [of m] by blast
qed

lemma lm_reach_ok: "lm_reach m0 m \<Longrightarrow> lm_ok m0 \<Longrightarrow> lm_ok m"
  by (induction rule: lm_reach.induct) (auto dest: lm_step_ok)

section \<open>Reconciliation brings store and sockets together\<close>

text \<open>A running listener that serves its binding of the store with the policy this binding asks for.\<close>

definition current :: "lman \<Rightarrow> string \<Rightarrow> runtime \<Rightarrow> bool" where
  "current m k rt \<longleftrightarrow>
     (\<exists>b\<in>set (bindings_of m). lsID b = k \<and> lsEnabled b \<and> rtBinding rt = b \<and> rtListening rt \<and>
        policyLocked b (groups_of m) = Inr (svPolicy (lmServers m (rtServer rt))))"

lemma servers_differ:
  assumes "lm_ok m" "(k, rt) \<in> set (lmRun m)" "(k', rt') \<in> set (lmRun m)" "k \<noteq> k'"
  shows "rtServer rt \<noteq> rtServer rt'"
proof -
  have "inj_on (rtServer \<circ> snd) (set (lmRun m))" using lm_okD(3) [OF assms(1)] by (simp add: distinct_map)
  from inj_onD [OF this _ assms(2, 3)] assms(4) show ?thesis by auto
qed

lemma current_frame:
  assumes "current m k rt" "lmStore m' = lmStore m" "lmServers m' (rtServer rt) = lmServers m (rtServer rt)"
  shows "current m' k rt"
  using assms by (simp add: current_def bindings_of_def groups_of_def)

lemma reconcile_running_spec:
  "lm_ok m \<Longrightarrow> set es \<subseteq> set (lmRun m) \<Longrightarrow> distinct (map fst es) \<Longrightarrow>
   \<exists>m'. reconcile_running es m = (m', None) \<and> (\<forall>k rt. (k, rt) \<in> set (lmRun m') \<longrightarrow>
     (if k \<in> fst ` set es then current m' k rt
      else (k, rt) \<in> set (lmRun m) \<and> lmServers m' (rtServer rt) = lmServers m (rtServer rt)))"
proof (induction es arbitrary: m)
  case (Cons e es)
  obtain k0 rt0 where e: "e = (k0, rt0)" by fastforce
  have rt0: "(k0, rt0) \<in> set (lmRun m)" using Cons.prems(2) e by simp
  have others: "\<forall>x\<in>set es. fst x \<noteq> k0" and dist: "distinct (map fst es)" using Cons.prems(3) e by force+
  have far: "(k, rt) \<in> set (lmRun m) \<Longrightarrow> k \<noteq> k0 \<Longrightarrow> rtServer rt \<noteq> rtServer rt0" for k rt
    using servers_differ [OF Cons.prems(1) _ rt0] by blast
  have stopped: ?case if rec: "reconcile_running (e # es) m = reconcile_running es (stop_drop k0 rt0 m)"
  proof -
    have "set es \<subseteq> set (lmRun (stop_drop k0 rt0 m))" using others Cons.prems(2) by (auto simp: stop_drop_fields)
    from Cons.IH [OF stop_drop_ok [OF Cons.prems(1) rt0] this dist] obtain m'
      where m': "reconcile_running es (stop_drop k0 rt0 m) = (m', None)"
      and P: "\<And>k rt. (k, rt) \<in> set (lmRun m') \<Longrightarrow> if k \<in> fst ` set es then current m' k rt
        else (k, rt) \<in> set (lmRun (stop_drop k0 rt0 m)) \<and> lmServers m' (rtServer rt) = lmServers (stop_drop k0 rt0 m) (rtServer rt)"
      by blast
    have "if k \<in> fst ` set (e # es) then current m' k rt
        else (k, rt) \<in> set (lmRun m) \<and> lmServers m' (rtServer rt) = lmServers m (rtServer rt)"
      if "(k, rt) \<in> set (lmRun m')" for k rt
      using P [OF that] far e by (auto simp: stop_drop_fields split: if_splits)
    with m' rec show ?thesis by auto
  qed
  show ?case
  proof (cases "\<exists>b. find (\<lambda>b. lsID b = k0) (bindings_of m) = Some b \<and>
      lsEnabled b \<and> rtListening rt0 \<and> lsPort (rtBinding rt0) = lsPort b")
    case False
    then show ?thesis by (intro stopped) (auto simp: e stop_drop_fold split: option.split)
  next
    case True
    then obtain b where b: "find (\<lambda>b. lsID b = k0) (bindings_of m) = Some b" "lsEnabled b" "rtListening rt0"
      "lsPort (rtBinding rt0) = lsPort b" by blast
    then have mem: "b \<in> set (bindings_of m)" "lsID b = k0" by (auto simp: find_Some_iff)
    from policy_total [OF lm_okD(1) [OF Cons.prems(1)] mem(1)] obtain policy
      where pol: "policyLocked b (groups_of m) = Inr policy" by blast
    let ?m1 = "repolicy k0 rt0 b policy m"
    have run: "set (lmRun ?m1) = insert (k0, rt0\<lparr>rtBinding := b\<rparr>) {e \<in> set (lmRun m). fst e \<noteq> k0}"
      using lm_okD(2) [OF Cons.prems(1)] by (simp add: repolicy_fields set_aput)
    have "set es \<subseteq> set (lmRun ?m1)" using others Cons.prems(2) by (auto simp: run)
    from Cons.IH [OF repolicy_ok [OF Cons.prems(1) rt0 mem(2)] this dist] obtain m'
      where m': "reconcile_running es ?m1 = (m', None)"
      and P: "\<And>k rt. (k, rt) \<in> set (lmRun m') \<Longrightarrow> if k \<in> fst ` set es then current m' k rt
        else (k, rt) \<in> set (lmRun ?m1) \<and> lmServers m' (rtServer rt) = lmServers ?m1 (rtServer rt)"
      by blast
    have st: "lmStore m' = lmStore ?m1"
      using reconcile_running_ok [OF m' repolicy_ok [OF Cons.prems(1) rt0 mem(2)] \<open>set es \<subseteq> set (lmRun ?m1)\<close> dist] by simp
    have cur: "current ?m1 k0 (rt0\<lparr>rtBinding := b\<rparr>)"
      using b mem pol by (simp add: current_def bindings_of_def groups_of_def repolicy_fields)
    have "if k \<in> fst ` set (e # es) then current m' k rt
        else (k, rt) \<in> set (lmRun m) \<and> lmServers m' (rtServer rt) = lmServers m (rtServer rt)"
      if "(k, rt) \<in> set (lmRun m')" for k rt
    proof (cases "k = k0")
      case True
      with P [OF that] others have "(k0, rt) \<in> set (lmRun ?m1)" "lmServers m' (rtServer rt) = lmServers ?m1 (rtServer rt)"
        by (auto split: if_splits)
      with run current_frame [OF cur st] have "current m' k0 rt" by auto
      with True show ?thesis by (simp add: e)
    next
      case False
      have "(k, rt) \<in> set (lmRun m) \<and> lmServers m' (rtServer rt) = lmServers m (rtServer rt)" if "k \<notin> fst ` set es"
      proof -
        from P [OF \<open>(k, rt) \<in> set (lmRun m')\<close>] that
        have old: "(k, rt) \<in> set (lmRun ?m1)" and srv: "lmServers m' (rtServer rt) = lmServers ?m1 (rtServer rt)" by auto
        from old False have "(k, rt) \<in> set (lmRun m)" by (auto simp: run)
        with srv far [OF this False] show ?thesis by (simp add: repolicy_fields)
      qed
      with False P [OF that] show ?thesis by (auto simp: e)
    qed
    moreover have "reconcile_running (e # es) m = reconcile_running es ?m1" using b pol by (simp add: e repolicy_fold)
    ultimately show ?thesis using m' by auto
  qed
qed simp

lemma start_current:
  assumes ok: "lm_ok m" and cur: "\<forall>(k, rt)\<in>set (lmRun m). current m k rt"
    and st: "startLocked listenOk b m = (m', r)" and new: "runtime_of (lsID b) m = None"
    and b: "b \<in> set (bindings_of m)" "lsEnabled b"
  shows "(\<forall>(k, rt)\<in>set (lmRun m'). current m' k rt) \<and> set (lmRun m) \<subseteq> set (lmRun m') \<and>
    (r = None \<longrightarrow> runtime_of (lsID b) m' \<noteq> None)"
  using st
proof (cases rule: startLocked_cases)
  case failed
  with cur show ?thesis by simp
next
  case (started addr policy)
  have k: "lsID b \<notin> fst ` set (lmRun m)" using new by (auto simp: runtime_of_def map_of_eq_None_iff)
  have run: "lmRun m' = lmRun m @ [(lsID b, \<lparr>rtBinding = b, rtServer = lmNext m, rtAddr = addr, rtErr = False,
      rtListening = True, rtExpected = False\<rparr>)]"
    by (simp add: started(6) set_lserver_def set_runtime_def aput_new [OF k])
  have srv: "lmServers m' = (lmServers m)(lmNext m := (new_server policy)\<lparr>svListener := Some addr\<rparr>)" "lmStore m' = lmStore m"
    by (simp_all add: started(6) set_lserver_def set_runtime_def)
  have "current m' k' rt" if "(k', rt) \<in> set (lmRun m)" for k' rt
  proof (rule current_frame [OF _ srv(2)])
    from cur that show "current m k' rt" by auto
    have "rtServer rt < lmNext m" using lm_okD(4) [OF ok that] by (simp add: entry_sound_def Let_def)
    then show "lmServers m' (rtServer rt) = lmServers m (rtServer rt)" by (simp add: srv)
  qed
  moreover have "current m' (lsID b) \<lparr>rtBinding = b, rtServer = lmNext m, rtAddr = addr, rtErr = False,
      rtListening = True, rtExpected = False\<rparr>"
    using b started(4) by (simp add: current_def srv bindings_of_def groups_of_def new_server_def)
  moreover have "runtime_of (lsID b) m' \<noteq> None" using k by (auto simp: runtime_of_def run map_of_eq_None_iff image_iff)
  ultimately show ?thesis by (auto simp: run)
qed

lemma reconcile_missing_spec:
  "reconcile_missing listenOk k bs m = (m', es) \<Longrightarrow> lm_ok m \<Longrightarrow> lmStarted m \<Longrightarrow> set bs \<subseteq> set (bindings_of m) \<Longrightarrow>
   \<forall>(k, rt)\<in>set (lmRun m). current m k rt \<Longrightarrow>
   (\<forall>(k, rt)\<in>set (lmRun m'). current m' k rt) \<and> set (lmRun m) \<subseteq> set (lmRun m') \<and>
   (es = [] \<longrightarrow> (\<forall>b\<in>set bs. lsEnabled b \<longrightarrow> lsID b \<in> fst ` set (lmRun m')))"
proof (induction bs arbitrary: k m es)
  case (Cons b bs)
  show ?case
  proof (cases "\<not> lsEnabled b \<or> runtime_of (lsID b) m \<noteq> None")
    case True
    then have here: "lsEnabled b \<longrightarrow> lsID b \<in> fst ` set (lmRun m)"
      by (auto simp: runtime_of_def map_of_eq_None_iff)
    from True Cons.prems(1) have "reconcile_missing listenOk k bs m = (m', es)" by simp
    from Cons.IH [OF this Cons.prems(2, 3) _ Cons.prems(5)] Cons.prems(4) have
      IH: "\<forall>(k, rt)\<in>set (lmRun m'). current m' k rt" "set (lmRun m) \<subseteq> set (lmRun m')"
        "es = [] \<longrightarrow> (\<forall>b\<in>set bs. lsEnabled b \<longrightarrow> lsID b \<in> fst ` set (lmRun m'))" by simp_all
    with here image_mono [OF IH(2), of fst] show ?thesis by auto
  next
    case False
    obtain m1 e where st: "startLocked (listenOk k) b m = (m1, e)" by fastforce
    obtain m2 es2 where rec: "reconcile_missing listenOk (k + 1) bs m1 = (m2, es2)" by fastforce
    have eqs: "m' = m2" "es = (case e of None \<Rightarrow> es2 | Some x \<Rightarrow> x # es2)"
      using Cons.prems(1) False st rec by (auto split: option.splits)
    have ok: "lm_ok m1" by (rule start_ok [OF Cons.prems(2) st]) (use False Cons.prems in auto)
    have "runtime_of (lsID b) m = None" "b \<in> set (bindings_of m)" "lsEnabled b" using False Cons.prems(4) by auto
    note s = start_current [OF Cons.prems(2, 5) st this]
    have "lmStarted m1" "set bs \<subseteq> set (bindings_of m1)"
      using Cons.prems(3, 4) started_fields(1, 2) [OF st] by (simp_all add: bindings_of_def)
    from Cons.IH [OF rec [folded eqs(1)] ok this] s have
      IH: "\<forall>(k, rt)\<in>set (lmRun m'). current m' k rt" "set (lmRun m1) \<subseteq> set (lmRun m')"
        "es2 = [] \<longrightarrow> (\<forall>b\<in>set bs. lsEnabled b \<longrightarrow> lsID b \<in> fst ` set (lmRun m'))" by simp_all
    have "lsID b \<in> fst ` set (lmRun m')" if "es = []"
    proof -
      from that eqs(2) have "e = None" by (simp split: option.splits)
      with s obtain rt where "runtime_of (lsID b) m1 = Some rt" by auto
      then have "(lsID b, rt) \<in> set (lmRun m')" using IH(2) by (auto simp: runtime_of_def dest: map_of_SomeD)
      then show ?thesis by force
    qed
    with IH eqs s show ?thesis by (auto split: option.splits)
  qed
qed auto

lemma reconcile_spec:
  assumes "lm_ok m" "reconcileRuntimeLocked listenOk m = (m', es)"
  shows "(\<forall>(k, rt)\<in>set (lmRun m'). current m' k rt) \<and>
    (lmStarted m \<longrightarrow> es = [] \<longrightarrow> (\<forall>b\<in>set (bindings_of m'). lsEnabled b \<longrightarrow> lsID b \<in> fst ` set (lmRun m')))"
proof -
  have dist: "distinct (map fst (lmRun m))" by (rule lm_okD(2) [OF assms(1)])
  from reconcile_running_spec [OF assms(1) subset_refl dist] obtain m1
    where m1: "reconcile_running (lmRun m) m = (m1, None)"
    and P: "\<And>k rt. (k, rt) \<in> set (lmRun m1) \<Longrightarrow> if k \<in> fst ` set (lmRun m) then current m1 k rt
      else (k, rt) \<in> set (lmRun m) \<and> lmServers m1 (rtServer rt) = lmServers m (rtServer rt)" by blast
  note ok = reconcile_running_ok [OF m1 assms(1) subset_refl dist]
  have cur: "current m1 k rt" if "(k, rt) \<in> set (lmRun m1)" for k rt
  proof (cases "k \<in> fst ` set (lmRun m)")
    case True
    with P [OF that] show ?thesis by simp
  next
    case False
    with P [OF that] show ?thesis by force
  qed
  show ?thesis
  proof (cases "lmStarted m")
    case False
    with assms(2) m1 ok cur show ?thesis by (auto simp: reconcileRuntimeLocked_def)
  next
    case True
    with assms(2) m1 ok have rec: "reconcile_missing listenOk 0 (bindings_of m1) m1 = (m', es)"
      by (simp add: reconcileRuntimeLocked_def)
    have "\<forall>(k, rt)\<in>set (lmRun m1). current m1 k rt" using cur by auto
    from reconcile_missing_spec [OF rec _ _ subset_refl this] ok True reconcile_missing_ok [OF rec]
    show ?thesis by (simp add: bindings_of_def)
  qed
qed


lemma entry_place:
  assumes "entry_sound m (k, rt)"
  shows "\<exists>host pport port. split_host_port (lmPrimary m) = Some (host, pport) \<and> 1 \<le> port \<and> port \<le> 65535 \<and>
     itoa_int port \<noteq> pport \<and> rtAddr rt = join_host_port host (itoa_int port)"
proof -
  obtain port where p: "validatePort (lmPrimary m) port = None" "listenerAddr (lmPrimary m) port = Inr (rtAddr rt)"
    using assms by (auto simp: entry_sound_def Let_def)
  from p(1) obtain host pport where h: "split_host_port (lmPrimary m) = Some (host, pport)" "itoa_int port \<noteq> pport"
    by (simp add: validatePort_def split: option.splits prod.splits if_splits)
  from p(2) h(1) have "1 \<le> port" "port \<le> 65535" "rtAddr rt = join_host_port host (itoa_int port)"
    by (simp_all add: listenerAddr_def split: if_splits)
  with h show ?thesis by blast
qed

text \<open>
  C28: The sockets of the manager are its running listeners. In every state reached from a new manager over a
  valid configuration, by any sequence of its operations, of failed and successful listen calls, of
  ending accept loops and of changes to the store, a socket that is open belongs to exactly one
  entry of the running listeners and to no other server; its address is a valid port other than
  the primary one on the primary host; and when the manager is not started, no socket is open.
\<close>

theorem listener_sockets_owned:
  assumes "lm_reach (NewListenerManager primary store) m" "wf_config (csCfg store)"
    and "n < lmNext m" "listens_on addr (lmServers m n)"
  shows "lmStarted m \<and> (\<exists>!k. \<exists>rt. runtime_of k m = Some rt \<and> rtServer rt = n \<and> rtAddr rt = addr) \<and>
    (\<forall>n'<lmNext m. listens_on addr (lmServers m n') \<longrightarrow> n' = n) \<and>
    (\<exists>host pport port. split_host_port (lmPrimary m) = Some (host, pport) \<and> 1 \<le> port \<and> port \<le> 65535 \<and>
       itoa_int port \<noteq> pport \<and> addr = join_host_port host (itoa_int port))"
proof -
  have ok: "lm_ok m" by (rule lm_reach_ok [OF assms(1) new_manager_ok [OF assms(2)]])
  from lm_okD(5) [OF ok] assms(3, 4) obtain e where e: "e \<in> set (lmRun m)" "rtServer (snd e) = n"
    and one: "\<forall>n'<lmNext m. listens_on addr (lmServers m n') \<longrightarrow> n' = n"
    unfolding sockets_sound_def by blast
  obtain k rt where kr: "e = (k, rt)" by fastforce
  have ent: "entry_sound m (k, rt)" using lm_okD(4) [OF ok e(1)] kr by simp
  with e(2) kr assms(4) have addr: "rtAddr rt = addr" by (auto simp: entry_sound_def listens_on_def Let_def)
  have run: "runtime_of k m = Some rt" using e(1) kr ok by (simp add: runtime_of_in)
  have uniq: "k' = k" if "runtime_of k' m = Some rt'" "rtServer rt' = n" for k' rt'
    using servers_differ [OF ok, of k' rt' k rt] that e kr ok by (auto simp: runtime_of_in)
  have started: "lmStarted m"
  proof (rule ccontr)
    assume "\<not> lmStarted m"
    from lm_okD(6) [OF ok this] e(1) show False by simp
  qed
  have place: "\<exists>host pport port. split_host_port (lmPrimary m) = Some (host, pport) \<and> 1 \<le> port \<and> port \<le> 65535 \<and>
       itoa_int port \<noteq> pport \<and> addr = join_host_port host (itoa_int port)"
    using ent addr entry_place by blast
  have "\<exists>!k. \<exists>rt. runtime_of k m = Some rt \<and> rtServer rt = n \<and> rtAddr rt = addr"
  proof (rule ex1I [of _ k])
    show "\<exists>rt. runtime_of k m = Some rt \<and> rtServer rt = n \<and> rtAddr rt = addr" using run e(2) kr addr by simp
    show "k' = k" if "\<exists>rt. runtime_of k' m = Some rt \<and> rtServer rt = n \<and> rtAddr rt = addr" for k' using that uniq by blast
  qed
  with started one place show ?thesis by (intro conjI)
qed

section \<open>What the operations promise\<close>

lemma start_gives:
  assumes "startLocked listenOk b m = (m', None)" "runtime_of (lsID b) m = None"
  shows "\<exists>rt. runtime_of (lsID b) m' = Some rt \<and> rtBinding rt = b \<and> rtListening rt \<and>
    listenerAddr (lmPrimary m') (lsPort b) = Inr (rtAddr rt) \<and> listens_on (rtAddr rt) (lmServers m' (rtServer rt)) \<and>
    policyLocked b (groups_of m') = Inr (svPolicy (lmServers m' (rtServer rt)))"
  using assms(1)
proof (cases rule: startLocked_cases)
  case (started addr policy)
  have k: "lsID b \<notin> fst ` set (lmRun m)" using assms(2) by (auto simp: runtime_of_def map_of_eq_None_iff)
  have "runtime_of (lsID b) m' = Some \<lparr>rtBinding = b, rtServer = lmNext m, rtAddr = addr, rtErr = False,
      rtListening = True, rtExpected = False\<rparr>"
    by (simp add: started(6) runtime_of_def set_lserver_def set_runtime_def)
  moreover have "lmServers m' (lmNext m) = (new_server policy)\<lparr>svListener := Some addr\<rparr>" "lmPrimary m' = lmPrimary m"
    "groups_of m' = groups_of m"
    by (simp_all add: started(6) set_lserver_def set_runtime_def groups_of_def)
  ultimately show ?thesis using started(3, 4) by (simp add: listens_on_def new_server_def)
qed simp

lemma map_of_filter_other: "k \<noteq> k' \<Longrightarrow> map_of (filter (\<lambda>e. fst e \<noteq> k') xs) k = map_of xs k"
  by (induction xs) auto


lemma runtime_other [simp]: "k \<noteq> k' \<Longrightarrow> runtime_of k (stop_drop k' rt m) = runtime_of k m"
  by (simp add: runtime_of_def stop_drop_fields map_of_filter_other)

lemma stop_if_running:
  assumes "m1 = (case runtime_of k m of Some rt \<Rightarrow> drop_runtime k (stopListenerLocked rt m) | None \<Rightarrow> m)"
  shows "runtime_of k m1 = None" "k' \<noteq> k \<Longrightarrow> runtime_of k' m1 = runtime_of k' m"
    "lmStarted m1 = lmStarted m" "lmStore m1 = lmStore m" "lmPrimary m1 = lmPrimary m"
  using assms by (auto simp: stop_drop_fold stop_drop_fields split: option.splits)

lemma restart_spec:
  assumes st: "restart_updated env old updated k m = (m', Inr u)" and id: "lsID updated = k"
  shows "u = updated \<and> lmStore m' = lmStore m \<and> (\<forall>k'. k' \<noteq> k \<longrightarrow> runtime_of k' m' = runtime_of k' m) \<and>
    (if lmStarted m \<and> lsEnabled updated
     then \<exists>rt. runtime_of k m' = Some rt \<and> rtBinding rt = updated \<and> rtListening rt \<and>
       listenerAddr (lmPrimary m') (lsPort updated) = Inr (rtAddr rt) \<and> listens_on (rtAddr rt) (lmServers m' (rtServer rt)) \<and>
       policyLocked updated (groups_of m') = Inr (svPolicy (lmServers m' (rtServer rt)))
     else runtime_of k m' = None)"
proof -
  let ?m1 = "case runtime_of k m of Some rt \<Rightarrow> drop_runtime k (stopListenerLocked rt m) | None \<Rightarrow> m"
  note m1 = stop_if_running [of ?m1, OF refl]
  show ?thesis
  proof (cases "lmStarted ?m1 \<and> lsEnabled updated")
    case False
    then have "m' = ?m1" "u = updated" using st by (auto simp: restart_updated_def Let_def)
    with m1 False show ?thesis by auto
  next
    case True
    obtain m2 e where s: "startLocked (leListen env 0) updated ?m1 = (m2, e)" by fastforce
    have "e = None" using st True s
      by (cases e) (simp_all add: restart_updated_def Let_def split: prod.splits)
    with st True s have eqs: "m' = m2" "u = updated" by (simp_all add: restart_updated_def Let_def)
    note f = started_fields [OF s]
    have "runtime_of (lsID updated) ?m1 = None" using m1(1) id by simp
    from start_gives [OF s [unfolded \<open>e = None\<close>] this] f m1 eqs id True show ?thesis by auto
  qed
qed

lemma listener_update_outcome:
  assumes ok: "lm_ok m" and st: "lm_Update env b m = (m', Inr u)"
  shows "u \<in> set (bindings_of m') \<and> lsID u = lsID b \<and>
    (\<forall>k. k \<noteq> lsID b \<longrightarrow> runtime_of k m' = runtime_of k m) \<and>
    (case runtime_of (lsID b) m' of
       None \<Rightarrow> \<not> (lmStarted m \<and> lsEnabled u)
     | Some rt \<Rightarrow> lsEnabled u \<and> rtBinding rt = u \<and> policyLocked u (groups_of m') = Inr (svPolicy (lmServers m' (rtServer rt))) \<and>
         (listenerAddr (lmPrimary m') (lsPort u) = Inr (rtAddr rt) \<and> listens_on (rtAddr rt) (lmServers m' (rtServer rt)) \<or>
          (\<exists>old rt0. listenerBindingLocked (lsID b) m = Some old \<and> lsPort old = lsPort u \<and>
             runtime_of (lsID b) m = Some rt0 \<and> rt = rt0\<lparr>rtBinding := u\<rparr>)))"
proof -
  from st obtain old where old: "validatePort (lmPrimary m) (lsPort b) = None" "listenerBindingLocked (lsID b) m = Some old"
    by (auto simp: lm_Update_def split: option.splits)
  obtain m1 ur where u: "store_update (leStore env 0) b m = (m1, ur)" by fastforce
  note m1 = store_update_ok [OF ok u]
  obtain updated where upd: "ur = Inr updated"
    using st old u by (cases ur) (auto simp: lm_Update_def split: prod.splits)
  note id = update_id [OF u [unfolded upd] binding_found(3) [OF ok old(2)]]
  have r1: "runtime_of k m1 = runtime_of k m" for k using m1(2) by (simp add: runtime_of_def)
  have rs: ?thesis if "restart_updated env old updated (lsID b) m1 = (m', Inr u)"
  proof -
    from id have "lsID updated = lsID b" by simp
    from restart_spec [OF that this] id r1 m1(3) show ?thesis
      by (auto simp: bindings_of_def groups_of_def split: if_splits)
  qed
  show ?thesis
  proof (cases "runtime_of (lsID b) m1")
    case None
    with old u upd st rs show ?thesis by (simp add: lm_Update_def)
  next
    case (Some rt)
    show ?thesis
    proof (cases "lsPort old = lsPort updated \<and> lsEnabled updated")
      case False
      with old u upd Some st rs show ?thesis by (simp add: lm_Update_def split: if_splits)
    next
      case same: True
      obtain policy where pol: "policyLocked updated (groups_of m1) = Inr policy"
        using policy_total [OF lm_okD(1) [OF m1(1)]] id by blast
      have eqs: "m' = repolicy (lsID b) rt updated policy m1" "u = updated"
        using old u upd Some same pol st by (auto simp: lm_Update_def repolicy_fold)
      have "runtime_of k m' = (if k = lsID b then Some (rt\<lparr>rtBinding := u\<rparr>) else runtime_of k m)" for k
        using r1 by (simp add: eqs runtime_of_def repolicy_fields)
      moreover have "bindings_of m' = bindings_of m1" "groups_of m' = groups_of m1"
        by (simp_all add: eqs bindings_of_def groups_of_def repolicy_fields)
      moreover have "svPolicy (lmServers m' (rtServer rt)) = policy" by (simp add: eqs repolicy_fields)
      ultimately show ?thesis using id same pol old(2) Some r1 eqs(2) by simp
    qed
  qed
qed

text \<open>
  C30: A successful Update. In every reachable state it returns the binding the store now holds under the identifier,
  leaves every other running listener alone, and the listener runs exactly when the manager is
  started and the new binding is enabled (a disabled one has no runtime entry); it then carries the
  new binding and its policy. Its socket is open on the new port, unless the store held the same
  port before, in which case the entry that was running keeps its socket.
\<close>

theorem listener_update_spec:
  assumes "lm_reach (NewListenerManager primary store) m" "wf_config (csCfg store)"
    and "lm_Update env b m = (m', Inr u)"
  shows "u \<in> set (bindings_of m') \<and> lsID u = lsID b \<and>
    (\<forall>k. k \<noteq> lsID b \<longrightarrow> runtime_of k m' = runtime_of k m) \<and>
    (case runtime_of (lsID b) m' of
       None \<Rightarrow> \<not> (lmStarted m \<and> lsEnabled u)
     | Some rt \<Rightarrow> lsEnabled u \<and> rtBinding rt = u \<and> policyLocked u (groups_of m') = Inr (svPolicy (lmServers m' (rtServer rt))) \<and>
         (listenerAddr (lmPrimary m') (lsPort u) = Inr (rtAddr rt) \<and> listens_on (rtAddr rt) (lmServers m' (rtServer rt)) \<or>
          (\<exists>old rt0. listenerBindingLocked (lsID b) m = Some old \<and> lsPort old = lsPort u \<and>
             runtime_of (lsID b) m = Some rt0 \<and> rt = rt0\<lparr>rtBinding := u\<rparr>)))"
  by (rule listener_update_outcome [OF lm_reach_ok [OF assms(1) new_manager_ok [OF assms(2)]] assms(3)])

lemma listener_delete_outcome:
  assumes ok: "lm_ok m" and st: "lm_Delete env k m = (m', [])"
  shows "k \<notin> lsID ` set (bindings_of m') \<and> runtime_of k m' = None \<and> (\<forall>k'. k' \<noteq> k \<longrightarrow> runtime_of k' m' = runtime_of k' m)"
proof -
  from st obtain old where old: "listenerBindingLocked k m = Some old"
    by (cases "listenerBindingLocked k m") (simp_all add: lm_Delete_def)
  let ?m1 = "case runtime_of k m of Some rt \<Rightarrow> drop_runtime k (stopListenerLocked rt m) | None \<Rightarrow> m"
  note m1 = stop_if_running [of ?m1, OF refl]
  obtain cs err where d: "DeleteListener (leStore env 0) k (lmStore ?m1) = (cs, err)" by fastforce
  have none: "err = None"
  proof (rule ccontr)
    assume "err \<noteq> None"
    then obtain e where e: "err = Some e" by blast
    have "store_failed env e (?m1\<lparr>lmStore := cs\<rparr>) \<noteq> (m', [])"
      by (simp add: store_failed_def split: prod.splits)
    with st old d e show False by (simp add: lm_Delete_def Let_def split: if_splits prod.splits)
  qed
  have m': "m' = ?m1\<lparr>lmStore := cs\<rparr>" using st old d none by (simp add: lm_Delete_def Let_def)
  have "k \<notin> lsID ` set (cfListeners (csCfg cs))"
    using DeleteListener_gone [OF _ d [unfolded none]] lm_okD(1) [OF ok] m1(4) binding_found(3) [OF ok old] by simp
  moreover have "runtime_of k'' m' = runtime_of k'' ?m1" for k'' by (simp add: m' runtime_of_def)
  ultimately show ?thesis using m1(1, 2) by (simp add: bindings_of_def m')
qed

lemma AddListener_fresh_gone:
  assumes "wf_config (csCfg cs)" "DeleteListener env k cs = (cs', None)" "trim_space k = k"
  shows "k \<notin> lsID ` set (cfListeners (csCfg cs'))"
  using DeleteListener_gone [OF assms(1, 2)] assms(3) by simp

lemma listener_add_outcome:
  assumes ok: "lm_ok m" and new: "runtime_of gid m = None" "trim_space gid = gid"
    and st: "lm_Add env gid b m = (m', r)"
  shows "(\<forall>k. k \<noteq> gid \<longrightarrow> (\<exists>x. r = Inr x) \<longrightarrow> runtime_of k m' = runtime_of k m) \<and>
    (case r of
       Inr c \<Rightarrow> c \<in> set (bindings_of m') \<and> lsID c = gid \<and>
         (lmStarted m \<and> lsEnabled c \<longrightarrow> (\<exists>rt. runtime_of gid m' = Some rt \<and> rtBinding rt = c \<and>
            listenerAddr (lmPrimary m') (lsPort c) = Inr (rtAddr rt) \<and> listens_on (rtAddr rt) (lmServers m' (rtServer rt))))
     | Inl es \<Rightarrow> RollbackFailed \<in> set es \<or> (\<exists>e. StoreError e \<in> set es) \<or> bindings_of m' = bindings_of m \<or>
         gid \<notin> lsID ` set (bindings_of m') \<and> runtime_of gid m' = None)"
proof (cases "validatePort (lmPrimary m) (lsPort b)")
  case (Some e)
  with st show ?thesis by (auto simp: lm_Add_def)
next
  case None
  obtain cs ar where a: "AddListener (leStore env 0) gid b (lmStore m) = (cs, ar)" by fastforce
  let ?m1 = "m\<lparr>lmStore := cs\<rparr>"
  show ?thesis
  proof (cases ar)
    case (Inl e)
    obtain m2 es where f: "store_failed env e ?m1 = (m2, es)" by fastforce
    then have "StoreError e \<in> set es" by (auto simp: store_failed_def split: if_splits prod.splits)
    with None a Inl st f show ?thesis by (auto simp: lm_Add_def)
  next
    case (Inr created)
    have found: "find (\<lambda>l. lsID l = gid) (cfListeners (csCfg cs)) = Some created" using a Inr
      by (auto simp: AddListener_def finish_listener_def lookupListener_def split: sum.splits prod.splits option.splits)
    then have id: "lsID created = gid" "created \<in> set (cfListeners (csCfg cs))" by (auto simp: find_Some_iff)
    have r1: "runtime_of k ?m1 = runtime_of k m" for k by (simp add: runtime_of_def)
    show ?thesis
    proof (cases "lmStarted m \<and> lsEnabled created")
      case False
      then have "m' = ?m1" "r = Inr created" using None a Inr st by (auto simp: lm_Add_def Let_def)
      with False id r1 show ?thesis by (auto simp: bindings_of_def)
    next
      case True
      obtain m2 e where s: "startLocked (leListen env 0) created ?m1 = (m2, e)" by fastforce
      note f = started_fields [OF s]
      show ?thesis
      proof (cases e)
        case e: None
        have "runtime_of (lsID created) ?m1 = None" using new(1) id r1 by simp
        note g = start_gives [OF s [unfolded e] this]
        have "m' = m2" "r = Inr created" using None a Inr st True s e by (simp_all add: lm_Add_def Let_def)
        with g f id r1 show ?thesis by (auto simp: bindings_of_def)
      next
        case e: (Some x)
        have same: "m2 = ?m1" using s e by (cases rule: startLocked_cases) auto
        obtain cs' err where d: "DeleteListener (leStore env 1) (lsID created) cs = (cs', err)" by fastforce
        have m': "m' = m\<lparr>lmStore := cs'\<rparr>" "r = Inl (x # rollback_error err)"
          using None a Inr st True s e d same by (simp_all add: lm_Add_def Let_def)
        have wf: "wf_config (csCfg cs)" using store_ops_wf(1) [OF lm_okD(1) [OF ok], of "leStore env 0" gid b] a by simp
        show ?thesis
        proof (cases err)
          case None
          from AddListener_fresh_gone [OF wf d [unfolded None]] id new
          have "gid \<notin> lsID ` set (cfListeners (csCfg cs'))" by simp
          with new(1) m' show ?thesis by (simp add: bindings_of_def runtime_of_def)
        next
          case (Some e')
          with m' show ?thesis by (simp add: rollback_error_def)
        qed
      qed
    qed
  qed
qed

text \<open>
  Add and Delete are all or nothing as far as their rollbacks go. A successful Add has its binding in the store
  under the new identifier and, when the manager is started and the binding enabled, an open socket
  on its port, and changes no other listener. A failed Add has either reported a store error or a
  failed rollback, or the store has no binding under the identifier (or is unchanged) and no
  listener runs for it. A Delete that reports no error leaves neither a binding nor a running
  listener under its identifier and changes no other listener.
\<close>

theorem listener_add_delete_spec:
  assumes "lm_reach (NewListenerManager primary store) m" "wf_config (csCfg store)"
    and "runtime_of gid m = None" "trim_space gid = gid"
  shows "(case lm_Add env gid b m of
      (m', Inr c) \<Rightarrow> c \<in> set (bindings_of m') \<and> lsID c = gid \<and> (\<forall>k. k \<noteq> gid \<longrightarrow> runtime_of k m' = runtime_of k m) \<and>
        (lmStarted m \<and> lsEnabled c \<longrightarrow> (\<exists>rt. runtime_of gid m' = Some rt \<and> rtBinding rt = c \<and>
           listenerAddr (lmPrimary m') (lsPort c) = Inr (rtAddr rt) \<and> listens_on (rtAddr rt) (lmServers m' (rtServer rt))))
    | (m', Inl es) \<Rightarrow> RollbackFailed \<in> set es \<or> (\<exists>e. StoreError e \<in> set es) \<or> bindings_of m' = bindings_of m \<or>
        gid \<notin> lsID ` set (bindings_of m') \<and> runtime_of gid m' = None) \<and>
    (\<forall>k m'. lm_Delete env k m = (m', []) \<longrightarrow>
       k \<notin> lsID ` set (bindings_of m') \<and> runtime_of k m' = None \<and> (\<forall>k'. k' \<noteq> k \<longrightarrow> runtime_of k' m' = runtime_of k' m))"
proof
  have ok: "lm_ok m" by (rule lm_reach_ok [OF assms(1) new_manager_ok [OF assms(2)]])
  show "\<forall>k m'. lm_Delete env k m = (m', []) \<longrightarrow>
       k \<notin> lsID ` set (bindings_of m') \<and> runtime_of k m' = None \<and> (\<forall>k'. k' \<noteq> k \<longrightarrow> runtime_of k' m' = runtime_of k' m)"
    using listener_delete_outcome [OF ok] by blast
  obtain m' r where a: "lm_Add env gid b m = (m', r)" by fastforce
  from listener_add_outcome [OF ok assms(3, 4) a]
  show "case lm_Add env gid b m of
      (m', Inr c) \<Rightarrow> c \<in> set (bindings_of m') \<and> lsID c = gid \<and> (\<forall>k. k \<noteq> gid \<longrightarrow> runtime_of k m' = runtime_of k m) \<and>
        (lmStarted m \<and> lsEnabled c \<longrightarrow> (\<exists>rt. runtime_of gid m' = Some rt \<and> rtBinding rt = c \<and>
           listenerAddr (lmPrimary m') (lsPort c) = Inr (rtAddr rt) \<and> listens_on (rtAddr rt) (lmServers m' (rtServer rt))))
    | (m', Inl es) \<Rightarrow> RollbackFailed \<in> set es \<or> (\<exists>e. StoreError e \<in> set es) \<or> bindings_of m' = bindings_of m \<or>
        gid \<notin> lsID ` set (bindings_of m') \<and> runtime_of gid m' = None"
    unfolding a by (cases r) simp_all
qed

section \<open>A manager that runs\<close>

definition plain_listener :: "int \<Rightarrow> listener" where
  "plain_listener port = \<lparr>lsID = ''l1'', lsName = ''one'', lsPort = port, lsMode = ListenerModeRules, lsGroup = [],
     lsNodeKey = [], lsEnabled = True\<rparr>"

definition plain_config :: "int \<Rightarrow> pool_config" where
  "plain_config port = sample_config\<lparr>cfRules := [], cfGroups := [], cfListeners := [plain_listener port]\<rparr>"

definition plain_store :: config_store where
  "plain_store = \<lparr>csCfg = plain_config 1090, csDisk = plain_config 1090\<rparr>"

definition calm :: lm_env where
  "calm = \<lparr>leStore = (\<lambda>_. sample_env), leListen = (\<lambda>_. True)\<rparr>"

text \<open>The new port is taken, and the rename that should restore the old binding fails.\<close>

definition stormy :: lm_env where
  "stormy = \<lparr>leStore = (\<lambda>n. if n = 0 then sample_env else sample_env\<lparr>ceOutcome := NotCommitted\<rparr>),
     leListen = (\<lambda>n. n \<noteq> 0)\<rparr>"

definition started_manager :: lman where
  "started_manager = fst (lm_Start calm (NewListenerManager ''127.0.0.1:1080'' plain_store))"

definition split_manager :: lman where
  "split_manager = fst (lm_Update stormy (plain_listener 1091) started_manager)"

lemma plain_text:
  "trim_space ''l1'' = ''l1'' \<and> trim_space ''one'' = ''one'' \<and> to_lower (trim_space ListenerModeRules) = ListenerModeRules \<and>
   trim_space [] = [] \<and> list_ex bad_value [''l1'', ''one'', ListenerModeRules, [], []] = False \<and> validListenerMode ListenerModeRules"
  by code_simp

lemma plain_valid:
  "1 \<le> port \<Longrightarrow> port \<le> 65535 \<Longrightarrow> validateListenerBinding parse gs (plain_listener port) False = Inr (plain_listener port)"
  unfolding validateListenerBinding_def trim_listener_def plain_listener_def Let_def
  using plain_text by simp

lemma plain_config_valid:
  "1 \<le> port \<Longrightarrow> port \<le> 65535 \<Longrightarrow> validatePersistedPoolConfig parse (plain_config port) = Inr (plain_config port)"
  by (simp add: validatePersistedPoolConfig_def plain_config_def sample_config_def schedule_ok_def plain_valid config_limits Let_def)

lemma plain_update:
  assumes "1 \<le> port'" "port' \<le> 65535" "ceEncode env = (\<lambda>_. Some 100)" "csCfg cs = plain_config port"
  shows "UpdateListener env (plain_listener port') cs =
    (case ceOutcome env of
       Committed \<Rightarrow> (\<lparr>csCfg = plain_config port', csDisk = plain_config port'\<rparr>, Inr (plain_listener port'))
     | NotCommitted \<Rightarrow> (cs, Inl (Persistence NotCommitted))
     | DurabilityUncertain \<Rightarrow> (\<lparr>csCfg = plain_config port', csDisk = plain_config port'\<rparr>, Inl (Persistence DurabilityUncertain)))"
proof -
  have id: "lsID (plain_listener p) = ''l1''" "(plain_listener p)\<lparr>lsID := ''l1''\<rparr> = plain_listener p"
    "cfListeners (plain_config p) = [plain_listener p]" "cfGroups (plain_config p) = []"
    "(plain_config p)\<lparr>cfListeners := [plain_listener p']\<rparr> = plain_config p'"
    "share_slices (plain_config p) (plain_config p) = plain_config p" for p p'
    by (simp_all add: plain_listener_def plain_config_def share_slices_def sample_config_def)
  have add: "validateListenerBindingForAdd (plain_listener port') = Inr (plain_listener port')"
    using plain_text assms by (simp add: validateListenerBindingForAdd_def plain_listener_def trim_listener_def)
  have upd: "update_listener (ceParse env) (plain_listener port') (plain_config port) = Inr (plain_config port')"
    using assms by (simp add: update_listener_def id plain_valid delete_at_def)
  show ?thesis
    using plain_text assms
    by (simp add: UpdateListener_def id Let_def add mutate_def upd plain_config_valid writeConfigLocked_def
        maxPoolConfigBytes_def finish_listener_def lookupListener_def split: persist_outcome.split)
qed

text \<open>The addresses of the two ports, and the runtime of a listener that has been started.\<close>

lemma plain_addr:
  "validatePort ''127.0.0.1:1080'' 1090 = None \<and> validatePort ''127.0.0.1:1080'' 1091 = None \<and>
   listenerAddr ''127.0.0.1:1080'' 1090 = Inr ''127.0.0.1:1090'' \<and>
   listenerAddr ''127.0.0.1:1080'' 1091 = Inr ''127.0.0.1:1091''"
  by code_simp

lemma plain_fields:
  "lsID (plain_listener p) = ''l1'' \<and> lsPort (plain_listener p) = p \<and> lsEnabled (plain_listener p) \<and>
   policyLocked (plain_listener p) gs = Inr None \<and> cfListeners (plain_config p) = [plain_listener p]"
  by (simp add: plain_listener_def plain_config_def policyLocked_def)

definition running :: "nat \<Rightarrow> runtime" where
  "running n = \<lparr>rtBinding = plain_listener 1090, rtServer = n, rtAddr = ''127.0.0.1:1090'', rtErr = False,
     rtListening = True, rtExpected = False\<rparr>"

definition open_server :: server where
  "open_server = (new_server None)\<lparr>svListener := Some ''127.0.0.1:1090''\<rparr>"

lemma plain_start:
  "lmPrimary m = ''127.0.0.1:1080'' \<Longrightarrow> startLocked True (plain_listener 1090) m =
     (if address_in_use ''127.0.0.1:1090'' m then (m, Some ListenFailed)
      else (set_lserver (lmNext m) open_server (set_runtime ''l1'' (running (lmNext m)) (m\<lparr>lmNext := lmNext m + 1\<rparr>)), None))"
  using plain_addr by (simp add: startLocked_def plain_fields running_def open_server_def StartListener_def new_server_def Let_def)

lemma started_eq:
  "started_manager = \<lparr>lmPrimary = ''127.0.0.1:1080'', lmStore = plain_store, lmRun = [(''l1'', running 0)], lmStarted = True,
     lmServers = (\<lambda>_. new_server None)(0 := open_server), lmNext = 1, lmStopped = [], lmFatal = []\<rparr>"
  by (simp add: started_manager_def lm_Start_def NewListenerManager_def calm_def bindings_of_def plain_store_def
      plain_fields plain_start address_in_use_def set_lserver_def set_runtime_def)

lemma split_eq:
  "split_manager = \<lparr>lmPrimary = ''127.0.0.1:1080'', lmStore = \<lparr>csCfg = plain_config 1091, csDisk = plain_config 1091\<rparr>,
     lmRun = [(''l1'', running 1)], lmStarted = True,
     lmServers = (\<lambda>_. new_server None)(0 := open_server\<lparr>svShutting := True\<rparr>, 1 := open_server), lmNext = 2,
     lmStopped = [], lmFatal = []\<rparr>"
proof -
  let ?m1 = "started_manager\<lparr>lmStore := \<lparr>csCfg = plain_config 1091, csDisk = plain_config 1091\<rparr>\<rparr>"
  have up: "store_update (leStore stormy 0) (plain_listener 1091) started_manager = (?m1, Inr (plain_listener 1091))"
    by (simp add: store_update_def started_eq stormy_def plain_update [of _ _ _ 1090] plain_store_def sample_env_def)
  have restore: "store_update (leStore stormy 1) (plain_listener 1090) m = (m, Inl (Persistence NotCommitted))"
    if "csCfg (lmStore m) = plain_config 1091" for m
    using that by (simp add: store_update_def stormy_def plain_update [of _ _ _ 1091] sample_env_def)
  have upd: "split_manager = fst (restart_updated stormy (plain_listener 1090) (plain_listener 1091) ''l1'' ?m1)"
    using plain_addr up
    by (simp add: split_manager_def lm_Update_def started_eq listenerBindingLocked_def bindings_of_def plain_store_def
        plain_fields runtime_of_def)
  have run: "runtime_of ''l1'' ?m1 = Some (running 0)" by (simp add: started_eq runtime_of_def)
  obtain m2 where m2: "drop_runtime ''l1'' (stopListenerLocked (running 0) ?m1) = m2" by simp
  then have m2_eq: "m2 = \<lparr>lmPrimary = ''127.0.0.1:1080'', lmStore = \<lparr>csCfg = plain_config 1091, csDisk = plain_config 1091\<rparr>,
     lmRun = [], lmStarted = True, lmServers = (\<lambda>_. new_server None)(0 := open_server\<lparr>svShutting := True\<rparr>), lmNext = 1,
     lmStopped = [], lmFatal = []\<rparr>"
    by (simp add: started_eq drop_runtime_def stopListenerLocked_def set_lserver_def running_def begin_shutdown_def)
  have fails: "startLocked False (plain_listener 1091) m2 = (m2, Some ListenFailed)"
    using plain_addr by (simp add: startLocked_def m2_eq plain_fields)
  have "\<not> address_in_use ''127.0.0.1:1090'' m2" by (simp add: address_in_use_def m2_eq listens_on_def)
  then have again: "startLocked True (plain_listener 1090) m2 =
      (set_lserver 1 open_server (set_runtime ''l1'' (running 1) (m2\<lparr>lmNext := 2\<rparr>)), None)"
    by (simp add: plain_start m2_eq numeral_2_eq_2)
  have "store_update (leStore stormy 1) (plain_listener 1090) m2 = (m2, Inl (Persistence NotCommitted))" "lmStarted m2"
    "leListen stormy 0 = False" "leListen stormy 1 = True"
    by (rule restore) (simp_all add: m2_eq stormy_def)
  with fails again have "fst (restart_updated stormy (plain_listener 1090) (plain_listener 1091) ''l1'' ?m1) =
      set_lserver 1 open_server (set_runtime ''l1'' (running 1) (m2\<lparr>lmNext := 2\<rparr>))"
    unfolding restart_updated_def run option.case m2 Let_def by (simp add: plain_fields)
  then show ?thesis by (simp add: upd m2_eq set_lserver_def set_runtime_def)
qed

lemma plain_wf: "wf_config (csCfg plain_store)"
proof -
  have "trim_space ''l1'' = ''l1''" by code_simp
  then show ?thesis
    by (simp add: plain_store_def plain_config_def wf_config_def sample_config_def listener_ok_def plain_listener_def schedule_ok_def)
qed

lemma started_reach: "lm_reach (NewListenerManager ''127.0.0.1:1080'' plain_store) started_manager"
  unfolding started_manager_def by (rule lm_reach.step [OF lm_reach.init lm_step.start])

lemma split_reach: "lm_reach (NewListenerManager ''127.0.0.1:1080'' plain_store) split_manager"
  unfolding split_manager_def by (rule lm_reach.step [OF started_reach lm_step.update])

lemma split_retry:
  "lm_Update calm (plain_listener 1091) split_manager =
     (repolicy ''l1'' (running 1) (plain_listener 1091) None split_manager, Inr (plain_listener 1091))"
proof -
  have "store_update (leStore calm 0) (plain_listener 1091) split_manager = (split_manager, Inr (plain_listener 1091))"
    by (simp add: store_update_def split_eq calm_def plain_update [of _ _ _ 1091] sample_env_def)
  moreover have "runtime_of ''l1'' split_manager = Some (running 1)" by (simp add: split_eq runtime_of_def)
  moreover have "lmPrimary split_manager = ''127.0.0.1:1080''" "bindings_of split_manager = [plain_listener 1091]"
    by (simp_all add: split_eq bindings_of_def plain_fields)
  ultimately show ?thesis
    using plain_addr by (simp add: lm_Update_def listenerBindingLocked_def plain_fields repolicy_fold)
qed

text \<open>
  Update compares the new port with the one the store holds, not with the port the running socket
  has. After an Update to port 1091 whose listen call and whose rollback in the store both failed,
  the store holds 1091 while the old listener is restarted on 1090. Repeating the Update, now with
  every call succeeding, reports success and records the binding for 1091, yet the socket stays on
  1090 and nothing listens on 1091.
\<close>

theorem listener_update_wrong_port:
  "lm_reach (NewListenerManager ''127.0.0.1:1080'' plain_store) split_manager \<and>
   (case lm_Update calm (plain_listener 1091) split_manager of
      (m', r) \<Rightarrow> r = Inr (plain_listener 1091) \<and> bindings_of m' = [plain_listener 1091] \<and>
        (\<exists>rt. runtime_of ''l1'' m' = Some rt \<and> rtBinding rt = plain_listener 1091 \<and> rtListening rt) \<and>
        address_in_use ''127.0.0.1:1090'' m' \<and> \<not> address_in_use ''127.0.0.1:1091'' m')"
proof -
  have after: "bindings_of (repolicy ''l1'' (running 1) (plain_listener 1091) None split_manager) = [plain_listener 1091]"
    "runtime_of ''l1'' (repolicy ''l1'' (running 1) (plain_listener 1091) None split_manager) =
       Some ((running 1)\<lparr>rtBinding := plain_listener 1091\<rparr>)" "rtListening (running 1)"
    by (simp_all add: bindings_of_def repolicy_fields split_eq plain_fields runtime_of_def running_def)
  have "address_in_use a (repolicy ''l1'' (running 1) (plain_listener 1091) None split_manager) \<longleftrightarrow>
      a = ''127.0.0.1:1090''" for a
    by (auto simp: address_in_use_def repolicy_fields split_eq running_def listens_on_def open_server_def new_server_def
        numeral_2_eq_2)
  then show ?thesis
    using split_reach after unfolding split_retry by simp
qed

section \<open>Witnesses\<close>

lemma started_socket: "0 < lmNext started_manager \<and> listens_on ''127.0.0.1:1090'' (lmServers started_manager 0)"
  by (simp add: started_eq listens_on_def open_server_def new_server_def)

theorem listener_sockets_owned_witness:
  "\<exists>!k. \<exists>rt. runtime_of k started_manager = Some rt \<and> rtServer rt = 0 \<and> rtAddr rt = ''127.0.0.1:1090''"
  using listener_sockets_owned [OF started_reach plain_wf, of 0] started_socket by blast


theorem listener_update_spec_witness:
  "plain_listener 1091 \<in> set (bindings_of (fst (lm_Update calm (plain_listener 1091) split_manager)))"
  using listener_update_spec [OF split_reach plain_wf split_retry] by (simp add: split_retry)

lemma plain_delete:
  "DeleteListener sample_env ''l1'' plain_store =
     (let c = (plain_config 1090)\<lparr>cfListeners := []\<rparr> in (\<lparr>csCfg = c, csDisk = c\<rparr>, None))"
proof -
  let ?c = "(plain_config 1090)\<lparr>cfListeners := []\<rparr>"
  have v: "validatePersistedPoolConfig parse ?c = Inr ?c" for parse
    by (simp add: validatePersistedPoolConfig_def plain_config_def sample_config_def schedule_ok_def config_limits Let_def)
  have d: "delete_listener ''l1'' (plain_config 1090) = Inr ?c"
    by (simp add: delete_listener_def plain_fields delete_at_def)
  have s: "share_slices ?c ?c = ?c" by (simp add: share_slices_def plain_config_def sample_config_def)
  show ?thesis
    using plain_text by (simp add: DeleteListener_def Let_def mutate_def plain_store_def d v s writeConfigLocked_def sample_env_def
        maxPoolConfigBytes_def)
qed

theorem listener_add_delete_spec_witness:
  "\<exists>m'. lm_Delete calm ''l1'' started_manager = (m', []) \<and> ''l1'' \<notin> lsID ` set (bindings_of m')"
proof -
  have find: "listenerBindingLocked ''l1'' started_manager = Some (plain_listener 1090)"
    by (simp add: listenerBindingLocked_def started_eq bindings_of_def plain_store_def plain_fields)
  have store: "lmStore (case runtime_of ''l1'' started_manager of
      Some rt \<Rightarrow> drop_runtime ''l1'' (stopListenerLocked rt started_manager) | None \<Rightarrow> started_manager) = plain_store"
    by (simp only: stop_if_running(4) [OF refl]) (simp add: started_eq)
  have "\<exists>m'. lm_Delete calm ''l1'' started_manager = (m', [])"
    unfolding lm_Delete_def find Let_def option.case store by (simp add: calm_def plain_delete Let_def)
  moreover have "trim_space ''l2'' = ''l2''" by code_simp
  moreover have "runtime_of ''l2'' started_manager = None" by (simp add: started_eq runtime_of_def)
  ultimately show ?thesis
    using conjunct2 [OF listener_add_delete_spec [OF started_reach plain_wf, of "''l2''"]] by blast
qed

end
