(* ===== verification/Coordinator.thy ===== *)
theory Coordinator
  imports ConfigStore "HOL-Library.Multiset"
begin

text \<open>
  The coordinator of the background work (refresh_coordinator.go and the operation slot of
  candidate_check_operation.go). It keeps, for the refresh of all sources, the refresh of one source,
  the health recheck and the manual candidate check, the operation that is queued, the one that
  is running and the last one that ended, and a channel that wakes the worker.

  A channel of capacity one is a flag. Times are nanoseconds; the text form of a time is left to
  its reader. An identifier is the prefix of its kind, the time and the sequence number, as the
  code formats it. Every lock section is one function; requestRefresh and triggerFullRecheck have
  two, because they send to their channel after releasing the lock.
\<close>

section \<open>Operations\<close>

record refresh_op =
  roID :: string
  roStatus :: string
  roTrigger :: string
  roRequested :: nat
  roStarted :: "nat option"
  roCompleted :: "nat option"
  roErrors :: int
  roError :: string

record source_op =
  soID :: string
  soSource :: string
  soName :: string
  soStatus :: string
  soTrigger :: string
  soRequested :: nat
  soStarted :: "nat option"
  soCompleted :: "nat option"
  soError :: string
  soRevision :: source

record health_op =
  hoID :: string
  hoStatus :: string
  hoGen :: nat
  hoURL :: string
  hoRequested :: nat
  hoStarted :: "nat option"
  hoCompleted :: "nat option"
  hoTotal :: int
  hoDone :: nat
  hoReachable :: nat
  hoFailed :: nat
  hoFiltered :: nat

record cand_op =
  coID :: string
  coKind :: string
  coStatus :: string
  coRequested :: nat
  coStarted :: "nat option"
  coCompleted :: "nat option"
  coTotal :: int
  coDone :: int
  coAlive :: int
  coFailed :: int
  coFiltered :: int
  coError :: string

record cand_request =
  crKind :: string
  crLimit :: int
  crKeys :: "string list"
  crRetryAll :: bool
  crTolerate :: bool

record run_result =
  rrStatus :: string
  rrErrors :: int
  rrError :: string

definition op_id :: "string \<Rightarrow> nat \<Rightarrow> nat \<Rightarrow> string" where
  "op_id kind now seq = kind @ itoa now @ ''-'' @ itoa seq"

abbreviation "shutdown_text \<equiv> ''application is shutting down''"

section \<open>Refresh of all sources\<close>

record refresh_slot =
  rsSeq :: nat
  rsActive :: "refresh_op option"
  rsPending :: "refresh_op option"
  rsLast :: "refresh_op option"
  rsSignal :: bool

abbreviation "refresh_kind \<equiv> ''refresh-''"

definition newRefreshOperationLocked :: "nat \<Rightarrow> string \<Rightarrow> string \<Rightarrow> refresh_slot \<Rightarrow> refresh_slot \<times> refresh_op" where
  "newRefreshOperationLocked now trigger status s =
     (s\<lparr>rsSeq := rsSeq s + 1\<rparr>,
      \<lparr>roID = op_id refresh_kind now (rsSeq s + 1), roStatus = status, roTrigger = trigger, roRequested = now,
       roStarted = None, roCompleted = None, roErrors = 0, roError = []\<rparr>)"

text \<open>The lock section of requestRefresh; the flag says whether the send follows.\<close>

definition queue_refresh :: "bool \<Rightarrow> nat \<Rightarrow> refresh_slot \<Rightarrow> refresh_slot \<times> refresh_op \<times> bool" where
  "queue_refresh down now s =
     (if down then
        (case newRefreshOperationLocked now ''manual'' ''cancelled'' s of
           (s1, job) \<Rightarrow> (s1, job\<lparr>roCompleted := Some now, roError := shutdown_text\<rparr>, False))
      else case rsPending s of
          Some job \<Rightarrow> (s, job, False)
        | None \<Rightarrow>
            (case newRefreshOperationLocked now ''manual'' ''queued'' s of
               (s1, job) \<Rightarrow> (s1\<lparr>rsPending := Some job\<rparr>, job, True)))"

definition send_refresh :: "refresh_slot \<Rightarrow> refresh_slot \<times> bool" where
  "send_refresh s = (if rsSignal s then (s, False) else (s\<lparr>rsSignal := True\<rparr>, True))"

definition requestRefresh :: "bool \<Rightarrow> nat \<Rightarrow> refresh_slot \<Rightarrow> refresh_slot \<times> refresh_op \<times> bool" where
  "requestRefresh down now s =
     (case queue_refresh down now s of
        (s1, job, False) \<Rightarrow> (s1, job, False)
      | (s1, job, True) \<Rightarrow> (case send_refresh s1 of (s2, sent) \<Rightarrow> (s2, job, sent)))"

definition beginRefreshOperation :: "bool \<Rightarrow> nat \<Rightarrow> refresh_slot \<Rightarrow> refresh_slot \<times> string" where
  "beginRefreshOperation down now s =
     (if down then (s, [])
      else
        (case (case rsPending s of
                 Some job \<Rightarrow> (s\<lparr>rsPending := None\<rparr>, job)
               | None \<Rightarrow> newRefreshOperationLocked now ''manual'' ''queued'' (s\<lparr>rsPending := None\<rparr>)) of
           (s1, job) \<Rightarrow>
             let job' = job\<lparr>roStatus := ''running'', roStarted := Some now\<rparr>
             in (s1\<lparr>rsActive := Some job'\<rparr>, roID job')))"

definition beginBackgroundRefreshOperation :: "bool \<Rightarrow> nat \<Rightarrow> string \<Rightarrow> refresh_slot \<Rightarrow> refresh_slot \<times> string" where
  "beginBackgroundRefreshOperation down now trigger s =
     (if down then (s, [])
      else case newRefreshOperationLocked now trigger ''running'' s of
          (s1, job) \<Rightarrow> (s1\<lparr>rsActive := Some (job\<lparr>roStarted := Some now\<rparr>)\<rparr>, roID job))"

definition finishRefreshOperation :: "nat \<Rightarrow> string \<Rightarrow> run_result \<Rightarrow> refresh_slot \<Rightarrow> refresh_slot" where
  "finishRefreshOperation now k r s =
     (case rsActive s of
        None \<Rightarrow> s
      | Some job \<Rightarrow>
          if roID job \<noteq> k then s
          else
            let job' = job\<lparr>roStatus := (if rrStatus r = [] then ''complete'' else rrStatus r), roErrors := rrErrors r,
                           roError := rrError r, roCompleted := Some now\<rparr>
            in s\<lparr>rsLast := Some job', rsActive := None\<rparr>)"

definition slot_state :: "'a option \<Rightarrow> 'b option \<Rightarrow> string" where
  "slot_state active pending = (if active \<noteq> None then ''running'' else if pending \<noteq> None then ''queued'' else ''idle'')"

definition refreshOperationStatus :: "refresh_slot \<Rightarrow> string \<times> refresh_op option \<times> refresh_op option \<times> refresh_op option" where
  "refreshOperationStatus s = (slot_state (rsActive s) (rsPending s), rsActive s, rsPending s, rsLast s)"

definition stop_refresh :: "nat \<Rightarrow> refresh_slot \<Rightarrow> refresh_slot" where
  "stop_refresh now s =
     (let job = (case rsActive s of Some j \<Rightarrow> Some j | None \<Rightarrow> rsPending s)
      in s\<lparr>rsLast := (case job of
             Some j \<Rightarrow> Some (j\<lparr>roStatus := ''cancelled'', roCompleted := Some now, roError := shutdown_text\<rparr>)
           | None \<Rightarrow> rsLast s),
          rsActive := None, rsPending := None, rsSignal := False\<rparr>)"

section \<open>Refresh of one source\<close>

record source_slots =
  ssSeq :: nat
  ssPending :: "string \<rightharpoonup> source_op"
  ssActive :: "string \<rightharpoonup> source_op"
  ssLast :: "string \<rightharpoonup> nat"
  ssQueue :: "string list"

abbreviation "source_kind \<equiv> ''source-refresh-''"

definition revision_matches :: "source \<Rightarrow> source \<Rightarrow> string \<Rightarrow> bool" where
  "revision_matches revision src trigger \<longleftrightarrow>
     srEnabled src \<and> \<not> (trigger = ''scheduled'' \<and> \<not> srAutoRefresh src) \<and> revision = src"

definition new_source_operation :: "nat \<Rightarrow> source \<Rightarrow> string \<Rightarrow> string \<Rightarrow> source_slots \<Rightarrow> source_slots \<times> source_op" where
  "new_source_operation now src trigger status s =
     (s\<lparr>ssSeq := ssSeq s + 1\<rparr>,
      \<lparr>soID = op_id source_kind now (ssSeq s + 1), soSource = srID src, soName = srName src, soStatus = status,
       soTrigger = trigger, soRequested = now, soStarted = None, soCompleted = None, soError = [], soRevision = src\<rparr>)"

definition requestSourceRefresh ::
    "bool \<Rightarrow> nat \<Rightarrow> source \<Rightarrow> string \<Rightarrow> source_slots \<Rightarrow> source_slots \<times> source_op \<times> bool" where
  "requestSourceRefresh down now src trigger s =
     (if down then
        (case new_source_operation now src trigger ''cancelled'' s of
           (s1, job) \<Rightarrow> (s1, job\<lparr>soCompleted := Some now, soError := shutdown_text\<rparr>, False))
      else if \<not> srEnabled src then
        (case new_source_operation now src trigger ''rejected'' s of
           (s1, job) \<Rightarrow> (s1, job\<lparr>soError := ''source is disabled''\<rparr>, False))
      else if trigger = ''scheduled'' \<and> \<not> srAutoRefresh src then
        (case new_source_operation now src trigger ''rejected'' s of
           (s1, job) \<Rightarrow> (s1, job\<lparr>soError := ''automatic source refresh is disabled''\<rparr>, False))
      else case ssActive s (srID src) of
          Some job \<Rightarrow> (s, job, False)
        | None \<Rightarrow>
      (case ssPending s (srID src) of
          Some job \<Rightarrow> (s, job, False)
        | None \<Rightarrow>
            (case new_source_operation now src trigger ''queued'' s of
               (s1, job) \<Rightarrow>
                 if length (ssQueue s1) < maxConfiguredSources
                 then (s1\<lparr>ssPending := (ssPending s1)(srID src \<mapsto> job), ssQueue := ssQueue s1 @ [srID src]\<rparr>, job, True)
                 else (s1\<lparr>ssPending := (ssPending s1)(srID src := None)\<rparr>,
                       job\<lparr>soStatus := ''rejected'', soError := ''source refresh capacity reached''\<rparr>, False))))"

definition beginSourceRefresh :: "bool \<Rightarrow> nat \<Rightarrow> string \<Rightarrow> source_slots \<Rightarrow> source_slots \<times> source_op option" where
  "beginSourceRefresh down now k s =
     (if down then (s, None)
      else case ssPending s k of
          None \<Rightarrow> (s, None)
        | Some job \<Rightarrow>
            let job' = job\<lparr>soStatus := ''running'', soStarted := Some now\<rparr>
            in (s\<lparr>ssPending := (ssPending s)(k := None), ssActive := (ssActive s)(k \<mapsto> job')\<rparr>, Some job'))"

text \<open>The finished operation is not kept; it is returned here for the account of the operations.\<close>

definition finishSourceRefresh :: "nat \<Rightarrow> string \<Rightarrow> run_result \<Rightarrow> source_slots \<Rightarrow> source_slots \<times> source_op option" where
  "finishSourceRefresh now k r s =
     (case ssActive s k of
        None \<Rightarrow> (s, None)
      | Some job \<Rightarrow>
          (s\<lparr>ssLast := (ssLast s)(k \<mapsto> now), ssActive := (ssActive s)(k := None)\<rparr>,
           Some (job\<lparr>soStatus := (if rrStatus r = [] then ''complete'' else rrStatus r), soError := rrError r,
                     soCompleted := Some now\<rparr>)))"

definition markSourcesRefreshed :: "source list \<Rightarrow> nat \<Rightarrow> source_slots \<Rightarrow> source_slots" where
  "markSourcesRefreshed sources now s = s\<lparr>ssLast := foldl (\<lambda>m src. m(srID src \<mapsto> now)) (ssLast s) sources\<rparr>"

definition refresh_interval :: "nat \<Rightarrow> source \<Rightarrow> nat" where
  "refresh_interval global src =
     (if 0 < srRefreshInterval src then nat (srRefreshInterval src) * 1000000000 else global)"

text \<open>None is the zero time.\<close>

fun earliest_due :: "nat \<Rightarrow> nat \<Rightarrow> source_slots \<Rightarrow> source list \<Rightarrow> nat option \<Rightarrow> nat option" where
  "earliest_due global now s [] earliest = earliest"
| "earliest_due global now s (src # srcs) earliest =
     (if \<not> srEnabled src \<or> \<not> srAutoRefresh src then earliest_due global now s srcs earliest
      else
        let due = (case ssLast s (srID src) of None \<Rightarrow> now | Some t \<Rightarrow> t + refresh_interval global src)
        in earliest_due global now s srcs
             (case earliest of None \<Rightarrow> Some due | Some e \<Rightarrow> if due < e then Some due else Some e))"

definition nextSourceRefreshTime :: "source list \<Rightarrow> nat \<Rightarrow> nat \<Rightarrow> source_slots \<Rightarrow> nat option" where
  "nextSourceRefreshTime sources global now s = earliest_due global now s sources None"

text \<open>The loop of queueDueSourceRefreshes; it counts the accepted requests.\<close>

fun queue_due :: "bool \<Rightarrow> nat \<Rightarrow> nat \<Rightarrow> source list \<Rightarrow> nat \<Rightarrow> source_slots \<Rightarrow> source_slots \<times> nat" where
  "queue_due down global now [] queued s = (s, queued)"
| "queue_due down global now (src # srcs) queued s =
     (if \<not> srEnabled src \<or> \<not> srAutoRefresh src then queue_due down global now srcs queued s
      else if (case ssLast s (srID src) of None \<Rightarrow> False | Some t \<Rightarrow> int now - int t < int (refresh_interval global src))
      then queue_due down global now srcs queued s
      else case requestSourceRefresh down now src ''scheduled'' s of
          (s1, job, accepted) \<Rightarrow> queue_due down global now srcs (if accepted then queued + 1 else queued) s1)"

definition SourceRefreshInterval :: "nat \<Rightarrow> pool_config \<Rightarrow> nat" where
  "SourceRefreshInterval fallback c =
     (if 0 < cfSourceRefresh c then nat (cfSourceRefresh c) * 1000000000 else fallback)"

definition queueDueSourceRefreshes :: "bool \<Rightarrow> pool_config \<Rightarrow> nat \<Rightarrow> nat \<Rightarrow> source_slots \<Rightarrow> source_slots \<times> nat" where
  "queueDueSourceRefreshes down c global now s =
     queue_due down (SourceRefreshInterval global c) now (cfSources c) 0 s"

definition stop_sources :: "source_slots \<Rightarrow> source_slots" where
  "stop_sources s = s\<lparr>ssActive := Map.empty, ssPending := Map.empty, ssQueue := []\<rparr>"

section \<open>Health recheck\<close>

record health_slot =
  hsSeq :: nat
  hsActive :: "health_op option"
  hsPending :: "health_op option"
  hsLast :: "health_op option"
  hsSignal :: bool

abbreviation "health_kind \<equiv> ''health-recheck-''"

definition new_health_operation :: "nat \<Rightarrow> nat \<Rightarrow> string \<Rightarrow> string \<Rightarrow> health_slot \<Rightarrow> health_slot \<times> health_op" where
  "new_health_operation now gen url status s =
     (s\<lparr>hsSeq := hsSeq s + 1\<rparr>,
      \<lparr>hoID = op_id health_kind now (hsSeq s + 1), hoStatus = status, hoGen = gen, hoURL = url, hoRequested = now,
       hoStarted = None, hoCompleted = None, hoTotal = 0, hoDone = 0, hoReachable = 0, hoFailed = 0, hoFiltered = 0\<rparr>)"

definition supersede :: "nat \<Rightarrow> health_op \<Rightarrow> health_op" where
  "supersede now job = job\<lparr>hoStatus := ''superseded'', hoCompleted := Some now\<rparr>"

text \<open>The lock section of triggerFullRecheck; \<open>gen\<close> and \<open>url\<close> are the criterion of the pool.\<close>

definition queue_health :: "bool \<Rightarrow> nat \<Rightarrow> nat \<Rightarrow> string \<Rightarrow> health_slot \<Rightarrow> health_slot \<times> health_op \<times> bool" where
  "queue_health down now gen url s =
     (if down then
        (case new_health_operation now gen url ''cancelled'' s of
           (s1, job) \<Rightarrow> (s1, job\<lparr>hoCompleted := Some now\<rparr>, False))
      else if (case hsPending s of Some p \<Rightarrow> hoGen p = gen | None \<Rightarrow> False) then (s, the (hsPending s), False)
      else if (case hsActive s of Some a \<Rightarrow> hoGen a = gen | None \<Rightarrow> False) then (s, the (hsActive s), False)
      else
        let s0 = (case hsPending s of Some p \<Rightarrow> s\<lparr>hsLast := Some (supersede now p)\<rparr> | None \<Rightarrow> s)
        in (case new_health_operation now gen url ''queued'' s0 of
              (s1, job) \<Rightarrow> (s1\<lparr>hsPending := Some job\<rparr>, job, True)))"

definition send_health :: "health_slot \<Rightarrow> health_slot" where
  "send_health s = s\<lparr>hsSignal := True\<rparr>"

definition triggerFullRecheck :: "bool \<Rightarrow> nat \<Rightarrow> nat \<Rightarrow> string \<Rightarrow> health_slot \<Rightarrow> health_slot \<times> health_op \<times> bool" where
  "triggerFullRecheck down now gen url s =
     (case queue_health down now gen url s of
        (s1, job, True) \<Rightarrow> (send_health s1, job, True)
      | (s1, job, False) \<Rightarrow> (s1, job, False))"

text \<open>claimHealthRecheckOperation: the operation to run, or None when nothing is claimed.\<close>

definition claimHealthRecheckOperation ::
    "bool \<Rightarrow> nat \<Rightarrow> nat \<Rightarrow> string \<Rightarrow> int \<Rightarrow> bool \<Rightarrow> health_slot \<Rightarrow> health_slot \<times> health_op option" where
  "claimHealthRecheckOperation down now gen url tot timerWake s =
     (if down \<or> hsActive s \<noteq> None then (s, None)
      else
        (case (case hsPending s of
                 Some p \<Rightarrow>
                   if hoGen p \<noteq> gen then (s\<lparr>hsLast := Some (supersede now p), hsPending := None\<rparr>, None) else (s, Some p)
               | None \<Rightarrow> (s, None)) of
           (s1, job) \<Rightarrow>
             if job = None \<and> \<not> timerWake then (s1, None)
             else
               (case (case job of Some p \<Rightarrow> (s1, p) | None \<Rightarrow> new_health_operation now gen url ''queued'' s1) of
                  (s2, p) \<Rightarrow>
                    let p' = p\<lparr>hoStatus := ''running'', hoStarted := Some now, hoTotal := tot\<rparr>
                    in (s2\<lparr>hsPending := None, hsActive := Some p'\<rparr>, Some p'))))"

definition hasPendingHealthRecheck :: "health_slot \<Rightarrow> bool" where
  "hasPendingHealthRecheck s \<longleftrightarrow> hsPending s \<noteq> None"

definition recordHealthRecheckOutcome :: "string \<Rightarrow> bool \<Rightarrow> bool \<Rightarrow> health_slot \<Rightarrow> health_slot" where
  "recordHealthRecheckOutcome k reachable policyFiltered s =
     (case hsActive s of
        None \<Rightarrow> s
      | Some job \<Rightarrow>
          if k = [] \<or> hoID job \<noteq> k then s
          else s\<lparr>hsActive := Some (job\<lparr>hoDone := hoDone job + 1,
                 hoReachable := (if reachable then hoReachable job + 1 else hoReachable job),
                 hoFailed := (if reachable then hoFailed job else hoFailed job + 1),
                 hoFiltered := (if policyFiltered then hoFiltered job + 1 else hoFiltered job)\<rparr>)\<rparr>)"

definition finishHealthRecheckOperation :: "nat \<Rightarrow> string \<Rightarrow> bool \<Rightarrow> health_slot \<Rightarrow> health_slot" where
  "finishHealthRecheckOperation now k completed s =
     (case hsActive s of
        None \<Rightarrow> s
      | Some job \<Rightarrow>
          if hoID job \<noteq> k then s
          else
            let job' = job\<lparr>hoStatus := (if completed then ''complete'' else ''superseded''), hoCompleted := Some now\<rparr>
            in s\<lparr>hsLast := Some job', hsActive := None\<rparr>)"

definition healthRecheckOperationStatus :: "health_slot \<Rightarrow> string \<times> health_op option \<times> health_op option \<times> health_op option" where
  "healthRecheckOperationStatus s = (slot_state (hsActive s) (hsPending s), hsActive s, hsPending s, hsLast s)"

definition stop_health :: "nat \<Rightarrow> health_slot \<Rightarrow> health_slot" where
  "stop_health now s =
     (let job = (case hsActive s of Some j \<Rightarrow> Some j | None \<Rightarrow> hsPending s)
      in s\<lparr>hsLast := (case job of Some j \<Rightarrow> Some (j\<lparr>hoStatus := ''cancelled'', hoCompleted := Some now\<rparr>) | None \<Rightarrow> hsLast s),
          hsActive := None, hsPending := None, hsSignal := False\<rparr>)"

section \<open>Manual candidate check\<close>

text \<open>
  \<open>cdCancel\<close> is the cancel function, named by the operation whose task it stops; \<open>cdStopped\<close> are the operations
  whose task context has been cancelled.
\<close>

record cand_slot =
  cdSeq :: nat
  cdActive :: "cand_op option"
  cdPending :: "cand_op option"
  cdLast :: "cand_op option"
  cdRequest :: "cand_request option"
  cdSignal :: bool
  cdCancel :: "string option"
  cdStopped :: "string set"

abbreviation "cand_kind \<equiv> ''candidate-check-''"
abbreviation "kind_batch \<equiv> ''candidate_batch''"
abbreviation "kind_retry \<equiv> ''failed_retry''"

datatype cand_error = CandBusy cand_op | CandShutdown cand_op | CandUnavailable

datatype check_kind = NoResult | CheckAlive | CheckUnreachable | CheckPolicyFiltered

definition candidateCheckWorkerBusy :: "cand_slot \<Rightarrow> bool" where
  "candidateCheckWorkerBusy s \<longleftrightarrow> cdPending s \<noteq> None \<or> cdActive s \<noteq> None"

definition enqueueCandidateCheck ::
    "bool \<Rightarrow> nat \<Rightarrow> cand_request \<Rightarrow> cand_slot \<Rightarrow> cand_slot \<times> cand_op \<times> cand_error option" where
  "enqueueCandidateCheck down now r s =
     (case cdPending s of
        Some p \<Rightarrow> (s, p, Some (CandBusy p))
      | None \<Rightarrow>
     (case cdActive s of
        Some a \<Rightarrow> (s, a, Some (CandBusy a))
      | None \<Rightarrow>
          let job = \<lparr>coID = op_id cand_kind now (cdSeq s + 1), coKind = crKind r, coStatus = ''queued'', coRequested = now,
                     coStarted = None, coCompleted = None, coTotal = 0, coDone = 0, coAlive = 0, coFailed = 0,
                     coFiltered = 0, coError = []\<rparr>;
              s1 = s\<lparr>cdSeq := cdSeq s + 1\<rparr>
          in if down then
               let job' = job\<lparr>coStatus := ''cancelled'', coCompleted := Some now, coError := shutdown_text\<rparr>
               in (s1\<lparr>cdLast := Some job'\<rparr>, job', Some (CandShutdown job'))
             else if \<not> cdSignal s1 then (s1\<lparr>cdPending := Some job, cdRequest := Some r, cdSignal := True\<rparr>, job, None)
             else
               let job' = job\<lparr>coStatus := ''failed'', coCompleted := Some now, coError := ''candidate check worker is unavailable''\<rparr>
               in (s1\<lparr>cdPending := None, cdRequest := None, cdLast := Some job'\<rparr>, job', Some CandUnavailable)))"

definition requestCandidateCheck ::
    "bool \<Rightarrow> nat \<Rightarrow> string \<Rightarrow> int \<Rightarrow> string list \<Rightarrow> cand_slot \<Rightarrow> cand_slot \<times> cand_op \<times> cand_error option" where
  "requestCandidateCheck down now kind limit keys =
     enqueueCandidateCheck down now \<lparr>crKind = kind, crLimit = limit, crKeys = keys, crRetryAll = False, crTolerate = False\<rparr>"

definition requestFailedRetryAll ::
    "bool \<Rightarrow> nat \<Rightarrow> string list \<Rightarrow> cand_slot \<Rightarrow> cand_slot \<times> cand_op \<times> cand_error option" where
  "requestFailedRetryAll down now keys =
     enqueueCandidateCheck down now \<lparr>crKind = kind_retry, crLimit = 0, crKeys = keys, crRetryAll = True, crTolerate = True\<rparr>"

definition beginCandidateCheckOperation :: "bool \<Rightarrow> nat \<Rightarrow> cand_slot \<Rightarrow> cand_slot \<times> (cand_op \<times> cand_request) option" where
  "beginCandidateCheckOperation down now s =
     (if down \<or> cdActive s \<noteq> None then (s, None)
      else case (cdPending s, cdRequest s) of
          (Some p, Some r) \<Rightarrow>
            let p' = p\<lparr>coStatus := ''running'', coStarted := Some now\<rparr>
            in (s\<lparr>cdPending := None, cdRequest := None, cdActive := Some p'\<rparr>, Some (p', r))
        | _ \<Rightarrow> (s, None))"

definition on_active :: "string \<Rightarrow> (cand_op \<Rightarrow> cand_op) \<Rightarrow> cand_slot \<Rightarrow> cand_slot" where
  "on_active k f s =
     (case cdActive s of Some a \<Rightarrow> if coID a = k then s\<lparr>cdActive := Some (f a)\<rparr> else s | None \<Rightarrow> s)"

definition setCandidateCheckTotal :: "string \<Rightarrow> int \<Rightarrow> cand_slot \<Rightarrow> cand_slot" where
  "setCandidateCheckTotal k tot = on_active k (\<lambda>a. a\<lparr>coTotal := tot\<rparr>)"

definition dropCandidateCheckTotal :: "string \<Rightarrow> int \<Rightarrow> cand_slot \<Rightarrow> cand_slot" where
  "dropCandidateCheckTotal k dropped s =
     (if dropped \<le> 0 then s
      else on_active k (\<lambda>a. a\<lparr>coTotal := (if coTotal a - dropped < coDone a then coDone a else coTotal a - dropped)\<rparr>) s)"

definition recordCandidateCheckOutcome :: "string \<Rightarrow> check_kind \<Rightarrow> cand_slot \<Rightarrow> cand_slot" where
  "recordCandidateCheckOutcome k outcome s =
     (if outcome = NoResult then s
      else on_active k (\<lambda>a.
        let a' = a\<lparr>coDone := coDone a + 1\<rparr>
        in (case outcome of
              CheckAlive \<Rightarrow> a'\<lparr>coAlive := coAlive a' + 1\<rparr>
            | CheckUnreachable \<Rightarrow> a'\<lparr>coFailed := coFailed a' + 1\<rparr>
            | CheckPolicyFiltered \<Rightarrow> a'\<lparr>coFiltered := coFiltered a' + 1\<rparr>
            | NoResult \<Rightarrow> a')) s)"

definition maxCandidateFailureErrorLength :: nat where
  "maxCandidateFailureErrorLength = 512"

text \<open>The words of a text: strings.Fields.\<close>

fun words_from :: "string \<Rightarrow> string \<Rightarrow> string list" where
  "words_from w [] = (if w = [] then [] else [rev w])"
| "words_from w (c # cs) =
     (if is_space c then (if w = [] then words_from [] cs else rev w # words_from [] cs) else words_from (c # w) cs)"

definition sanitizeCandidateFailureError :: "string \<Rightarrow> string" where
  "sanitizeCandidateFailureError v = take maxCandidateFailureErrorLength (join_with '' '' (words_from [] v))"

definition finishCandidateCheckOperation :: "nat \<Rightarrow> string \<Rightarrow> string \<Rightarrow> string option \<Rightarrow> cand_slot \<Rightarrow> cand_slot" where
  "finishCandidateCheckOperation now k status err s =
     (case cdActive s of
        None \<Rightarrow> s
      | Some a \<Rightarrow>
          if coID a \<noteq> k then s
          else
            let a' = a\<lparr>coStatus := (if status = [] then ''complete'' else status), coCompleted := Some now,
                       coError := (case err of Some e \<Rightarrow> sanitizeCandidateFailureError e | None \<Rightarrow> coError a)\<rparr>
            in s\<lparr>cdLast := Some a', cdActive := None, cdCancel := None\<rparr>)"

definition idle_op :: cand_op where
  "idle_op = \<lparr>coID = [], coKind = [], coStatus = ''idle'', coRequested = 0, coStarted = None, coCompleted = None,
     coTotal = 0, coDone = 0, coAlive = 0, coFailed = 0, coFiltered = 0, coError = []\<rparr>"

definition cancelCandidateCheck :: "nat \<Rightarrow> cand_slot \<Rightarrow> cand_slot \<times> cand_op \<times> bool" where
  "cancelCandidateCheck now s =
     (case cdPending s of
        Some p \<Rightarrow>
          let p' = p\<lparr>coStatus := ''cancelled'', coCompleted := Some now\<rparr>
          in (s\<lparr>cdPending := None, cdRequest := None, cdLast := Some p', cdSignal := False\<rparr>, p', True)
      | None \<Rightarrow>
     (case cdActive s of
        Some a \<Rightarrow>
          (case cdCancel s of
             Some k \<Rightarrow> (s\<lparr>cdStopped := insert k (cdStopped s), cdCancel := None\<rparr>, a, True)
           | None \<Rightarrow> (s, a, True))
      | None \<Rightarrow> (s, idle_op, False)))"

definition registerCandidateCheckCancel :: "string \<Rightarrow> cand_slot \<Rightarrow> cand_slot" where
  "registerCandidateCheckCancel k s =
     (case cdActive s of Some a \<Rightarrow> if coID a = k then s\<lparr>cdCancel := Some k\<rparr> else s | None \<Rightarrow> s)"

definition candidateCheckOperationStatus :: "cand_slot \<Rightarrow> cand_op" where
  "candidateCheckOperationStatus s =
     (case cdActive s of Some a \<Rightarrow> a | None \<Rightarrow>
     (case cdPending s of Some p \<Rightarrow> p | None \<Rightarrow>
     (case cdLast s of Some l \<Rightarrow> l | None \<Rightarrow> idle_op)))"

definition stop_candidates :: "nat \<Rightarrow> cand_slot \<Rightarrow> cand_slot" where
  "stop_candidates now s =
     (let job = (case cdActive s of Some j \<Rightarrow> Some j | None \<Rightarrow> cdPending s)
      in s\<lparr>cdLast := (case job of
             Some j \<Rightarrow> Some (j\<lparr>coStatus := ''cancelled'', coCompleted := Some now, coError := shutdown_text\<rparr>)
           | None \<Rightarrow> cdLast s),
          cdActive := None, cdPending := None, cdRequest := None, cdSignal := False\<rparr>)"

section \<open>The coordinator\<close>

record scrape_info =
  siRaw :: int
  siCandidates :: int
  siChecked :: int
  siFresh :: int
  siTotal :: int
  siErrors :: int

record coordinator =
  ciDown :: bool
  ciRefresh :: refresh_slot
  ciSources :: source_slots
  ciHealth :: health_slot
  ciCand :: cand_slot
  ciRecheck :: bool
  ciLastScrape :: "nat option"
  ciNextScrape :: "nat option"
  ciInfo :: scrape_info
  ciLastFull :: "nat option"
  ciNextFull :: "nat option"

definition newRefreshCoordinator :: coordinator where
  "newRefreshCoordinator = \<lparr>ciDown = False,
     ciRefresh = \<lparr>rsSeq = 0, rsActive = None, rsPending = None, rsLast = None, rsSignal = False\<rparr>,
     ciSources = \<lparr>ssSeq = 0, ssPending = Map.empty, ssActive = Map.empty, ssLast = Map.empty, ssQueue = []\<rparr>,
     ciHealth = \<lparr>hsSeq = 0, hsActive = None, hsPending = None, hsLast = None, hsSignal = False\<rparr>,
     ciCand = \<lparr>cdSeq = 0, cdActive = None, cdPending = None, cdLast = None, cdRequest = None, cdSignal = False,
               cdCancel = None, cdStopped = {}\<rparr>,
     ciRecheck = False, ciLastScrape = None, ciNextScrape = None,
     ciInfo = \<lparr>siRaw = 0, siCandidates = 0, siChecked = 0, siFresh = 0, siTotal = 0, siErrors = 0\<rparr>,
     ciLastFull = None, ciNextFull = None\<rparr>"

definition recordSourceRefresh :: "nat \<Rightarrow> nat \<Rightarrow> coordinator \<Rightarrow> coordinator" where
  "recordSourceRefresh completedAt interval c = c\<lparr>ciLastScrape := Some completedAt, ciNextScrape := Some (completedAt + interval)\<rparr>"

definition recordFullRecheck :: "nat \<Rightarrow> nat \<Rightarrow> coordinator \<Rightarrow> coordinator" where
  "recordFullRecheck completedAt interval c = c\<lparr>ciLastFull := Some completedAt, ciNextFull := Some (completedAt + interval)\<rparr>"

definition scheduleFullRecheck :: "nat \<Rightarrow> coordinator \<Rightarrow> coordinator" where
  "scheduleFullRecheck due c = c\<lparr>ciNextFull := Some due\<rparr>"

definition recordScrape :: "nat \<Rightarrow> scrape_info \<Rightarrow> nat \<Rightarrow> coordinator \<Rightarrow> coordinator" where
  "recordScrape now info interval c =
     (let c1 = c\<lparr>ciInfo := info\<rparr> in
      if siErrors info < siTotal info then c1\<lparr>ciLastScrape := Some now, ciNextScrape := Some (now + interval)\<rparr>
      else c1\<lparr>ciNextScrape := Some (now + max (interval div 4) 60000000000)\<rparr>)"

definition triggerRecheck :: "coordinator \<Rightarrow> coordinator" where
  "triggerRecheck c = (if ciDown c then c else c\<lparr>ciRecheck := True\<rparr>)"

text \<open>shutdown runs its body once; a second call finds \<open>ciDown\<close> set.\<close>

definition shutdown :: "nat \<Rightarrow> coordinator \<Rightarrow> coordinator" where
  "shutdown now c =
     (if ciDown c then c
      else c\<lparr>ciDown := True, ciRefresh := stop_refresh now (ciRefresh c), ciSources := stop_sources (ciSources c),
             ciHealth := stop_health now (ciHealth c), ciCand := stop_candidates now (ciCand c), ciRecheck := False\<rparr>)"

section \<open>The account of the operations\<close>

text \<open>
  What happens to an operation: it is accepted, it ends with a status, or it is dropped without
  one (shutdown does this to a queued operation while another one is running).
\<close>

datatype event = Accepted string | Ended string string | Dropped string

fun accepted :: "event list \<Rightarrow> string list" where
  "accepted [] = []"
| "accepted (Accepted k # es) = k # accepted es"
| "accepted (Ended k st # es) = accepted es"
| "accepted (Dropped k # es) = accepted es"

fun settled :: "event list \<Rightarrow> string list" where
  "settled [] = []"
| "settled (Accepted k # es) = settled es"
| "settled (Ended k st # es) = k # settled es"
| "settled (Dropped k # es) = k # settled es"

lemma account_append [simp]: "accepted (es @ fs) = accepted es @ accepted fs" "settled (es @ fs) = settled es @ settled fs"
  by (induction es rule: accepted.induct) simp_all

inductive runs :: "('s \<Rightarrow> event list \<Rightarrow> 's \<Rightarrow> bool) \<Rightarrow> 's \<Rightarrow> event list \<Rightarrow> 's \<Rightarrow> bool" for step s0 where
  start: "runs step s0 [] s0"
| step: "runs step s0 tr s \<Longrightarrow> step s es s' \<Longrightarrow> runs step s0 (tr @ es) s'"

lemma takeWhile_sep: "\<forall>x\<in>set xs. x \<noteq> c \<Longrightarrow> takeWhile (\<lambda>x. x \<noteq> c) (xs @ c # ys) = xs"
  by (induction xs) auto

lemma op_id_inj:
  assumes "op_id k n s = op_id k n' s'"
  shows "s = s'"
proof -
  have no: "\<forall>c\<in>set (itoa m). c \<noteq> CHR ''-''" for m using itoa_not_in [of "CHR ''-''" m] by (auto simp: is_digit_def byte_of_def)
  from assms have eq: "itoa n @ CHR ''-'' # itoa s = itoa n' @ CHR ''-'' # itoa s'" by (simp add: op_id_def)
  from arg_cong [OF this, of "takeWhile (\<lambda>c. c \<noteq> CHR ''-'')"] have "itoa n = itoa n'"
    by (simp add: takeWhile_sep [OF no])
  with eq show ?thesis by (simp add: itoa_inj)
qed

text \<open>
  A slot of operations: the identifiers it holds are the accepted ones that have not been settled,
  and every accepted operation gets an identifier with a new sequence number.
\<close>

locale operation_slot =
  fixes step :: "'s \<Rightarrow> event list \<Rightarrow> 's \<Rightarrow> bool"
    and good :: "'s \<Rightarrow> bool"
    and live :: "'s \<Rightarrow> string list"
    and issued :: "'s \<Rightarrow> nat"
    and kind :: string
  assumes good_step: "good s \<Longrightarrow> step s es s' \<Longrightarrow> good s'"
    and balance: "good s \<Longrightarrow> step s es s' \<Longrightarrow> mset (live s') + mset (settled es) = mset (live s) + mset (accepted es)"
    and fresh: "good s \<Longrightarrow> step s es s' \<Longrightarrow>
      accepted es = [] \<and> issued s \<le> issued s' \<or> issued s < issued s' \<and> (\<exists>now. accepted es = [op_id kind now (issued s')])"
begin

lemma run_good: "runs step s0 tr s \<Longrightarrow> good s0 \<Longrightarrow> good s"
  by (induction rule: runs.induct) (auto intro: good_step)

lemma run_balance:
  "runs step s0 tr s \<Longrightarrow> good s0 \<Longrightarrow> live s0 = [] \<Longrightarrow> mset (live s) + mset (settled tr) = mset (accepted tr)"
proof (induction rule: runs.induct)
  case (step tr s es s')
  have "mset (live s') + mset (settled (tr @ es)) = (mset (live s') + mset (settled es)) + mset (settled tr)"
    by (simp add: add_ac)
  also have "\<dots> = mset (live s) + mset (accepted es) + mset (settled tr)"
    using balance [OF run_good [OF step(1) step(4)] step(2)] by simp
  also have "\<dots> = mset (accepted (tr @ es))"
    using step.IH [OF step(4, 5)] by (metis (no_types, lifting) account_append(1) add.assoc add.commute mset_append)
  finally show ?case .
qed simp

lemma run_distinct:
  "runs step s0 tr s \<Longrightarrow> good s0 \<Longrightarrow>
   distinct (accepted tr) \<and> (\<forall>k\<in>set (accepted tr). \<exists>now q. k = op_id kind now q \<and> q \<le> issued s)"
proof (induction rule: runs.induct)
  case (step tr s es s')
  note IH = step.IH [OF step(4)]
  from fresh [OF run_good [OF step(1) step(4)] step(2)] show ?case
  proof
    assume new: "accepted es = [] \<and> issued s \<le> issued s'"
    with IH show ?thesis by (metis (no_types, lifting) account_append(1) append_Nil2 le_trans)
  next
    assume new: "issued s < issued s' \<and> (\<exists>now. accepted es = [op_id kind now (issued s')])"
    then obtain now where e: "accepted es = [op_id kind now (issued s')]" "issued s < issued s'" by blast
    have "op_id kind now (issued s') \<notin> set (accepted tr)"
    proof
      assume "op_id kind now (issued s') \<in> set (accepted tr)"
      with IH obtain n q where "op_id kind now (issued s') = op_id kind n q" "q \<le> issued s" by blast
      with op_id_inj e(2) show False by (metis not_le)
    qed
    moreover have "\<exists>now q. k = op_id kind now q \<and> q \<le> issued s'" if "k \<in> set (accepted tr) \<or> k = op_id kind now (issued s')" for k
      using that IH e(2) by (metis le_trans less_imp_le order_refl)
    ultimately show ?thesis using IH e(1) by auto
  qed
qed simp

lemma run_account:
  assumes "runs step s0 tr s" "good s0" "live s0 = []"
  shows "distinct (accepted tr) \<and> (\<forall>k. count (mset (settled tr)) k + count (mset (live s)) k = (if k \<in> set (accepted tr) then 1 else 0))"
proof -
  have d: "distinct (accepted tr)" using run_distinct [OF assms(1, 2)] by blast
  have "count (mset (settled tr)) k + count (mset (live s)) k = (if k \<in> set (accepted tr) then 1 else 0)" for k
    using arg_cong [OF run_balance [OF assms], of "\<lambda>M. count M k"] d by (simp add: distinct_count_atmost_1 add.commute)
  with d show ?thesis by blast
qed

end

section \<open>The slots with their workers\<close>

datatype worker = Idle | Woken | Claimed string | Working string

text \<open>
  The refresh slot with the worker of main and the requests between the two sections of requestRefresh
  (\<open>rmSending\<close>). Shutdown takes the write lock that each request holds for reading, so it waits for them.
\<close>

record refresh_machine =
  rmDown :: bool
  rmSending :: nat
  rmWorker :: worker
  rmSlot :: refresh_slot

definition stop_events :: "string option \<Rightarrow> string option \<Rightarrow> event list" where
  "stop_events active pending =
     (case active of
        Some k \<Rightarrow> Ended k ''cancelled'' # (case pending of Some p \<Rightarrow> [Dropped p] | None \<Rightarrow> [])
      | None \<Rightarrow> (case pending of Some p \<Rightarrow> [Ended p ''cancelled''] | None \<Rightarrow> []))"

inductive refresh_step :: "refresh_machine \<Rightarrow> event list \<Rightarrow> refresh_machine \<Rightarrow> bool" where
  queue: "queue_refresh (rmDown m) now (rmSlot m) = (s, job, new) \<Longrightarrow>
    refresh_step m (if new then [Accepted (roID job)] else [])
      (m\<lparr>rmSlot := s, rmSending := (if new then rmSending m + 1 else rmSending m)\<rparr>)"
| send: "0 < rmSending m \<Longrightarrow>
    refresh_step m [] (m\<lparr>rmSlot := fst (send_refresh (rmSlot m)), rmSending := rmSending m - 1\<rparr>)"
| receive: "rmWorker m = Idle \<Longrightarrow> rsSignal (rmSlot m) \<Longrightarrow>
    refresh_step m [] (m\<lparr>rmSlot := (rmSlot m)\<lparr>rsSignal := False\<rparr>, rmWorker := Woken\<rparr>)"
| claim: "rmWorker m = Woken \<Longrightarrow> beginRefreshOperation (rmDown m) now (rmSlot m) = (s, k) \<Longrightarrow>
    refresh_step m (if \<not> rmDown m \<and> rsPending (rmSlot m) = None then [Accepted k] else [])
      (m\<lparr>rmSlot := s, rmWorker := (if k = [] then Idle else Working k)\<rparr>)"
| background: "rmWorker m = Idle \<Longrightarrow> beginBackgroundRefreshOperation (rmDown m) now trigger (rmSlot m) = (s, k) \<Longrightarrow>
    refresh_step m (if rmDown m then [] else [Accepted k]) (m\<lparr>rmSlot := s, rmWorker := (if k = [] then Idle else Working k)\<rparr>)"
| finish: "rmWorker m = Working k \<Longrightarrow>
    refresh_step m (if map_option roID (rsActive (rmSlot m)) = Some k then [Ended k (rrStatus r)] else [])
      (m\<lparr>rmSlot := finishRefreshOperation now k r (rmSlot m), rmWorker := Idle\<rparr>)"
| stop: "\<not> rmDown m \<Longrightarrow> rmSending m = 0 \<Longrightarrow>
    refresh_step m (stop_events (map_option roID (rsActive (rmSlot m))) (map_option roID (rsPending (rmSlot m))))
      (m\<lparr>rmDown := True, rmSlot := stop_refresh now (rmSlot m)\<rparr>)"

definition one_of :: "bool \<Rightarrow> nat" where
  "one_of b = (if b then 1 else 0)"

definition refresh_good :: "refresh_machine \<Rightarrow> bool" where
  "refresh_good m \<longleftrightarrow> (\<forall>p. rsPending (rmSlot m) = Some p \<longrightarrow> roID p \<noteq> []) \<and>
     (if rmDown m then rsActive (rmSlot m) = None \<and> rsPending (rmSlot m) = None \<and> rmSending m = 0 \<and> \<not> rsSignal (rmSlot m)
      else rmSending m + one_of (rsSignal (rmSlot m)) + one_of (rmWorker m = Woken) = one_of (rsPending (rmSlot m) \<noteq> None) \<and>
        (case rsActive (rmSlot m) of Some a \<Rightarrow> rmWorker m = Working (roID a) | None \<Rightarrow> rmWorker m = Idle \<or> rmWorker m = Woken))"

definition refresh_live :: "refresh_machine \<Rightarrow> string list" where
  "refresh_live m = map roID (case rsActive (rmSlot m) of Some a \<Rightarrow> [a] | None \<Rightarrow> []) @
     map roID (case rsPending (rmSlot m) of Some p \<Rightarrow> [p] | None \<Rightarrow> [])"

lemma op_id_neq [simp]: "op_id k n s \<noteq> []"
  by (simp add: op_id_def)

lemmas refresh_defs = queue_refresh_def send_refresh_def newRefreshOperationLocked_def beginRefreshOperation_def
  beginBackgroundRefreshOperation_def finishRefreshOperation_def stop_refresh_def stop_events_def Let_def

lemma refresh_good_step: "refresh_good m \<Longrightarrow> refresh_step m es m' \<Longrightarrow> refresh_good m'"
  by (erule refresh_step.cases;
      auto simp: refresh_good_def one_of_def refresh_defs split: if_splits option.splits prod.splits)

lemma refresh_balance:
  "refresh_good m \<Longrightarrow> refresh_step m es m' \<Longrightarrow>
   mset (refresh_live m') + mset (settled es) = mset (refresh_live m) + mset (accepted es)"
  by (erule refresh_step.cases;
      auto simp: refresh_good_def refresh_live_def one_of_def refresh_defs split: if_splits option.splits prod.splits)

lemma refresh_fresh:
  "refresh_good m \<Longrightarrow> refresh_step m es m' \<Longrightarrow>
   accepted es = [] \<and> rsSeq (rmSlot m) \<le> rsSeq (rmSlot m') \<or>
   rsSeq (rmSlot m) < rsSeq (rmSlot m') \<and> (\<exists>now. accepted es = [op_id refresh_kind now (rsSeq (rmSlot m'))])"
  by (erule refresh_step.cases;
      auto simp: refresh_good_def one_of_def refresh_defs split: if_splits option.splits prod.splits)

interpretation rslot: operation_slot refresh_step refresh_good refresh_live "\<lambda>m. rsSeq (rmSlot m)" refresh_kind
  by unfold_locales (fact refresh_good_step refresh_balance refresh_fresh)+

text \<open>
  The health slot: its worker is woken by the channel or by its timer (\<open>hmTimer\<close>), and gives up when it was woken
  by the channel and finds nothing pending.
\<close>

record health_machine =
  hmDown :: bool
  hmSending :: nat
  hmWorker :: worker
  hmTimer :: bool
  hmSlot :: health_slot

inductive health_step :: "health_machine \<Rightarrow> event list \<Rightarrow> health_machine \<Rightarrow> bool" where
  queue: "queue_health (hmDown m) now gen url (hmSlot m) = (s, job, new) \<Longrightarrow>
    health_step m
      (if new then (case hsPending (hmSlot m) of Some p \<Rightarrow> [Ended (hoID p) ''superseded''] | None \<Rightarrow> []) @ [Accepted (hoID job)]
       else [])
      (m\<lparr>hmSlot := s, hmSending := (if new then hmSending m + 1 else hmSending m)\<rparr>)"
| send: "0 < hmSending m \<Longrightarrow> health_step m [] (m\<lparr>hmSlot := send_health (hmSlot m), hmSending := hmSending m - 1\<rparr>)"
| receive: "hmWorker m = Idle \<Longrightarrow> hsSignal (hmSlot m) \<Longrightarrow>
    health_step m [] (m\<lparr>hmSlot := (hmSlot m)\<lparr>hsSignal := False\<rparr>, hmWorker := Woken, hmTimer := False\<rparr>)"
| timer: "hmWorker m = Idle \<Longrightarrow> health_step m [] (m\<lparr>hmWorker := Woken, hmTimer := True\<rparr>)"
| skip: "hmWorker m = Woken \<Longrightarrow> \<not> hmTimer m \<Longrightarrow> \<not> hasPendingHealthRecheck (hmSlot m) \<Longrightarrow>
    health_step m [] (m\<lparr>hmWorker := Idle\<rparr>)"
| claim: "hmWorker m = Woken \<Longrightarrow>
    claimHealthRecheckOperation (hmDown m) now gen url tot (hmTimer m) (hmSlot m) = (s, job) \<Longrightarrow>
    health_step m
      ((case hsPending (hmSlot m) of
          Some p \<Rightarrow> if \<not> hmDown m \<and> hsActive (hmSlot m) = None \<and> hoGen p \<noteq> gen then [Ended (hoID p) ''superseded''] else []
        | None \<Rightarrow> []) @
       (case job of
          Some j \<Rightarrow> if map_option hoGen (hsPending (hmSlot m)) = Some gen then [] else [Accepted (hoID j)]
        | None \<Rightarrow> []))
      (m\<lparr>hmSlot := s, hmWorker := (case job of Some j \<Rightarrow> Working (hoID j) | None \<Rightarrow> Idle)\<rparr>)"
| outcome: "hmWorker m = Working k \<Longrightarrow> filtered \<longrightarrow> reachable \<Longrightarrow>
    health_step m [] (m\<lparr>hmSlot := recordHealthRecheckOutcome k reachable filtered (hmSlot m)\<rparr>)"
| finish: "hmWorker m = Working k \<Longrightarrow>
    health_step m
      (if map_option hoID (hsActive (hmSlot m)) = Some k then [Ended k (if completed then ''complete'' else ''superseded'')] else [])
      (m\<lparr>hmSlot := finishHealthRecheckOperation now k completed (hmSlot m), hmWorker := Idle\<rparr>)"
| stop: "\<not> hmDown m \<Longrightarrow> hmSending m = 0 \<Longrightarrow>
    health_step m (stop_events (map_option hoID (hsActive (hmSlot m))) (map_option hoID (hsPending (hmSlot m))))
      (m\<lparr>hmDown := True, hmSlot := stop_health now (hmSlot m)\<rparr>)"

text \<open>
  Besides the agreement of slot and worker: a queued recheck always has a wake-up on its way, the queued and
  the running one are for different criteria, and the counters of the running one add up.
\<close>

definition health_op_ok :: "nat \<Rightarrow> health_op \<Rightarrow> bool" where
  "health_op_ok seq j \<longleftrightarrow> (\<exists>now q. hoID j = op_id health_kind now q \<and> q \<le> seq) \<and>
     hoDone j = hoReachable j + hoFailed j \<and> hoFiltered j \<le> hoReachable j"

definition health_good :: "health_machine \<Rightarrow> bool" where
  "health_good m \<longleftrightarrow>
     (\<forall>a. hsActive (hmSlot m) = Some a \<longrightarrow> health_op_ok (hsSeq (hmSlot m)) a) \<and>
     (\<forall>p. hsPending (hmSlot m) = Some p \<longrightarrow> health_op_ok (hsSeq (hmSlot m)) p) \<and>
     (if hmDown m
      then hsActive (hmSlot m) = None \<and> hsPending (hmSlot m) = None \<and> hmSending m = 0 \<and> \<not> hsSignal (hmSlot m)
      else (hsPending (hmSlot m) \<noteq> None \<longrightarrow> 0 < hmSending m \<or> hsSignal (hmSlot m) \<or> hmWorker m = Woken) \<and>
        (\<forall>a p. hsActive (hmSlot m) = Some a \<longrightarrow> hsPending (hmSlot m) = Some p \<longrightarrow> hoGen a \<noteq> hoGen p \<and> hoID a \<noteq> hoID p) \<and>
        (case hsActive (hmSlot m) of Some a \<Rightarrow> hmWorker m = Working (hoID a) | None \<Rightarrow> hmWorker m = Idle \<or> hmWorker m = Woken))"

definition health_live :: "health_machine \<Rightarrow> string list" where
  "health_live m = map hoID (case hsActive (hmSlot m) of Some a \<Rightarrow> [a] | None \<Rightarrow> []) @
     map hoID (case hsPending (hmSlot m) of Some p \<Rightarrow> [p] | None \<Rightarrow> [])"

lemmas health_defs = queue_health_def send_health_def new_health_operation_def claimHealthRecheckOperation_def
  finishHealthRecheckOperation_def recordHealthRecheckOutcome_def hasPendingHealthRecheck_def stop_health_def
  stop_events_def supersede_def Let_def

lemma health_op_Suc: "health_op_ok q j \<Longrightarrow> health_op_ok (Suc q) j"
  unfolding health_op_ok_def by (meson le_SucI)

lemma health_op_new: "health_op_ok q j \<Longrightarrow> hoID j \<noteq> op_id health_kind now (Suc q)"
  unfolding health_op_ok_def by (metis Suc_n_not_le_n op_id_inj)

lemma health_op_old: "health_op_ok q j \<Longrightarrow> op_id health_kind now (Suc q) \<noteq> hoID j"
  using health_op_new by metis

lemma new_health_ok [simp]:
  "hoID j = op_id health_kind now q \<Longrightarrow> hoDone j = 0 \<Longrightarrow> hoReachable j = 0 \<Longrightarrow> hoFailed j = 0 \<Longrightarrow> hoFiltered j = 0 \<Longrightarrow>
   health_op_ok q j"
  unfolding health_op_ok_def by auto

lemma health_op_update [simp]:
  "health_op_ok q (j\<lparr>hoStatus := a\<rparr>) = health_op_ok q j" "health_op_ok q (j\<lparr>hoStarted := b\<rparr>) = health_op_ok q j"
  "health_op_ok q (j\<lparr>hoTotal := c\<rparr>) = health_op_ok q j"
  by (simp_all add: health_op_ok_def)

lemma health_queue_good:
  assumes g: "health_good m" and q: "queue_health (hmDown m) now gen url (hmSlot m) = (s, job, new)"
  shows "health_good (m\<lparr>hmSlot := s, hmSending := (if new then hmSending m + 1 else hmSending m)\<rparr>)"
proof (cases new)
  case False
  with q have "s = hmSlot m \<or> hmDown m \<and> s = (hmSlot m)\<lparr>hsSeq := hsSeq (hmSlot m) + 1\<rparr>"
    by (auto simp: queue_health_def new_health_operation_def Let_def split: if_splits option.splits)
  with g False show ?thesis by (auto simp: health_good_def intro: health_op_Suc split: option.splits)
next
  case True
  let ?h = "hmSlot m"
  have up: "\<not> hmDown m" using q True by (auto simp: queue_health_def new_health_operation_def split: if_splits)
  from q True up have j: "hoID job = op_id health_kind now (Suc (hsSeq ?h))" "hoGen job = gen"
      "health_op_ok (Suc (hsSeq ?h)) job" "\<forall>a. hsActive ?h = Some a \<longrightarrow> hoGen a \<noteq> gen"
      "hsPending s = Some job" "hsActive s = hsActive ?h" "hsSeq s = Suc (hsSeq ?h)"
    by (auto simp: queue_health_def new_health_operation_def Let_def split: if_splits option.splits)
  have act: "health_op_ok (hsSeq ?h) a \<and> hoID a \<noteq> hoID job \<and> hoGen a \<noteq> gen" if "hsActive ?h = Some a" for a
    using g that j health_op_new [of "hsSeq ?h" a now] by (auto simp: health_good_def)
  with g up j True health_op_Suc show ?thesis
    by (simp add: health_good_def split: option.splits)
qed

lemma health_claim_good:
  assumes g: "health_good m" and w: "hmWorker m = Woken"
    and q: "claimHealthRecheckOperation (hmDown m) now gen url tot t (hmSlot m) = (s, job)"
  shows "health_good (m\<lparr>hmSlot := s, hmWorker := (case job of Some j \<Rightarrow> Working (hoID j) | None \<Rightarrow> Idle)\<rparr>)"
proof (cases "hmDown m")
  case True
  with g q show ?thesis by (auto simp: health_good_def claimHealthRecheckOperation_def)
next
  case False
  let ?h = "hmSlot m"
  from g w False have none: "hsActive ?h = None" by (auto simp: health_good_def split: option.splits)
  show ?thesis
  proof (cases job)
    case None
    with q False none have "hsPending s = None" "hsActive s = None"
      by (auto simp: claimHealthRecheckOperation_def new_health_operation_def Let_def split: if_splits option.splits)
    with None False show ?thesis by (simp add: health_good_def)
  next
    case (Some j)
    with q False none have s: "hsPending s = None" "hsActive s = Some j"
      by (auto simp: claimHealthRecheckOperation_def new_health_operation_def Let_def split: if_splits option.splits)
    have "health_op_ok (hsSeq s) j"
    proof (cases "hsPending ?h = None \<or> hoGen (the (hsPending ?h)) \<noteq> gen")
      case True
      with q False none Some show ?thesis
        by (auto simp: claimHealthRecheckOperation_def new_health_operation_def Let_def split: if_splits option.splits)
    next
      case False
      then obtain p where p: "hsPending ?h = Some p" "hoGen p = gen" by auto
      with q \<open>\<not> hmDown m\<close> none Some have "j = p\<lparr>hoStatus := ''running'', hoStarted := Some now, hoTotal := tot\<rparr>" "hsSeq s = hsSeq ?h"
        by (auto simp: claimHealthRecheckOperation_def Let_def)
      with g p(1) show ?thesis by (simp add: health_good_def)
    qed
    with s Some False show ?thesis by (simp add: health_good_def)
  qed
qed

lemma health_outcome_good:
  assumes "health_good m" "filtered \<longrightarrow> reachable"
  shows "health_good (m\<lparr>hmSlot := recordHealthRecheckOutcome k reachable filtered (hmSlot m)\<rparr>)"
proof (cases "hsActive (hmSlot m)")
  case None
  with assms show ?thesis by (simp add: recordHealthRecheckOutcome_def)
next
  case (Some a)
  with assms show ?thesis
    by (cases "hmDown m") (auto simp: health_good_def recordHealthRecheckOutcome_def health_op_ok_def split: option.splits)
qed

lemma health_good_step: "health_good m \<Longrightarrow> health_step m es m' \<Longrightarrow> health_good m'"
proof (erule health_step.cases, goal_cases)
  case 1
  then show ?case using health_queue_good by simp
next
  case 6
  then show ?case using health_claim_good by simp
next
  case 7
  then show ?case using health_outcome_good by simp
qed (auto simp: health_good_def health_defs split: if_splits option.splits)

lemma health_balance:
  "health_good m \<Longrightarrow> health_step m es m' \<Longrightarrow>
   mset (health_live m') + mset (settled es) = mset (health_live m) + mset (accepted es)"
  by (erule health_step.cases;
      auto simp: health_good_def health_live_def health_defs split: if_splits option.splits prod.splits)

lemma health_fresh:
  "health_good m \<Longrightarrow> health_step m es m' \<Longrightarrow>
   accepted es = [] \<and> hsSeq (hmSlot m) \<le> hsSeq (hmSlot m') \<or>
   hsSeq (hmSlot m) < hsSeq (hmSlot m') \<and> (\<exists>now. accepted es = [op_id health_kind now (hsSeq (hmSlot m'))])"
  by (erule health_step.cases;
      auto simp: health_good_def health_defs split: if_splits option.splits prod.splits)

interpretation hslot: operation_slot health_step health_good health_live "\<lambda>m. hsSeq (hmSlot m)" health_kind
  by unfold_locales (fact health_good_step health_balance health_fresh)+

text \<open>
  The candidate slot: its worker claims the operation (\<open>Claimed\<close>) and registers the cancel function of
  the task in a later lock section (\<open>Working\<close>).
\<close>

record cand_machine =
  cmDown :: bool
  cmWorker :: worker
  cmSlot :: cand_slot

definition cand_end :: "cand_op option \<Rightarrow> string \<Rightarrow> string \<Rightarrow> event list" where
  "cand_end active k status = (if map_option coID active = Some k then [Ended k status] else [])"

inductive cand_step :: "cand_machine \<Rightarrow> event list \<Rightarrow> cand_machine \<Rightarrow> bool" where
  enqueue: "enqueueCandidateCheck (cmDown m) now r (cmSlot m) = (s, job, err) \<Longrightarrow>
    cand_step m (if err = None then [Accepted (coID job)] else []) (m\<lparr>cmSlot := s\<rparr>)"
| receive: "cmWorker m = Idle \<Longrightarrow> cdSignal (cmSlot m) \<Longrightarrow>
    cand_step m [] (m\<lparr>cmSlot := (cmSlot m)\<lparr>cdSignal := False\<rparr>, cmWorker := Woken\<rparr>)"
| claim: "cmWorker m = Woken \<Longrightarrow> beginCandidateCheckOperation (cmDown m) now (cmSlot m) = (s, res) \<Longrightarrow>
    cand_step m [] (m\<lparr>cmSlot := s, cmWorker := (case res of Some (j, r) \<Rightarrow> Claimed (coID j) | None \<Rightarrow> Idle)\<rparr>)"
| register: "cmWorker m = Claimed k \<Longrightarrow>
    cand_step m [] (m\<lparr>cmSlot := registerCandidateCheckCancel k (cmSlot m), cmWorker := Working k\<rparr>)"
| size: "cmWorker m = Working k \<Longrightarrow> cand_step m [] (m\<lparr>cmSlot := setCandidateCheckTotal k n (cmSlot m)\<rparr>)"
| shrink: "cmWorker m = Working k \<Longrightarrow> cand_step m [] (m\<lparr>cmSlot := dropCandidateCheckTotal k n (cmSlot m)\<rparr>)"
| outcome: "cmWorker m = Working k \<Longrightarrow> cand_step m [] (m\<lparr>cmSlot := recordCandidateCheckOutcome k oc (cmSlot m)\<rparr>)"
| finish: "cmWorker m = Claimed k \<or> cmWorker m = Working k \<Longrightarrow>
    cand_step m (cand_end (cdActive (cmSlot m)) k status)
      (m\<lparr>cmSlot := finishCandidateCheckOperation now k status err (cmSlot m), cmWorker := Idle\<rparr>)"
| cancel: "cancelCandidateCheck now (cmSlot m) = (s, job, done) \<Longrightarrow>
    cand_step m (case cdPending (cmSlot m) of Some p \<Rightarrow> [Ended (coID p) ''cancelled''] | None \<Rightarrow> []) (m\<lparr>cmSlot := s\<rparr>)"
| stop: "\<not> cmDown m \<Longrightarrow>
    cand_step m (stop_events (map_option coID (cdActive (cmSlot m))) (map_option coID (cdPending (cmSlot m))))
      (m\<lparr>cmDown := True, cmSlot := stop_candidates now (cmSlot m)\<rparr>)"

text \<open>
  The slot holds one operation at most, a queued one has its request and a wake-up, the counters of
  the running one add up, and the registered cancel function is that of the running operation.
\<close>

definition cand_op_ok :: "cand_op \<Rightarrow> bool" where
  "cand_op_ok a \<longleftrightarrow> coDone a = coAlive a + coFailed a + coFiltered a \<and> 0 \<le> coAlive a \<and> 0 \<le> coFailed a \<and> 0 \<le> coFiltered a"

definition cand_good :: "cand_machine \<Rightarrow> bool" where
  "cand_good m \<longleftrightarrow>
     (cdPending (cmSlot m) = None \<or> cdActive (cmSlot m) = None) \<and>
     (cdPending (cmSlot m) \<noteq> None \<longrightarrow> cdRequest (cmSlot m) \<noteq> None \<and> (cdSignal (cmSlot m) \<or> cmWorker m = Woken)) \<and>
     (\<forall>a. cdPending (cmSlot m) = Some a \<or> cdActive (cmSlot m) = Some a \<longrightarrow> cand_op_ok a) \<and>
     (if cmDown m then cdActive (cmSlot m) = None \<and> cdPending (cmSlot m) = None \<and> \<not> cdSignal (cmSlot m)
      else (case cdActive (cmSlot m) of
              Some a \<Rightarrow> cmWorker m = Claimed (coID a) \<and> cdCancel (cmSlot m) = None \<or>
                cmWorker m = Working (coID a) \<and> (cdCancel (cmSlot m) = Some (coID a) \<or> coID a \<in> cdStopped (cmSlot m))
            | None \<Rightarrow> (cmWorker m = Idle \<or> cmWorker m = Woken) \<and> cdCancel (cmSlot m) = None))"

definition cand_live :: "cand_machine \<Rightarrow> string list" where
  "cand_live m = map coID (case cdActive (cmSlot m) of Some a \<Rightarrow> [a] | None \<Rightarrow> []) @
     map coID (case cdPending (cmSlot m) of Some p \<Rightarrow> [p] | None \<Rightarrow> [])"

lemmas cand_defs = enqueueCandidateCheck_def beginCandidateCheckOperation_def registerCandidateCheckCancel_def
  setCandidateCheckTotal_def dropCandidateCheckTotal_def recordCandidateCheckOutcome_def on_active_def
  finishCandidateCheckOperation_def cancelCandidateCheck_def stop_candidates_def stop_events_def cand_end_def Let_def

lemma cand_enqueue_cases:
  assumes "enqueueCandidateCheck down now r s = (s', job, err)"
  obtains (refused) "err \<noteq> None" "s' = s"
  | (discarded) l where "err \<noteq> None" "cdPending s = None" "cdActive s = None"
      "s' = s\<lparr>cdSeq := cdSeq s + 1, cdPending := None, cdRequest := (if down then cdRequest s else None), cdLast := l\<rparr>"
  | (queued) "err = None" "\<not> down" "cdPending s = None" "cdActive s = None" "\<not> cdSignal s" "cand_op_ok job"
      "coID job = op_id cand_kind now (Suc (cdSeq s))"
      "s' = s\<lparr>cdSeq := cdSeq s + 1, cdPending := Some job, cdRequest := Some r, cdSignal := True\<rparr>"
proof (cases "cdPending s = None \<and> cdActive s = None")
  case False
  with assms have "err \<noteq> None \<and> s' = s" by (auto simp: enqueueCandidateCheck_def split: option.splits)
  then show ?thesis using refused by blast
next
  case True
  show ?thesis
  proof (cases "down \<or> cdSignal s")
    case stop: True
    with assms True have "err \<noteq> None \<and>
        (\<exists>l. s' = s\<lparr>cdSeq := cdSeq s + 1, cdPending := None, cdRequest := (if down then cdRequest s else None), cdLast := l\<rparr>)"
      by (cases s) (auto simp: enqueueCandidateCheck_def Let_def split: if_splits)
    then show ?thesis using discarded True by blast
  next
    case False
    show ?thesis
      by (rule queued) (use assms True False in \<open>auto simp: enqueueCandidateCheck_def Let_def cand_op_ok_def\<close>)
  qed
qed

lemma cand_begin_good:
  assumes g: "cand_good m" and w: "cmWorker m = Woken" and b: "beginCandidateCheckOperation (cmDown m) now (cmSlot m) = (s, res)"
  shows "cand_good (m\<lparr>cmSlot := s, cmWorker := (case res of Some (j, r) \<Rightarrow> Claimed (coID j) | None \<Rightarrow> Idle)\<rparr>) \<and>
    cand_live (m\<lparr>cmSlot := s, cmWorker := wk\<rparr>) = cand_live m \<and> cdSeq s = cdSeq (cmSlot m)"
proof (cases "cmDown m \<or> cdPending (cmSlot m) = None")
  case True
  with g b w have "res = None" "s = cmSlot m" "cdPending (cmSlot m) = None"
    by (auto simp: beginCandidateCheckOperation_def cand_good_def split: if_splits option.splits)
  with g w show ?thesis by (auto simp: cand_good_def cand_live_def split: if_splits option.splits)
next
  case False
  then obtain p where p: "cdPending (cmSlot m) = Some p" by auto
  with g obtain r where r: "cdRequest (cmSlot m) = Some r" "cdActive (cmSlot m) = None"
    by (auto simp: cand_good_def)
  with False p b have "res = Some (p\<lparr>coStatus := ''running'', coStarted := Some now\<rparr>, r)"
    "s = (cmSlot m)\<lparr>cdPending := None, cdRequest := None, cdActive := Some (p\<lparr>coStatus := ''running'', coStarted := Some now\<rparr>)\<rparr>"
    by (simp_all add: beginCandidateCheckOperation_def Let_def)
  with g p r False show ?thesis by (auto simp: cand_good_def cand_live_def cand_op_ok_def)
qed

lemma on_active_good:
  assumes g: "cand_good m" and f: "\<And>a. cand_op_ok a \<Longrightarrow> cand_op_ok (f a)" "\<And>a. coID (f a) = coID a"
  shows "cand_good (m\<lparr>cmSlot := on_active k f (cmSlot m)\<rparr>) \<and> cand_live (m\<lparr>cmSlot := on_active k f (cmSlot m)\<rparr>) = cand_live m \<and>
    cdSeq (on_active k f (cmSlot m)) = cdSeq (cmSlot m)"
proof (cases "cdActive (cmSlot m)")
  case None
  then have "m\<lparr>cmSlot := on_active k f (cmSlot m)\<rparr> = m" by (simp add: on_active_def)
  with g None show ?thesis by (simp add: on_active_def)
next
  case (Some a)
  with g have "\<not> cmDown m" "cand_op_ok a" "cdPending (cmSlot m) = None" by (auto simp: cand_good_def split: if_splits)
  with g Some f show ?thesis by (auto simp: cand_good_def cand_live_def on_active_def)
qed

lemma cand_updates_good:
  assumes "cand_good m"
  shows "cand_good (m\<lparr>cmSlot := setCandidateCheckTotal k n (cmSlot m)\<rparr>)"
    "cand_good (m\<lparr>cmSlot := dropCandidateCheckTotal k n (cmSlot m)\<rparr>)"
    "cand_good (m\<lparr>cmSlot := recordCandidateCheckOutcome k oc (cmSlot m)\<rparr>)"
    "cand_live (m\<lparr>cmSlot := setCandidateCheckTotal k n (cmSlot m)\<rparr>) = cand_live m"
    "cand_live (m\<lparr>cmSlot := dropCandidateCheckTotal k n (cmSlot m)\<rparr>) = cand_live m"
    "cand_live (m\<lparr>cmSlot := recordCandidateCheckOutcome k oc (cmSlot m)\<rparr>) = cand_live m"
    "cdSeq (setCandidateCheckTotal k n (cmSlot m)) = cdSeq (cmSlot m)"
    "cdSeq (dropCandidateCheckTotal k n (cmSlot m)) = cdSeq (cmSlot m)"
    "cdSeq (recordCandidateCheckOutcome k oc (cmSlot m)) = cdSeq (cmSlot m)"
  unfolding setCandidateCheckTotal_def dropCandidateCheckTotal_def recordCandidateCheckOutcome_def
  using on_active_good [OF assms, of "\<lambda>a. a\<lparr>coTotal := n\<rparr>" k]
    on_active_good [OF assms, of "\<lambda>a. a\<lparr>coTotal := (if coTotal a - n < coDone a then coDone a else coTotal a - n)\<rparr>" k]
    on_active_good [OF assms, of "\<lambda>a. let a' = a\<lparr>coDone := coDone a + 1\<rparr>
        in (case oc of CheckAlive \<Rightarrow> a'\<lparr>coAlive := coAlive a' + 1\<rparr> | CheckUnreachable \<Rightarrow> a'\<lparr>coFailed := coFailed a' + 1\<rparr>
              | CheckPolicyFiltered \<Rightarrow> a'\<lparr>coFiltered := coFiltered a' + 1\<rparr> | NoResult \<Rightarrow> a')" k] assms
  by (cases oc; simp add: cand_op_ok_def Let_def)+

lemma cand_finish_good:
  assumes g: "cand_good m" and w: "cmWorker m = Claimed k \<or> cmWorker m = Working k"
  shows "cand_good (m\<lparr>cmSlot := finishCandidateCheckOperation now k status err (cmSlot m), cmWorker := Idle\<rparr>) \<and>
    mset (cand_live (m\<lparr>cmSlot := finishCandidateCheckOperation now k status err (cmSlot m), cmWorker := Idle\<rparr>)) +
      mset (settled (cand_end (cdActive (cmSlot m)) k status)) = mset (cand_live m) \<and>
    cdSeq (finishCandidateCheckOperation now k status err (cmSlot m)) = cdSeq (cmSlot m)"
proof (cases "cdActive (cmSlot m)")
  case None
  with g w have "cmDown m" by (auto simp: cand_good_def split: if_splits)
  with g w None show ?thesis
    by (auto simp: cand_good_def cand_live_def finishCandidateCheckOperation_def cand_end_def split: option.splits)
next
  case (Some a)
  with g w have a: "\<not> cmDown m" "coID a = k" "cdPending (cmSlot m) = None" by (auto simp: cand_good_def split: if_splits)
  with g Some show ?thesis
    by (auto simp: cand_good_def cand_live_def finishCandidateCheckOperation_def cand_end_def Let_def)
qed

lemma cand_cancel_good:
  assumes g: "cand_good m" and c: "cancelCandidateCheck now (cmSlot m) = (s, job, done)"
  shows "cand_good (m\<lparr>cmSlot := s\<rparr>) \<and>
    mset (cand_live (m\<lparr>cmSlot := s\<rparr>)) +
      mset (settled (case cdPending (cmSlot m) of Some p \<Rightarrow> [Ended (coID p) ''cancelled''] | None \<Rightarrow> [])) = mset (cand_live m) \<and>
    cdSeq s = cdSeq (cmSlot m)"
proof (cases "cdPending (cmSlot m)")
  case (Some p)
  with g have a: "\<not> cmDown m" "cdActive (cmSlot m) = None" by (auto simp: cand_good_def split: if_splits)
  from c Some have "s = (cmSlot m)\<lparr>cdPending := None, cdRequest := None, cdSignal := False,
      cdLast := Some (p\<lparr>coStatus := ''cancelled'', coCompleted := Some now\<rparr>)\<rparr>"
    by (auto simp: cancelCandidateCheck_def Let_def)
  with g a Some show ?thesis by (auto simp: cand_good_def cand_live_def)
next
  case None
  show ?thesis
  proof (cases "cdActive (cmSlot m) = None \<or> cdCancel (cmSlot m) = None")
    case True
    with c None have "s = cmSlot m" by (auto simp: cancelCandidateCheck_def split: option.splits)
    then have "m\<lparr>cmSlot := s\<rparr> = m" by simp
    with g None show ?thesis using \<open>s = cmSlot m\<close> by simp
  next
    case False
    then obtain a k where ak: "cdActive (cmSlot m) = Some a" "cdCancel (cmSlot m) = Some k" by auto
    with c None have s: "s = (cmSlot m)\<lparr>cdStopped := insert k (cdStopped (cmSlot m)), cdCancel := None\<rparr>"
      by (simp add: cancelCandidateCheck_def)
    from g ak have "\<not> cmDown m" by (auto simp: cand_good_def split: if_splits)
    with g ak None s show ?thesis by (auto simp: cand_good_def cand_live_def)
  qed
qed

lemma cand_enqueue_good:
  assumes g: "cand_good m" and e: "enqueueCandidateCheck (cmDown m) now r (cmSlot m) = (s, job, err)"
  shows "cand_good (m\<lparr>cmSlot := s\<rparr>) \<and>
    mset (cand_live (m\<lparr>cmSlot := s\<rparr>)) = mset (cand_live m) + mset (accepted (if err = None then [Accepted (coID job)] else [])) \<and>
    (if err = None then coID job = op_id cand_kind now (cdSeq s) \<and> cdSeq s = Suc (cdSeq (cmSlot m)) else cdSeq (cmSlot m) \<le> cdSeq s)"
  using e
proof (cases rule: cand_enqueue_cases)
  case refused
  with g show ?thesis by (cases m) simp
next
  case (discarded l)
  with g show ?thesis by (auto simp: cand_good_def cand_live_def split: if_splits)
next
  case queued
  with g show ?thesis by (auto simp: cand_good_def cand_live_def split: if_splits)
qed

lemma cand_stop_good:
  "cand_good m \<Longrightarrow> \<not> cmDown m \<Longrightarrow>
   cand_good (m\<lparr>cmDown := True, cmSlot := stop_candidates now (cmSlot m)\<rparr>) \<and>
   mset (cand_live (m\<lparr>cmDown := True, cmSlot := stop_candidates now (cmSlot m)\<rparr>)) +
     mset (settled (stop_events (map_option coID (cdActive (cmSlot m))) (map_option coID (cdPending (cmSlot m))))) =
   mset (cand_live m)"
  by (auto simp: cand_good_def cand_live_def stop_candidates_def stop_events_def Let_def split: option.splits)

lemma cand_good_step: "cand_good m \<Longrightarrow> cand_step m es m' \<Longrightarrow> cand_good m'"
proof (erule cand_step.cases, goal_cases)
  case 1
  then show ?case using cand_enqueue_good [of m] by simp
next
  case 2
  then show ?case by (auto simp: cand_good_def split: if_splits option.splits)
next
  case 3
  then show ?case using cand_begin_good [of m] by simp
next
  case 4
  then show ?case by (auto simp: cand_good_def registerCandidateCheckCancel_def split: if_splits option.splits)
next
  case 8
  then show ?case using cand_finish_good [of m] by simp
next
  case 9
  then show ?case using cand_cancel_good [of m] by simp
next
  case 10
  then show ?case using cand_stop_good [of m] by simp
qed (simp_all add: cand_updates_good)

lemma stop_account [simp]: "accepted (stop_events a p) = []" "accepted (cand_end c k st) = []"
  by (auto simp: stop_events_def cand_end_def split: option.splits)

lemma cand_balance:
  "cand_good m \<Longrightarrow> cand_step m es m' \<Longrightarrow>
   mset (cand_live m') + mset (settled es) = mset (cand_live m) + mset (accepted es)"
proof (erule cand_step.cases, goal_cases)
  case 1
  then show ?case using cand_enqueue_good [of m] by (auto split: if_splits)
next
  case 3
  then show ?case using cand_begin_good [of m] by simp
next
  case 8
  then show ?case using cand_finish_good [of m] by simp
next
  case 9
  then show ?case using cand_cancel_good [of m] by (auto split: option.splits)
next
  case 10
  then show ?case using cand_stop_good by simp
qed (simp_all add: cand_updates_good, simp_all add: cand_live_def registerCandidateCheckCancel_def split: option.splits)

lemma cand_fresh:
  "cand_good m \<Longrightarrow> cand_step m es m' \<Longrightarrow>
   accepted es = [] \<and> cdSeq (cmSlot m) \<le> cdSeq (cmSlot m') \<or>
   cdSeq (cmSlot m) < cdSeq (cmSlot m') \<and> (\<exists>now. accepted es = [op_id cand_kind now (cdSeq (cmSlot m'))])"
proof (erule cand_step.cases, goal_cases)
  case 1
  then show ?case using cand_enqueue_good [of m] by (auto split: if_splits)
next
  case 3
  then show ?case using cand_begin_good [of m] by simp
next
  case 8
  then show ?case using cand_finish_good [of m] by simp
next
  case 9
  then show ?case using cand_cancel_good [of m] by (auto split: option.splits)
next
  case 10
  then show ?case by (simp add: stop_candidates_def Let_def)
qed (simp_all add: cand_updates_good, simp_all add: registerCandidateCheckCancel_def split: option.splits)

interpretation cslot: operation_slot cand_step cand_good cand_live "\<lambda>m. cdSeq (cmSlot m)" cand_kind
  by unfold_locales (fact cand_good_step cand_balance cand_fresh)+

section \<open>Properties of the slots\<close>

definition fresh_refresh :: refresh_machine where
  "fresh_refresh = \<lparr>rmDown = False, rmSending = 0, rmWorker = Idle, rmSlot = ciRefresh newRefreshCoordinator\<rparr>"

definition fresh_health :: health_machine where
  "fresh_health = \<lparr>hmDown = False, hmSending = 0, hmWorker = Idle, hmTimer = False, hmSlot = ciHealth newRefreshCoordinator\<rparr>"

definition fresh_cand :: cand_machine where
  "fresh_cand = \<lparr>cmDown = False, cmWorker = Idle, cmSlot = ciCand newRefreshCoordinator\<rparr>"

lemma fresh_good:
  "refresh_good fresh_refresh \<and> refresh_live fresh_refresh = [] \<and> health_good fresh_health \<and> health_live fresh_health = [] \<and>
   cand_good fresh_cand \<and> cand_live fresh_cand = []"
  by (simp add: fresh_refresh_def fresh_health_def fresh_cand_def newRefreshCoordinator_def refresh_good_def refresh_live_def
      health_good_def health_live_def cand_good_def cand_live_def one_of_def)


text \<open>
  C32: Every queued operation will be seen by its worker. A queued refresh has exactly one wake-up under
  way (a request about to send, a signal in the channel, or the worker woken), so the send of a request
  never finds the channel full; a queued health recheck has one at least, and it is for another criterion
  than the running one; the candidate slot never holds a queued and a running operation together, and a
  queued one has its request and a wake-up.
\<close>

theorem queued_is_woken:
  assumes "runs refresh_step fresh_refresh rtr r" "runs health_step fresh_health htr h" "runs cand_step fresh_cand ctr c"
  shows "(rsPending (rmSlot r) \<noteq> None \<longrightarrow>
      rmSending r + one_of (rsSignal (rmSlot r)) + one_of (rmWorker r = Woken) = 1) \<and>
    (0 < rmSending r \<longrightarrow> snd (send_refresh (rmSlot r))) \<and>
    (hsPending (hmSlot h) \<noteq> None \<longrightarrow> 0 < hmSending h \<or> hsSignal (hmSlot h) \<or> hmWorker h = Woken) \<and>
    (\<forall>a p. hsActive (hmSlot h) = Some a \<longrightarrow> hsPending (hmSlot h) = Some p \<longrightarrow> hoGen a \<noteq> hoGen p) \<and>
    (cdPending (cmSlot c) \<noteq> None \<longrightarrow>
      cdActive (cmSlot c) = None \<and> cdRequest (cmSlot c) \<noteq> None \<and> (cdSignal (cmSlot c) \<or> cmWorker c = Woken))"
proof -
  have "refresh_good r" "health_good h" "cand_good c"
    using rslot.run_good [OF assms(1)] hslot.run_good [OF assms(2)] cslot.run_good [OF assms(3)] fresh_good by blast+
  then show ?thesis
    by (auto simp: refresh_good_def health_good_def cand_good_def send_refresh_def one_of_def split: if_splits)
qed

text \<open>
  The counters of a running operation always add up: a health recheck has counted as many outcomes as
  reachable and failed ones, with the filtered ones among the reachable, and a candidate check as many as alive, failed
  and filtered ones; the status the dashboard shows as running is the operation the worker owns.
\<close>

theorem progress_adds_up:
  assumes "runs health_step fresh_health htr h" "runs cand_step fresh_cand ctr c"
  shows "(\<forall>a. hsActive (hmSlot h) = Some a \<longrightarrow> hoDone a = hoReachable a + hoFailed a \<and> hoFiltered a \<le> hoReachable a \<and>
      fst (healthRecheckOperationStatus (hmSlot h)) = ''running'' \<and> hmWorker h = Working (hoID a)) \<and>
    (\<forall>a. cdActive (cmSlot c) = Some a \<longrightarrow> coDone a = coAlive a + coFailed a + coFiltered a \<and>
      candidateCheckOperationStatus (cmSlot c) = a \<and> (cmWorker c = Claimed (coID a) \<or> cmWorker c = Working (coID a)))"
proof -
  have "health_good h" "cand_good c"
    using hslot.run_good [OF assms(1)] cslot.run_good [OF assms(2)] fresh_good by blast+
  then show ?thesis
    by (auto simp: health_good_def cand_good_def health_op_ok_def cand_op_ok_def healthRecheckOperationStatus_def slot_state_def
        candidateCheckOperationStatus_def split: if_splits)
qed

text \<open>
  C33: A cancellation that is answered with success, in every reachable state, either ended the queued operation as
  cancelled and emptied the slot, or has stopped the context of the task of the running one; the only exception
  is a worker that has claimed the operation and not registered its cancel function yet.
\<close>

theorem cancel_outcome:
  assumes "runs cand_step fresh_cand tr c" "cancelCandidateCheck now (cmSlot c) = (s, job, True)"
  shows "(\<exists>p. cdPending (cmSlot c) = Some p \<and> cdLast s = Some job \<and> coID job = coID p \<and> coStatus job = ''cancelled'' \<and>
      cdPending s = None \<and> cdActive s = None \<and> \<not> cdSignal s) \<or>
    cdActive s = Some job \<and> (coID job \<in> cdStopped s \<or> cmWorker c = Claimed (coID job))"
proof -
  have g: "cand_good c" using cslot.run_good [OF assms(1)] fresh_good by blast
  show ?thesis
  proof (cases "cdPending (cmSlot c)")
    case (Some p)
    with g have "cdActive (cmSlot c) = None" by (simp add: cand_good_def)
    with Some assms(2) show ?thesis by (auto simp: cancelCandidateCheck_def Let_def)
  next
    case None
    with assms(2) obtain a where a: "cdActive (cmSlot c) = Some a" by (auto simp: cancelCandidateCheck_def split: option.splits)
    with g have "\<not> cmDown c" by (auto simp: cand_good_def)
    with g a None assms(2) show ?thesis by (auto simp: cand_good_def cancelCandidateCheck_def split: option.splits)
  qed
qed

section \<open>Shutdown\<close>

text \<open>
  C34: Shutdown is final for the coordinator. Whatever it was doing, afterwards no slot holds an operation and no channel
  a signal, an operation that was running is recorded as cancelled, and from then on every request
  is refused with a cancelled operation (or an error), the slots stay empty, and no worker starts anything.
\<close>

theorem shutdown_quiesces:
  assumes "\<not> ciDown c" "c' = shutdown now c"
  shows "rsActive (ciRefresh c') = None \<and> rsPending (ciRefresh c') = None \<and> \<not> rsSignal (ciRefresh c') \<and>
    ssActive (ciSources c') = Map.empty \<and> ssPending (ciSources c') = Map.empty \<and> ssQueue (ciSources c') = [] \<and>
    hsActive (ciHealth c') = None \<and> hsPending (ciHealth c') = None \<and> \<not> hsSignal (ciHealth c') \<and>
    cdActive (ciCand c') = None \<and> cdPending (ciCand c') = None \<and> \<not> cdSignal (ciCand c') \<and> \<not> ciRecheck (triggerRecheck c') \<and>
    (\<forall>a. rsActive (ciRefresh c) = Some a \<longrightarrow> map_option roStatus (rsLast (ciRefresh c')) = Some ''cancelled'') \<and>
    (\<forall>t. case requestRefresh (ciDown c') t (ciRefresh c') of
       (s, job, ok) \<Rightarrow> \<not> ok \<and> roStatus job = ''cancelled'' \<and> rsPending s = None \<and> \<not> rsSignal s) \<and>
    (\<forall>t src trigger. case requestSourceRefresh (ciDown c') t src trigger (ciSources c') of
       (s, job, ok) \<Rightarrow> \<not> ok \<and> soStatus job = ''cancelled'' \<and> ssPending s = Map.empty \<and> ssQueue s = []) \<and>
    (\<forall>t gen url. case triggerFullRecheck (ciDown c') t gen url (ciHealth c') of
       (s, job, ok) \<Rightarrow> \<not> ok \<and> hoStatus job = ''cancelled'' \<and> hsPending s = None \<and> \<not> hsSignal s) \<and>
    (\<forall>t r. case enqueueCandidateCheck (ciDown c') t r (ciCand c') of
       (s, job, err) \<Rightarrow> err = Some (CandShutdown job) \<and> cdPending s = None \<and> \<not> cdSignal s) \<and>
    (\<forall>t. snd (beginRefreshOperation (ciDown c') t (ciRefresh c')) = []) \<and>
    (\<forall>t k. snd (beginSourceRefresh (ciDown c') t k (ciSources c')) = None) \<and>
    (\<forall>t gen url n wake. snd (claimHealthRecheckOperation (ciDown c') t gen url n wake (ciHealth c')) = None) \<and>
    (\<forall>t. snd (beginCandidateCheckOperation (ciDown c') t (ciCand c')) = None)"
  using assms
  by (simp add: shutdown_def stop_refresh_def stop_sources_def stop_health_def stop_candidates_def triggerRecheck_def
      requestRefresh_def queue_refresh_def newRefreshOperationLocked_def requestSourceRefresh_def new_source_operation_def
      triggerFullRecheck_def queue_health_def new_health_operation_def enqueueCandidateCheck_def beginRefreshOperation_def
      beginSourceRefresh_def claimHealthRecheckOperation_def beginCandidateCheckOperation_def Let_def)

text \<open>The machines take the same step as the coordinator.\<close>

lemma shutdown_steps:
  assumes "\<not> ciDown c"
  shows "\<exists>es. refresh_step \<lparr>rmDown = False, rmSending = 0, rmWorker = w, rmSlot = ciRefresh c\<rparr> es
      \<lparr>rmDown = True, rmSending = 0, rmWorker = w, rmSlot = ciRefresh (shutdown now c)\<rparr>"
    "\<exists>es. health_step \<lparr>hmDown = False, hmSending = 0, hmWorker = w, hmTimer = t, hmSlot = ciHealth c\<rparr> es
      \<lparr>hmDown = True, hmSending = 0, hmWorker = w, hmTimer = t, hmSlot = ciHealth (shutdown now c)\<rparr>"
    "\<exists>es. cand_step \<lparr>cmDown = False, cmWorker = w, cmSlot = ciCand c\<rparr> es
      \<lparr>cmDown = True, cmWorker = w, cmSlot = ciCand (shutdown now c)\<rparr>"
  using refresh_step.stop [of "\<lparr>rmDown = False, rmSending = 0, rmWorker = w, rmSlot = ciRefresh c\<rparr>" now]
    health_step.stop [of "\<lparr>hmDown = False, hmSending = 0, hmWorker = w, hmTimer = t, hmSlot = ciHealth c\<rparr>" now]
    cand_step.stop [of "\<lparr>cmDown = False, cmWorker = w, cmSlot = ciCand c\<rparr>" now] assms
  by (auto simp: shutdown_def)

section \<open>The schedule of the source refreshes\<close>

definition auto_source :: "source \<Rightarrow> bool" where
  "auto_source src \<longleftrightarrow> srEnabled src \<and> srAutoRefresh src"

definition due_at :: "nat \<Rightarrow> nat \<Rightarrow> source_slots \<Rightarrow> source \<Rightarrow> nat" where
  "due_at global now s src = (case ssLast s (srID src) of None \<Rightarrow> now | Some t \<Rightarrow> t + refresh_interval global src)"

lemma earliest_due_spec:
  "(\<forall>src\<in>set srcs. auto_source src \<longrightarrow> (\<exists>t. earliest_due global now s srcs e = Some t \<and> t \<le> due_at global now s src)) \<and>
   (\<forall>x. e = Some x \<longrightarrow> (\<exists>t. earliest_due global now s srcs e = Some t \<and> t \<le> x)) \<and>
   (\<forall>t. earliest_due global now s srcs e = Some t \<longrightarrow>
      e = Some t \<or> (\<exists>src\<in>set srcs. auto_source src \<and> due_at global now s src = t))"
proof (induction srcs arbitrary: e)
  case (Cons src srcs)
  show ?case
  proof (cases "auto_source src")
    case False
    then have "earliest_due global now s (src # srcs) e = earliest_due global now s srcs e" by (auto simp: auto_source_def)
    with Cons.IH [of e] False show ?thesis by auto
  next
    case True
    let ?d = "due_at global now s src"
    let ?e = "case e of None \<Rightarrow> Some ?d | Some x \<Rightarrow> if ?d < x then Some ?d else Some x"
    have eq: "earliest_due global now s (src # srcs) e = earliest_due global now s srcs ?e"
      using True by (simp add: auto_source_def due_at_def [symmetric] Let_def)
    obtain x where x: "?e = Some x" "x \<le> ?d" "\<forall>y. e = Some y \<longrightarrow> x \<le> y" "x = ?d \<or> e = Some x"
    proof -
      have "\<exists>x. ?e = Some x \<and> x \<le> ?d \<and> (\<forall>y. e = Some y \<longrightarrow> x \<le> y) \<and> (x = ?d \<or> e = Some x)"
        by (cases e) auto
      then show ?thesis using that by blast
    qed
    with Cons.IH [of ?e] eq True show ?thesis by (auto; meson le_trans)
  qed
qed simp

lemma queue_due_quiet:
  "\<forall>src\<in>set srcs. auto_source src \<longrightarrow> now < due_at global now s src \<Longrightarrow> queue_due down global now srcs n s = (s, n)"
proof (induction srcs)
  case (Cons src srcs)
  then have "auto_source src \<longrightarrow> (\<exists>t. ssLast s (srID src) = Some t \<and> int now - int t < int (refresh_interval global src))"
    by (auto simp: due_at_def split: option.splits)
  with Cons show ?case by (auto simp: auto_source_def)
qed simp

definition taken :: "source_slots \<Rightarrow> string \<Rightarrow> bool" where
  "taken s k \<longleftrightarrow> ssActive s k \<noteq> None \<or> ssPending s k \<noteq> None \<or> maxConfiguredSources \<le> length (ssQueue s)"

lemma request_keeps:
  assumes "requestSourceRefresh down now src trigger s = (s', job, ok)"
  shows "ssLast s' = ssLast s" "taken s k \<Longrightarrow> taken s' k"
    "\<not> down \<Longrightarrow> srEnabled src \<Longrightarrow> srAutoRefresh src \<Longrightarrow> taken s' (srID src)"
  using assms by (auto simp: requestSourceRefresh_def new_source_operation_def taken_def Let_def not_less
      split: if_splits option.splits prod.splits)

lemma queue_due_taken:
  "\<not> down \<Longrightarrow> (\<forall>k. taken s k \<longrightarrow> taken (fst (queue_due down global now srcs n s)) k) \<and>
   (\<forall>src\<in>set srcs. auto_source src \<longrightarrow> due_at global now s src \<le> now \<longrightarrow>
      taken (fst (queue_due down global now srcs n s)) (srID src))"
proof (induction srcs arbitrary: n s)
  case (Cons src srcs)
  show ?case
  proof (cases "auto_source src \<and> due_at global now s src \<le> now")
    case False
    then have "queue_due down global now (src # srcs) n s = queue_due down global now srcs n s"
      by (auto simp: auto_source_def due_at_def split: option.splits)
    with Cons False show ?thesis by auto
  next
    case True
    obtain s1 job ok where r: "requestSourceRefresh down now src ''scheduled'' s = (s1, job, ok)" by (metis prod_cases3)
    note k = request_keeps [OF r]
    have "queue_due down global now (src # srcs) n s = queue_due down global now srcs (if ok then n + 1 else n) s1"
      using True r by (auto simp: auto_source_def due_at_def split: option.splits)
    moreover have "due_at global now s1 x = due_at global now s x" for x by (simp add: due_at_def k(1))
    ultimately show ?thesis
      using Cons.IH [OF Cons.prems, of s1 "if ok then n + 1 else n"] k True Cons.prems by (auto simp: auto_source_def)
  qed
qed simp

text \<open>
  The deadline the dashboard shows is the one the scheduler obeys. When no enabled source refreshes
  automatically, or the earliest deadline lies ahead, a pass of the scheduler queues nothing; when it has been reached, the
  source it belongs to is running, queued, or turned away only because the queue of the worker is full.
\<close>

theorem schedule_follows_deadline:
  assumes "\<not> down"
  shows "case nextSourceRefreshTime (cfSources c) (SourceRefreshInterval global c) now s of
      None \<Rightarrow> queueDueSourceRefreshes down c global now s = (s, 0)
    | Some t \<Rightarrow>
        if now < t then queueDueSourceRefreshes down c global now s = (s, 0)
        else \<exists>src\<in>set (cfSources c). srEnabled src \<and> srAutoRefresh src \<and>
          (let s' = fst (queueDueSourceRefreshes down c global now s)
           in ssActive s' (srID src) \<noteq> None \<or> ssPending s' (srID src) \<noteq> None \<or> maxConfiguredSources \<le> length (ssQueue s'))"
proof -
  let ?g = "SourceRefreshInterval global c"
  note e = earliest_due_spec [of "cfSources c" ?g now s None]
  show ?thesis
  proof (cases "nextSourceRefreshTime (cfSources c) ?g now s")
    case None
    with e have "\<forall>src\<in>set (cfSources c). \<not> auto_source src" by (auto simp: nextSourceRefreshTime_def)
    with None queue_due_quiet show ?thesis by (auto simp: queueDueSourceRefreshes_def)
  next
    case (Some t)
    with e have lower: "\<forall>src\<in>set (cfSources c). auto_source src \<longrightarrow> t \<le> due_at ?g now s src"
      and "\<exists>src\<in>set (cfSources c). auto_source src \<and> due_at ?g now s src = t"
      by (auto simp: nextSourceRefreshTime_def)
    then obtain src where src: "src \<in> set (cfSources c)" "auto_source src" "due_at ?g now s src = t" by blast
    show ?thesis
    proof (cases "now < t")
      case True
      with lower have "\<forall>src\<in>set (cfSources c). auto_source src \<longrightarrow> now < due_at ?g now s src" by auto
      with queue_due_quiet Some True show ?thesis by (simp add: queueDueSourceRefreshes_def)
    next
      case False
      with queue_due_taken [OF assms, of s ?g now "cfSources c" 0] src
      have "taken (fst (queueDueSourceRefreshes down c global now s)) (srID src)" by (auto simp: queueDueSourceRefreshes_def)
      with src Some False show ?thesis by (auto simp: taken_def auto_source_def Let_def)
    qed
  qed
qed

section \<open>Two races of the candidate slot\<close>

definition sample_request :: cand_request where
  "sample_request = \<lparr>crKind = kind_batch, crLimit = 10, crKeys = [], crRetryAll = False, crTolerate = False\<rparr>"

definition enqueue_at :: "nat \<Rightarrow> cand_machine \<Rightarrow> cand_machine" where
  "enqueue_at now m = m\<lparr>cmSlot := fst (enqueueCandidateCheck (cmDown m) now sample_request (cmSlot m))\<rparr>"

definition wake :: "cand_machine \<Rightarrow> cand_machine" where
  "wake m = m\<lparr>cmSlot := (cmSlot m)\<lparr>cdSignal := False\<rparr>, cmWorker := Woken\<rparr>"

definition claim_at :: "nat \<Rightarrow> cand_machine \<Rightarrow> cand_machine" where
  "claim_at now m = (case beginCandidateCheckOperation (cmDown m) now (cmSlot m) of
     (s, res) \<Rightarrow> m\<lparr>cmSlot := s, cmWorker := (case res of Some (j, r) \<Rightarrow> Claimed (coID j) | None \<Rightarrow> Idle)\<rparr>)"

definition cancel_at :: "nat \<Rightarrow> cand_machine \<Rightarrow> cand_machine" where
  "cancel_at now m = m\<lparr>cmSlot := fst (cancelCandidateCheck now (cmSlot m))\<rparr>"

definition register_task :: "string \<Rightarrow> cand_machine \<Rightarrow> cand_machine" where
  "register_task k m = m\<lparr>cmSlot := registerCandidateCheckCancel k (cmSlot m), cmWorker := Working k\<rparr>"

definition finish_at :: "nat \<Rightarrow> string \<Rightarrow> cand_machine \<Rightarrow> cand_machine" where
  "finish_at now k m = m\<lparr>cmSlot := finishCandidateCheckOperation now k ''complete'' None (cmSlot m), cmWorker := Idle\<rparr>"

lemma run_one: "step s0 es s \<Longrightarrow> runs step s0 es s"
  using runs.step [of step s0 "[]" s0 es s] runs.start [of step s0] by simp

definition reachable_cand :: "cand_machine \<Rightarrow> bool" where
  "reachable_cand m \<longleftrightarrow> (\<exists>tr. runs cand_step fresh_cand tr m)"

lemma reachable_steps:
  "reachable_cand fresh_cand" "reachable_cand m \<Longrightarrow> reachable_cand (enqueue_at now m)"
  "reachable_cand m \<Longrightarrow> cmWorker m = Idle \<Longrightarrow> cdSignal (cmSlot m) \<Longrightarrow> reachable_cand (wake m)"
  "reachable_cand m \<Longrightarrow> cmWorker m = Woken \<Longrightarrow> reachable_cand (claim_at now m)"
  "reachable_cand m \<Longrightarrow> reachable_cand (cancel_at now m)"
  "reachable_cand m \<Longrightarrow> cmWorker m = Claimed k \<Longrightarrow> reachable_cand (register_task k m)"
  "reachable_cand m \<Longrightarrow> cmWorker m = Working k \<Longrightarrow> reachable_cand (finish_at now k m)"
proof -
  have step: "reachable_cand m \<Longrightarrow> cand_step m es m' \<Longrightarrow> reachable_cand m'" for m es m'
    unfolding reachable_cand_def using runs.step by metis
  show "reachable_cand fresh_cand" unfolding reachable_cand_def using runs.start by metis
  show "reachable_cand m \<Longrightarrow> reachable_cand (enqueue_at now m)"
    unfolding enqueue_at_def using step [OF _ cand_step.enqueue [of m now sample_request]]
    by (cases "enqueueCandidateCheck (cmDown m) now sample_request (cmSlot m)") fastforce
  show "reachable_cand m \<Longrightarrow> cmWorker m = Idle \<Longrightarrow> cdSignal (cmSlot m) \<Longrightarrow> reachable_cand (wake m)"
    unfolding wake_def by (rule step, assumption, rule cand_step.receive)
  show "reachable_cand m \<Longrightarrow> cmWorker m = Woken \<Longrightarrow> reachable_cand (claim_at now m)"
    unfolding claim_at_def using step [OF _ cand_step.claim] by (auto split: prod.splits)
  show "reachable_cand m \<Longrightarrow> reachable_cand (cancel_at now m)"
    unfolding cancel_at_def using step [OF _ cand_step.cancel] by (cases "cancelCandidateCheck now (cmSlot m)") auto
  show "reachable_cand m \<Longrightarrow> cmWorker m = Claimed k \<Longrightarrow> reachable_cand (register_task k m)"
    unfolding register_task_def using step [OF _ cand_step.register] by blast
  show "reachable_cand m \<Longrightarrow> cmWorker m = Working k \<Longrightarrow> reachable_cand (finish_at now k m)"
    unfolding finish_at_def using step [OF _ cand_step.finish] by blast
qed

definition first_id :: string where
  "first_id = ''candidate-check-1-1''"

definition claimed_cand :: cand_machine where
  "claimed_cand = claim_at 2 (wake (enqueue_at 1 fresh_cand))"

lemma op_id_eval: "op_id cand_kind 1 1 = first_id" "op_id cand_kind 5 2 = ''candidate-check-5-2''"
  by code_simp+

lemma claimed_eval:
  "cmWorker claimed_cand = Claimed first_id" "\<not> cmDown claimed_cand" "cdPending (cmSlot claimed_cand) = None"
  "map_option coID (cdActive (cmSlot claimed_cand)) = Some first_id" "cdCancel (cmSlot claimed_cand) = None"
  "cdStopped (cmSlot claimed_cand) = {}"
  using op_id_eval by (simp_all add: claimed_cand_def claim_at_def wake_def enqueue_at_def fresh_cand_def newRefreshCoordinator_def
      enqueueCandidateCheck_def beginCandidateCheckOperation_def sample_request_def Let_def)

lemma claimed_reach: "reachable_cand claimed_cand"
  unfolding claimed_cand_def
  by (intro reachable_steps) (simp_all add: wake_def enqueue_at_def fresh_cand_def newRefreshCoordinator_def
      enqueueCandidateCheck_def Let_def)

text \<open>
  A cancellation can be answered with success and have no effect: between the claim of the
  operation and the registration of its cancel function there is nothing to call. The task then runs to its end and
  is reported as complete.
\<close>

theorem cancel_lost:
  "reachable_cand claimed_cand \<and> snd (snd (cancelCandidateCheck 3 (cmSlot claimed_cand))) \<and>
   (let m = finish_at 9 first_id (register_task first_id (cancel_at 3 claimed_cand)) in
      reachable_cand m \<and> first_id \<notin> cdStopped (cmSlot m) \<and>
      map_option (\<lambda>l. (coID l, coStatus l)) (cdLast (cmSlot m)) = Some (first_id, ''complete''))"
proof -
  obtain a where a: "cdActive (cmSlot claimed_cand) = Some a" "coID a = first_id" using claimed_eval(4) by auto
  have same: "cancel_at 3 claimed_cand = claimed_cand" "snd (snd (cancelCandidateCheck 3 (cmSlot claimed_cand)))"
    using claimed_eval a by (simp_all add: cancel_at_def cancelCandidateCheck_def)
  have "reachable_cand (finish_at 9 first_id (register_task first_id claimed_cand))"
    by (intro reachable_steps claimed_reach claimed_eval(1)) (simp add: register_task_def)
  moreover have "first_id \<notin> cdStopped (cmSlot (finish_at 9 first_id (register_task first_id claimed_cand)))"
    "map_option (\<lambda>l. (coID l, coStatus l)) (cdLast (cmSlot (finish_at 9 first_id (register_task first_id claimed_cand)))) =
      Some (first_id, ''complete'')"
    using claimed_eval a
    by (simp_all add: finish_at_def register_task_def registerCandidateCheckCancel_def finishCandidateCheckOperation_def Let_def)
  ultimately show ?thesis using same claimed_reach by (simp add: Let_def)
qed

text \<open>
  A cancellation between the wake-up of the worker and its claim leaves a second wake-up behind: the
  request that follows it is claimed at once with its signal still in the channel, and when it has
  ended the next request is turned away although the slot is empty.
\<close>

definition spurious_cand :: cand_machine where
  "spurious_cand = claim_at 6 (enqueue_at 5 (cancel_at 4 (wake (enqueue_at 1 fresh_cand))))"

lemma spurious_eval:
  "cmWorker spurious_cand = Claimed ''candidate-check-5-2''" "\<not> cmDown spurious_cand" "cdPending (cmSlot spurious_cand) = None"
  "map_option coID (cdActive (cmSlot spurious_cand)) = Some ''candidate-check-5-2''" "cdSignal (cmSlot spurious_cand)"
  using op_id_eval by (simp_all add: spurious_cand_def claim_at_def cancel_at_def wake_def enqueue_at_def fresh_cand_def
      newRefreshCoordinator_def enqueueCandidateCheck_def beginCandidateCheckOperation_def cancelCandidateCheck_def
      sample_request_def Let_def numeral_2_eq_2)

lemma spurious_reach: "reachable_cand spurious_cand"
  unfolding spurious_cand_def
  by (intro reachable_steps) (simp_all add: wake_def enqueue_at_def cancel_at_def fresh_cand_def newRefreshCoordinator_def
      enqueueCandidateCheck_def cancelCandidateCheck_def Let_def)

theorem request_turned_away:
  "let m = finish_at 7 ''candidate-check-5-2'' (register_task ''candidate-check-5-2'' spurious_cand) in
     reachable_cand m \<and> cmWorker m = Idle \<and> \<not> candidateCheckWorkerBusy (cmSlot m) \<and>
     snd (snd (enqueueCandidateCheck (cmDown m) 8 sample_request (cmSlot m))) = Some CandUnavailable"
proof -
  obtain a where a: "cdActive (cmSlot spurious_cand) = Some a" "coID a = ''candidate-check-5-2''" using spurious_eval(4) by auto
  have "reachable_cand (finish_at 7 ''candidate-check-5-2'' (register_task ''candidate-check-5-2'' spurious_cand))"
    by (intro reachable_steps spurious_reach spurious_eval(1)) (simp add: register_task_def)
  with spurious_eval a show ?thesis
    by (simp add: Let_def finish_at_def register_task_def registerCandidateCheckCancel_def finishCandidateCheckOperation_def
        candidateCheckWorkerBusy_def enqueueCandidateCheck_def)
qed

section \<open>Witnesses\<close>

definition queued_refresh :: refresh_machine where
  "queued_refresh = fresh_refresh\<lparr>rmSlot := fst (queue_refresh False 1 (rmSlot fresh_refresh)), rmSending := 1\<rparr>"

definition queued_health :: health_machine where
  "queued_health = fresh_health\<lparr>hmSlot := fst (queue_health False 1 7 ''u'' (hmSlot fresh_health)), hmSending := 1\<rparr>"

lemma queued_runs:
  "runs refresh_step fresh_refresh [Accepted (op_id refresh_kind 1 1)] queued_refresh"
  "runs health_step fresh_health [Accepted (op_id health_kind 1 1)] queued_health"
proof -
  have "refresh_step fresh_refresh [Accepted (op_id refresh_kind 1 1)] queued_refresh"
    using refresh_step.queue [of fresh_refresh 1]
    by (simp add: queued_refresh_def fresh_refresh_def newRefreshCoordinator_def queue_refresh_def newRefreshOperationLocked_def)
  then show "runs refresh_step fresh_refresh [Accepted (op_id refresh_kind 1 1)] queued_refresh" by (rule run_one)
  have "health_step fresh_health [Accepted (op_id health_kind 1 1)] queued_health"
    using health_step.queue [of fresh_health 1 7 "''u''"]
    by (simp add: queued_health_def fresh_health_def newRefreshCoordinator_def queue_health_def new_health_operation_def Let_def)
  then show "runs health_step fresh_health [Accepted (op_id health_kind 1 1)] queued_health" by (rule run_one)
qed

lemma claimed_run: "\<exists>tr. runs cand_step fresh_cand tr claimed_cand"
  using claimed_reach by (simp add: reachable_cand_def)


theorem queued_is_woken_witness: "snd (send_refresh (rmSlot queued_refresh))"
proof -
  obtain tr where "runs cand_step fresh_cand tr claimed_cand" using claimed_run by blast
  from queued_is_woken [OF queued_runs this] show ?thesis by (simp add: queued_refresh_def)
qed

theorem progress_adds_up_witness:
  "\<exists>a. cdActive (cmSlot claimed_cand) = Some a \<and> candidateCheckOperationStatus (cmSlot claimed_cand) = a"
proof -
  obtain tr where "runs cand_step fresh_cand tr claimed_cand" using claimed_run by blast
  from progress_adds_up [OF queued_runs(2) this] claimed_eval(4) show ?thesis by auto
qed

theorem cancel_outcome_witness:
  "\<exists>job. cdActive (cmSlot claimed_cand) = Some job \<and> coID job = first_id"
proof -
  obtain tr where r: "runs cand_step fresh_cand tr claimed_cand" using claimed_run by blast
  obtain a where a: "cdActive (cmSlot claimed_cand) = Some a" "coID a = first_id" using claimed_eval(4) by auto
  have "cancelCandidateCheck 3 (cmSlot claimed_cand) = (cmSlot claimed_cand, a, True)"
    using claimed_eval a by (simp add: cancelCandidateCheck_def)
  from cancel_outcome [OF r this] claimed_eval(3) a show ?thesis by auto
qed

theorem shutdown_quiesces_witness:
  "rsPending (ciRefresh (shutdown 9 (newRefreshCoordinator\<lparr>ciRefresh := rmSlot queued_refresh\<rparr>))) = None"
proof -
  have "\<not> ciDown (newRefreshCoordinator\<lparr>ciRefresh := rmSlot queued_refresh\<rparr>)" by (simp add: newRefreshCoordinator_def)
  from shutdown_quiesces [OF this refl, of 9] show ?thesis by (elim conjE)
qed

theorem schedule_follows_deadline_witness:
  "queueDueSourceRefreshes False sample_config 60 5 (ciSources newRefreshCoordinator) = (ciSources newRefreshCoordinator, 0)"
  using schedule_follows_deadline [of False sample_config 60 5 "ciSources newRefreshCoordinator"]
  by (simp add: nextSourceRefreshTime_def sample_config_def)

end
