(* ===== verification/Sampler.thy ===== *)
theory Sampler
  imports PoolCache ConfigStore
begin

text \<open>
  sampler.go: the bounded, rotating choice of candidates out of a large inventory. The cursor
  of a source/protocol bucket is the last candidate examined; buckets take turns, unseen
  candidates come first, and spare slots go to known ones.

  The cursors are an association list with one entry per bucket. \<open>sort.Slice\<close> is insertion
  sort with the same comparison; it leaves equal elements in their order.
\<close>

section \<open>State\<close>

record sampler =
  saLast :: string
  saCursors :: "(string \<times> string) list"

definition maxCandidateSamplerCursors :: nat where
  "maxCandidateSamplerCursors = 1024"

definition cursor_at :: "string \<Rightarrow> sampler \<Rightarrow> string" where
  "cursor_at bucket st = (case map_of (saCursors st) bucket of Some c \<Rightarrow> c | None \<Rightarrow> [])"

definition move_cursor :: "string \<Rightarrow> string \<Rightarrow> sampler \<Rightarrow> sampler" where
  "move_cursor bucket c st = st\<lparr>saCursors := aput bucket c (saCursors st)\<rparr>"

section \<open>Order and buckets\<close>

abbreviation NUL :: char where "NUL \<equiv> CHR 0x00"

definition candidateCursorLess :: "proxy \<Rightarrow> proxy \<Rightarrow> bool" where
  "candidateCursorLess a b = (if pxIP a \<noteq> pxIP b then pxIP a < pxIP b else pxPort a < pxPort b)"

definition candidateCursorKey :: "proxy \<Rightarrow> string" where
  "candidateCursorKey px = pxIP px @ [NUL] @ pxPort px"

definition candidateBucketKey :: "proxy \<Rightarrow> string" where
  "candidateBucketKey px =
     (if pxSourceName px = [] then ''unknown'' else pxSourceName px) @ [NUL] @ pxProtocol px"

fun insert_by :: "('a \<Rightarrow> 'a \<Rightarrow> bool) \<Rightarrow> 'a \<Rightarrow> 'a list \<Rightarrow> 'a list" where
  "insert_by lt x [] = [x]"
| "insert_by lt x (y # ys) = (if lt y x then y # insert_by lt x ys else x # y # ys)"

definition slice_sort :: "('a \<Rightarrow> 'a \<Rightarrow> bool) \<Rightarrow> 'a list \<Rightarrow> 'a list" where
  "slice_sort lt xs = foldr (insert_by lt) xs []"

definition bucket_of :: "(proxy \<Rightarrow> bool) \<Rightarrow> proxy list \<Rightarrow> string \<Rightarrow> nat list" where
  "bucket_of incl cands key =
     slice_sort (\<lambda>i j. candidateCursorLess (cands ! i) (cands ! j))
       (filter (\<lambda>i. incl (cands ! i) \<and> candidateBucketKey (cands ! i) = key) [0..<length cands])"

definition bucket_keys :: "(proxy \<Rightarrow> bool) \<Rightarrow> proxy list \<Rightarrow> string list" where
  "bucket_keys incl cands = sort (remdups (map candidateBucketKey (filter incl cands)))"

definition firstBucketAfter :: "string list \<Rightarrow> string \<Rightarrow> nat" where
  "firstBucketAfter keys prev =
     (let idx = go_search (length keys) (\<lambda>i. prev < keys ! i) in if idx = length keys then 0 else idx)"

definition pruneCursors :: "string list \<Rightarrow> sampler \<Rightarrow> sampler" where
  "pruneCursors keys st = st\<lparr>saCursors := filter (\<lambda>e. fst e \<in> set keys) (saCursors st)\<rparr>"

section \<open>Selection\<close>

text \<open>Whether a candidate is wanted in a phase, given what has been selected.\<close>

definition wanted :: "string set \<Rightarrow> string set \<Rightarrow> bool \<Rightarrow> proxy \<Rightarrow> bool" where
  "wanted known selected knownPhase px \<longleftrightarrow> px_key px \<notin> selected \<and> (px_key px \<in> known) = knownPhase"

text \<open>The scan of nextMatching: \<open>n\<close> entries are left from position \<open>i\<close> after \<open>start\<close>.\<close>

fun scan_bucket ::
    "proxy list \<Rightarrow> string \<Rightarrow> nat list \<Rightarrow> (proxy \<Rightarrow> bool) \<Rightarrow> nat \<Rightarrow> nat \<Rightarrow> nat \<Rightarrow> sampler \<Rightarrow> sampler \<times> proxy option" where
  "scan_bucket cands key bucket ok start i 0 st = (st, None)"
| "scan_bucket cands key bucket ok start i (Suc n) st =
     (let px = cands ! (bucket ! ((start + i) mod length bucket));
          st' = move_cursor key (candidateCursorKey px) st
      in if ok px then (st', Some px) else scan_bucket cands key bucket ok start (i + 1) n st')"

definition cursor_start :: "proxy list \<Rightarrow> nat list \<Rightarrow> string \<Rightarrow> nat" where
  "cursor_start cands bucket c =
     (let idx = go_search (length bucket) (\<lambda>i. c < candidateCursorKey (cands ! (bucket ! i)))
      in if idx = length bucket then 0 else idx)"

definition nextMatching ::
    "proxy list \<Rightarrow> string \<Rightarrow> nat list \<Rightarrow> (proxy \<Rightarrow> bool) \<Rightarrow> sampler \<Rightarrow> sampler \<times> proxy option" where
  "nextMatching cands key bucket ok st =
     (if bucket = [] then (st, None)
      else scan_bucket cands key bucket ok (cursor_start cands bucket (cursor_at key st)) 0 (length bucket) st)"

text \<open>One turn over the buckets: \<open>n\<close> buckets are left from \<open>offset\<close> after \<open>start\<close>.\<close>

fun try_buckets ::
    "proxy list \<Rightarrow> string list \<Rightarrow> (string \<Rightarrow> nat list) \<Rightarrow> (proxy \<Rightarrow> bool) \<Rightarrow> nat \<Rightarrow> nat \<Rightarrow> nat \<Rightarrow>
     string set \<Rightarrow> sampler \<Rightarrow> sampler \<times> string set \<times> (string \<times> proxy) option" where
  "try_buckets cands keys buckets ok start offset 0 exhausted st = (st, exhausted, None)"
| "try_buckets cands keys buckets ok start offset (Suc n) exhausted st =
     (let key = keys ! ((start + offset) mod length keys) in
      if key \<in> exhausted then try_buckets cands keys buckets ok start (offset + 1) n exhausted st
      else
        (case nextMatching cands key (buckets key) ok st of
           (st', None) \<Rightarrow> try_buckets cands keys buckets ok start (offset + 1) n (insert key exhausted) st'
         | (st', Some px) \<Rightarrow> (st', exhausted, Some (key, px))))"

text \<open>\<open>n\<close> is \<open>limit - len(*out)\<close>: every round but the last appends one candidate.\<close>

fun selectPhase ::
    "proxy list \<Rightarrow> string list \<Rightarrow> (string \<Rightarrow> nat list) \<Rightarrow> string set \<Rightarrow> bool \<Rightarrow> nat \<Rightarrow> string set \<Rightarrow>
     string set \<Rightarrow> proxy list \<Rightarrow> sampler \<Rightarrow> sampler \<times> string set \<times> proxy list" where
  "selectPhase cands keys buckets known knownPhase 0 selected exhausted out st = (st, selected, out)"
| "selectPhase cands keys buckets known knownPhase (Suc n) selected exhausted out st =
     (case try_buckets cands keys buckets (wanted known selected knownPhase) (firstBucketAfter keys (saLast st)) 0
             (length keys) exhausted st of
        (st', ex', None) \<Rightarrow> (st', selected, out)
      | (st', ex', Some (key, px)) \<Rightarrow>
          selectPhase cands keys buckets known knownPhase n (insert (px_key px) selected) ex' (out @ [px])
            (st'\<lparr>saLast := key\<rparr>))"

definition selectCandidatesWhere ::
    "proxy list \<Rightarrow> string set \<Rightarrow> int \<Rightarrow> (proxy \<Rightarrow> bool) \<Rightarrow> sampler \<Rightarrow> sampler \<times> proxy list" where
  "selectCandidatesWhere cands known limit incl st =
     (if limit \<le> 0 \<or> cands = [] then (st, [])
      else
        let keys = bucket_keys incl cands;
            buckets = bucket_of incl cands;
            st0 = pruneCursors keys st;
            (st1, selected, out) = selectPhase cands keys buckets known False (nat limit) {} {} [] st0;
            (st2, selected', out') =
              selectPhase cands keys buckets known True (nat limit - length out) selected {} out st1
        in (st2, out'))"

section \<open>State file\<close>

definition splitSamplerComposite :: "nat \<Rightarrow> nat \<Rightarrow> string \<Rightarrow> (string \<times> string) option" where
  "splitSamplerComposite maxLeft maxRight value =
     (if length (filter (\<lambda>c. c = NUL) value) \<noteq> 1 then None
      else
        (case cut [NUL] value of
           None \<Rightarrow> None
         | Some (left, right) \<Rightarrow>
             if left = [] \<or> right = [] \<or> maxLeft < length left \<or> maxRight < length right then None
             else if list_ex (\<lambda>c. byte_of c < 32 \<or> byte_of c = 127) (left @ right) then None
             else Some (left, right)))"

definition "maxSourcePortBytes = (16 :: nat)"

definition valid_bucket :: "string \<Rightarrow> string option" where
  "valid_bucket b =
     (case splitSamplerComposite maxSourceNameBytes 32 b of
        Some (_, protocol) \<Rightarrow> if isProxyProtocol protocol then Some protocol else None
      | None \<Rightarrow> None)"

definition validateCandidateSamplerState :: "sampler \<Rightarrow> bool" where
  "validateCandidateSamplerState st \<longleftrightarrow>
     length (saCursors st) \<le> maxCandidateSamplerCursors \<and>
     (saLast st \<noteq> [] \<longrightarrow> valid_bucket (saLast st) \<noteq> None) \<and>
     list_all (\<lambda>(bucket, cursor).
       case valid_bucket bucket of
         None \<Rightarrow> False
       | Some protocol \<Rightarrow>
           (case splitSamplerComposite maxSourceAddressBytes maxSourcePortBytes cursor of
              None \<Rightarrow> False
            | Some (host, port) \<Rightarrow>
                normalizeProxy (proxy0\<lparr>pxIP := host, pxPort := port, pxProtocol := protocol\<rparr>) \<noteq> None))
       (saCursors st)"

section \<open>Sorted index buckets\<close>

lemma set_insert_by [simp]: "set (insert_by lt x ys) = insert x (set ys)"
  by (induction ys) auto

lemma length_insert_by [simp]: "length (insert_by lt x ys) = Suc (length ys)"
  by (induction ys) auto

lemma set_slice_sort [simp]: "set (slice_sort lt xs) = set xs"
  by (induction xs) (simp_all add: slice_sort_def)

lemma length_slice_sort [simp]: "length (slice_sort lt xs) = length xs"
  by (induction xs) (simp_all add: slice_sort_def)

lemma distinct_slice_sort [simp]: "distinct (slice_sort lt xs) = distinct xs"
  by (metis card_distinct distinct_card length_slice_sort set_slice_sort)

lemma in_bucket: "i \<in> set (bucket_of incl cands key) \<longleftrightarrow>
    i < length cands \<and> incl (cands ! i) \<and> candidateBucketKey (cands ! i) = key"
  by (auto simp: bucket_of_def)

lemma distinct_bucket: "distinct (bucket_of incl cands key)"
  by (simp add: bucket_of_def)

lemma bucket_keys_iff:
  "k \<in> set (bucket_keys incl cands) \<longleftrightarrow> (\<exists>px\<in>set cands. incl px \<and> candidateBucketKey px = k)"
  by (auto simp: bucket_keys_def)

lemma included_in_bucket:
  assumes "px \<in> set cands" "incl px"
  shows "\<exists>k\<in>set (bucket_keys incl cands). \<exists>i\<in>set (bucket_of incl cands k). cands ! i = px"
proof -
  from assms(1) obtain i where i: "i < length cands" "cands ! i = px" by (auto simp: in_set_conv_nth)
  with assms have "i \<in> set (bucket_of incl cands (candidateBucketKey px))" by (simp add: in_bucket)
  moreover have "candidateBucketKey px \<in> set (bucket_keys incl cands)"
    using assms by (auto simp: bucket_keys_iff)
  ultimately show ?thesis using i by blast
qed

section \<open>Cursor order\<close>

lemma NUL_least: "c \<noteq> NUL \<Longrightarrow> NUL < c"
proof -
  assume "c \<noteq> NUL"
  then have "(of_char c :: nat) \<noteq> of_char NUL" by (simp only: of_char_eq_iff not_False_eq_True)
  then show "NUL < c" by (simp add: less_char_def)
qed

lemma append_NUL_less:
  assumes "NUL \<notin> set s" "NUL \<notin> set t" "s \<noteq> t"
  shows "s @ NUL # a < t @ NUL # b \<longleftrightarrow> s < t"
  using assms
proof (induction s arbitrary: t)
  case Nil
  then obtain c t' where "t = c # t'" by (cases t) auto
  with Nil show ?case using NUL_least [of c] by auto
next
  case (Cons c s)
  show ?case
  proof (cases t)
    case Nil
    with Cons.prems NUL_least [of c] show ?thesis by auto
  next
    case (Cons d t')
    with Cons.prems Cons.IH [of t'] show ?thesis by auto
  qed
qed

lemma candidateCursorLess_iff:
  assumes "NUL \<notin> set (pxIP a)" "NUL \<notin> set (pxIP b)"
  shows "candidateCursorLess a b \<longleftrightarrow> candidateCursorKey a < candidateCursorKey b"
proof (cases "pxIP a = pxIP b")
  case True
  have same: "(s @ t < s @ u) = (t < u)" for s t u :: string by (induction s) auto
  show ?thesis by (simp add: candidateCursorLess_def candidateCursorKey_def True same)
next
  case False
  with assms show ?thesis by (simp add: candidateCursorLess_def candidateCursorKey_def append_NUL_less)
qed

text \<open>
  The order that sorts a bucket is the order of the cursors that are searched in it:
  comparing the address and then the port of two candidates is comparing their cursor keys.
\<close>
theorem candidateCursorLess_key:
  assumes "NUL \<notin> set (pxIP a)" "NUL \<notin> set (pxIP b)"
  shows "candidateCursorLess a b \<longleftrightarrow> candidateCursorKey a < candidateCursorKey b"
  using assms by (rule candidateCursorLess_iff)

section \<open>The scan of one bucket\<close>

lemma scan_bucket_None:
  assumes "scan_bucket cands key bucket ok start i n st = (st', None)"
  shows "\<forall>j<n. \<not> ok (cands ! (bucket ! ((start + i + j) mod length bucket)))"
  using assms
proof (induction n arbitrary: i st)
  case (Suc n)
  have first: "\<not> ok (cands ! (bucket ! ((start + i) mod length bucket)))"
    using Suc.prems by (auto simp: Let_def split: if_splits)
  with Suc.prems obtain st1 where "scan_bucket cands key bucket ok start (i + 1) n st1 = (st', None)"
    by (auto simp: Let_def)
  from Suc.IH [OF this]
  have rest: "\<forall>j<n. \<not> ok (cands ! (bucket ! ((start + (i + 1) + j) mod length bucket)))" .
  show ?case
  proof (intro allI impI)
    fix j assume "j < Suc n"
    with first rest show "\<not> ok (cands ! (bucket ! ((start + i + j) mod length bucket)))"
      by (cases j) auto
  qed
qed simp

lemma scan_bucket_Some:
  assumes "scan_bucket cands key bucket ok start i n st = (st', Some px)"
  shows "\<exists>j<n. px = cands ! (bucket ! ((start + i + j) mod length bucket)) \<and> ok px \<and>
           (\<forall>h<j. \<not> ok (cands ! (bucket ! ((start + i + h) mod length bucket))))"
  using assms
proof (induction n arbitrary: i st)
  case (Suc n)
  show ?case
  proof (cases "ok (cands ! (bucket ! ((start + i) mod length bucket)))")
    case True
    with Suc.prems show ?thesis by (intro exI [of _ 0]) (auto simp: Let_def)
  next
    case False
    with Suc.prems obtain st1 where "scan_bucket cands key bucket ok start (i + 1) n st1 = (st', Some px)"
      by (auto simp: Let_def)
    from Suc.IH [OF this] obtain j where
      j: "j < n" "px = cands ! (bucket ! ((start + (i + 1) + j) mod length bucket))" "ok px"
        "\<forall>h<j. \<not> ok (cands ! (bucket ! ((start + (i + 1) + h) mod length bucket)))" by blast
    have "\<not> ok (cands ! (bucket ! ((start + i + h) mod length bucket)))" if "h < Suc j" for h
      using that False j(4) by (cases h) auto
    with j show ?thesis by (intro exI [of _ "Suc j"]) auto
  qed
qed simp

lemma scan_bucket_state:
  "scan_bucket cands key bucket ok start i n st = (st', r) \<Longrightarrow>
   saLast st' = saLast st \<and> (\<forall>k. k \<noteq> key \<longrightarrow> cursor_at k st' = cursor_at k st) \<and>
   (\<forall>px. r = Some px \<longrightarrow> cursor_at key st' = candidateCursorKey px)"
  by (induction n arbitrary: i st)
     (auto simp: Let_def move_cursor_def cursor_at_def split: if_splits)

text \<open>Every position of a cycle is met in one turn.\<close>

lemma cyclic_cover:
  assumes "i < n"
  shows "\<exists>j<n. (start + j) mod n = (i :: nat)"
proof -
  have "(start + (i + n - start mod n) mod n) mod n = i"
  proof -
    have le: "start mod n \<le> i + n" using assms by (metis add_leE le_add2 mod_less_divisor nat_less_le not_less0 trans_le_add2 zero_less_iff_neq_zero)
    have "(start + (i + n - start mod n) mod n) mod n = (start mod n + (i + n - start mod n)) mod n"
      by (simp add: mod_simps)
    also have "\<dots> = i" using le assms by simp
    finally show ?thesis .
  qed
  with assms show ?thesis by (metis gr_implies_not_zero mod_less_divisor not_gr_zero)
qed

lemma nextMatching_None:
  assumes "nextMatching cands key bucket ok st = (st', None)" "i \<in> set bucket"
  shows "\<not> ok (cands ! i)"
proof -
  from assms(2) obtain k where k: "k < length bucket" "bucket ! k = i" by (auto simp: in_set_conv_nth)
  from assms obtain start where
    "scan_bucket cands key bucket ok start 0 (length bucket) st = (st', None)"
    by (cases "bucket = []") (auto simp: nextMatching_def)
  from scan_bucket_None [OF this]
  have all: "\<forall>j<length bucket. \<not> ok (cands ! (bucket ! ((start + j) mod length bucket)))" by simp
  from cyclic_cover [OF k(1), of start] obtain j where
    "j < length bucket" "(start + j) mod length bucket = k" by blast
  with all k(2) show ?thesis by metis
qed

lemma nextMatching_Some:
  assumes "nextMatching cands key bucket ok st = (st', Some px)"
  shows "ok px \<and> (\<exists>i\<in>set bucket. px = cands ! i) \<and> cursor_at key st' = candidateCursorKey px"
proof -
  from assms obtain start where ne: "bucket \<noteq> []" and
    sc: "scan_bucket cands key bucket ok start 0 (length bucket) st = (st', Some px)"
    by (cases "bucket = []") (auto simp: nextMatching_def)
  from scan_bucket_Some [OF sc] obtain j where
    "px = cands ! (bucket ! ((start + j) mod length bucket))" "ok px" by auto
  moreover have "bucket ! ((start + j) mod length bucket) \<in> set bucket" using ne by simp
  ultimately show ?thesis using scan_bucket_state [OF sc] by blast
qed

lemma nextMatching_state:
  assumes "nextMatching cands key bucket ok st = (st', r)"
  shows "saLast st' = saLast st"
  using assms scan_bucket_state by (cases "bucket = []") (fastforce simp: nextMatching_def)+

section \<open>One turn over the buckets\<close>

lemma try_buckets_Some:
  assumes "try_buckets cands keys buckets ok start off n ex st = (st', ex', Some (k, px))"
    and "\<forall>k\<in>ex. \<forall>i\<in>set (buckets k). \<not> ok (cands ! i)" and "keys \<noteq> []"
  shows "ok px \<and> k \<in> set keys \<and> (\<exists>i\<in>set (buckets k). px = cands ! i) \<and>
         (\<forall>k\<in>ex'. \<forall>i\<in>set (buckets k). \<not> ok (cands ! i))"
  using assms
proof (induction n arbitrary: off ex st)
  case (Suc n)
  let ?k = "keys ! ((start + off) mod length keys)"
  show ?case
  proof (cases "?k \<in> ex")
    case True
    with Suc.prems(1) have "try_buckets cands keys buckets ok start (off + 1) n ex st = (st', ex', Some (k, px))"
      by (simp add: Let_def)
    from Suc.IH [OF this Suc.prems(2, 3)] show ?thesis .
  next
    case False
    obtain st1 r where nm: "nextMatching cands ?k (buckets ?k) ok st = (st1, r)" by fastforce
    show ?thesis
    proof (cases r)
      case None
      with nm have none: "\<forall>i\<in>set (buckets ?k). \<not> ok (cands ! i)" using nextMatching_None by blast
      from None False nm Suc.prems(1)
      have "try_buckets cands keys buckets ok start (off + 1) n (insert ?k ex) st1 = (st', ex', Some (k, px))"
        by (simp add: Let_def)
      from Suc.IH [OF this] none Suc.prems(2, 3) show ?thesis by blast
    next
      case (Some q)
      with nm False Suc.prems(1) have "k = ?k" "px = q" "ex' = ex" by (auto simp: Let_def)
      with nextMatching_Some [OF nm [unfolded Some]] Suc.prems(2, 3) show ?thesis by simp
    qed
  qed
qed simp

lemma try_buckets_None:
  assumes "try_buckets cands keys buckets ok start off n ex st = (st', ex', None)"
    and "\<forall>k\<in>ex. \<forall>i\<in>set (buckets k). \<not> ok (cands ! i)"
  shows "\<forall>j<n. \<forall>i\<in>set (buckets (keys ! ((start + off + j) mod length keys))). \<not> ok (cands ! i)"
  using assms
proof (induction n arbitrary: off ex st)
  case (Suc n)
  let ?k = "keys ! ((start + off) mod length keys)"
  obtain st1 r where nm: "nextMatching cands ?k (buckets ?k) ok st = (st1, r)" by fastforce
  have "(\<forall>i\<in>set (buckets ?k). \<not> ok (cands ! i)) \<and>
        (\<forall>j<n. \<forall>i\<in>set (buckets (keys ! ((start + (off + 1) + j) mod length keys))). \<not> ok (cands ! i))"
  proof (cases "?k \<in> ex")
    case True
    with Suc.prems have "try_buckets cands keys buckets ok start (off + 1) n ex st = (st', ex', None)"
      by (simp add: Let_def)
    from Suc.IH [OF this Suc.prems(2)] True Suc.prems(2) show ?thesis by blast
  next
    case False
    with nm Suc.prems(1) have "r = None" by (cases r) (auto simp: Let_def)
    with nm have none: "\<forall>i\<in>set (buckets ?k). \<not> ok (cands ! i)" using nextMatching_None by blast
    from False nm \<open>r = None\<close> Suc.prems(1)
    have "try_buckets cands keys buckets ok start (off + 1) n (insert ?k ex) st1 = (st', ex', None)"
      by (simp add: Let_def)
    from Suc.IH [OF this] none Suc.prems(2) show ?thesis by blast
  qed
  then have now: "\<forall>i\<in>set (buckets ?k). \<not> ok (cands ! i)"
    and rest: "\<And>j. j < n \<Longrightarrow>
      \<forall>i\<in>set (buckets (keys ! ((start + (off + 1) + j) mod length keys))). \<not> ok (cands ! i)" by blast+
  show ?case
  proof (intro allI impI)
    fix j assume "j < Suc n"
    with now rest [of "j - 1"]
    show "\<forall>i\<in>set (buckets (keys ! ((start + off + j) mod length keys))). \<not> ok (cands ! i)"
      by (cases j) auto
  qed
qed simp

lemma try_buckets_exhausts:
  assumes "try_buckets cands keys buckets ok start 0 (length keys) ex st = (st', ex', None)"
    and "\<forall>k\<in>ex. \<forall>i\<in>set (buckets k). \<not> ok (cands ! i)" and "k \<in> set keys" "i \<in> set (buckets k)"
  shows "\<not> ok (cands ! i)"
proof -
  from assms(3) obtain p where p: "p < length keys" "keys ! p = k" by (auto simp: in_set_conv_nth)
  from cyclic_cover [OF p(1), of start] obtain j where "j < length keys" "(start + j) mod length keys = p" by blast
  with try_buckets_None [OF assms(1, 2)] p(2) assms(4) show ?thesis by (metis add_0_right)
qed

section \<open>A phase\<close>

lemma wanted_mono: "selected \<subseteq> selected' \<Longrightarrow> wanted known selected' ph px \<Longrightarrow> wanted known selected ph px"
  by (auto simp: wanted_def)

lemma selectPhase_spec:
  assumes "selectPhase cands keys buckets known ph n selected ex out st = (st', selected', out')"
    and "\<forall>k\<in>ex. \<forall>i\<in>set (buckets k). \<not> wanted known selected ph (cands ! i)" and "keys \<noteq> []"
  shows "\<exists>new. out' = out @ new \<and> selected' = selected \<union> px_key ` set new \<and> length new \<le> n \<and>
           distinct (map px_key new) \<and>
           (\<forall>px\<in>set new. wanted known selected ph px \<and>
              (\<exists>k\<in>set keys. \<exists>i\<in>set (buckets k). px = cands ! i)) \<and>
           (length new < n \<longrightarrow>
              (\<forall>k\<in>set keys. \<forall>i\<in>set (buckets k). \<not> wanted known selected' ph (cands ! i)))"
  using assms
proof (induction n arbitrary: selected ex out st)
  case (Suc n)
  let ?ok = "wanted known selected ph"
  obtain st1 ex1 r where tb: "try_buckets cands keys buckets ?ok (firstBucketAfter keys (saLast st)) 0
    (length keys) ex st = (st1, ex1, r)" by (metis prod_cases3)
  show ?case
  proof (cases r)
    case None
    with tb Suc.prems(1) have "selected' = selected" "out' = out" by auto
    moreover have "\<not> ?ok (cands ! i)" if "k \<in> set keys" "i \<in> set (buckets k)" for k i
      using try_buckets_exhausts [OF tb [unfolded None] Suc.prems(2) that] .
    ultimately show ?thesis by (intro exI [of _ "[]"]) auto
  next
    case (Some kp)
    obtain k px where kp: "kp = (k, px)" by fastforce
    note hit = try_buckets_Some [OF tb [unfolded Some kp] Suc.prems(2, 3)]
    let ?sel = "insert (px_key px) selected"
    have ex: "\<forall>k\<in>ex1. \<forall>i\<in>set (buckets k). \<not> wanted known ?sel ph (cands ! i)"
      using hit wanted_mono [of selected ?sel] by blast
    have "selectPhase cands keys buckets known ph n ?sel ex1 (out @ [px]) (st1\<lparr>saLast := k\<rparr>)
            = (st', selected', out')"
      using Suc.prems(1) tb Some kp by simp
    from Suc.IH [OF this ex Suc.prems(3)] obtain new where
      new: "out' = (out @ [px]) @ new" "selected' = ?sel \<union> px_key ` set new" "length new \<le> n"
        "distinct (map px_key new)"
        "\<forall>q\<in>set new. wanted known ?sel ph q \<and> (\<exists>k\<in>set keys. \<exists>i\<in>set (buckets k). q = cands ! i)"
        "length new < n \<longrightarrow> (\<forall>k\<in>set keys. \<forall>i\<in>set (buckets k). \<not> wanted known selected' ph (cands ! i))"
      by blast
    have sub: "\<forall>q\<in>set new. ?ok q" using new(5) wanted_mono [of selected ?sel] by blast
    have "px_key px \<notin> px_key ` set new" using new(5) by (auto simp: wanted_def)
    with new sub hit show ?thesis by (intro exI [of _ "px # new"]) auto
  qed
qed auto

section \<open>What one refresh selects\<close>

lemma selectPhase_no_keys: "selectPhase cands [] buckets known ph n selected ex out st = (st, selected, out)"
  by (cases n) simp_all

lemma selectCandidatesWhere_phases:
  assumes "0 < limit" "cands \<noteq> []"
  obtains st1 sel1 out1 st2 sel2 out2 where
    "selectPhase cands (bucket_keys incl cands) (bucket_of incl cands) known False (nat limit) {} {} []
       (pruneCursors (bucket_keys incl cands) st) = (st1, sel1, out1)"
    "selectPhase cands (bucket_keys incl cands) (bucket_of incl cands) known True (nat limit - length out1)
       sel1 {} out1 st1 = (st2, sel2, out2)"
    "selectCandidatesWhere cands known limit incl st = (st2, out2)"
proof -
  obtain st1 sel1 out1 where p1: "selectPhase cands (bucket_keys incl cands) (bucket_of incl cands) known
    False (nat limit) {} {} [] (pruneCursors (bucket_keys incl cands) st) = (st1, sel1, out1)" by (metis prod_cases3)
  obtain st2 sel2 out2 where p2: "selectPhase cands (bucket_keys incl cands) (bucket_of incl cands) known
    True (nat limit - length out1) sel1 {} out1 st1 = (st2, sel2, out2)" by (metis prod_cases3)
  from p1 p2 assms have "selectCandidatesWhere cands known limit incl st = (st2, out2)"
    by (simp add: selectCandidatesWhere_def)
  with p1 p2 that show ?thesis by blast
qed

text \<open>
  C21: A refresh selects at most \<open>limit\<close> different endpoints, all from the eligible inventory. The
  unseen ones come first, and known ones are added only once every unseen endpoint has been
  selected; slots stay free only when the whole eligible inventory has been selected.
\<close>
theorem sampler_select_spec:
  assumes sel: "selectCandidatesWhere cands known limit incl st = (st', out)" and lim: "0 < limit"
  shows "\<exists>unseen seen. out = unseen @ seen \<and> int (length out) \<le> limit \<and> distinct (map px_key out) \<and>
           set out \<subseteq> {px \<in> set cands. incl px} \<and>
           (\<forall>px\<in>set unseen. px_key px \<notin> known) \<and> (\<forall>px\<in>set seen. px_key px \<in> known) \<and>
           (seen \<noteq> [] \<longrightarrow> px_key ` {px \<in> set cands. incl px} - known \<subseteq> px_key ` set unseen) \<and>
           (int (length out) < limit \<longrightarrow> px_key ` {px \<in> set cands. incl px} = px_key ` set out)"
proof (cases "bucket_keys incl cands = [] \<or> cands = []")
  case True
  then have none: "{px \<in> set cands. incl px} = {}"
  proof (cases "cands = []")
    case False
    with True have nk: "bucket_keys incl cands = []" by simp
    show ?thesis using included_in_bucket [of _ cands incl] unfolding nk by auto
  qed simp
  from True sel have "out = []" by (auto simp: selectCandidatesWhere_def selectPhase_no_keys Let_def split: if_splits)
  with none lim show ?thesis by simp
next
  case False
  let ?keys = "bucket_keys incl cands" and ?b = "bucket_of incl cands"
  from False have ne: "cands \<noteq> []" "?keys \<noteq> []" by auto
  obtain st1 sel1 out1 st2 sel2 out2 where
    p1: "selectPhase cands ?keys ?b known False (nat limit) {} {} [] (pruneCursors ?keys st) = (st1, sel1, out1)"
    and p2: "selectPhase cands ?keys ?b known True (nat limit - length out1) sel1 {} out1 st1 = (st2, sel2, out2)"
    and res: "selectCandidatesWhere cands known limit incl st = (st2, out2)"
    using selectCandidatesWhere_phases [OF lim ne(1)] .
  from res sel have out: "out = out2" by simp
  from selectPhase_spec [OF p1 _ ne(2)] have
    s1: "sel1 = px_key ` set out1" "length out1 \<le> nat limit" "distinct (map px_key out1)"
      "\<forall>px\<in>set out1. wanted known {} False px \<and> (\<exists>k\<in>set ?keys. \<exists>i\<in>set (?b k). px = cands ! i)"
      "length out1 < nat limit \<longrightarrow> (\<forall>k\<in>set ?keys. \<forall>i\<in>set (?b k). \<not> wanted known sel1 False (cands ! i))"
    by auto
  from selectPhase_spec [OF p2 _ ne(2)] obtain new where
    s2: "out2 = out1 @ new" "sel2 = sel1 \<union> px_key ` set new" "length new \<le> nat limit - length out1"
      "distinct (map px_key new)"
      "\<forall>px\<in>set new. wanted known sel1 True px \<and> (\<exists>k\<in>set ?keys. \<exists>i\<in>set (?b k). px = cands ! i)"
      "length new < nat limit - length out1 \<longrightarrow>
         (\<forall>k\<in>set ?keys. \<forall>i\<in>set (?b k). \<not> wanted known sel2 True (cands ! i))"
    by auto
  have sub: "set out \<subseteq> {px \<in> set cands. incl px}"
    using s1(4) s2(1, 5) by (auto simp: out in_bucket)
  have fill1: "px_key px \<in> sel1 \<or> px_key px \<in> known"
    if "length out1 < nat limit" "px \<in> set cands" "incl px" for px
    using that s1(5) included_in_bucket [of px cands incl, OF that(2, 3)] by (auto simp: wanted_def)
  have fill2: "px_key px \<in> sel2 \<or> px_key px \<notin> known"
    if "length out < nat limit" "px \<in> set cands" "incl px" for px
    using that s2(1, 6) included_in_bucket [of px cands incl, OF that(2, 3)] by (auto simp: wanted_def out)
  have room: "new \<noteq> [] \<Longrightarrow> length out1 < nat limit" using s2(3) by (cases new) auto
  have bound: "int (length out) \<le> limit" using s1(2) s2(1, 3) lim by (simp add: out)
  have keys: "px_key ` set out1 = sel1" "px_key ` set out = sel2" using s1(1) s2(1, 2) by (auto simp: out)
  have disj: "px_key px \<notin> sel1" if "px \<in> set new" for px using that s2(5) by (auto simp: wanted_def)
  have dist: "distinct (map px_key out)"
  proof -
    have "px_key ` set out1 \<inter> px_key ` set new = {}" unfolding s1(1) [symmetric] using disj by (auto simp: disjoint_iff)
    with s1(3) s2(1, 4) show ?thesis by (simp add: out)
  qed
  have first: "new \<noteq> [] \<longrightarrow> px_key ` {px \<in> set cands. incl px} - known \<subseteq> px_key ` set out1"
  proof
    assume "new \<noteq> []"
    from fill1 [OF room [OF this]] show "px_key ` {px \<in> set cands. incl px} - known \<subseteq> px_key ` set out1"
      unfolding keys by fast
  qed
  have fill: "int (length out) < limit \<longrightarrow> px_key ` {px \<in> set cands. incl px} = px_key ` set out"
  proof
    assume "int (length out) < limit"
    with s2(1) have lt: "length out < nat limit" "length out1 < nat limit" by (auto simp: out)
    have "px_key px \<in> sel2" if "px \<in> set cands" "incl px" for px
      using fill1 [OF lt(2) that] fill2 [OF lt(1) that] s2(2) by blast
    then show "px_key ` {px \<in> set cands. incl px} = px_key ` set out"
      using image_mono [OF sub, of px_key] unfolding keys by fast
  qed
  have kinds: "\<forall>px\<in>set out1. px_key px \<notin> known" "\<forall>px\<in>set new. px_key px \<in> known"
    using s1(4) s2(5) by (auto simp: wanted_def)
  have "out = out1 @ new" using out s2(1) by simp
  with bound dist sub kinds first fill show ?thesis by (intro exI conjI) assumption+
qed

section \<open>Rotation\<close>

text \<open>
  What the cursors stand for: the candidates of a bucket in the order in which their turns come,
  and the buckets in the order in which theirs come. \<open>waiting\<close> is the first, \<open>turn_order\<close> pairs
  each bucket that has unseen candidates with those, and \<open>turns n\<close> serves \<open>n\<close> turns: the first
  candidate of the first bucket is selected and both go to the end of their lines.
\<close>

definition waiting :: "proxy list \<Rightarrow> nat list \<Rightarrow> string \<Rightarrow> proxy list" where
  "waiting cands bucket c = map ((!) cands) (rotate (cursor_start cands bucket c) bucket)"

definition unseen_line :: "proxy list \<Rightarrow> (string \<Rightarrow> nat list) \<Rightarrow> string set \<Rightarrow> sampler \<Rightarrow> string \<Rightarrow> string \<times> proxy list" where
  "unseen_line cands buckets known st k =
     (k, filter (\<lambda>px. px_key px \<notin> known) (waiting cands (buckets k) (cursor_at k st)))"

definition turn_order ::
    "proxy list \<Rightarrow> string list \<Rightarrow> (string \<Rightarrow> nat list) \<Rightarrow> string set \<Rightarrow> sampler \<Rightarrow> (string \<times> proxy list) list" where
  "turn_order cands keys buckets known st =
     filter (\<lambda>l. snd l \<noteq> [])
       (map (unseen_line cands buckets known st) (rotate (firstBucketAfter keys (saLast st)) keys))"

fun turns :: "nat \<Rightarrow> (string \<times> proxy list) list \<Rightarrow> proxy list \<times> (string \<times> proxy list) list" where
  "turns 0 ls = ([], ls)"
| "turns (Suc n) [] = ([], [])"
| "turns (Suc n) ((k, q) # ls) = (let (ps, ls') = turns n (ls @ [(k, rotate1 q)]) in (hd q # ps, ls'))"

definition strict_bucket :: "proxy list \<Rightarrow> nat list \<Rightarrow> bool" where
  "strict_bucket cands bucket \<longleftrightarrow> bucket \<noteq> [] \<and>
     (\<forall>j < length bucket. \<forall>i < j. candidateCursorKey (cands ! (bucket ! i)) < candidateCursorKey (cands ! (bucket ! j)))"

lemma search_after:
  assumes "\<And>i j. i < j \<Longrightarrow> j < n \<Longrightarrow> key i < (key j :: 'a :: linorder)" "p < n"
  shows "(let idx = go_search n (\<lambda>i. key p < key i) in if idx = n then 0 else idx) = Suc p mod n"
proof -
  let ?g = "go_search n (\<lambda>i. key p < key i)"
  have mono: "key p < key b" if "a \<le> b" "b < n" "key p < key a" for a b
    using that assms(1) [of a b] by (cases "a = b") auto
  have g: "?g \<le> n" "\<And>k. k < ?g \<Longrightarrow> \<not> key p < key k" "?g < n \<Longrightarrow> key p < key ?g"
    using go_search_spec [of n "\<lambda>i. key p < key i"] mono by blast+
  have "?g = Suc p"
  proof (rule ccontr)
    assume "?g \<noteq> Suc p"
    then consider "?g \<le> p" | "Suc p < ?g" by linarith
    then show False
    proof cases
      case 1
      with assms(2) g(3) have lt: "key p < key ?g" by simp
      from 1 assms(1) [of ?g p] assms(2) have "key ?g \<le> key p" by (cases "?g = p") auto
      with lt show False by simp
    next
      case 2
      with g(2) [of "Suc p"] assms(1) [of p "Suc p"] g(1) show False by simp
    qed
  qed
  with assms(2) show ?thesis by (cases "Suc p = n") auto
qed

lemma cursor_start_after:
  assumes "strict_bucket cands bucket" "p < length bucket"
  shows "cursor_start cands bucket (candidateCursorKey (cands ! (bucket ! p))) = Suc p mod length bucket"
  unfolding cursor_start_def using assms
  by (intro search_after [of _ "\<lambda>i. candidateCursorKey (cands ! (bucket ! i))"]) (auto simp: strict_bucket_def)

lemma rotate_Suc_mod: "rotate (Suc (m mod length xs) mod length xs) xs = rotate (Suc m) xs"
  by (metis mod_Suc_eq rotate_conv_mod)

lemma waiting_after:
  assumes "strict_bucket cands bucket" "j < length bucket" "start < length bucket"
  shows "waiting cands bucket (candidateCursorKey (cands ! (bucket ! ((start + j) mod length bucket)))) =
         rotate (Suc j) (map ((!) cands) (rotate start bucket))"
proof -
  have "(start + j) mod length bucket < length bucket" using assms(2) by (intro mod_less_divisor) linarith
  from cursor_start_after [OF assms(1) this] show ?thesis
    by (simp add: waiting_def rotate_Suc_mod rotate_map rotate_rotate add.commute del: rotate_Suc)
qed

lemma scan_bucket_None_cursor:
  "scan_bucket cands key bucket ok start i (Suc n) st = (st', None) \<Longrightarrow>
   cursor_at key st' = candidateCursorKey (cands ! (bucket ! ((start + i + n) mod length bucket)))"
proof (induction n arbitrary: i st)
  case 0
  then show ?case by (auto simp: Let_def move_cursor_def cursor_at_def split: if_splits)
next
  case (Suc n)
  then obtain st1 where "scan_bucket cands key bucket ok start (i + 1) (Suc n) st1 = (st', None)"
    by (auto simp: Let_def split: if_splits)
  from Suc.IH [OF this] show ?case by (simp add: add_ac)
qed

lemma cursor_start_less: "bucket \<noteq> [] \<Longrightarrow> cursor_start cands bucket c < length bucket"
proof -
  assume ne: "bucket \<noteq> []"
  with go_search_bound [of "length bucket"] show ?thesis
    by (auto simp: cursor_start_def Let_def le_neq_implies_less)
qed

text \<open>One draw from a bucket moves the examined prefix of its line behind the rest.\<close>

lemma nextMatching_waiting:
  assumes strict: "strict_bucket cands bucket" and nm: "nextMatching cands key bucket ok st = (st', r)"
  defines "R \<equiv> waiting cands bucket (cursor_at key st)" and "R' \<equiv> waiting cands bucket (cursor_at key st')"
  shows "case r of None \<Rightarrow> filter ok R = [] \<and> R' = R
         | Some px \<Rightarrow> \<exists>ys zs. R = ys @ px # zs \<and> filter ok ys = [] \<and> ok px \<and> R' = zs @ ys @ [px]"
proof -
  let ?n = "length bucket" and ?s = "cursor_start cands bucket (cursor_at key st)"
  from strict have ne: "bucket \<noteq> []" by (simp add: strict_bucket_def)
  note sl = cursor_start_less [OF ne, of cands "cursor_at key st"]
  have R: "R = map ((!) cands) (rotate ?s bucket)" by (simp add: R_def waiting_def)
  have nth: "R ! j = cands ! (bucket ! ((?s + j) mod ?n))" if "j < ?n" for j
    using that by (simp add: R nth_rotate add.commute)
  have len: "length R = ?n" by (simp add: R)
  from nm ne have sc: "scan_bucket cands key bucket ok ?s 0 ?n st = (st', r)" by (simp add: nextMatching_def)
  show ?thesis
  proof (cases r)
    case None
    from scan_bucket_None [OF sc [unfolded None]] nth len have "filter ok R = []"
      by (auto simp: filter_empty_conv in_set_conv_nth)
    moreover obtain m where m: "?n = Suc m" using ne by (cases ?n) auto
    from scan_bucket_None_cursor [OF sc [unfolded None m]] have
      "cursor_at key st' = candidateCursorKey (cands ! (bucket ! ((?s + m) mod ?n)))" by (simp add: m)
    with waiting_after [OF strict _ sl, of m] m have "R' = rotate ?n R" by (simp add: R'_def R del: rotate_Suc)
    then have "R' = R" by (simp add: len [symmetric])
    ultimately show ?thesis using None by simp
  next
    case (Some px)
    from scan_bucket_Some [OF sc [unfolded Some]] obtain j where
      j: "j < ?n" "px = R ! j" "ok px" "\<forall>h<j. \<not> ok (R ! h)" using nth by auto
    from scan_bucket_state [OF sc] Some j nth
    have "cursor_at key st' = candidateCursorKey (cands ! (bucket ! ((?s + j) mod ?n)))" by simp
    with waiting_after [OF strict j(1) sl] have "R' = rotate (Suc j) R" by (simp add: R'_def R del: rotate_Suc)
    moreover have "rotate (Suc j) R = drop (Suc j) R @ take (Suc j) R"
      using j(1) len by (cases "Suc j = length R") (simp_all add: rotate_drop_take del: rotate_Suc)
    ultimately have "R' = drop (Suc j) R @ take j R @ [px]" using j len by (simp add: take_Suc_conv_app_nth)
    moreover have "R = take j R @ px # drop (Suc j) R" using j len by (simp add: id_take_nth_drop [symmetric])
    moreover have "filter ok (take j R) = []" using j(4) len j(1) by (auto simp: filter_empty_conv in_set_conv_nth)
    ultimately show ?thesis using Some j(3) by auto
  qed
qed

text \<open>The turns of the buckets, seen by one walk over them.\<close>

lemma line_of_nextMatching:
  assumes strict: "strict_bucket cands bucket" and nm: "nextMatching cands key bucket ok st = (st', r)"
  shows "case r of
      None \<Rightarrow> filter ok (waiting cands bucket (cursor_at key st)) = [] \<and>
        (\<forall>k. waiting cands (buckets k) (cursor_at k st') = waiting cands (buckets k) (cursor_at k st) \<or> k = key) \<and>
        waiting cands bucket (cursor_at key st') = waiting cands bucket (cursor_at key st)
    | Some px \<Rightarrow> (\<forall>k. k \<noteq> key \<longrightarrow> cursor_at k st' = cursor_at k st) \<and>
        (\<exists>ys zs. waiting cands bucket (cursor_at key st) = ys @ px # zs \<and> filter ok ys = [] \<and> ok px \<and>
           waiting cands bucket (cursor_at key st') = zs @ ys @ [px])"
proof -
  have ne: "bucket \<noteq> []" using strict by (simp add: strict_bucket_def)
  from nm ne have sc: "scan_bucket cands key bucket ok (cursor_start cands bucket (cursor_at key st)) 0 (length bucket) st = (st', r)"
    by (simp add: nextMatching_def)
  from scan_bucket_state [OF sc] have "\<forall>k. k \<noteq> key \<longrightarrow> cursor_at k st' = cursor_at k st" by blast
  with nextMatching_waiting [OF strict nm] show ?thesis by (auto split: option.splits)
qed

definition same_lines :: "proxy list \<Rightarrow> (string \<Rightarrow> nat list) \<Rightarrow> string set \<Rightarrow> sampler \<Rightarrow> sampler \<Rightarrow> bool" where
  "same_lines cands buckets ks st st' \<longleftrightarrow>
     (\<forall>k\<in>ks. waiting cands (buckets k) (cursor_at k st') = waiting cands (buckets k) (cursor_at k st))"

lemma try_turn:
  assumes "try_buckets cands keys buckets ok start off n ex st = (st', ex', r)"
    and "drop off (rotate start keys) = us @ k # vs" and "off + n = length keys"
    and "\<forall>k\<in>set keys. strict_bucket cands (buckets k)" and "distinct keys"
    and "\<forall>u\<in>set us. \<forall>i\<in>set (buckets u). \<not> ok (cands ! i)"
    and "i \<in> set (buckets k)" "ok (cands ! i)"
    and "\<forall>u\<in>ex. \<forall>i\<in>set (buckets u). \<not> ok (cands ! i)"
  shows "\<exists>px ys zs. r = Some (k, px) \<and> waiting cands (buckets k) (cursor_at k st) = ys @ px # zs \<and>
     filter ok ys = [] \<and> ok px \<and> waiting cands (buckets k) (cursor_at k st') = zs @ ys @ [px] \<and>
     same_lines cands buckets (set keys - {k}) st st' \<and> saLast st' = saLast st \<and>
     (\<forall>u\<in>ex'. \<forall>i\<in>set (buckets u). \<not> ok (cands ! i))"
  using assms(1, 2, 3, 6, 9)
proof (induction us arbitrary: off n ex st)
  case Nil
  then have off: "off < length keys" "rotate start keys ! off = k"
    by (metis append_Nil drop_all length_rotate list.distinct(1) not_le_imp_less,
        metis append_Nil drop_all length_rotate list.distinct(1) not_le_imp_less Cons_nth_drop_Suc list.inject)
  then obtain m where m: "n = Suc m" using Nil.prems(3) by (cases n) auto
  from off have at: "keys ! ((start + off) mod length keys) = k" by (simp add: nth_rotate add.commute)
  have kin: "k \<in> set keys" using off nth_mem [of off "rotate start keys"] by simp
  have nex: "k \<notin> ex" using Nil.prems(5) assms(7, 8) by blast
  obtain st1 q where nm: "nextMatching cands k (buckets k) ok st = (st1, q)" by fastforce
  obtain px where q: "q = Some px"
    using nextMatching_None [of cands k "buckets k" ok st st1 i] nm assms(7, 8) by (cases q) auto
  have r: "st' = st1" "ex' = ex" "r = Some (k, px)" using Nil.prems(1) m at nex nm q by (auto simp: Let_def)
  from line_of_nextMatching [OF bspec [OF assms(4) kin] nm, of buckets] q
  obtain ys zs where
    "\<forall>k'. k' \<noteq> k \<longrightarrow> cursor_at k' st1 = cursor_at k' st"
    "waiting cands (buckets k) (cursor_at k st) = ys @ px # zs" "filter ok ys = []" "ok px"
    "waiting cands (buckets k) (cursor_at k st1) = zs @ ys @ [px]" by auto
  with r nextMatching_state [OF nm] Nil.prems(5) show ?case
    by (intro exI [of _ px] exI [of _ ys] exI [of _ zs]) (simp add: same_lines_def)
next
  case (Cons u us)
  have off: "off < length keys" using Cons.prems(2) by (metis append_Cons drop_all length_rotate list.distinct(1) not_le_imp_less)
  then have tail: "rotate start keys ! off = u" "drop (Suc off) (rotate start keys) = us @ k # vs"
    using Cons.prems(2) Cons_nth_drop_Suc [of off "rotate start keys"] by simp_all
  obtain m where m: "n = Suc m" using Cons.prems(3) off by (cases n) auto
  from off tail have at: "keys ! ((start + off) mod length keys) = u" by (simp add: nth_rotate add.commute)
  have uin: "u \<in> set keys" using off tail nth_mem [of off "rotate start keys"] by simp
  have none: "\<forall>i\<in>set (buckets u). \<not> ok (cands ! i)" using Cons.prems(4) by simp
  have rest: "\<forall>u\<in>set us. \<forall>i\<in>set (buckets u). \<not> ok (cands ! i)" using Cons.prems(4) by simp
  show ?case
  proof (cases "u \<in> ex")
    case True
    with Cons.prems(1) m at have "try_buckets cands keys buckets ok start (Suc off) m ex st = (st', ex', r)"
      by (simp add: Let_def)
    from Cons.IH [OF this tail(2) _ rest Cons.prems(5)] Cons.prems(3) m show ?thesis by simp
  next
    case False
    obtain st1 q where nm: "nextMatching cands u (buckets u) ok st = (st1, q)" by fastforce
    have q: "q = None" using nextMatching_Some [of cands u "buckets u" ok st st1] nm none by (cases q) auto
    with Cons.prems(1) m at False nm
    have step: "try_buckets cands keys buckets ok start (Suc off) m (insert u ex) st1 = (st', ex', r)"
      by (simp add: Let_def)
    from line_of_nextMatching [OF bspec [OF assms(4) uin] nm, of buckets] q
    have same: "waiting cands (buckets k') (cursor_at k' st1) = waiting cands (buckets k') (cursor_at k' st)" for k'
      by auto
    from Cons.IH [OF step tail(2) _ rest] Cons.prems(3, 5) m none nextMatching_state [OF nm] show ?thesis
      by (simp add: same same_lines_def)
  qed
qed

lemma firstBucketAfter_at:
  assumes "sorted keys" "distinct keys" "p < length keys"
  shows "firstBucketAfter keys (keys ! p) = Suc p mod length keys"
  unfolding firstBucketAfter_def using assms
  by (intro search_after [of _ "(!) keys"]) (auto simp: sorted_iff_nth_mono_less nth_eq_iff_index_eq order.strict_iff_order)

lemma rotate_next_bucket:
  assumes "sorted keys" "distinct keys" "rotate start keys = us @ k # vs"
  shows "rotate (firstBucketAfter keys k) keys = vs @ us @ [k]"
proof -
  have len: "length us < length keys" using arg_cong [OF assms(3), of length] by simp
  then have "keys ! ((start + length us) mod length keys) = k"
    using arg_cong [OF assms(3), of "\<lambda>l. l ! length us"] by (simp add: nth_rotate add.commute)
  moreover have "(start + length us) mod length keys < length keys" using len by (intro mod_less_divisor) linarith
  ultimately have "firstBucketAfter keys k = Suc ((start + length us) mod length keys) mod length keys"
    using firstBucketAfter_at [OF assms(1, 2)] by metis
  then have "rotate (firstBucketAfter keys k) keys = rotate (Suc (length us)) (rotate start keys)"
    by (simp add: rotate_Suc_mod rotate_rotate add.commute del: rotate_Suc)
  also have "\<dots> = vs @ us @ [k]" unfolding assms(3)
    using rotate_append [of "us @ [k]" vs] by (simp del: rotate_Suc)
  finally show ?thesis .
qed

lemma turn_order_ConsD:
  assumes "turn_order cands keys buckets known st = (k, q) # rest"
  obtains us vs where "rotate (firstBucketAfter keys (saLast st)) keys = us @ k # vs"
    "\<forall>u\<in>set us. snd (unseen_line cands buckets known st u) = []"
    "unseen_line cands buckets known st k = (k, q)" "q \<noteq> []"
    "filter (\<lambda>l. snd l \<noteq> []) (map (unseen_line cands buckets known st) vs) = rest"
proof -
  from assms obtain as bs where ab:
    "map (unseen_line cands buckets known st) (rotate (firstBucketAfter keys (saLast st)) keys) = as @ (k, q) # bs"
    "\<forall>l\<in>set as. snd l = []" "q \<noteq> []" "filter (\<lambda>l. snd l \<noteq> []) bs = rest"
    by (auto simp: turn_order_def filter_eq_Cons_iff)
  from ab(1) obtain us k' vs where
    "rotate (firstBucketAfter keys (saLast st)) keys = us @ k' # vs" "map (unseen_line cands buckets known st) us = as"
    "unseen_line cands buckets known st k' = (k, q)" "map (unseen_line cands buckets known st) vs = bs"
    by (auto simp: map_eq_append_conv map_eq_Cons_conv)
  moreover from this(3) have "k' = k" by (simp add: unseen_line_def)
  ultimately show ?thesis using ab that by auto
qed

lemma set_waiting [simp]: "set (waiting cands bucket c) = (!) cands ` set bucket"
  by (simp add: waiting_def)

lemma cursor_at_saLast [simp]: "cursor_at k (st\<lparr>saLast := x\<rparr>) = cursor_at k st"
  by (simp add: cursor_at_def)

text \<open>What the inventory must satisfy for the buckets to be independent lines.\<close>

definition orderly :: "proxy list \<Rightarrow> string list \<Rightarrow> (string \<Rightarrow> nat list) \<Rightarrow> bool" where
  "orderly cands keys buckets \<longleftrightarrow> sorted keys \<and> distinct keys \<and> (\<forall>k\<in>set keys. strict_bucket cands (buckets k)) \<and>
     (\<forall>k\<in>set keys. \<forall>k'\<in>set keys. k \<noteq> k' \<longrightarrow>
        (\<forall>i\<in>set (buckets k). \<forall>j\<in>set (buckets k'). px_key (cands ! i) \<noteq> px_key (cands ! j)))"

lemma unseen_step:
  assumes lines: "same_lines cands buckets (set keys - {k}) st st1"
    and old: "waiting cands (buckets k) (cursor_at k st) = ys @ px # zs" "filter ok ys = []" "ok px"
    and new: "waiting cands (buckets k) (cursor_at k st1) = zs @ ys @ [px]"
    and ok: "\<forall>i\<in>set (buckets k). ok (cands ! i) = (px_key (cands ! i) \<notin> known)"
    and q: "unseen_line cands buckets known st k = (k, q)"
    and us: "\<forall>u\<in>set us. snd (unseen_line cands buckets known st u) = []"
    and sets: "set us \<subseteq> set keys - {k}" "set vs \<subseteq> set keys - {k}"
  shows "hd q = px \<and> filter (\<lambda>l. snd l \<noteq> []) (map (unseen_line cands buckets known (st1\<lparr>saLast := k\<rparr>)) (vs @ us @ [k])) =
         filter (\<lambda>l. snd l \<noteq> []) (map (unseen_line cands buckets known st) vs) @ [(k, rotate1 q)]"
proof -
  have same: "unseen_line cands buckets known (st1\<lparr>saLast := k\<rparr>) u = unseen_line cands buckets known st u"
    if "u \<in> set keys - {k}" for u
    using bspec [OF lines [unfolded same_lines_def] that] by (simp add: unseen_line_def)
  have sub: "set ys \<union> {px} \<union> set zs \<subseteq> (!) cands ` set (buckets k)"
    using set_waiting [of cands "buckets k" "cursor_at k st"] unfolding old(1) by auto
  have eq: "ok x = (px_key x \<notin> known)" if "x \<in> set ys \<union> {px} \<union> set zs" for x using sub that ok by blast
  have ys: "filter (\<lambda>px. px_key px \<notin> known) ys = []"
    using old(2) eq by (auto simp: filter_empty_conv)
  have qe: "q = px # filter (\<lambda>px. px_key px \<notin> known) zs"
    using q eq [of px] ys old(1, 3) by (auto simp: unseen_line_def)
  have last: "unseen_line cands buckets known (st1\<lparr>saLast := k\<rparr>) k = (k, rotate1 q)"
    using eq [of px] ys old(3) by (simp add: unseen_line_def new qe)
  have maps: "map (unseen_line cands buckets known (st1\<lparr>saLast := k\<rparr>)) xs = map (unseen_line cands buckets known st) xs"
    if "set xs \<subseteq> set keys - {k}" for xs using that same by (auto intro: map_cong)
  show ?thesis using us last qe
    unfolding map_append filter_append maps [OF sets(1)] maps [OF sets(2)] by (simp add: filter_empty_conv)
qed

theorem phase_turns:
  assumes "selectPhase cands keys buckets known False n selected ex out st = (st', selected', out')"
    and ord: "orderly cands keys buckets"
    and "turn_order cands keys buckets known st = A @ B" "n \<le> length A"
    and "\<forall>l\<in>set A. \<forall>i\<in>set (buckets (fst l)). px_key (cands ! i) \<notin> selected"
    and "\<forall>u\<in>ex. \<forall>i\<in>set (buckets u). \<not> wanted known selected False (cands ! i)"
  shows "out' = out @ fst (turns n (A @ B)) \<and> turn_order cands keys buckets known st' = snd (turns n (A @ B))"
  using assms(1, 3, 4, 5, 6)
proof (induction n arbitrary: selected ex out st A B)
  case (Suc n)
  let ?ok = "wanted known selected False" and ?line = "unseen_line cands buckets known"
  from Suc.prems(3) obtain k q A' where A: "A = (k, q) # A'" by (cases A) auto
  from Suc.prems(2) A have to: "turn_order cands keys buckets known st = (k, q) # A' @ B" by simp
  from turn_order_ConsD [OF to] obtain us vs where
    K: "rotate (firstBucketAfter keys (saLast st)) keys = us @ k # vs"
    and us: "\<forall>u\<in>set us. snd (?line st u) = []" and q: "?line st k = (k, q)" "q \<noteq> []"
    and vs: "filter (\<lambda>l. snd l \<noteq> []) (map (?line st) vs) = A' @ B" .
  have srt: "sorted keys" "distinct keys" "\<forall>k\<in>set keys. strict_bucket cands (buckets k)"
    using ord by (simp_all add: orderly_def)
  have "distinct (us @ k # vs)" "set (us @ k # vs) = set keys"
    using srt(2) K by (metis distinct_rotate, metis set_rotate)
  then have sets: "set us \<subseteq> set keys - {k}" "set vs \<subseteq> set keys - {k}" "k \<in> set keys" by auto
  have dead: "\<forall>u\<in>set us. \<forall>i\<in>set (buckets u). \<not> ?ok (cands ! i)"
    using us by (fastforce simp: unseen_line_def wanted_def filter_empty_conv)
  have okk: "\<forall>i\<in>set (buckets k). ?ok (cands ! i) = (px_key (cands ! i) \<notin> known)"
    using Suc.prems(4) A by (auto simp: wanted_def)
  obtain x where "x \<in> set q" using q(2) by (cases q) auto
  with q(1) okk obtain i where i: "i \<in> set (buckets k)" "?ok (cands ! i)" by (auto simp: unseen_line_def)
  obtain st1 ex1 r where tb: "try_buckets cands keys buckets ?ok (firstBucketAfter keys (saLast st)) 0
    (length keys) ex st = (st1, ex1, r)" by (metis prod_cases3)
  from try_turn [OF tb _ _ srt(3, 2) dead i Suc.prems(5)] K obtain px ys zs where
    r: "r = Some (k, px)" and w: "waiting cands (buckets k) (cursor_at k st) = ys @ px # zs"
      "filter ?ok ys = []" "?ok px" "waiting cands (buckets k) (cursor_at k st1) = zs @ ys @ [px]"
      "same_lines cands buckets (set keys - {k}) st st1"
    and ex1: "\<forall>u\<in>ex1. \<forall>i\<in>set (buckets u). \<not> ?ok (cands ! i)" by auto
  let ?st = "st1\<lparr>saLast := k\<rparr>" and ?sel = "insert (px_key px) selected"
  note step = unseen_step [OF w(5, 1, 2, 3, 4) okk q(1) us sets(1, 2)]
  have to': "turn_order cands keys buckets known ?st = A' @ (B @ [(k, rotate1 q)])"
    using step vs rotate_next_bucket [OF srt(1, 2) K] by (simp add: turn_order_def)
  have "px \<in> set (waiting cands (buckets k) (cursor_at k st))" by (simp add: w(1) del: set_waiting)
  then obtain j where j: "j \<in> set (buckets k)" "px = cands ! j" by auto
  have "fst l \<in> set keys - {k}" if "l \<in> set A'" for l
  proof -
    from that have "l \<in> set (filter (\<lambda>l. snd l \<noteq> []) (map (?line st) vs))" unfolding vs by simp
    with sets(2) show ?thesis by (auto simp: unseen_line_def)
  qed
  with j ord sets(3) Suc.prems(4) A
  have fresh: "\<forall>l\<in>set A'. \<forall>i\<in>set (buckets (fst l)). px_key (cands ! i) \<notin> ?sel"
    by (fastforce simp: orderly_def)
  have dead': "\<forall>u\<in>ex1. \<forall>i\<in>set (buckets u). \<not> wanted known ?sel False (cands ! i)"
    using ex1 wanted_mono [of selected ?sel] by blast
  have "selectPhase cands keys buckets known False n ?sel ex1 (out @ [px]) ?st = (st', selected', out')"
    using Suc.prems(1) tb r by simp
  from Suc.IH [OF this to' _ fresh dead'] Suc.prems(3) A step show ?case
    by (simp add: case_prod_beta Let_def)
qed simp

section \<open>Refreshes in a row\<close>

text \<open>
  The inventories that the refresh hands over: addresses and protocols carry no NUL, and an
  endpoint is listed once.
\<close>

definition sound_feed :: "(proxy \<Rightarrow> bool) \<Rightarrow> proxy list \<Rightarrow> bool" where
  "sound_feed incl cands \<longleftrightarrow>
     (\<forall>px\<in>set cands. incl px \<longrightarrow> NUL \<notin> set (pxIP px) \<and> NUL \<notin> set (pxProtocol px)) \<and>
     distinct (map px_key (filter incl cands))"

lemma sound_feed_key_eq:
  assumes "sound_feed incl cands" "i < length cands" "j < length cands" "incl (cands ! i)" "incl (cands ! j)"
    and "px_key (cands ! i) = px_key (cands ! j)"
  shows "i = j"
  using assms
proof (induction cands arbitrary: i j)
  case (Cons c cs)
  have tail: "sound_feed incl cs" using Cons.prems(1) by (auto simp: sound_feed_def split: if_splits)
  have out: "px_key c \<noteq> px_key (cs ! h)" if "incl c" "h < length cs" "incl (cs ! h)" for h
    using Cons.prems(1) that by (auto simp: sound_feed_def)
  show ?case
    using Cons.prems(2-) Cons.IH [OF tail] out by (cases i; cases j) (auto dest: sym)
qed simp

lemma NUL_split:
  "a @ NUL # s = b @ NUL # t \<Longrightarrow> NUL \<notin> set s \<Longrightarrow> NUL \<notin> set t \<Longrightarrow> s = t"
  by (auto simp: append_eq_append_conv2 append_eq_Cons_conv Cons_eq_append_conv)

lemma NUL_split_left:
  "a @ NUL # s = b @ NUL # t \<Longrightarrow> NUL \<notin> set a \<Longrightarrow> NUL \<notin> set b \<Longrightarrow> a = b \<and> s = t"
  by (auto simp: append_eq_append_conv2 append_eq_Cons_conv Cons_eq_append_conv)

lemma sorted_insert_by:
  assumes total: "\<And>x y. x \<in> S \<Longrightarrow> y \<in> S \<Longrightarrow> lt x y = (key x < (key y :: 'k :: linorder))"
    and "sorted (map key ys)" "insert x (set ys) \<subseteq> S"
  shows "sorted (map key (insert_by lt x ys))"
  using assms(2, 3)
proof (induction ys)
  case (Cons y ys)
  then show ?case using total [of y x] by (auto simp: not_less)
qed simp

lemma sorted_slice_sort:
  assumes "\<And>x y. x \<in> set xs \<Longrightarrow> y \<in> set xs \<Longrightarrow> lt x y = (key x < (key y :: 'k :: linorder))"
  shows "sorted (map key (slice_sort lt xs))"
proof -
  have "sorted (map key (slice_sort lt ys))" if "set ys \<subseteq> set xs" for ys
    using that
  proof (induction ys)
    case (Cons y ys)
    then have "sorted (map key (insert_by lt y (slice_sort lt ys)))"
      by (intro sorted_insert_by [of "set xs"] assms) auto
    then show ?case by (simp add: slice_sort_def)
  qed (simp add: slice_sort_def)
  then show ?thesis by simp
qed

lemma same_bucket_protocol:
  assumes "candidateBucketKey p = candidateBucketKey q" "NUL \<notin> set (pxProtocol p)" "NUL \<notin> set (pxProtocol q)"
  shows "pxProtocol p = pxProtocol q"
  using NUL_split [of "if pxSourceName p = [] then ''unknown'' else pxSourceName p" "pxProtocol p"
      "if pxSourceName q = [] then ''unknown'' else pxSourceName q" "pxProtocol q"] assms
  by (simp add: candidateBucketKey_def)

lemma cursor_keys_distinct:
  assumes "candidateCursorKey p = candidateCursorKey q" "candidateBucketKey p = candidateBucketKey q"
    "NUL \<notin> set (pxIP p)" "NUL \<notin> set (pxIP q)" "NUL \<notin> set (pxProtocol p)" "NUL \<notin> set (pxProtocol q)"
  shows "px_key p = px_key q"
  using NUL_split_left [of "pxIP p" "pxPort p" "pxIP q" "pxPort q"] same_bucket_protocol [of p q] assms
  by (intro px_key_eqI) (auto simp: candidateCursorKey_def)

lemma sound_feed_orderly:
  assumes sf: "sound_feed incl cands"
  shows "orderly cands (bucket_keys incl cands) (bucket_of incl cands)"
proof -
  let ?key = "\<lambda>i. candidateCursorKey (cands ! i)"
  have nul: "NUL \<notin> set (pxIP (cands ! i))" "NUL \<notin> set (pxProtocol (cands ! i))"
    if "i < length cands" "incl (cands ! i)" for i
    using that sf by (auto simp: sound_feed_def)
  have strict: "strict_bucket cands (bucket_of incl cands k)" if "k \<in> set (bucket_keys incl cands)" for k
  proof -
    let ?b = "bucket_of incl cands k"
    from that obtain px where "px \<in> set cands" "incl px" "candidateBucketKey px = k" by (auto simp: bucket_keys_iff)
    then obtain i where "i < length cands" "cands ! i = px" "incl px" "candidateBucketKey px = k"
      by (auto simp: in_set_conv_nth)
    then have "i \<in> set ?b" by (simp add: in_bucket)
    then have ne: "?b \<noteq> []" by auto
    have "sorted (map ?key ?b)" unfolding bucket_of_def
    proof (rule sorted_slice_sort)
      fix i j
      assume "i \<in> set (filter (\<lambda>i. incl (cands ! i) \<and> candidateBucketKey (cands ! i) = k) [0..<length cands])"
        and "j \<in> set (filter (\<lambda>i. incl (cands ! i) \<and> candidateBucketKey (cands ! i) = k) [0..<length cands])"
      then have "i < length cands" "incl (cands ! i)" "j < length cands" "incl (cands ! j)" by auto
      then show "candidateCursorLess (cands ! i) (cands ! j) = (?key i < ?key j)"
        by (intro candidateCursorLess_iff nul)
    qed
    moreover have "inj_on ?key (set ?b)"
    proof (rule inj_onI)
      fix i j assume "i \<in> set ?b" "j \<in> set ?b" and eq: "?key i = ?key j"
      then have ij: "i < length cands" "j < length cands" "incl (cands ! i)" "incl (cands ! j)"
        "candidateBucketKey (cands ! i) = candidateBucketKey (cands ! j)" by (auto simp: in_bucket)
      from cursor_keys_distinct [OF eq ij(5)] nul ij have "px_key (cands ! i) = px_key (cands ! j)" by blast
      with sound_feed_key_eq [OF sf ij(1-4)] show "i = j" by blast
    qed
    ultimately have "sorted (map ?key ?b)" "distinct (map ?key ?b)" using distinct_bucket by (auto simp: distinct_map)
    then have lt: "map ?key ?b ! i < map ?key ?b ! j" if "i < j" "j < length ?b" for i j
      using that by (simp add: sorted_iff_nth_mono_less distinct_conv_nth order.strict_iff_order)
    with ne show ?thesis by (auto simp: strict_bucket_def)
  qed
  have "i = j" if "i \<in> set (bucket_of incl cands k)" "j \<in> set (bucket_of incl cands k')"
    "px_key (cands ! i) = px_key (cands ! j)" for i j k k'
    using sound_feed_key_eq [OF sf, of i j] that by (auto simp: in_bucket)
  then have "px_key (cands ! i) \<noteq> px_key (cands ! j)"
    if "k \<noteq> k'" "i \<in> set (bucket_of incl cands k)" "j \<in> set (bucket_of incl cands k')" for i j k k'
    using that in_bucket by metis
  then show ?thesis unfolding orderly_def using strict by (simp add: bucket_keys_def)
qed

lemma turns_append:
  "turns (m + n) ls = (fst (turns m ls) @ fst (turns n (snd (turns m ls))), snd (turns n (snd (turns m ls))))"
proof (induction m ls rule: turns.induct)
  case (2 m)
  then show ?case by (cases n) simp_all
qed (simp_all add: case_prod_beta Let_def)

lemma turns_round:
  "turns (length xs) (xs @ ys) = (map (hd \<circ> snd) xs, ys @ map (\<lambda>l. (fst l, rotate1 (snd l))) xs)"
  by (induction xs arbitrary: ys) (auto simp: Let_def split: prod.splits)

lemma length_turns [simp]: "length (snd (turns n ls)) = length ls"
  by (induction n ls rule: turns.induct) (auto simp: Let_def split: prod.splits)

lemma turns_serve:
  assumes "\<forall>l\<in>set ls. snd l \<noteq> []" "l \<in> set ls" "j < m" "j < length (snd l)"
  shows "snd l ! j \<in> set (fst (turns (length ls * m) ls))"
  using assms
proof (induction m arbitrary: ls l j)
  case (Suc m)
  let ?next = "\<lambda>l. (fst l, rotate1 (snd l))"
  have eq: "fst (turns (length ls * Suc m) ls) =
      map (hd \<circ> snd) ls @ fst (turns (length (map ?next ls) * m) (map ?next ls))"
    using turns_append [of "length ls" "length ls * m" ls] turns_round [of ls "[]"] by simp
  show ?case
  proof (cases j)
    case 0
    with Suc.prems show ?thesis unfolding eq by (auto simp: hd_conv_nth)
  next
    case (Suc h)
    have "\<forall>l\<in>set (map ?next ls). snd l \<noteq> []" using Suc.prems(1) by auto
    moreover have "?next l \<in> set (map ?next ls)" using Suc.prems(2) by (auto simp only: set_map intro: imageI)
    moreover have "h < m" "h < length (snd (?next l))" using Suc Suc.prems(3, 4) by auto
    ultimately have "snd (?next l) ! h \<in> set (fst (turns (length (map ?next ls) * m) (map ?next ls)))"
      by (rule Suc.IH)
    moreover have "snd (?next l) ! h = snd l ! j"
      using Suc Suc.prems(4) by (simp add: nth_rotate1)
    ultimately show ?thesis unfolding eq by simp
  qed
qed simp

lemma turn_order_prune [simp]:
  "turn_order cands keys buckets known (pruneCursors keys st) = turn_order cands keys buckets known st"
proof -
  have at: "cursor_at k (pruneCursors keys st) = cursor_at k st" if "k \<in> set keys" for k
  proof -
    have "map_of (filter (\<lambda>e. fst e \<in> set keys) cs) k = map_of cs k" for cs :: "(string \<times> string) list"
      using that by (induction cs) auto
    then show ?thesis by (simp add: cursor_at_def pruneCursors_def)
  qed
  have "unseen_line cands buckets known (pruneCursors keys st) k = unseen_line cands buckets known st k"
    if "k \<in> set (rotate i keys)" for k i
    using at that by (simp add: unseen_line_def)
  then show ?thesis by (auto simp: turn_order_def pruneCursors_def intro!: arg_cong [where f = "filter _"] map_cong)
qed

abbreviation lines_of :: "proxy list \<Rightarrow> (proxy \<Rightarrow> bool) \<Rightarrow> string set \<Rightarrow> sampler \<Rightarrow> (string \<times> proxy list) list" where
  "lines_of cands incl known st \<equiv> turn_order cands (bucket_keys incl cands) (bucket_of incl cands) known st"

lemma select_turns:
  assumes sf: "sound_feed incl cands" and lim: "0 < limit" "nat limit \<le> length (lines_of cands incl known st)"
    and sel: "selectCandidatesWhere cands known limit incl st = (st', out)"
  shows "out = fst (turns (nat limit) (lines_of cands incl known st)) \<and>
         lines_of cands incl known st' = snd (turns (nat limit) (lines_of cands incl known st))"
proof -
  have ne: "cands \<noteq> []" using lim by (cases cands) (auto simp: turn_order_def bucket_keys_def)
  obtain st1 sel1 out1 st2 sel2 out2 where
    p1: "selectPhase cands (bucket_keys incl cands) (bucket_of incl cands) known False (nat limit) {} {} []
       (pruneCursors (bucket_keys incl cands) st) = (st1, sel1, out1)"
    and p2: "selectPhase cands (bucket_keys incl cands) (bucket_of incl cands) known True (nat limit - length out1)
       sel1 {} out1 st1 = (st2, sel2, out2)"
    and res: "selectCandidatesWhere cands known limit incl st = (st2, out2)"
    using selectCandidatesWhere_phases [OF lim(1) ne] .
  have t1: "out1 = fst (turns (nat limit) (lines_of cands incl known st))"
    "lines_of cands incl known st1 = snd (turns (nat limit) (lines_of cands incl known st))"
    using phase_turns [OF p1 sound_feed_orderly [OF sf], of "lines_of cands incl known st" "[]"] lim(2) by simp_all
  have "length (fst (turns n ls)) = n" if "n \<le> length ls" for n ls
    using that by (induction n ls rule: turns.induct) (auto simp: Let_def split: prod.splits)
  then have "length out1 = nat limit" using lim(2) t1(1) by simp
  with p2 have "out2 = out1" "st2 = st1" by simp_all
  with res sel t1 show ?thesis by simp
qed


text \<open>Refreshes over the same inventory in which every selected candidate fails, one limit each.\<close>

fun refreshes :: "proxy list \<Rightarrow> string set \<Rightarrow> (proxy \<Rightarrow> bool) \<Rightarrow> int list \<Rightarrow> sampler \<Rightarrow> sampler \<times> proxy list" where
  "refreshes cands known incl [] st = (st, [])"
| "refreshes cands known incl (limit # limits) st =
     (case selectCandidatesWhere cands known limit incl st of
        (st1, out) \<Rightarrow> (case refreshes cands known incl limits st1 of (st2, outs) \<Rightarrow> (st2, out @ outs)))"

lemma refreshes_turns:
  assumes "sound_feed incl cands" "\<forall>l\<in>set limits. 0 < l \<and> nat l \<le> length (lines_of cands incl known st)"
  shows "snd (refreshes cands known incl limits st) =
         fst (turns (sum_list (map nat limits)) (lines_of cands incl known st))"
  using assms(2)
proof (induction limits arbitrary: st)
  case (Cons l ls)
  obtain st1 out where sel: "selectCandidatesWhere cands known l incl st = (st1, out)" by fastforce
  from select_turns [OF assms(1) _ _ sel] Cons.prems
  have t: "out = fst (turns (nat l) (lines_of cands incl known st))"
    "lines_of cands incl known st1 = snd (turns (nat l) (lines_of cands incl known st))" by auto
  from Cons.IH [of st1] Cons.prems t
  have "snd (refreshes cands known incl ls st1) =
        fst (turns (sum_list (map nat ls)) (snd (turns (nat l) (lines_of cands incl known st))))" by simp
  with sel t show ?case by (simp add: turns_append case_prod_beta)
qed simp

lemma lines_cover:
  assumes "px \<in> set cands" "incl px" "px_key px \<notin> known"
  shows "\<exists>l\<in>set (lines_of cands incl known st). px \<in> set (snd l) \<and> length (snd l) \<le> length cands"
proof -
  from included_in_bucket [of px cands incl, OF assms(1, 2)] obtain k i where
    k: "k \<in> set (bucket_keys incl cands)" "i \<in> set (bucket_of incl cands k)" "cands ! i = px" by blast
  let ?l = "unseen_line cands (bucket_of incl cands) known st k"
  have mem: "px \<in> set (snd ?l)" using k assms(3) by (auto simp: unseen_line_def)
  then have "?l \<in> set (lines_of cands incl known st)" using k(1) by (auto simp: turn_order_def)
  moreover have "length (snd ?l) \<le> length (bucket_of incl cands k)"
    by (simp add: unseen_line_def waiting_def le_trans [OF length_filter_le])
  moreover have "length (bucket_of incl cands k) \<le> length cands"
    unfolding bucket_of_def length_slice_sort by (rule le_trans [OF length_filter_le]) simp
  ultimately show ?thesis using mem by (meson le_trans)
qed


section \<open>The state file\<close>

text \<open>
  A refresh starts from the file that the last one wrote and writes it back. \<open>newCandidateSampler\<close>
  takes the decoded file with its version, or None when there is none or it cannot be read.
\<close>

definition fresh_sampler :: sampler where
  "fresh_sampler = \<lparr>saLast = [], saCursors = []\<rparr>"

definition decodeCandidateSamplerState :: "int \<times> sampler \<Rightarrow> (int \<times> sampler) option" where
  "decodeCandidateSamplerState f = (if validateCandidateSamplerState (snd f) then Some f else None)"

definition newCandidateSampler :: "(int \<times> sampler) option \<Rightarrow> sampler" where
  "newCandidateSampler file =
     (case Option.bind file decodeCandidateSamplerState of
        None \<Rightarrow> fresh_sampler
      | Some (version, st) \<Rightarrow> if version \<noteq> 2 then fresh_sampler else st)"

definition save_sampler :: "sampler \<Rightarrow> (int \<times> sampler) option \<Rightarrow> (int \<times> sampler) option" where
  "save_sampler st file = (if validateCandidateSamplerState st then Some (2, st) else file)"

definition control_free :: "string \<Rightarrow> bool" where
  "control_free s \<longleftrightarrow> list_all (\<lambda>c. \<not> (byte_of c < 32 \<or> byte_of c = 127)) s"

lemma control_free_NUL: "control_free s \<Longrightarrow> NUL \<notin> set s"
  by (auto simp: control_free_def list_all_iff byte_of_def)

lemma cut_NUL: "NUL \<notin> set a \<Longrightarrow> cut [NUL] (a @ NUL # b) = Some (a, b)"
  by (induction a) (auto simp: has_prefix_def)

lemma split_composite:
  assumes "control_free a" "control_free b" "a \<noteq> []" "b \<noteq> []" "length a \<le> m" "length b \<le> n"
  shows "splitSamplerComposite m n (a @ NUL # b) = Some (a, b)"
proof -
  have "filter (\<lambda>c. c = NUL) a = []" "filter (\<lambda>c. c = NUL) b = []"
    using assms(1, 2) [THEN control_free_NUL] by (auto simp: filter_empty_conv)
  moreover have "\<not> list_ex (\<lambda>c. byte_of c < 32 \<or> byte_of c = 127) (a @ b)"
    using assms(1, 2) by (auto simp: control_free_def list_all_iff list_ex_iff)
  ultimately show ?thesis
    using assms(3-) cut_NUL [OF control_free_NUL [OF assms(1)], of b]
    by (simp add: splitSamplerComposite_def del: list_ex_append)
qed

text \<open>What a refresh hands over: nodes as normalisation leaves them, under a printable source name.\<close>

definition storable :: "proxy \<Rightarrow> bool" where
  "storable px \<longleftrightarrow> normalizeProxy px = Some px \<and> length (pxIP px) \<le> maxSourceAddressBytes \<and>
     control_free (pxSourceName px) \<and> length (pxSourceName px) \<le> maxSourceNameBytes"

definition entry_ok :: "string \<times> string \<Rightarrow> bool" where
  "entry_ok e = (case e of (bucket, cursor) \<Rightarrow>
     (case valid_bucket bucket of
         None \<Rightarrow> False
       | Some protocol \<Rightarrow>
           (case splitSamplerComposite maxSourceAddressBytes maxSourcePortBytes cursor of
              None \<Rightarrow> False
            | Some (host, port) \<Rightarrow>
                normalizeProxy (proxy0\<lparr>pxIP := host, pxPort := port, pxProtocol := protocol\<rparr>) \<noteq> None)))"

lemma validate_entries:
  "validateCandidateSamplerState st \<longleftrightarrow> length (saCursors st) \<le> maxCandidateSamplerCursors \<and>
     (saLast st \<noteq> [] \<longrightarrow> valid_bucket (saLast st) \<noteq> None) \<and> list_all entry_ok (saCursors st)"
  by (simp add: validateCandidateSamplerState_def entry_ok_def [abs_def])

lemma itoa_length: "n < 10 ^ Suc k \<Longrightarrow> length (itoa n) \<le> Suc k"
proof (induction k arbitrary: n)
  case 0
  then show ?case by (simp add: itoa.simps)
next
  case (Suc k)
  then have "n div 10 < 10 ^ Suc k" by (simp add: less_mult_imp_div_less mult.commute)
  with Suc.IH show ?case by (subst itoa.simps) simp
qed

lemma storable_parts:
  assumes "storable px"
  shows "control_free (pxIP px) \<and> pxIP px \<noteq> [] \<and> control_free (pxPort px) \<and> pxPort px \<noteq> [] \<and>
    length (pxPort px) \<le> maxSourcePortBytes \<and> isProxyProtocol (pxProtocol px)"
proof -
  from assms have norm: "normalizeProxy px = Some px" by (simp add: storable_def)
  from normalizeProxy_SomeD [OF norm] obtain n where
    n: "isProxyProtocol (pxProtocol px)" "n < 65536" "pxPort px = itoa n"
      "literal_endpoint px \<or> hostname_endpoint px" by blast
  have "byte_of c \<noteq> 127 \<and> \<not> byte_of c < 32" if "c \<in> set (pxIP px)" for c
  proof (cases "literal_endpoint px")
    case True
    then obtain ip where "length ip = 16" "pxIP px = ip_string ip" by (auto simp: literal_endpoint_def)
    with ip_string_chars [of ip c] that have "is_hex c \<or> c = CHR '':'' \<or> c = CHR ''.''" by simp
    then show ?thesis by (auto simp: is_hex_def hex_val_def byte_of_def Let_def split: if_splits)
  next
    case False
    with n(4) have "validProxyHostname (pxIP px)" by (simp add: hostname_endpoint_def)
    from valid_hostname_chars [OF this that] show ?thesis
      by (auto simp: hostname_char_def is_lower_def is_upper_def is_digit_def byte_of_def)
  qed
  then have "control_free (pxIP px)" by (auto simp: control_free_def list_all_iff)
  moreover have "pxIP px \<noteq> []"
    using norm by (auto simp: normalizeProxy_def Let_def trim_space_def trim_left_def trim_right_def split: if_splits option.splits)
  moreover have "control_free (pxPort px)"
    unfolding n(3) by (auto simp: control_free_def list_all_iff is_digit_def dest!: itoa_no_space)
  moreover have "length (pxPort px) \<le> maxSourcePortBytes"
    using itoa_length [of n 4] n(2, 3) by (simp add: maxSourcePortBytes_def)
  ultimately show ?thesis using n(1, 3) by simp
qed

lemma storable_bucket:
  assumes "storable px"
  shows "valid_bucket (candidateBucketKey px) = Some (pxProtocol px)"
proof -
  let ?name = "if pxSourceName px = [] then ''unknown'' else pxSourceName px"
  have "control_free ?name" "?name \<noteq> []" "length ?name \<le> maxSourceNameBytes"
    using assms by (auto simp: storable_def control_free_def byte_of_def maxSourceNameBytes_def)
  moreover have "control_free (pxProtocol px)" "pxProtocol px \<noteq> []" "length (pxProtocol px) \<le> 32"
    using storable_parts [OF assms] by (auto simp: isProxyProtocol_def control_free_def byte_of_def)
  ultimately have "splitSamplerComposite maxSourceNameBytes 32 (?name @ NUL # pxProtocol px) = Some (?name, pxProtocol px)"
    by (intro split_composite)
  then show ?thesis using storable_parts [OF assms] by (simp add: valid_bucket_def candidateBucketKey_def)
qed

lemma normalizeProxy_depends:
  "pxIP p = pxIP q \<Longrightarrow> pxPort p = pxPort q \<Longrightarrow> pxProtocol p = pxProtocol q \<Longrightarrow>
   normalizeProxy p = None \<longleftrightarrow> normalizeProxy q = None"
  by (simp add: normalizeProxy_def Let_def split: option.split)

lemma storable_entry:
  assumes "storable px"
  shows "entry_ok (candidateBucketKey px, candidateCursorKey px)"
proof -
  have "splitSamplerComposite maxSourceAddressBytes maxSourcePortBytes (pxIP px @ NUL # pxPort px) = Some (pxIP px, pxPort px)"
    using storable_parts [OF assms] assms by (intro split_composite) (simp_all add: storable_def)
  moreover have "normalizeProxy (proxy0\<lparr>pxIP := pxIP px, pxPort := pxPort px, pxProtocol := pxProtocol px\<rparr>) \<noteq> None"
    using normalizeProxy_depends [of "proxy0\<lparr>pxIP := pxIP px, pxPort := pxPort px, pxProtocol := pxProtocol px\<rparr>" px] assms
    by (simp add: storable_def)
  ultimately show ?thesis using storable_bucket [OF assms] by (simp add: entry_ok_def candidateCursorKey_def)
qed

text \<open>The invariant of the cursors while a refresh selects over the buckets \<open>keys\<close>.\<close>

definition sampler_inv :: "string list \<Rightarrow> sampler \<Rightarrow> bool" where
  "sampler_inv keys st \<longleftrightarrow> distinct (map fst (saCursors st)) \<and> fst ` set (saCursors st) \<subseteq> set keys \<and>
     (\<forall>e\<in>set (saCursors st). entry_ok e) \<and> (saLast st \<noteq> [] \<longrightarrow> valid_bucket (saLast st) \<noteq> None)"

lemma inv_move:
  "sampler_inv keys st \<Longrightarrow> k \<in> set keys \<Longrightarrow> entry_ok (k, c) \<Longrightarrow> sampler_inv keys (move_cursor k c st)"
  by (auto simp: sampler_inv_def move_cursor_def set_aput distinct_aput)

lemma inv_scan:
  assumes "sampler_inv keys st" "k \<in> set keys" "bucket \<noteq> []"
    "\<forall>i\<in>set bucket. entry_ok (k, candidateCursorKey (cands ! i))"
  shows "sampler_inv keys (fst (scan_bucket cands k bucket ok start off n st))"
  using assms(1)
proof (induction n arbitrary: off st)
  case (Suc n)
  have "bucket ! ((start + off) mod length bucket) \<in> set bucket" using assms(3) by simp
  with Suc assms(2, 4) show ?case by (simp add: Let_def inv_move)
qed simp

lemma inv_next:
  assumes "sampler_inv keys st" "k \<in> set keys" "\<forall>i\<in>set bucket. entry_ok (k, candidateCursorKey (cands ! i))"
  shows "sampler_inv keys (fst (nextMatching cands k bucket ok st))"
  using assms inv_scan [OF assms(1, 2) _ assms(3)] by (simp add: nextMatching_def)

lemma inv_try:
  assumes "sampler_inv keys st" "keys \<noteq> []"
    "\<forall>k\<in>set keys. \<forall>i\<in>set (buckets k). entry_ok (k, candidateCursorKey (cands ! i))"
  shows "sampler_inv keys (fst (try_buckets cands keys buckets ok start off n ex st))"
  using assms(1)
proof (induction n arbitrary: off ex st)
  case (Suc n)
  let ?k = "keys ! ((start + off) mod length keys)"
  have k: "?k \<in> set keys" using assms(2) by simp
  obtain st1 r where nm: "nextMatching cands ?k (buckets ?k) ok st = (st1, r)" by fastforce
  have "sampler_inv keys st1" using inv_next [OF Suc.prems k, of "buckets ?k" cands ok] assms(3) k nm by simp
  with Suc nm show ?case by (auto simp: Let_def split: option.split)
qed simp

lemma inv_phase:
  assumes "sampler_inv keys st" "keys \<noteq> []"
    "\<forall>k\<in>set keys. \<forall>i\<in>set (buckets k). entry_ok (k, candidateCursorKey (cands ! i))"
    "\<forall>k\<in>set keys. valid_bucket k \<noteq> None"
    "\<forall>u\<in>ex. \<forall>i\<in>set (buckets u). \<not> wanted known selected ph (cands ! i)"
  shows "sampler_inv keys (fst (selectPhase cands keys buckets known ph n selected ex out st))"
  using assms(1, 5)
proof (induction n arbitrary: selected ex out st)
  case (Suc n)
  let ?ok = "wanted known selected ph"
  obtain st1 ex1 r where tb: "try_buckets cands keys buckets ?ok (firstBucketAfter keys (saLast st)) 0
    (length keys) ex st = (st1, ex1, r)" by (metis prod_cases3)
  have inv: "sampler_inv keys st1"
    using inv_try [OF Suc.prems(1) assms(2, 3), of ?ok "firstBucketAfter keys (saLast st)" 0 "length keys" ex] tb by simp
  show ?case
  proof (cases r)
    case None
    with tb inv show ?thesis by simp
  next
    case (Some kp)
    obtain k px where kp: "kp = (k, px)" by fastforce
    from try_buckets_Some [OF tb [unfolded Some kp] Suc.prems(2) assms(2)] have
      hit: "k \<in> set keys" "\<forall>u\<in>ex1. \<forall>i\<in>set (buckets u). \<not> ?ok (cands ! i)" by auto
    have "sampler_inv keys (st1\<lparr>saLast := k\<rparr>)" using inv hit(1) assms(4) by (auto simp: sampler_inv_def)
    moreover have "\<forall>u\<in>ex1. \<forall>i\<in>set (buckets u). \<not> wanted known (insert (px_key px) selected) ph (cands ! i)"
      using hit(2) wanted_mono [of selected "insert (px_key px) selected"] by blast
    ultimately show ?thesis using Suc.IH tb Some kp by simp
  qed
qed simp


section \<open>Witnesses\<close>

definition feed_px :: "string \<Rightarrow> string \<Rightarrow> proxy" where
  "feed_px src host = proxy0\<lparr>pxIP := host, pxPort := ''80'', pxProtocol := ''http'', pxSourceName := src\<rparr>"

definition feed :: "proxy list" where
  "feed = [feed_px ''x'' ''c.example'', feed_px ''y'' ''b.example'', feed_px ''x'' ''a.example'']"

abbreviation every_px :: "proxy \<Rightarrow> bool" where
  "every_px \<equiv> \<lambda>_. True"

lemma feed_text:
  "canonicalProxyHost ''a.example'' = Inr ''a.example''" "canonicalProxyHost ''b.example'' = Inr ''b.example''"
  "canonicalProxyHost ''c.example'' = Inr ''c.example''" "isProxyProtocol ''http''"
  "to_lower (trim_space ''http'') = ''http''" "trim_space ''http'' = ''http''" "to_lower ''http'' = ''http''"
  "trim_space ''80'' = ''80''" "join_host_port ''a.example'' ''80'' = ''a.example:80''"
  "join_host_port ''b.example'' ''80'' = ''b.example:80''" "join_host_port ''c.example'' ''80'' = ''c.example:80''"
  by code_simp+

lemma feed_hosts:
  assumes "h \<in> {''a.example'', ''b.example'', ''c.example''}"
  shows "trim_space h = h" "h \<noteq> []" "parse_ip h = None" "trim_suffix ''.'' h = h" "to_lower h = h"
    "\<not> looksLikeIPv4Literal h" "validProxyHostname h" "length h = 9" "NUL \<notin> set h"
  using assms by (elim insertE emptyE; hypsubst; code_simp)+

lemma feed_port: "parse_uint 16 ''80'' = Some 80" "itoa 80 = ''80''"
  by (simp_all add: conv_eval)

lemma feed_keys:
  "px_key (feed_px src ''a.example'') = ''http://a.example:80''" "px_key (feed_px src ''b.example'') = ''http://b.example:80''"
  "px_key (feed_px src ''c.example'') = ''http://c.example:80''"
  unfolding px_key_def canonicalProxyEndpointKey_def Let_def feed_px_def proxy0_def
  by (simp_all add: feed_text feed_port)

lemma feed_sound: "sound_feed every_px feed"
  by (simp add: sound_feed_def feed_def feed_keys feed_hosts) (simp add: feed_px_def proxy0_def feed_hosts)

lemma feed_storable: "\<forall>px\<in>set feed. every_px px \<longrightarrow> storable px"
proof -
  have "storable (feed_px src h)" if "h \<in> {''a.example'', ''b.example'', ''c.example''}" "src = ''x'' \<or> src = ''y''" for src h
  proof -
    have "control_free src" using that(2) by (auto simp: control_free_def byte_of_def)
    then show ?thesis using that(2)
      by (auto simp: storable_def normalizeProxy_def Let_def feed_px_def proxy0_def feed_text feed_port feed_hosts [OF that(1)]
          maxSourceAddressBytes_def maxSourceNameBytes_def)
  qed
  then show ?thesis by (simp add: feed_def)
qed

lemma feed_buckets:
  "length (lines_of feed every_px {} fresh_sampler) = 2" "length (bucket_keys every_px feed) = 2" "length feed = 3"
  by code_simp+

lemma candidateCursorLess_key_witness:
  "candidateCursorLess (feed_px ''x'' ''a.example'') (feed_px ''x'' ''b.example'') =
   (candidateCursorKey (feed_px ''x'' ''a.example'') < candidateCursorKey (feed_px ''x'' ''b.example''))"
  by (rule candidateCursorLess_key) (simp_all add: feed_px_def proxy0_def)

lemma sampler_select_spec_witness:
  "int (length (snd (selectCandidatesWhere feed {} 5 every_px fresh_sampler))) \<le> 5 \<and>
   px_key ` set (snd (selectCandidatesWhere feed {} 5 every_px fresh_sampler)) = px_key ` set feed"
proof -
  have 5: "0 < (5 :: int)" by simp
  from sampler_select_spec [OF prod.collapse [symmetric] 5, of feed "{}" every_px fresh_sampler]
  obtain unseen where
    o: "int (length (snd (selectCandidatesWhere feed {} 5 every_px fresh_sampler))) \<le> 5"
      "distinct (map px_key (snd (selectCandidatesWhere feed {} 5 every_px fresh_sampler)))"
      "set (snd (selectCandidatesWhere feed {} 5 every_px fresh_sampler)) \<subseteq> set feed"
      "int (length (snd (selectCandidatesWhere feed {} 5 every_px fresh_sampler))) < 5 \<longrightarrow>
         px_key ` set feed = px_key ` set (snd (selectCandidatesWhere feed {} 5 every_px fresh_sampler))"
    by auto
  have "length (map px_key (snd (selectCandidatesWhere feed {} 5 every_px fresh_sampler))) \<le> card (px_key ` set feed)"
    using distinct_card [OF o(2)] card_mono [OF _ image_mono [OF o(3)], of px_key] by simp
  also have "\<dots> \<le> 3" using card_image_le [of "set feed" px_key] card_length [of feed] feed_buckets(3) by simp
  finally show ?thesis using o(1, 4) by simp
qed




end
