(* ===== verification/Catalog.thy ===== *)
theory Catalog
  imports SocksDial Sampler
begin

text \<open>
  The candidate catalog: the snapshot of candidate_catalog.go with its interned dictionaries,
  the binary search for a key, the reconstruction of a node from its record, the pending
  predicate and the source facets, and the validator of candidatecache.go.

  A dictionary identifier, an offset or a count is a natural number; the code keeps them in 8,
  16 and 32 bits. The validator bounds each of them far below its width, which is what the
  codec of CatalogCodec relies on. A time is its number of nanoseconds, and \<open>None\<close> the
  zero time. A Go index out of range panics; the validator excludes it.
\<close>

section \<open>Snapshot\<close>

type_synonym CandidateStatus = u8

abbreviation candidateDeferred :: CandidateStatus where "candidateDeferred \<equiv> 0"
abbreviation candidateCheckedFailed :: CandidateStatus where "candidateCheckedFailed \<equiv> 1"
abbreviation candidatePolicyFiltered :: CandidateStatus where "candidatePolicyFiltered \<equiv> 2"
abbreviation candidateKnownAvailable :: CandidateStatus where "candidateKnownAvailable \<equiv> 3"
abbreviation candidateKnownUnavailable :: CandidateStatus where "candidateKnownUnavailable \<equiv> 4"
abbreviation candidateResource :: CandidateStatus where "candidateResource \<equiv> 5"

definition status_string :: "CandidateStatus \<Rightarrow> string" where
  "status_string s =
     (if s = candidateCheckedFailed then ''checked_failed''
      else if s = candidatePolicyFiltered then ''policy_filtered''
      else if s = candidateKnownAvailable then ''known_available''
      else if s = candidateKnownUnavailable then ''known_unavailable''
      else if s = candidateResource then ''resource''
      else ''deferred'')"

type_synonym FailureKind = u8

abbreviation failureUnreachable :: FailureKind where "failureUnreachable \<equiv> 1"
abbreviation failurePolicyFiltered :: FailureKind where "failurePolicyFiltered \<equiv> 2"

definition kind_string :: "FailureKind \<Rightarrow> string" where
  "kind_string k = (if k = failurePolicyFiltered then ''policy_filtered'' else ''unreachable'')"

definition failedCandidateRetryable :: "FailureKind \<Rightarrow> bool" where
  "failedCandidateRetryable k \<longleftrightarrow> k = failurePolicyFiltered"

record crec =
  rcAddr :: string
  rcUsername :: string
  rcPassword :: string
  rcSourceOffset :: nat
  rcCountryID :: nat
  rcCityID :: nat
  rcProtocolID :: nat
  rcSourceCount :: nat
  rcContinent :: u8
  rcStatus :: CandidateStatus
  rcHasAuth :: bool
  rcSeenUnix :: u64
  rcCheckedUnix :: u64
  rcAltOffset :: nat
  rcAltCount :: nat

record cfail =
  flRecord :: crec
  flKind :: FailureKind
  flError :: string

record snapshot =
  snRecords :: "crec list"
  snFailed :: "cfail list"
  snAlts :: "credential list"
  snRefs :: "nat list"
  snKeys :: "string list"
  snSources :: "string list"
  snProtocols :: "string list"
  snCountries :: "string list"
  snCities :: "string list"
  snSourceTotals :: "nat list"
  snFacetValues :: "string list"
  snFacetTotals :: "nat list"
  snProtocolTotals :: "nat list"
  snGeneration :: u64
  snRevision :: u64
  snPhase :: string
  snSourceErrors :: int
  snSeenAt :: "u64 option"
  snRefreshAttempt :: "u64 option"
  snCompletedAt :: "u64 option"

definition countRetryableFailedRecords :: "cfail list \<Rightarrow> nat \<times> nat" where
  "countRetryableFailedRecords fs =
     (length (filter (\<lambda>f. failedCandidateRetryable (flKind f)) fs),
      length (filter (\<lambda>f. \<not> failedCandidateRetryable (flKind f) \<and> flKind f = failureUnreachable) fs))"

definition rc_protocol :: "snapshot \<Rightarrow> crec \<Rightarrow> string" where
  "rc_protocol s r = snProtocols s ! rcProtocolID r"

text \<open>The expression \<open>protocols[record.protocolID] + "://" + record.addr\<close>.\<close>

definition rc_key :: "snapshot \<Rightarrow> crec \<Rightarrow> string" where
  "rc_key s r = rc_protocol s r @ ''://'' @ rcAddr r"

text \<open>The references of a record, the slice \<open>sourceRefs[offset : offset + count]\<close>.\<close>

definition rc_refs :: "snapshot \<Rightarrow> crec \<Rightarrow> nat list" where
  "rc_refs s r = map (\<lambda>i. snRefs s ! (rcSourceOffset r + i)) [0..<rcSourceCount r]"

definition rc_keys :: "snapshot \<Rightarrow> crec \<Rightarrow> string list" where
  "rc_keys s r = map ((!) (snKeys s)) (rc_refs s r)"

definition compareCandidateRecords :: "snapshot \<Rightarrow> crec \<Rightarrow> snapshot \<Rightarrow> crec \<Rightarrow> int" where
  "compareCandidateRecords sa a sb b =
     (if rc_protocol sa a < rc_protocol sb b then - 1
      else if rc_protocol sb b < rc_protocol sa a then 1
      else if rcAddr a < rcAddr b then - 1
      else if rcAddr b < rcAddr a then 1
      else 0)"

section \<open>Binary search\<close>

definition find_record :: "snapshot \<Rightarrow> crec list \<Rightarrow> string \<Rightarrow> string \<Rightarrow> nat option" where
  "find_record s rs protocol addr =
     (let idx = go_search (length rs) (\<lambda>i. let p = rc_protocol s (rs ! i)
                                        in protocol < p \<or> p = protocol \<and> addr \<le> rcAddr (rs ! i))
      in if idx < length rs \<and> rc_protocol s (rs ! idx) = protocol \<and> rcAddr (rs ! idx) = addr then Some idx
         else None)"

definition snap_find :: "snapshot \<Rightarrow> string \<Rightarrow> string \<Rightarrow> nat option" where
  "snap_find s protocol addr = find_record s (snRecords s) protocol addr"

definition snap_findFailed :: "snapshot \<Rightarrow> string \<Rightarrow> string \<Rightarrow> nat option" where
  "snap_findFailed s protocol addr = find_record s (map flRecord (snFailed s)) protocol addr"

section \<open>From a record to a node\<close>

definition decodeContinent :: "u8 \<Rightarrow> string" where
  "decodeContinent v =
     (if v = 1 then ''AS'' else if v = 2 then ''NA'' else if v = 3 then ''EU''
      else if v = 4 then ''AF'' else if v = 5 then ''SA'' else if v = 6 then ''OC''
      else if v = 7 then ''AN'' else [])"

definition encodeContinent :: "string \<Rightarrow> u8" where
  "encodeContinent value =
     (let v = to_upper (trim_space value)
      in if v = ''AS'' then 1 else if v = ''NA'' then 2 else if v = ''EU'' then 3
         else if v = ''AF'' then 4 else if v = ''SA'' then 5 else if v = ''OC'' then 6
         else if v = ''AN'' then 7 else 0)"

definition normalizedCandidateCountry :: "string \<Rightarrow> string" where
  "normalizedCandidateCountry value =
     (let v = trim_space value
      in if length v \<noteq> 2 then []
         else if list_all (\<lambda>c. is_lower c \<or> is_upper c) v then to_upper v else [])"

definition legacySourceKey :: "string \<Rightarrow> string" where
  "legacySourceKey name = ''legacy-name:'' @ trim_space name"

definition copyCredentialAlternates :: "snapshot \<Rightarrow> crec \<Rightarrow> credential list" where
  "copyCredentialAlternates s r =
     (if rcAltCount r = 0 then []
      else if length (snAlts s) < rcAltOffset r + rcAltCount r then []
      else take (rcAltCount r) (drop (rcAltOffset r) (snAlts s)))"

definition source_names_of :: "snapshot \<Rightarrow> crec \<Rightarrow> string list" where
  "source_names_of s r =
     filter (\<lambda>n. trim_space n \<noteq> [] \<and> \<not> equal_fold n ''Unknown'') (map ((!) (snSources s)) (rc_refs s r))"

definition source_ids_of :: "snapshot \<Rightarrow> crec \<Rightarrow> string list" where
  "source_ids_of s r = filter (\<lambda>k. \<not> has_prefix ''legacy-name:'' k) (rc_keys s r)"

definition candidateProxyFromRecord :: "snapshot \<Rightarrow> crec \<Rightarrow> proxy option" where
  "candidateProxyFromRecord s r =
     (if rc_protocol s r = ''proxyip'' then None
      else case split_host_port (rcAddr r) of
          None \<Rightarrow> None
        | Some (host, port) \<Rightarrow>
            (let names = sort (source_names_of s r)
             in Some (proxy0\<lparr> pxIP := host, pxPort := port, pxProtocol := rc_protocol s r,
                  pxUsername := rcUsername r, pxPassword := rcPassword r,
                  pxCountry := snCountries s ! rcCountryID r, pxCity := snCities s ! rcCityID r,
                  pxContinent := decodeContinent (rcContinent r),
                  pxSourceNames := names, pxSourceIDs := sort (source_ids_of s r),
                  pxSourceName := (case names of [] \<Rightarrow> [] | n # _ \<Rightarrow> n),
                  pxAlternates := copyCredentialAlternates s r \<rparr>)))"

text \<open>\<open>strings.Cut(key, "://")\<close> with both halves present, then the lookup.\<close>

definition candidateProxyByKey :: "snapshot \<Rightarrow> string \<Rightarrow> proxy option" where
  "candidateProxyByKey s key =
     (case cut ''://'' key of
        None \<Rightarrow> None
      | Some (protocol, addr) \<Rightarrow>
          if protocol = [] \<or> addr = [] then None
          else case snap_find s (to_lower protocol) addr of
              None \<Rightarrow> None
            | Some i \<Rightarrow> candidateProxyFromRecord s (snRecords s ! i))"

definition failedCandidateProxyByKey :: "snapshot \<Rightarrow> string \<Rightarrow> proxy option" where
  "failedCandidateProxyByKey s key =
     (case cut ''://'' key of
        None \<Rightarrow> None
      | Some (protocol, addr) \<Rightarrow>
          if protocol = [] \<or> addr = [] then None
          else case snap_findFailed s (to_lower protocol) addr of
              None \<Rightarrow> None
            | Some i \<Rightarrow> candidateProxyFromRecord s (flRecord (snFailed s ! i)))"

section \<open>Membership of the pool\<close>

type_synonym known_index = "(string \<times> string) \<rightharpoonup> bool"

fun known_add :: "proxy list \<Rightarrow> ((string \<times> string) \<times> bool) list \<Rightarrow> ((string \<times> string) \<times> bool) list" where
  "known_add [] m = m"
| "known_add (px # ps) m = known_add ps (aput (pxProtocol px, px_addr px) (pxAvailable px) m)"

definition fnv_prime :: u64 where "fnv_prime = 1099511628211"

definition fnv_offset :: u64 where "fnv_offset = 14695981039346656037"

definition fnv_string :: "u64 \<Rightarrow> string \<Rightarrow> u64" where
  "fnv_string h v = foldl (\<lambda>h c. xor h (word_of_nat (byte_of c)) * fnv_prime) h v * fnv_prime"

definition fnv_entry :: "u64 \<Rightarrow> (string \<times> string) \<times> bool \<Rightarrow> u64" where
  "fnv_entry h e =
     (case e of ((protocol, addr), available) \<Rightarrow>
        (let h = fnv_string (fnv_string h protocol) addr
         in (if available then xor h 1 else h) * fnv_prime))"

definition candidateKnownSnapshot :: "proxy list \<Rightarrow> known_index \<times> u64" where
  "candidateKnownSnapshot proxies =
     (let m = known_add proxies []
      in (map_of m, foldl fnv_entry fnv_offset (slice_sort (\<lambda>a b. fst a < fst b) m)))"

definition knownCandidateStatus :: "known_index \<Rightarrow> string \<Rightarrow> string \<Rightarrow> CandidateStatus \<times> bool" where
  "knownCandidateStatus known protocol addr =
     (case known (protocol, addr) of
        None \<Rightarrow> (candidateDeferred, False)
      | Some available \<Rightarrow> (if available then candidateKnownAvailable else candidateKnownUnavailable, True))"

definition candidatePendingRecord :: "snapshot \<Rightarrow> crec \<Rightarrow> known_index \<Rightarrow> bool" where
  "candidatePendingRecord s r known \<longleftrightarrow>
     \<not> (rcStatus r \<noteq> candidateDeferred \<or> rc_protocol s r = ''proxyip'') \<and>
     \<not> snd (knownCandidateStatus known (rc_protocol s r) (rcAddr r))"

definition candidateRecordStatus :: "snapshot \<Rightarrow> crec \<Rightarrow> known_index \<Rightarrow> CandidateStatus" where
  "candidateRecordStatus s r known =
     (let protocol = rc_protocol s r
      in if protocol = ''proxyip'' then candidateResource
         else if rcStatus r = candidatePolicyFiltered \<or> rcStatus r = candidateCheckedFailed then rcStatus r
         else case knownCandidateStatus known protocol (rcAddr r) of
             (st, True) \<Rightarrow> st
           | (_, False) \<Rightarrow> rcStatus r)"

section \<open>Source facets\<close>

text \<open>
  rebuildCandidateSourceFacets: \<open>totals\<close> and \<open>displays\<close> are one association list, keyed by the
  folded display name. \<open>seen\<close> is the set marked with the epoch of the current record.
\<close>

type_synonym facets = "(string \<times> (nat \<times> string)) list"

fun facet_refs :: "snapshot \<Rightarrow> nat list \<Rightarrow> string list \<Rightarrow> facets \<Rightarrow> facets" where
  "facet_refs s [] seen fs = fs"
| "facet_refs s (ref # refs) seen fs =
     (let display = snSources s ! ref; folded = to_lower display
      in if folded \<in> set seen then facet_refs s refs seen fs
         else let (total, previous) = (case map_of fs folded of None \<Rightarrow> (0, []) | Some v \<Rightarrow> v);
                  shown = (if previous = [] \<or> display < previous then display else previous)
              in facet_refs s refs (folded # seen) (aput folded (total + 1, shown) fs))"

fun facet_records :: "snapshot \<Rightarrow> crec list \<Rightarrow> facets \<Rightarrow> facets" where
  "facet_records s [] fs = fs"
| "facet_records s (r # rs) fs = facet_records s rs (facet_refs s (rc_refs s r) [] fs)"

definition facet_less :: "string \<times> (nat \<times> string) \<Rightarrow> string \<times> (nat \<times> string) \<Rightarrow> bool" where
  "facet_less a b \<longleftrightarrow>
     (if fst (snd a) \<noteq> fst (snd b) then fst (snd b) < fst (snd a) else snd (snd a) < snd (snd b))"

definition rebuildCandidateSourceFacets :: "snapshot \<Rightarrow> snapshot" where
  "rebuildCandidateSourceFacets s =
     (let fs = slice_sort facet_less (facet_records s (snRecords s @ map flRecord (snFailed s)) [])
      in s\<lparr>snFacetValues := map (snd \<circ> snd) fs, snFacetTotals := map (fst \<circ> snd) fs\<rparr>)"

section \<open>Validation\<close>

definition maxCacheStringBytes :: nat where "maxCacheStringBytes = 96 * 2 ^ 20"
definition maxCacheStringLength :: nat where "maxCacheStringLength = 16 * 2 ^ 10"
definition maxCacheRecords :: nat where "maxCacheRecords = 1200000"
definition maxCacheSourceRefs :: nat where "maxCacheSourceRefs = 4800000"
definition maxCacheSources :: nat where "maxCacheSources = 16384"
definition maxCacheProtocols :: nat where "maxCacheProtocols = 64"
definition maxCacheCountries :: nat where "maxCacheCountries = 1024"
definition maxCacheCities :: nat where "maxCacheCities = 600000"
definition maxAlternatesPerCandidate :: nat where "maxAlternatesPerCandidate = 16"
definition maxCacheCredentialAlts :: nat where
  "maxCacheCredentialAlts = 1200000 * maxAlternatesPerCandidate"
definition maxFailureErrorLength :: nat where "maxFailureErrorLength = 512"

lemmas cache_limits = maxCacheStringBytes_def maxCacheStringLength_def maxCacheRecords_def
  maxCacheSourceRefs_def maxCacheSources_def maxCacheProtocols_def maxCacheCountries_def
  maxCacheCities_def maxAlternatesPerCandidate_def maxCacheCredentialAlts_def maxFailureErrorLength_def

datatype snapshot_error =
    InvalidGeneration | InvalidPhase | InvalidSourceErrors | TooManyRecords | TooManyRefs
  | TooManyAlternates | InvalidAlternate | UnalignedSources | InvalidProtocols | InvalidCountries
  | InvalidCities | InvalidSource | InvalidProtocolEntry | InvalidReference
  | InvalidAddress | InvalidCredential | InvalidAltCount | InvalidAltRange | AuthFlagMismatch
  | InvalidHostPort | InvalidPortNumber | DictionaryRange | SourceRange | SourcesUnsorted
  | InvalidState | FailureStatusPending | RecordsUnsorted
  | InvalidFailureKind | FailureErrorTooLong | InvalidFailedStatus | FailedUnsorted

definition source_entry_ok :: "string \<Rightarrow> string \<Rightarrow> bool" where
  "source_entry_ok key label \<longleftrightarrow> trim_space key \<noteq> [] \<and> length key \<le> maxCacheStringLength \<and>
     length label \<le> maxCacheStringLength"

text \<open>The loop over the source keys of a record, with \<open>previousSourceKey\<close>.\<close>

fun keys_increase :: "string list \<Rightarrow> bool" where
  "keys_increase [] = True"
| "keys_increase [k] = True"
| "keys_increase (k # k' # ks) = (\<not> k' \<le> k \<and> keys_increase (k' # ks))"

definition credential_set :: "credential \<Rightarrow> bool" where
  "credential_set c \<longleftrightarrow> crUsername c \<noteq> [] \<or> crPassword c \<noteq> []"

definition credentialAlternatesHaveAuth :: "credential list \<Rightarrow> bool" where
  "credentialAlternatesHaveAuth cs \<longleftrightarrow> list_ex credential_set cs"

definition validateRecord :: "snapshot \<Rightarrow> crec \<Rightarrow> snapshot_error option" where
  "validateRecord s r =
     (if rcAddr r = [] \<or> maxCacheStringLength < length (rcAddr r) then Some InvalidAddress
      else if maxCacheStringLength < length (rcUsername r) \<or> maxCacheStringLength < length (rcPassword r)
        then Some InvalidCredential
      else if maxAlternatesPerCandidate < rcAltCount r then Some InvalidAltCount
      else if length (snAlts s) < rcAltOffset r + rcAltCount r then Some InvalidAltRange
      else if (rcUsername r \<noteq> [] \<or> rcPassword r \<noteq> [] \<or>
               credentialAlternatesHaveAuth (take (rcAltCount r) (drop (rcAltOffset r) (snAlts s)))) \<and>
              \<not> rcHasAuth r
        then Some AuthFlagMismatch
      else case split_host_port (rcAddr r) of
          None \<Rightarrow> Some InvalidHostPort
        | Some (host, port) \<Rightarrow>
            if host = [] then Some InvalidHostPort
            else if (case parse_uint 16 port of None \<Rightarrow> True | Some n \<Rightarrow> n = 0) then Some InvalidPortNumber
            else if length (snProtocols s) \<le> rcProtocolID r \<or> length (snCountries s) \<le> rcCountryID r \<or>
                    length (snCities s) \<le> rcCityID r then Some DictionaryRange
            else if rcSourceCount r = 0 \<or> length (snSources s) < rcSourceCount r \<or>
                    length (snRefs s) < rcSourceOffset r + rcSourceCount r then Some SourceRange
            else if \<not> keys_increase (rc_keys s r) then Some SourcesUnsorted
            else if 7 < rcContinent r \<or> candidateResource < rcStatus r then Some InvalidState
            else None)"

text \<open>The two loops with their \<open>previous\<close> record.\<close>

fun validatePending :: "snapshot \<Rightarrow> crec option \<Rightarrow> crec list \<Rightarrow> snapshot_error option" where
  "validatePending s prev [] = None"
| "validatePending s prev (r # rs) =
     (if rcStatus r = candidateCheckedFailed \<or> rcStatus r = candidatePolicyFiltered
      then Some FailureStatusPending
      else case validateRecord s r of
          Some e \<Rightarrow> Some e
        | None \<Rightarrow>
            if (case prev of None \<Rightarrow> False | Some q \<Rightarrow> 0 \<le> compareCandidateRecords s q s r)
            then Some RecordsUnsorted
            else validatePending s (Some r) rs)"

fun validateFailed :: "snapshot \<Rightarrow> crec option \<Rightarrow> cfail list \<Rightarrow> snapshot_error option" where
  "validateFailed s prev [] = None"
| "validateFailed s prev (f # fs) =
     (if flKind f \<noteq> failureUnreachable \<and> flKind f \<noteq> failurePolicyFiltered then Some InvalidFailureKind
      else if maxFailureErrorLength < length (flError f) then Some FailureErrorTooLong
      else if rcStatus (flRecord f) \<noteq> candidateDeferred then Some InvalidFailedStatus
      else case validateRecord s (flRecord f) of
          Some e \<Rightarrow> Some e
        | None \<Rightarrow>
            if (case prev of None \<Rightarrow> False | Some q \<Rightarrow> 0 \<le> compareCandidateRecords s q s (flRecord f))
            then Some FailedUnsorted
            else validateFailed s (Some (flRecord f)) fs)"

definition validateDictionaries :: "snapshot \<Rightarrow> snapshot_error option" where
  "validateDictionaries s =
     (if snGeneration s = 0 \<or> snGeneration s = - 1 \<or> snRevision s = 0 then Some InvalidGeneration
      else if snPhase s \<noteq> ''complete'' \<and> snPhase s \<noteq> ''partial'' then Some InvalidPhase
      else if snSourceErrors s < 0 \<or> int maxCacheSources < snSourceErrors s then Some InvalidSourceErrors
      else if maxCacheRecords < length (snRecords s) + length (snFailed s) then Some TooManyRecords
      else if maxCacheSourceRefs < length (snRefs s) then Some TooManyRefs
      else if maxCacheCredentialAlts < length (snAlts s) then Some TooManyAlternates
      else if list_ex (\<lambda>c. maxCacheStringLength < length (crUsername c) \<or>
                           maxCacheStringLength < length (crPassword c)) (snAlts s) then Some InvalidAlternate
      else if length (snKeys s) \<noteq> length (snSources s) \<or> maxCacheSources < length (snSources s)
        then Some UnalignedSources
      else if maxCacheProtocols < length (snProtocols s) \<or>
              0 < length (snRecords s) + length (snFailed s) \<and> snProtocols s = [] then Some InvalidProtocols
      else if snCountries s = [] \<or> maxCacheCountries < length (snCountries s) \<or> hd (snCountries s) \<noteq> []
        then Some InvalidCountries
      else if snCities s = [] \<or> maxCacheCities < length (snCities s) \<or> hd (snCities s) \<noteq> []
        then Some InvalidCities
      else if \<not> list_all (\<lambda>(k, l). source_entry_ok k l) (zip (snKeys s) (snSources s)) then Some InvalidSource
      else if \<not> list_all isProxyProtocol (snProtocols s) then Some InvalidProtocolEntry
      else if \<not> list_all (\<lambda>ref. ref < length (snSources s)) (snRefs s) then Some InvalidReference
      else None)"

definition validateCandidateSnapshot :: "snapshot \<Rightarrow> snapshot_error option" where
  "validateCandidateSnapshot s =
     (case validateDictionaries s of
        Some e \<Rightarrow> Some e
      | None \<Rightarrow>
          (case validatePending s None (snRecords s) of
             Some e \<Rightarrow> Some e
           | None \<Rightarrow> validateFailed s None (snFailed s)))"

section \<open>Loading\<close>

definition public_record :: "snapshot \<Rightarrow> crec \<Rightarrow> bool" where
  "public_record s r =
     (let (host, port) = (case split_host_port (rcAddr r) of None \<Rightarrow> ([], []) | Some hp \<Rightarrow> hp);
          ip = parse_ip host; protocol = rc_protocol s r
      in (case ip of None \<Rightarrow> True | Some a \<Rightarrow> isPublicInternetIP a) \<and>
         (protocol \<noteq> ''proxyip'' \<or> ip \<noteq> None \<and> port = ''443'') \<and>
         (protocol = ''proxyip'' \<or> (case ip of None \<Rightarrow> True | Some a \<Rightarrow> \<not> isUnusableForwardingEndpointIP a)))"

definition filterNonPublicCandidateRecords :: "snapshot \<Rightarrow> snapshot \<times> nat" where
  "filterNonPublicCandidateRecords s =
     (let kept = filter (public_record s) (snRecords s);
          kept_failures = filter (\<lambda>f. public_record s (flRecord f)) (snFailed s)
      in (s\<lparr>snRecords := kept, snFailed := kept_failures\<rparr>,
          (length (snRecords s) - length kept) + (length (snFailed s) - length kept_failures)))"

definition bump :: "nat \<Rightarrow> nat list \<Rightarrow> nat list" where
  "bump i ns = ns[i := ns ! i + 1]"

definition count_record :: "snapshot \<Rightarrow> crec \<Rightarrow> snapshot \<Rightarrow> snapshot" where
  "count_record s r t =
     t\<lparr>snProtocolTotals := bump (rcProtocolID r) (snProtocolTotals t),
       snSourceTotals := foldl (\<lambda>ns ref. bump ref ns) (snSourceTotals t) (rc_refs s r)\<rparr>"

definition validateAndRebuildCandidateSnapshot :: "snapshot \<Rightarrow> snapshot_error + snapshot" where
  "validateAndRebuildCandidateSnapshot s =
     (case validateCandidateSnapshot s of
        Some e \<Rightarrow> Inl e
      | None \<Rightarrow>
          (let s = fst (filterNonPublicCandidateRecords s);
               s = s\<lparr>snSourceTotals := replicate (length (snSources s)) 0,
                     snProtocolTotals := replicate (length (snProtocols s)) 0\<rparr>;
               t = foldl (\<lambda>t r. count_record s r t) s (snRecords s @ map flRecord (snFailed s))
           in Inr (rebuildCandidateSourceFacets t)))"

section \<open>The order of the records\<close>

definition rc_pair :: "snapshot \<Rightarrow> crec \<Rightarrow> string \<times> string" where
  "rc_pair s r = (rc_protocol s r, rcAddr r)"

lemma compare_less: "compareCandidateRecords sa a sb b < 0 \<longleftrightarrow> rc_pair sa a < rc_pair sb b"
  and compare_greater: "0 < compareCandidateRecords sa a sb b \<longleftrightarrow> rc_pair sb b < rc_pair sa a"
  and compare_equal: "compareCandidateRecords sa a sb b = 0 \<longleftrightarrow> rc_pair sa a = rc_pair sb b"
  by (auto simp: compareCandidateRecords_def rc_pair_def not_less dest: order_antisym)

lemma compare_cases:
  "compareCandidateRecords sa a sb b = - 1 \<longleftrightarrow> rc_pair sa a < rc_pair sb b"
  "compareCandidateRecords sa a sb b = 1 \<longleftrightarrow> rc_pair sb b < rc_pair sa a"
  by (auto simp: compareCandidateRecords_def rc_pair_def not_less dest: order_antisym)

definition increasing :: "snapshot \<Rightarrow> crec list \<Rightarrow> bool" where
  "increasing s rs \<longleftrightarrow> sorted_wrt (<) (map (rc_pair s) rs)"

lemma increasing_distinct: "increasing s rs \<Longrightarrow> distinct (map (rc_pair s) rs)"
  by (simp add: increasing_def strict_sorted_iff)

lemma increasing_nth: "increasing s rs \<Longrightarrow> i < j \<Longrightarrow> j < length rs \<Longrightarrow> rc_pair s (rs ! i) < rc_pair s (rs ! j)"
  using sorted_wrt_nth_less [of "(<)" "map (rc_pair s) rs" i j] by (simp add: increasing_def)

lemma increasing_Cons:
  "increasing s (r # rs) \<longleftrightarrow> (\<forall>q\<in>set rs. rc_pair s r < rc_pair s q) \<and> increasing s rs"
  by (simp add: increasing_def)

lemma increasing_filter: "increasing s rs \<Longrightarrow> increasing s (filter P rs)"
  by (induction rs) (auto simp: increasing_Cons increasing_def)

lemma find_record_Some:
  assumes "increasing s rs"
  shows "find_record s rs protocol addr = Some i \<longleftrightarrow> i < length rs \<and> rc_pair s (rs ! i) = (protocol, addr)"
proof -
  define f where "f = (\<lambda>i. let p = rc_protocol s (rs ! i) in protocol < p \<or> p = protocol \<and> addr \<le> rcAddr (rs ! i))"
  define k where "k = go_search (length rs) f"
  have f: "f i \<longleftrightarrow> (protocol, addr) \<le> rc_pair s (rs ! i)" for i
    by (auto simp: f_def rc_pair_def Let_def)
  have mono: "f b" if "a \<le> b" "b < length rs" "f a" for a b
  proof (cases "a = b")
    case False
    then have "rc_pair s (rs ! a) < rc_pair s (rs ! b)" using increasing_nth [OF assms] that by simp
    then show ?thesis using that(3) unfolding f by order
  qed (use that in simp)
  have lo: "j < k \<Longrightarrow> \<not> f j" for j
    unfolding k_def by (rule go_search_spec(2) [where n = "length rs"]) (blast intro: mono)+
  have hi: "k < length rs \<Longrightarrow> f k"
    unfolding k_def by (rule go_search_spec(3) [where n = "length rs"]) (blast intro: mono)+
  have found: "i = k" if i: "i < length rs" "rc_pair s (rs ! i) = (protocol, addr)"
  proof (rule ccontr)
    assume neq: "i \<noteq> k"
    have "f i" using i f by simp
    then have less: "k < i" using lo neq by (meson nat_neq_iff)
    then have "f k" using hi i(1) by simp
    moreover have "rc_pair s (rs ! k) < rc_pair s (rs ! i)" using increasing_nth [OF assms less i(1)] .
    ultimately show False using i(2) unfolding f by order
  qed
  have "find_record s rs protocol addr =
      (if k < length rs \<and> rc_pair s (rs ! k) = (protocol, addr) then Some k else None)"
    by (simp add: find_record_def k_def f_def Let_def rc_pair_def)
  then show ?thesis using found by auto
qed

lemma find_record_None:
  assumes "increasing s rs"
  shows "find_record s rs protocol addr = None \<longleftrightarrow> (protocol, addr) \<notin> rc_pair s ` set rs"
proof -
  have "find_record s rs protocol addr = None \<longleftrightarrow> (\<forall>i. find_record s rs protocol addr \<noteq> Some i)" by auto
  also have "\<dots> \<longleftrightarrow> (protocol, addr) \<notin> rc_pair s ` set rs"
    unfolding find_record_Some [OF assms] by (metis (mono_tags, lifting) imageE imageI in_set_conv_nth nth_mem)
  finally show ?thesis .
qed

section \<open>What the validator establishes\<close>

definition pending_ok :: "snapshot \<Rightarrow> crec \<Rightarrow> bool" where
  "pending_ok s r \<longleftrightarrow> rcStatus r \<noteq> candidateCheckedFailed \<and> rcStatus r \<noteq> candidatePolicyFiltered \<and>
     validateRecord s r = None"

definition failed_ok :: "snapshot \<Rightarrow> cfail \<Rightarrow> bool" where
  "failed_ok s f \<longleftrightarrow> (flKind f = failureUnreachable \<or> flKind f = failurePolicyFiltered) \<and>
     length (flError f) \<le> maxFailureErrorLength \<and> rcStatus (flRecord f) = candidateDeferred \<and>
     validateRecord s (flRecord f) = None"

lemma increasing_step:
  "(case prev of None \<Rightarrow> True | Some q \<Rightarrow> rc_pair s q < rc_pair s r) \<Longrightarrow>
   increasing s (r # rs) \<longleftrightarrow>
     increasing s ((case prev of None \<Rightarrow> [] | Some q \<Rightarrow> [q]) @ r # rs)"
  by (cases prev) (auto simp: increasing_Cons intro: less_trans)

lemma validatePending_None:
  "validatePending s prev rs = None \<longleftrightarrow>
     list_all (pending_ok s) rs \<and>
     (case prev of None \<Rightarrow> increasing s rs | Some q \<Rightarrow> increasing s (q # rs))"
proof (induction s prev rs rule: validatePending.induct)
  case (1 s prev)
  then show ?case by (cases prev) (simp_all add: increasing_def)
next
  case (2 s prev r rs)
  show ?case
  proof (cases "pending_ok s r")
    case True
    have "increasing s (q # r # rs) \<longleftrightarrow> rc_pair s q < rc_pair s r \<and> increasing s (r # rs)" for q
      by (auto simp: increasing_Cons intro: less_trans)
    then show ?thesis using True 2
      by (cases prev) (auto simp: pending_ok_def not_le compare_less [symmetric])
  next
    case False
    then show ?thesis by (auto simp: pending_ok_def split: option.splits)
  qed
qed

lemma validateFailed_None:
  "validateFailed s prev fs = None \<longleftrightarrow>
     list_all (failed_ok s) fs \<and>
     (case prev of None \<Rightarrow> increasing s (map flRecord fs) | Some q \<Rightarrow> increasing s (q # map flRecord fs))"
proof (induction s prev fs rule: validateFailed.induct)
  case (1 s prev)
  then show ?case by (cases prev) (simp_all add: increasing_def)
next
  case (2 s prev f fs)
  show ?case
  proof (cases "failed_ok s f")
    case True
    have "increasing s (q # flRecord f # map flRecord fs) \<longleftrightarrow>
        rc_pair s q < rc_pair s (flRecord f) \<and> increasing s (flRecord f # map flRecord fs)" for q
      by (auto simp: increasing_Cons intro: less_trans)
    then show ?thesis using True 2
      by (cases prev) (auto simp: failed_ok_def not_le compare_less [symmetric])
  next
    case False
    then show ?thesis by (auto simp: failed_ok_def split: option.splits)
  qed
qed

lemma validate_iff:
  "validateCandidateSnapshot s = None \<longleftrightarrow>
     validateDictionaries s = None \<and> list_all (pending_ok s) (snRecords s) \<and> increasing s (snRecords s) \<and>
     list_all (failed_ok s) (snFailed s) \<and> increasing s (map flRecord (snFailed s))"
  using validatePending_None [of s None "snRecords s"] validateFailed_None [of s None "snFailed s"]
  by (cases "validatePending s None (snRecords s)"; cases "validateDictionaries s")
    (auto simp: validateCandidateSnapshot_def)

lemma validateDictionaries_None:
  "validateDictionaries s = None \<longleftrightarrow>
     snGeneration s \<noteq> 0 \<and> snGeneration s \<noteq> - 1 \<and> snRevision s \<noteq> 0 \<and>
     (snPhase s = ''complete'' \<or> snPhase s = ''partial'') \<and>
     0 \<le> snSourceErrors s \<and> snSourceErrors s \<le> int maxCacheSources \<and>
     length (snRecords s) + length (snFailed s) \<le> maxCacheRecords \<and>
     length (snRefs s) \<le> maxCacheSourceRefs \<and> length (snAlts s) \<le> maxCacheCredentialAlts \<and>
     list_all (\<lambda>c. length (crUsername c) \<le> maxCacheStringLength \<and>
                   length (crPassword c) \<le> maxCacheStringLength) (snAlts s) \<and>
     length (snKeys s) = length (snSources s) \<and> length (snSources s) \<le> maxCacheSources \<and>
     length (snProtocols s) \<le> maxCacheProtocols \<and>
     (0 < length (snRecords s) + length (snFailed s) \<longrightarrow> snProtocols s \<noteq> []) \<and>
     snCountries s \<noteq> [] \<and> length (snCountries s) \<le> maxCacheCountries \<and> hd (snCountries s) = [] \<and>
     snCities s \<noteq> [] \<and> length (snCities s) \<le> maxCacheCities \<and> hd (snCities s) = [] \<and>
     list_all (\<lambda>(k, l). source_entry_ok k l) (zip (snKeys s) (snSources s)) \<and>
     list_all isProxyProtocol (snProtocols s) \<and> list_all (\<lambda>ref. ref < length (snSources s)) (snRefs s)"
proof -
  have *: "list_ex (\<lambda>c. maxCacheStringLength < length (crUsername c) \<or>
      maxCacheStringLength < length (crPassword c)) (snAlts s) \<longleftrightarrow>
    \<not> list_all (\<lambda>c. length (crUsername c) \<le> maxCacheStringLength \<and>
      length (crPassword c) \<le> maxCacheStringLength) (snAlts s)"
    by (auto simp: list_ex_iff list_all_iff) (meson not_le)+
  show ?thesis unfolding validateDictionaries_def * by (auto simp: not_less simp del: list_all_iff)
qed

lemma validateRecord_None:
  "validateRecord s r = None \<longleftrightarrow>
     rcAddr r \<noteq> [] \<and> length (rcAddr r) \<le> maxCacheStringLength \<and>
     length (rcUsername r) \<le> maxCacheStringLength \<and> length (rcPassword r) \<le> maxCacheStringLength \<and>
     rcAltCount r \<le> maxAlternatesPerCandidate \<and> rcAltOffset r + rcAltCount r \<le> length (snAlts s) \<and>
     ((rcUsername r \<noteq> [] \<or> rcPassword r \<noteq> [] \<or>
       credentialAlternatesHaveAuth (take (rcAltCount r) (drop (rcAltOffset r) (snAlts s)))) \<longrightarrow> rcHasAuth r) \<and>
     (\<exists>host port n. split_host_port (rcAddr r) = Some (host, port) \<and> host \<noteq> [] \<and>
        parse_uint 16 port = Some n \<and> n \<noteq> 0) \<and>
     rcProtocolID r < length (snProtocols s) \<and> rcCountryID r < length (snCountries s) \<and>
     rcCityID r < length (snCities s) \<and>
     rcSourceCount r \<noteq> 0 \<and> rcSourceCount r \<le> length (snSources s) \<and>
     rcSourceOffset r + rcSourceCount r \<le> length (snRefs s) \<and> keys_increase (rc_keys s r) \<and>
     rcContinent r \<le> 7 \<and> rcStatus r \<le> candidateResource"
  unfolding validateRecord_def
  by (auto split: option.splits if_splits simp: not_less not_le)

text \<open>The parts of a snapshot that the validation of one record reads.\<close>

lemma validateRecord_cong:
  assumes "snAlts t = snAlts s" "snProtocols t = snProtocols s" "snCountries t = snCountries s"
    "snCities t = snCities s" "snSources t = snSources s" "snRefs t = snRefs s" "snKeys t = snKeys s"
  shows "validateRecord t r = validateRecord s r" "rc_pair t r = rc_pair s r"
    "pending_ok t r = pending_ok s r" "failed_ok t f = failed_ok s f" "increasing t rs = increasing s rs"
proof -
  have keys: "rc_keys t r = rc_keys s r" for r by (simp add: rc_keys_def rc_refs_def assms)
  show valid: "validateRecord t r = validateRecord s r" for r
    unfolding validateRecord_def keys assms ..
  show pair: "rc_pair t r = rc_pair s r" for r by (simp add: rc_pair_def rc_protocol_def assms)
  show "pending_ok t r = pending_ok s r" "failed_ok t f = failed_ok s f" "increasing t rs = increasing s rs"
    by (simp_all add: pending_ok_def failed_ok_def valid increasing_def pair cong: map_cong)
qed

lemma public_record_cong: "snProtocols t = snProtocols s \<Longrightarrow> public_record t = public_record s"
  by (simp add: fun_eq_iff public_record_def rc_protocol_def)

lemma filter_valid:
  assumes "validateCandidateSnapshot s = None" "t = fst (filterNonPublicCandidateRecords s)"
  shows "validateCandidateSnapshot t = None"
proof -
  have fields: "snAlts t = snAlts s" "snProtocols t = snProtocols s" "snCountries t = snCountries s"
    "snCities t = snCities s" "snSources t = snSources s" "snRefs t = snRefs s" "snKeys t = snKeys s"
    and rs: "snRecords t = filter (public_record s) (snRecords s)"
    and fs: "snFailed t = filter (\<lambda>f. public_record s (flRecord f)) (snFailed s)"
    by (simp_all add: assms(2) filterNonPublicCandidateRecords_def Let_def)
  note cong = validateRecord_cong [OF fields]
  have len: "length (snRecords t) + length (snFailed t) \<le> length (snRecords s) + length (snFailed s)"
    by (simp add: rs fs add_mono)
  have "map flRecord (snFailed t) = filter (public_record s) (map flRecord (snFailed s))"
    by (simp add: fs filter_map comp_def)
  then have inc: "increasing t (snRecords t)" "increasing t (map flRecord (snFailed t))"
    using assms(1) by (simp_all add: validate_iff cong rs increasing_filter)
  have dict: "validateDictionaries t = None"
  proof -
    have d: "validateDictionaries s = None" using assms(1) by (simp add: validate_iff)
    have rest: "snGeneration t = snGeneration s" "snRevision t = snRevision s" "snPhase t = snPhase s"
      "snSourceErrors t = snSourceErrors s"
      by (simp_all add: assms(2) filterNonPublicCandidateRecords_def Let_def)
    have "0 < length (snRecords s) + length (snFailed s)" if "0 < length (snRecords t) + length (snFailed t)"
      using that len by linarith
    then show ?thesis using d len unfolding validateDictionaries_None fields rest by (meson le_trans)
  qed
  show ?thesis
    using assms(1) dict inc unfolding validate_iff
    by (auto simp: list_all_iff cong rs fs)
qed

lemma count_record_fields [simp]:
  "snRecords (count_record s r t) = snRecords t" "snFailed (count_record s r t) = snFailed t"
  "snAlts (count_record s r t) = snAlts t" "snRefs (count_record s r t) = snRefs t"
  "snKeys (count_record s r t) = snKeys t" "snSources (count_record s r t) = snSources t"
  "snProtocols (count_record s r t) = snProtocols t" "snCountries (count_record s r t) = snCountries t"
  "snCities (count_record s r t) = snCities t" "snGeneration (count_record s r t) = snGeneration t"
  "snRevision (count_record s r t) = snRevision t" "snPhase (count_record s r t) = snPhase t"
  "snSourceErrors (count_record s r t) = snSourceErrors t" "snSeenAt (count_record s r t) = snSeenAt t"
  "snRefreshAttempt (count_record s r t) = snRefreshAttempt t"
  "snCompletedAt (count_record s r t) = snCompletedAt t"
  by (simp_all add: count_record_def)

text \<open>The parts of a snapshot that are written to the cache; the totals and facets are derived.\<close>

definition cache_image :: "snapshot \<Rightarrow> snapshot" where
  "cache_image s = s\<lparr>snSourceTotals := [], snFacetValues := [], snFacetTotals := [], snProtocolTotals := []\<rparr>"

lemma image_fields [simp]:
  "snRecords (cache_image s) = snRecords s" "snFailed (cache_image s) = snFailed s"
  "snAlts (cache_image s) = snAlts s" "snRefs (cache_image s) = snRefs s"
  "snKeys (cache_image s) = snKeys s" "snSources (cache_image s) = snSources s"
  "snProtocols (cache_image s) = snProtocols s" "snCountries (cache_image s) = snCountries s"
  "snCities (cache_image s) = snCities s" "snGeneration (cache_image s) = snGeneration s"
  "snRevision (cache_image s) = snRevision s" "snPhase (cache_image s) = snPhase s"
  "snSourceErrors (cache_image s) = snSourceErrors s" "snSeenAt (cache_image s) = snSeenAt s"
  "snRefreshAttempt (cache_image s) = snRefreshAttempt s" "snCompletedAt (cache_image s) = snCompletedAt s"
  by (simp_all add: cache_image_def)

lemma image_count_record [simp]: "cache_image (count_record s r t) = cache_image t"
  by (simp add: cache_image_def count_record_def)

lemma image_rebuild [simp]: "cache_image (rebuildCandidateSourceFacets s) = cache_image s"
  by (simp add: cache_image_def rebuildCandidateSourceFacets_def Let_def)

lemma image_counts: "cache_image (foldl (\<lambda>t r. count_record s r t) t rs) = cache_image t"
  by (induction rs arbitrary: t) simp_all

lemma image_totals [simp]:
  "cache_image (s\<lparr>snSourceTotals := a, snProtocolTotals := b\<rparr>) = cache_image s" by (simp add: cache_image_def)

lemma image_eq_fields:
  assumes "cache_image s = cache_image t"
  shows "snRecords s = snRecords t" "snFailed s = snFailed t" "snAlts s = snAlts t" "snRefs s = snRefs t"
    "snKeys s = snKeys t" "snSources s = snSources t" "snProtocols s = snProtocols t"
    "snCountries s = snCountries t" "snCities s = snCities t" "snGeneration s = snGeneration t"
    "snRevision s = snRevision t" "snPhase s = snPhase t" "snSourceErrors s = snSourceErrors t"
    "snSeenAt s = snSeenAt t" "snRefreshAttempt s = snRefreshAttempt t" "snCompletedAt s = snCompletedAt t"
  using assms by (metis image_fields(1), metis image_fields(2), metis image_fields(3), metis image_fields(4),
    metis image_fields(5), metis image_fields(6), metis image_fields(7), metis image_fields(8),
    metis image_fields(9), metis image_fields(10), metis image_fields(11), metis image_fields(12),
    metis image_fields(13), metis image_fields(14), metis image_fields(15), metis image_fields(16))

lemma validate_image:
  assumes "cache_image s = cache_image t"
  shows "validateCandidateSnapshot s = validateCandidateSnapshot t"
proof -
  note eqs = image_eq_fields [OF assms]
  have keys: "rc_keys s = rc_keys t" by (simp add: rc_keys_def rc_refs_def eqs fun_eq_iff)
  have rec: "validateRecord s = validateRecord t"
    by (simp add: fun_eq_iff validateRecord_def keys eqs)
  have cmp: "compareCandidateRecords s a s b = compareCandidateRecords t a t b" for a b
    by (simp add: compareCandidateRecords_def rc_protocol_def eqs)
  have "validatePending s prev rs = validatePending t prev rs" for prev rs
    by (induction rs arbitrary: prev) (auto simp: rec cmp split: option.splits)
  moreover have "validateFailed s prev fs = validateFailed t prev fs" for prev fs
    by (induction fs arbitrary: prev) (auto simp: rec cmp split: option.splits)
  moreover have "validateDictionaries s = validateDictionaries t"
    unfolding validateDictionaries_def eqs ..
  ultimately show ?thesis by (simp add: validateCandidateSnapshot_def eqs split: option.split)
qed

lemma validateAndRebuild_image:
  assumes "validateAndRebuildCandidateSnapshot s = Inr t"
  shows "validateCandidateSnapshot s = None" "cache_image t = cache_image (fst (filterNonPublicCandidateRecords s))"
  using assms by (auto simp: validateAndRebuildCandidateSnapshot_def Let_def image_counts split: option.splits)

lemma validateAndRebuild_valid:
  "validateAndRebuildCandidateSnapshot s = Inr t \<Longrightarrow> validateCandidateSnapshot t = None"
  using validateAndRebuild_image validate_image filter_valid by metis

section \<open>A sample catalog\<close>

definition sample_record :: "string \<Rightarrow> crec" where
  "sample_record addr = \<lparr> rcAddr = addr, rcUsername = ''u'', rcPassword = ''p'', rcSourceOffset = 0,
     rcCountryID = 0, rcCityID = 0, rcProtocolID = 0, rcSourceCount = 1, rcContinent = 0,
     rcStatus = candidateDeferred, rcHasAuth = True, rcSeenUnix = 7, rcCheckedUnix = 0,
     rcAltOffset = 0, rcAltCount = 0 \<rparr>"

definition sample_snapshot :: snapshot where
  "sample_snapshot = \<lparr> snRecords = [sample_record ''a.example:80''],
     snFailed = [\<lparr> flRecord = sample_record ''b.example:80'', flKind = failurePolicyFiltered, flError = ''exit'' \<rparr>],
     snAlts = [], snRefs = [0], snKeys = [''feed''], snSources = [''Feed''], snProtocols = [''http''],
     snCountries = [[]], snCities = [[]], snSourceTotals = [2], snFacetValues = [''Feed''],
     snFacetTotals = [2], snProtocolTotals = [2], snGeneration = 1, snRevision = 1,
     snPhase = ''complete'', snSourceErrors = 0, snSeenAt = Some 5, snRefreshAttempt = Some 5,
     snCompletedAt = None \<rparr>"

lemma sample_split:
  "split_host_port ''a.example:80'' = Some (''a.example'', ''80'')"
  "split_host_port ''b.example:80'' = Some (''b.example'', ''80'')"
  by code_simp+

lemma sample_parse: "parse_uint 16 ''80'' = Some 80" "trim_space ''feed'' = ''feed''"
  by (simp add: conv_eval) code_simp

lemma sample_record_valid:
  "addr = ''a.example:80'' \<or> addr = ''b.example:80'' \<Longrightarrow> validateRecord sample_snapshot (sample_record addr) = None"
  unfolding validateRecord_None
  by (auto simp: sample_record_def sample_snapshot_def sample_split sample_parse cache_limits rc_keys_def
      rc_refs_def credentialAlternatesHaveAuth_def)

lemma sample_valid: "validateCandidateSnapshot sample_snapshot = None"
proof -
  have "validateDictionaries sample_snapshot = None"
    unfolding validateDictionaries_None
    by (simp add: sample_snapshot_def cache_limits source_entry_ok_def sample_parse isProxyProtocol_def)
  moreover have "list_all (pending_ok sample_snapshot) (snRecords sample_snapshot)"
    "list_all (failed_ok sample_snapshot) (snFailed sample_snapshot)"
    using sample_record_valid
    by (simp_all add: pending_ok_def failed_ok_def sample_snapshot_def cache_limits)
      (simp_all add: sample_record_def)
  moreover have "increasing sample_snapshot (snRecords sample_snapshot)"
    "increasing sample_snapshot (map flRecord (snFailed sample_snapshot))"
    by (simp_all add: sample_snapshot_def increasing_def)
  ultimately show ?thesis by (simp add: validate_iff)
qed

lemma sample_public:
  "addr = ''a.example:80'' \<or> addr = ''b.example:80'' \<Longrightarrow> public_record sample_snapshot (sample_record addr)"
proof -
  have "parse_ip ''a.example'' = None" "parse_ip ''b.example'' = None" by code_simp+
  then show "addr = ''a.example:80'' \<or> addr = ''b.example:80'' \<Longrightarrow> ?thesis"
    by (auto simp: public_record_def sample_record_def sample_split rc_protocol_def sample_snapshot_def)
qed

end
