(* ===== verification/CatalogCodec.thy ===== *)
theory CatalogCodec
  imports Catalog
begin

text \<open>
  candidatecache.go: the binary format of the candidate catalog, versions 1 to 4. The encoder
  writes into a bounded buffer and counts the bytes of strings; the decoder reads with the same
  count. gzip is a pair of parameters, and the file operations around it are an outcome of the
  environment: done, failed before the rename, or failed after it.
\<close>

section \<open>Integers\<close>

text \<open>binary.LittleEndian, as \<open>byte(v >> (8 * i))\<close>.\<close>

definition le_bytes :: "nat \<Rightarrow> 'a::len word \<Rightarrow> u8 list" where
  "le_bytes n w = map (\<lambda>i. ucast (drop_bit (8 * i) w)) [0..<n]"

fun le_word :: "u8 list \<Rightarrow> 'a::len word" where
  "le_word [] = 0"
| "le_word (b # bs) = or (ucast b) (push_bit 8 (le_word bs))"

section \<open>Encoder\<close>

datatype codec_error =
    ShortRead | BadMagic | BadVersion | BadFlags | BadHasAuth | StringTooLong | StringBudget
  | TooManyStrings | CountLimit | ByteLimit

definition cacheMagic :: string where "cacheMagic = ''SPCAND01''"
definition cacheVersion :: "16 word" where "cacheVersion = 4"
definition maxCacheDecodedBytes :: nat where "maxCacheDecodedBytes = 256 * 2 ^ 20"
definition maxCacheCompressedBytes :: nat where "maxCacheCompressedBytes = 96 * 2 ^ 20"

text \<open>The bytes written through boundedCacheWriter and the field stringBytes.\<close>

record enc =
  enOut :: "u8 list"
  enStrings :: nat

type_synonym writer = "enc \<Rightarrow> codec_error + enc"

definition emit :: "u8 list \<Rightarrow> writer" where
  "emit bs e =
     (if maxCacheDecodedBytes - length (enOut e) < length bs then Inl ByteLimit
      else Inr (e\<lparr>enOut := enOut e @ bs\<rparr>))"

text \<open>One statement after the other, each with its early return.\<close>

fun writes_seq :: "writer list \<Rightarrow> writer" where
  "writes_seq [] e = Inr e"
| "writes_seq (w # ws) e = (case w e of Inl x \<Rightarrow> Inl x | Inr e' \<Rightarrow> writes_seq ws e')"

definition put_u8 :: "u8 \<Rightarrow> writer" where "put_u8 v = emit [v]"
definition put_u16 :: "16 word \<Rightarrow> writer" where "put_u16 v = emit (le_bytes 2 v)"
definition put_u32 :: "32 word \<Rightarrow> writer" where "put_u32 v = emit (le_bytes 4 v)"
definition put_u64 :: "u64 \<Rightarrow> writer" where "put_u64 v = emit (le_bytes 8 v)"

definition put_string :: "nat \<Rightarrow> string \<Rightarrow> writer" where
  "put_string limit v e =
     (if limit < length v then Inl StringTooLong
      else if maxCacheStringBytes < enStrings e + length v then Inl StringBudget
      else writes_seq [put_u32 (word_of_nat (length v)), emit (bytes_of v)]
             (e\<lparr>enStrings := enStrings e + length v\<rparr>))"

definition put_strings :: "string list \<Rightarrow> writer" where
  "put_strings vs e =
     (if 2 ^ 32 - 1 < length vs then Inl TooManyStrings
      else writes_seq (put_u32 (word_of_nat (length vs)) # map (put_string maxCacheStringLength) vs) e)"

definition boolByte :: "bool \<Rightarrow> u8" where
  "boolByte b = (if b then 1 else 0)"

definition put_record :: "crec \<Rightarrow> writer" where
  "put_record r = writes_seq
     [put_string maxCacheStringLength (rcAddr r), put_string maxCacheStringLength (rcUsername r),
      put_string maxCacheStringLength (rcPassword r),
      put_u32 (word_of_nat (rcSourceOffset r)), put_u32 (word_of_nat (rcCountryID r)),
      put_u32 (word_of_nat (rcCityID r)),
      put_u16 (word_of_nat (rcProtocolID r)), put_u16 (word_of_nat (rcSourceCount r)),
      put_u8 (rcContinent r), put_u8 (rcStatus r), put_u8 (boolByte (rcHasAuth r)),
      put_u64 (rcSeenUnix r), put_u64 (rcCheckedUnix r),
      put_u32 (word_of_nat (rcAltOffset r)), put_u8 (word_of_nat (rcAltCount r))]"

definition put_time :: "u64 option \<Rightarrow> writer" where
  "put_time t = put_u64 (case t of None \<Rightarrow> 0 | Some ns \<Rightarrow> ns)"

definition put_credential :: "credential \<Rightarrow> writer" where
  "put_credential c = writes_seq
     [put_string maxCacheStringLength (crUsername c), put_string maxCacheStringLength (crPassword c)]"

definition put_failure :: "cfail \<Rightarrow> writer" where
  "put_failure f = writes_seq
     [put_record (flRecord f), put_u8 (flKind f), put_string maxFailureErrorLength (flError f)]"

definition put_count :: "nat \<Rightarrow> writer" where
  "put_count n = put_u32 (word_of_nat n)"

definition put_list :: "('a \<Rightarrow> writer) \<Rightarrow> 'a list \<Rightarrow> writer" where
  "put_list put xs = writes_seq (put_count (length xs) # map put xs)"

definition encode_snapshot :: "snapshot \<Rightarrow> writer" where
  "encode_snapshot s = writes_seq
     [emit (bytes_of cacheMagic), put_u16 cacheVersion, put_u16 0,
      put_u64 (snGeneration s), put_u64 (snRevision s), put_string 32 (snPhase s),
      put_u32 (word_of_int (snSourceErrors s)),
      put_time (snSeenAt s), put_time (snRefreshAttempt s), put_time (snCompletedAt s),
      put_strings (snKeys s), put_strings (snSources s), put_strings (snProtocols s),
      put_strings (snCountries s), put_strings (snCities s),
      put_list (\<lambda>ref. put_u32 (word_of_nat ref)) (snRefs s),
      put_list put_record (snRecords s), put_list put_credential (snAlts s),
      put_list put_failure (snFailed s)]"

section \<open>Decoder\<close>

text \<open>The input that is left and the field stringBytes.\<close>

type_synonym dec = "u8 list \<times> nat"

type_synonym 'a reader = "dec \<Rightarrow> codec_error + 'a \<times> dec"

definition rret :: "'a \<Rightarrow> 'a reader" where
  "rret v d = Inr (v, d)"

definition rfail :: "codec_error \<Rightarrow> 'a reader" where
  "rfail x d = Inl x"

definition rbind :: "'a reader \<Rightarrow> ('a \<Rightarrow> 'b reader) \<Rightarrow> 'b reader" where
  "rbind r k d = (case r d of Inl x \<Rightarrow> Inl x | Inr (v, d') \<Rightarrow> k v d')"

definition get_bytes :: "nat \<Rightarrow> u8 list reader" where
  "get_bytes n d =
     (if length (fst d) < n then Inl ShortRead else Inr (take n (fst d), (drop n (fst d), snd d)))"

definition get_u8 :: "u8 reader" where "get_u8 = rbind (get_bytes 1) (\<lambda>b. rret (hd b))"
definition get_u16 :: "16 word reader" where "get_u16 = rbind (get_bytes 2) (\<lambda>b. rret (le_word b))"
definition get_u32 :: "32 word reader" where "get_u32 = rbind (get_bytes 4) (\<lambda>b. rret (le_word b))"
definition get_u64 :: "u64 reader" where "get_u64 = rbind (get_bytes 8) (\<lambda>b. rret (le_word b))"

definition get_count :: "nat \<Rightarrow> nat reader" where
  "get_count limit = rbind get_u32 (\<lambda>v. if limit < unat v then rfail CountLimit else rret (unat v))"

definition charge :: "nat \<Rightarrow> unit reader" where
  "charge n d =
     (if maxCacheStringBytes < snd d + n then Inl StringBudget else Inr ((), (fst d, snd d + n)))"

definition get_string :: "nat \<Rightarrow> string reader" where
  "get_string limit =
     rbind (get_count limit) (\<lambda>n. rbind (charge n) (\<lambda>_. rbind (get_bytes n) (\<lambda>b. rret (string_of b))))"

fun get_n :: "nat \<Rightarrow> 'a reader \<Rightarrow> 'a list reader" where
  "get_n 0 r = rret []"
| "get_n (Suc n) r = rbind r (\<lambda>x. rbind (get_n n r) (\<lambda>xs. rret (x # xs)))"

definition get_list :: "nat \<Rightarrow> 'a reader \<Rightarrow> 'a list reader" where
  "get_list limit r = rbind (get_count limit) (\<lambda>n. get_n n r)"

definition get_strings :: "nat \<Rightarrow> string list reader" where
  "get_strings limit = get_list limit (get_string maxCacheStringLength)"

definition get_nat32 :: "nat reader" where "get_nat32 = rbind get_u32 (\<lambda>v. rret (unat v))"
definition get_nat16 :: "nat reader" where "get_nat16 = rbind get_u16 (\<lambda>v. rret (unat v))"
definition get_nat8 :: "nat reader" where "get_nat8 = rbind get_u8 (\<lambda>v. rret (unat v))"

definition get_flag :: "bool reader" where
  "get_flag = rbind get_u8 (\<lambda>v. if 1 < v then rfail BadHasAuth else rret (v = 1))"

text \<open>A field that the format has from a version on; before, it keeps its zero value.\<close>

definition since :: "bool \<Rightarrow> 'a \<Rightarrow> 'a reader \<Rightarrow> 'a reader" where
  "since present zero r = (if present then r else rret zero)"

definition get_record :: "16 word \<Rightarrow> crec reader" where
  "get_record version =
     rbind (get_string maxCacheStringLength) (\<lambda>addr.
     rbind (since (2 \<le> version) [] (get_string maxCacheStringLength)) (\<lambda>user.
     rbind (since (2 \<le> version) [] (get_string maxCacheStringLength)) (\<lambda>password.
     rbind get_nat32 (\<lambda>offset. rbind get_nat32 (\<lambda>country. rbind get_nat32 (\<lambda>city.
     rbind get_nat16 (\<lambda>protocol. rbind get_nat16 (\<lambda>count.
     rbind get_u8 (\<lambda>continent. rbind get_u8 (\<lambda>status. rbind get_flag (\<lambda>auth.
     rbind get_u64 (\<lambda>seen. rbind get_u64 (\<lambda>checked.
     rbind (since (3 \<le> version) 0 get_nat32) (\<lambda>alt_offset.
     rbind (since (3 \<le> version) 0 get_nat8) (\<lambda>alt_count.
     rret \<lparr> rcAddr = addr, rcUsername = user, rcPassword = password, rcSourceOffset = offset,
            rcCountryID = country, rcCityID = city, rcProtocolID = protocol, rcSourceCount = count,
            rcContinent = continent, rcStatus = status, rcHasAuth = auth, rcSeenUnix = seen,
            rcCheckedUnix = checked, rcAltOffset = alt_offset, rcAltCount = alt_count \<rparr>)))))))))))))))"

definition get_time :: "u64 option reader" where
  "get_time = rbind get_u64 (\<lambda>v. rret (if v = 0 then None else Some v))"

definition get_credential :: "credential reader" where
  "get_credential =
     rbind (get_string maxCacheStringLength) (\<lambda>user. rbind (get_string maxCacheStringLength) (\<lambda>password.
       rret \<lparr> crUsername = user, crPassword = password \<rparr>))"

definition get_failure :: "16 word \<Rightarrow> cfail reader" where
  "get_failure version =
     rbind (get_record version) (\<lambda>r. rbind get_u8 (\<lambda>kind. rbind (get_string maxFailureErrorLength) (\<lambda>err.
       rret \<lparr> flRecord = r, flKind = kind, flError = err \<rparr>)))"

definition legacy_kind :: "crec \<Rightarrow> FailureKind" where
  "legacy_kind r =
     (if rcStatus r = candidateCheckedFailed then failureUnreachable
      else if rcStatus r = candidatePolicyFiltered then failurePolicyFiltered else 0)"

definition migrateLegacyCandidateFailures :: "snapshot \<Rightarrow> snapshot" where
  "migrateLegacyCandidateFailures s =
     s\<lparr>snRecords := filter (\<lambda>r. legacy_kind r = 0) (snRecords s),
       snFailed := snFailed s @
         map (\<lambda>r. \<lparr> flRecord = r\<lparr>rcStatus := candidateDeferred\<rparr>, flKind = legacy_kind r, flError = [] \<rparr>)
           (filter (\<lambda>r. legacy_kind r \<noteq> 0) (snRecords s))\<rparr>"

definition get_magic :: "unit reader" where
  "get_magic =
     rbind (get_bytes (length cacheMagic))
       (\<lambda>b. if string_of b \<noteq> cacheMagic then rfail BadMagic else rret ())"

definition get_version :: "16 word reader" where
  "get_version =
     rbind get_u16 (\<lambda>v. if v < 1 \<or> cacheVersion < v then rfail BadVersion else rret v)"

definition get_flags :: "unit reader" where
  "get_flags = rbind get_u16 (\<lambda>v. if v \<noteq> 0 then rfail BadFlags else rret ())"

definition decode_snapshot :: "snapshot reader" where
  "decode_snapshot =
     rbind get_magic (\<lambda>_. rbind get_version (\<lambda>version. rbind get_flags (\<lambda>_.
     rbind get_u64 (\<lambda>generation. rbind get_u64 (\<lambda>revision. rbind (get_string 32) (\<lambda>phase.
     rbind get_u32 (\<lambda>source_errors.
     rbind get_time (\<lambda>seen. rbind get_time (\<lambda>attempt. rbind get_time (\<lambda>completed.
     rbind (get_strings maxCacheSources) (\<lambda>keys. rbind (get_strings maxCacheSources) (\<lambda>sources.
     rbind (get_strings maxCacheProtocols) (\<lambda>protocols.
     rbind (get_strings maxCacheCountries) (\<lambda>countries.
     rbind (get_strings maxCacheCities) (\<lambda>cities.
     rbind (get_list maxCacheSourceRefs get_nat32) (\<lambda>refs.
     rbind (get_list maxCacheRecords (get_record version)) (\<lambda>records.
     rbind (since (3 \<le> version) [] (get_list maxCacheCredentialAlts get_credential)) (\<lambda>alts.
     rbind (since (4 \<le> version) []
              (get_list (maxCacheRecords - length records) (get_failure version))) (\<lambda>failed.
     let s = \<lparr> snRecords = records, snFailed = failed, snAlts = alts, snRefs = refs, snKeys = keys,
               snSources = sources, snProtocols = protocols, snCountries = countries,
               snCities = cities, snSourceTotals = [], snFacetValues = [], snFacetTotals = [],
               snProtocolTotals = [], snGeneration = generation, snRevision = revision,
               snPhase = phase, snSourceErrors = uint source_errors, snSeenAt = seen,
               snRefreshAttempt = attempt, snCompletedAt = completed \<rparr>
     in rret (if 4 \<le> version then s else migrateLegacyCandidateFailures s))))))))))))))))))))"

section \<open>Files\<close>

datatype cache_failure =
    EncodeInvalid snapshot_error | EncodeFailed codec_error | CompressedLimit | WriteError
  | BadSize | BadGzip | DecodeFailed codec_error | TrailingData | OverLimit | LoadInvalid snapshot_error

definition encode_cache :: "(u8 list \<Rightarrow> u8 list) \<Rightarrow> snapshot \<Rightarrow> cache_failure + u8 list" where
  "encode_cache gzip s =
     (case validateCandidateSnapshot s of
        Some x \<Rightarrow> Inl (EncodeInvalid x)
      | None \<Rightarrow>
          (case encode_snapshot s \<lparr> enOut = [], enStrings = 0 \<rparr> of
             Inl x \<Rightarrow> Inl (EncodeFailed x)
           | Inr e \<Rightarrow>
               if maxCacheCompressedBytes < length (gzip (enOut e)) then Inl CompressedLimit
               else Inr (gzip (enOut e))))"

definition save_cache ::
    "(u8 list \<Rightarrow> u8 list) \<Rightarrow> write_outcome \<Rightarrow> snapshot \<Rightarrow> u8 list option \<Rightarrow>
     u8 list option \<times> cache_failure option" where
  "save_cache gzip wr s file =
     (case encode_cache gzip s of
        Inl x \<Rightarrow> (file, Some x)
      | Inr b \<Rightarrow>
          (case wr of
             WriteDone \<Rightarrow> (Some b, None)
           | WriteFailed \<Rightarrow> (file, Some WriteError)
           | WriteUnsynced \<Rightarrow> (Some b, Some WriteError)))"

text \<open>The decoder reads through a limit of one byte more than the bound on decoded data.\<close>

definition load_cache :: "(u8 list \<Rightarrow> u8 list option) \<Rightarrow> u8 list \<Rightarrow> cache_failure + snapshot" where
  "load_cache gunzip file =
     (if file = [] \<or> maxCacheCompressedBytes < length file then Inl BadSize
      else case gunzip file of
          None \<Rightarrow> Inl BadGzip
        | Some bytes \<Rightarrow>
            (case decode_snapshot (take (maxCacheDecodedBytes + 1) bytes, 0) of
               Inl x \<Rightarrow> Inl (DecodeFailed x)
             | Inr (s, (rest, _)) \<Rightarrow>
                 if rest \<noteq> [] then Inl TrailingData
                 else if maxCacheDecodedBytes < length bytes then Inl OverLimit
                 else case validateAndRebuildCandidateSnapshot s of
                     Inl x \<Rightarrow> Inl (LoadInvalid x)
                   | Inr t \<Rightarrow> Inr t))"

section \<open>Reader and writer agree\<close>

declare writes_seq.simps [simp del]

lemma le_bytes_Suc: "le_bytes (Suc n) w = ucast w # le_bytes n (drop_bit 8 w)"
proof -
  have "map (\<lambda>i. ucast (drop_bit (8 * i) w)) [Suc 0..<Suc n] = le_bytes n (drop_bit 8 w)"
    by (simp add: le_bytes_def map_Suc_upt [symmetric] comp_def drop_bit_drop_bit add.commute del: upt_Suc)
  then show ?thesis by (simp add: le_bytes_def upt_conv_Cons [of 0 "Suc n"] del: upt_Suc)
qed

lemma length_le_bytes [simp]: "length (le_bytes n w) = n"
  by (simp add: le_bytes_def)

lemma le_word_bytes: "le_word (le_bytes n w) = take_bit (8 * n) (w :: 'a::len word)"
proof (induction n arbitrary: w)
  case 0
  then show ?case by (simp add: le_bytes_def)
next
  case (Suc n)
  show ?case
    unfolding le_bytes_Suc le_word.simps Suc
    by (rule bit_word_eqI)
      (auto simp: bit_or_iff bit_ucast_iff bit_push_bit_iff bit_take_bit_iff bit_drop_bit_eq)
qed

lemma le_word_all [simp]:
  "le_word (le_bytes 2 v) = (v :: 16 word)" "le_word (le_bytes 4 x) = (x :: 32 word)"
  "le_word (le_bytes 8 y) = (y :: u64)"
  by (simp_all add: le_word_bytes take_bit_word_eq_self)

definition codes :: "writer \<Rightarrow> 'a reader \<Rightarrow> 'a \<Rightarrow> bool" where
  "codes w r v \<longleftrightarrow>
     (\<forall>e e'. w e = Inr e' \<longrightarrow>
       (\<exists>bs. enOut e' = enOut e @ bs \<and> (\<forall>rest. r (bs @ rest, enStrings e) = Inr (v, (rest, enStrings e')))))"

named_theorems codes_intro \<open>a writer and the reader of its field\<close>

lemma codesE:
  assumes "codes w r v" "w e = Inr e'"
  obtains bs where "enOut e' = enOut e @ bs" "\<And>rest. r (bs @ rest, enStrings e) = Inr (v, (rest, enStrings e'))"
  using assms unfolding codes_def by blast

lemma codes_bytes: "n = length bs \<Longrightarrow> codes (emit bs) (get_bytes n) bs"
  by (auto simp: codes_def emit_def get_bytes_def split: if_splits)

lemma codes_nil: "codes (writes_seq []) (rret v) v"
  by (simp add: codes_def rret_def writes_seq.simps)

lemma codes_ret: "v = y \<Longrightarrow> codes (writes_seq []) (rret v) y"
  by (simp add: codes_nil)

lemma codes_cons:
  assumes "codes w r v" "codes (writes_seq ws) (k v) y"
  shows "codes (writes_seq (w # ws)) (rbind r k) y"
  unfolding codes_def
proof (intro allI impI)
  fix e e' assume "writes_seq (w # ws) e = Inr e'"
  then obtain e1 where 1: "w e = Inr e1" and 2: "writes_seq ws e1 = Inr e'"
    by (auto simp: writes_seq.simps split: sum.splits)
  from assms(1) 1 obtain bs where bs: "enOut e1 = enOut e @ bs"
    "\<And>rest. r (bs @ rest, enStrings e) = Inr (v, (rest, enStrings e1))" by (erule codesE)
  from assms(2) 2 obtain cs where cs: "enOut e' = enOut e1 @ cs"
    "\<And>rest. k v (cs @ rest, enStrings e1) = Inr (y, (rest, enStrings e'))" by (erule codesE)
  show "\<exists>ds. enOut e' = enOut e @ ds \<and>
      (\<forall>rest. rbind r k (ds @ rest, enStrings e) = Inr (y, (rest, enStrings e')))"
    by (rule exI [of _ "bs @ cs"]) (simp add: bs(1) cs rbind_def bs(2) append_assoc)
qed

lemma codes_map: "codes w r v \<Longrightarrow> y = f v \<Longrightarrow> codes w (rbind r (\<lambda>x. rret (f x))) y"
  by (fastforce simp: codes_def rbind_def rret_def)

lemma codes_check: "codes w r v \<Longrightarrow> k v = rret y \<Longrightarrow> codes w (rbind r k) y"
  by (fastforce simp: codes_def rbind_def rret_def)

lemma codes_u8 [codes_intro]: "codes (put_u8 v) get_u8 v"
  unfolding put_u8_def get_u8_def by (rule codes_map [OF codes_bytes]) simp_all

lemma codes_u16 [codes_intro]: "codes (put_u16 v) get_u16 v"
  unfolding put_u16_def get_u16_def by (rule codes_map [OF codes_bytes]) simp_all

lemma codes_u32 [codes_intro]: "codes (put_u32 v) get_u32 v"
  unfolding put_u32_def get_u32_def by (rule codes_map [OF codes_bytes]) simp_all

lemma codes_u64 [codes_intro]: "codes (put_u64 v) get_u64 v"
  unfolding put_u64_def get_u64_def by (rule codes_map [OF codes_bytes]) simp_all

lemma codes_nat32: "n < 2 ^ 32 \<Longrightarrow> codes (put_u32 (word_of_nat n)) get_nat32 n"
  unfolding get_nat32_def by (rule codes_map [OF codes_u32]) (simp add: unat_of_nat)

lemma codes_nat16: "n < 2 ^ 16 \<Longrightarrow> codes (put_u16 (word_of_nat n)) get_nat16 n"
  unfolding get_nat16_def by (rule codes_map [OF codes_u16]) (simp add: unat_of_nat)

lemma codes_nat8: "n < 2 ^ 8 \<Longrightarrow> codes (put_u8 (word_of_nat n)) get_nat8 n"
  unfolding get_nat8_def by (rule codes_map [OF codes_u8]) (simp add: unat_of_nat)

lemma codes_flag: "codes (put_u8 (boolByte b)) get_flag b"
  unfolding get_flag_def by (rule codes_check [OF codes_u8]) (simp add: boolByte_def)

lemma codes_time: "t \<noteq> Some 0 \<Longrightarrow> codes (put_time t) get_time t"
  unfolding get_time_def put_time_def by (rule codes_map [OF codes_u64]) (auto split: option.splits)

lemma codes_count: "n \<le> limit \<Longrightarrow> limit < 2 ^ 32 \<Longrightarrow> codes (put_u32 (word_of_nat n)) (get_count limit) n"
  unfolding get_count_def by (rule codes_check [OF codes_u32]) (simp add: unat_of_nat)

lemma codes_string:
  assumes "limit < 2 ^ 32"
  shows "codes (put_string limit v) (get_string limit) v"
  unfolding codes_def
proof (intro allI impI)
  fix e e' assume put: "put_string limit v e = Inr e'"
  let ?e = "e\<lparr>enStrings := enStrings e + length v\<rparr>"
  let ?k = "\<lambda>n. rbind (get_bytes n) (\<lambda>b. rret (string_of b))"
  have ok: "length v \<le> limit" "enStrings e + length v \<le> maxCacheStringBytes"
    and seq: "writes_seq [put_u32 (word_of_nat (length v)), emit (bytes_of v)] ?e = Inr e'"
    using put by (simp_all add: put_string_def not_less split: if_splits)
  have "codes (writes_seq [emit (bytes_of v)]) (rbind (get_bytes (length v)) (\<lambda>b. rret (string_of b))) v"
    by (rule codes_cons [OF codes_bytes]) (simp, use codes_nil [of v] in simp)
  then have "codes (writes_seq [put_u32 (word_of_nat (length v)), emit (bytes_of v)]) (rbind (get_count limit) ?k) v"
    by (rule codes_cons [OF codes_count [OF ok(1) assms]])
  then obtain bs where bs: "enOut e' = enOut ?e @ bs"
    "\<And>rest. rbind (get_count limit) ?k (bs @ rest, enStrings ?e) = Inr (v, (rest, enStrings e'))"
    using seq by (rule codesE) blast
  have strings: "enStrings e' = enStrings ?e"
    using seq by (auto simp: writes_seq.simps put_u32_def emit_def split: if_splits sum.splits)
  have "get_string limit (bs @ rest, enStrings e) = Inr (v, (rest, enStrings e'))" for rest
  proof -
    obtain n j where n: "get_count limit (bs @ rest, enStrings ?e) = Inr (n, (j, enStrings ?e))"
      and k: "?k n (j, enStrings ?e) = Inr (v, (rest, enStrings e'))"
      using bs(2) [of rest]
      by (auto simp: rbind_def get_count_def get_u32_def get_bytes_def rret_def rfail_def
          split: sum.splits if_splits prod.splits)
    have len: "n = length v"
      using k by (auto simp: rbind_def get_bytes_def rret_def string_of_def split: if_splits)
    have "get_count limit (bs @ rest, enStrings e) = Inr (n, (j, enStrings e))"
      using n by (auto simp: rbind_def get_count_def get_u32_def get_bytes_def rret_def rfail_def
          split: sum.splits if_splits prod.splits)
    then show ?thesis
      using k ok(2) len strings by (simp add: get_string_def rbind_def charge_def)
  qed
  then show "\<exists>bs. enOut e' = enOut e @ bs \<and>
      (\<forall>rest. get_string limit (bs @ rest, enStrings e) = Inr (v, (rest, enStrings e')))"
    using bs(1) by (intro exI [of _ bs]) simp
qed

lemma codes_get_n:
  "(\<And>x. x \<in> set xs \<Longrightarrow> codes (put x) r x) \<Longrightarrow> codes (writes_seq (map put xs)) (get_n (length xs) r) xs"
proof (induction xs)
  case Nil
  then show ?case using codes_nil [of "[]"] by simp
next
  case (Cons x xs)
  have "codes (writes_seq (map put xs)) (rbind (get_n (length xs) r) (\<lambda>ys. rret (x # ys))) (x # xs)"
    by (rule codes_map [OF Cons.IH]) (use Cons.prems in auto)
  then show ?case
    using codes_cons [OF Cons.prems, of x] by simp
qed

lemma codes_list:
  assumes "\<And>x. x \<in> set xs \<Longrightarrow> codes (put x) r x" "length xs \<le> limit" "limit < 2 ^ 32"
  shows "codes (put_list put xs) (get_list limit r) xs"
  unfolding put_list_def get_list_def put_count_def
  by (rule codes_cons [OF codes_count [OF assms(2,3)]]) (rule codes_get_n [OF assms(1)])

lemma codes_strings:
  assumes "length vs \<le> limit" "limit < 2 ^ 32"
  shows "codes (put_strings vs) (get_strings limit) vs"
proof -
  have "codes (put_list (put_string maxCacheStringLength) vs) (get_list limit (get_string maxCacheStringLength)) vs"
    by (rule codes_list [OF codes_string assms]) (simp add: maxCacheStringLength_def)
  moreover have "put_strings vs = put_list (put_string maxCacheStringLength) vs"
    using assms by (simp add: fun_eq_iff put_strings_def put_list_def put_count_def)
  ultimately show ?thesis by (simp add: get_strings_def)
qed

definition record_fits :: "crec \<Rightarrow> bool" where
  "record_fits r \<longleftrightarrow> rcSourceOffset r < 2 ^ 32 \<and> rcCountryID r < 2 ^ 32 \<and> rcCityID r < 2 ^ 32 \<and>
     rcProtocolID r < 2 ^ 16 \<and> rcSourceCount r < 2 ^ 16 \<and> rcAltOffset r < 2 ^ 32 \<and> rcAltCount r < 2 ^ 8"

lemma codes_cred_string: "codes (put_string maxCacheStringLength v) (get_string maxCacheStringLength) v"
  by (rule codes_string) (simp add: maxCacheStringLength_def)

lemma version_ge [simp]: "2 \<le> cacheVersion" "3 \<le> cacheVersion" "4 \<le> cacheVersion"
  by (simp_all add: cacheVersion_def)

lemma codes_record:
  assumes "record_fits r"
  shows "codes (put_record r) (get_record cacheVersion) r"
  unfolding put_record_def get_record_def
  apply (simp only: since_def version_ge if_True)
  apply (insert assms [unfolded record_fits_def])
  apply (elim conjE)
  apply (rule codes_cons codes_cred_string codes_nat32 codes_nat16 codes_nat8 codes_u8 codes_u64 codes_flag
      | assumption)+
  by (rule codes_ret) simp

lemma codes_credential: "codes (put_credential c) get_credential c"
  unfolding put_credential_def get_credential_def
  by (rule codes_cons codes_cred_string)+ (rule codes_ret, simp)

lemma codes_error_string: "codes (put_string maxFailureErrorLength v) (get_string maxFailureErrorLength) v"
  by (rule codes_string) (simp add: maxFailureErrorLength_def)

lemma codes_failure: "record_fits (flRecord f) \<Longrightarrow> codes (put_failure f) (get_failure cacheVersion) f"
  unfolding put_failure_def get_failure_def
  by (rule codes_cons codes_record codes_u8 codes_error_string | assumption)+ (rule codes_ret, simp)

lemma codes_magic: "codes (emit (bytes_of cacheMagic)) get_magic ()"
  unfolding get_magic_def by (rule codes_check [OF codes_bytes]) simp_all

lemma codes_version: "codes (put_u16 cacheVersion) get_version cacheVersion"
  unfolding get_version_def by (rule codes_check [OF codes_u16]) (simp add: cacheVersion_def)

lemma codes_flags: "codes (put_u16 0) get_flags ()"
  unfolding get_flags_def by (rule codes_check [OF codes_u16]) simp

lemma codes_phase: "codes (put_string 32 v) (get_string 32) v"
  by (rule codes_string) simp

lemma valid_record_fits:
  assumes "validateDictionaries s = None" "validateRecord s r = None"
  shows "record_fits r"
  using assms unfolding validateDictionaries_None validateRecord_None record_fits_def cache_limits by auto

lemma valid_fits:
  assumes "validateCandidateSnapshot s = None"
  shows "r \<in> set (snRecords s) \<Longrightarrow> record_fits r" "f \<in> set (snFailed s) \<Longrightarrow> record_fits (flRecord f)"
    "ref \<in> set (snRefs s) \<Longrightarrow> ref < 2 ^ 32"
    "length (snRecords s) \<le> maxCacheRecords" "length (snFailed s) \<le> maxCacheRecords - length (snRecords s)"
  using assms valid_record_fits [of s] unfolding validate_iff validateDictionaries_None cache_limits
  by (auto simp: list_all_iff pending_ok_def failed_ok_def)

theorem codes_snapshot:
  assumes valid: "validateCandidateSnapshot s = None"
    and times: "snSeenAt s \<noteq> Some 0" "snRefreshAttempt s \<noteq> Some 0" "snCompletedAt s \<noteq> Some 0"
  shows "codes (encode_snapshot s) decode_snapshot (cache_image s)"
proof -
  have d: "validateDictionaries s = None" using valid by (simp add: validate_iff)
  have lens: "length (snKeys s) \<le> maxCacheSources" "length (snSources s) \<le> maxCacheSources"
    "length (snProtocols s) \<le> maxCacheProtocols" "length (snCountries s) \<le> maxCacheCountries"
    "length (snCities s) \<le> maxCacheCities" "length (snRefs s) \<le> maxCacheSourceRefs"
    "length (snAlts s) \<le> maxCacheCredentialAlts"
    using d by (simp_all add: validateDictionaries_None)
  have limits: "maxCacheSources < 2 ^ 32" "maxCacheProtocols < 2 ^ 32" "maxCacheCountries < 2 ^ 32"
    "maxCacheCities < 2 ^ 32" "maxCacheSourceRefs < 2 ^ 32" "maxCacheCredentialAlts < 2 ^ 32"
    "maxCacheRecords < 2 ^ 32" "maxCacheRecords - length (snRecords s) < 2 ^ 32"
    by (simp_all add: cache_limits)
  have errors: "uint (word_of_int (snSourceErrors s) :: 32 word) = snSourceErrors s"
    using d by (simp add: validateDictionaries_None cache_limits uint_word_of_int take_bit_int_eq_self)
  have refs: "codes (put_list (\<lambda>ref. put_u32 (word_of_nat ref)) (snRefs s)) (get_list maxCacheSourceRefs get_nat32) (snRefs s)"
    by (rule codes_list [OF _ lens(6) limits(5)]) (rule codes_nat32 [OF valid_fits(3) [OF valid]])
  have records: "codes (put_list put_record (snRecords s)) (get_list maxCacheRecords (get_record cacheVersion)) (snRecords s)"
    by (rule codes_list [OF _ valid_fits(4) [OF valid] limits(7)]) (rule codes_record [OF valid_fits(1) [OF valid]])
  have alts: "codes (put_list put_credential (snAlts s)) (get_list maxCacheCredentialAlts get_credential) (snAlts s)"
    by (rule codes_list [OF codes_credential lens(7) limits(6)])
  have failed: "codes (put_list put_failure (snFailed s))
      (get_list (maxCacheRecords - length (snRecords s)) (get_failure cacheVersion)) (snFailed s)"
    by (rule codes_list [OF _ valid_fits(5) [OF valid] limits(8)]) (rule codes_failure [OF valid_fits(2) [OF valid]])
  show ?thesis
    unfolding encode_snapshot_def decode_snapshot_def
    apply (rule codes_cons [OF codes_magic])
    apply (rule codes_cons [OF codes_version])
    apply (simp only: since_def version_ge if_True Let_def)
    apply (rule codes_cons [OF codes_flags] codes_cons [OF codes_phase] codes_cons [OF refs] codes_cons [OF records]
        codes_cons [OF alts] codes_cons [OF failed] codes_cons [OF codes_time [OF times(1)]]
        codes_cons [OF codes_time [OF times(2)]] codes_cons [OF codes_time [OF times(3)]]
        codes_cons [OF codes_u64] codes_cons [OF codes_u32]
        codes_cons [OF codes_strings [OF lens(1) limits(1)]] codes_cons [OF codes_strings [OF lens(2) limits(1)]]
        codes_cons [OF codes_strings [OF lens(3) limits(2)]] codes_cons [OF codes_strings [OF lens(4) limits(3)]]
        codes_cons [OF codes_strings [OF lens(5) limits(4)]])+
    by (rule codes_ret) (simp add: cache_image_def errors)
qed

section \<open>The decoder reads only what it needs\<close>

text \<open>A reader that succeeds on an input succeeds on every longer one and leaves the rest of it.\<close>

definition local_reader :: "'a reader \<Rightarrow> bool" where
  "local_reader r \<longleftrightarrow>
     (\<forall>i n v j m x. r (i, n) = Inr (v, (j, m)) \<longrightarrow> r (i @ x, n) = Inr (v, (j @ x, m)))"

named_theorems local_intro \<open>readers that leave the rest of their input\<close>

lemma local_readerD:
  "local_reader r \<Longrightarrow> r (i, n) = Inr (v, (j, m)) \<Longrightarrow> r (i @ x, n) = Inr (v, (j @ x, m))"
  unfolding local_reader_def by blast

lemma local_rret [local_intro]: "local_reader (rret v)"
  by (simp add: local_reader_def rret_def)

lemma local_rfail [local_intro]: "local_reader (rfail x)"
  by (simp add: local_reader_def rfail_def)

lemma local_rbind [local_intro]:
  assumes "local_reader r" "\<And>v. local_reader (k v)"
  shows "local_reader (rbind r k)"
  unfolding local_reader_def
proof (intro allI impI)
  fix i n v j m x assume "rbind r k (i, n) = Inr (v, (j, m))"
  then obtain u i1 n1 where 1: "r (i, n) = Inr (u, (i1, n1))" and 2: "k u (i1, n1) = Inr (v, (j, m))"
    by (auto simp: rbind_def split: sum.splits prod.splits)
  show "rbind r k (i @ x, n) = Inr (v, (j @ x, m))"
    using local_readerD [OF assms(1) 1] local_readerD [OF assms(2) 2] by (simp add: rbind_def)
qed

lemma local_if [local_intro]: "local_reader r \<Longrightarrow> local_reader r' \<Longrightarrow> local_reader (if b then r else r')"
  by simp

lemma local_bytes [local_intro]: "local_reader (get_bytes n)"
  by (auto simp: local_reader_def get_bytes_def)

lemma local_charge [local_intro]: "local_reader (charge n)"
  by (auto simp: local_reader_def charge_def)

lemma local_since [local_intro]: "local_reader r \<Longrightarrow> local_reader (since b z r)"
  unfolding since_def by (intro local_intro)

lemma local_numbers [local_intro]:
  "local_reader get_u8" "local_reader get_u16" "local_reader get_u32" "local_reader get_u64"
  unfolding get_u8_def get_u16_def get_u32_def get_u64_def by (intro local_intro)+

lemma local_nats [local_intro]:
  "local_reader get_nat8" "local_reader get_nat16" "local_reader get_nat32" "local_reader get_flag"
  "local_reader (get_count limit)" "local_reader get_time"
  unfolding get_nat8_def get_nat16_def get_nat32_def get_flag_def get_count_def get_time_def
  by (intro local_intro)+

lemma local_string [local_intro]: "local_reader (get_string limit)"
  unfolding get_string_def by (intro local_intro)

lemma local_get_n: "local_reader r \<Longrightarrow> local_reader (get_n n r)"
  by (induction n) (simp_all add: local_intro)

lemma local_list [local_intro]: "local_reader r \<Longrightarrow> local_reader (get_list limit r)"
  unfolding get_list_def by (intro local_intro local_get_n)

lemma local_record [local_intro]: "local_reader (get_record version)"
  unfolding get_record_def by (intro local_intro)

lemma local_parts [local_intro]:
  "local_reader get_credential" "local_reader (get_failure version)" "local_reader get_magic"
  "local_reader get_version" "local_reader get_flags" "local_reader (get_strings limit)"
  unfolding get_credential_def get_failure_def get_magic_def get_version_def get_flags_def get_strings_def
  by (intro local_intro)+

lemma local_decode: "local_reader decode_snapshot"
  unfolding decode_snapshot_def Let_def by (intro local_intro)

section \<open>Properties\<close>

lemma emit_bound:
  "emit bs e = Inr e' \<Longrightarrow> length (enOut e) \<le> maxCacheDecodedBytes \<Longrightarrow> length (enOut e') \<le> maxCacheDecodedBytes"
  by (auto simp: emit_def split: if_splits)

definition bounded_writer :: "writer \<Rightarrow> bool" where
  "bounded_writer w \<longleftrightarrow>
     (\<forall>e e'. w e = Inr e' \<longrightarrow> length (enOut e) \<le> maxCacheDecodedBytes \<longrightarrow>
       length (enOut e') \<le> maxCacheDecodedBytes)"

lemma bounded_emit: "bounded_writer (emit bs)"
  using emit_bound unfolding bounded_writer_def by blast

lemma bounded_seq: "\<forall>w\<in>set ws. bounded_writer w \<Longrightarrow> bounded_writer (writes_seq ws)"
  by (induction ws) (auto simp: bounded_writer_def writes_seq.simps split: sum.splits)

lemma bounded_numbers: "bounded_writer (put_u8 a)" "bounded_writer (put_u16 b)" "bounded_writer (put_u32 c)"
  "bounded_writer (put_u64 d)" "bounded_writer (put_time t)"
  by (simp_all add: put_u8_def put_u16_def put_u32_def put_u64_def put_time_def bounded_emit)

lemma bounded_string: "bounded_writer (put_string limit v)"
proof -
  have "bounded_writer (writes_seq [put_u32 (word_of_nat (length v)), emit (bytes_of v)])"
    by (rule bounded_seq) (simp add: bounded_numbers bounded_emit)
  then show ?thesis by (auto simp: bounded_writer_def put_string_def split: if_splits)
qed

lemma bounded_list: "(\<And>x. bounded_writer (put x)) \<Longrightarrow> bounded_writer (put_list put xs)"
  unfolding put_list_def put_count_def by (rule bounded_seq) (auto simp: bounded_numbers)

lemma bounded_strings: "bounded_writer (put_strings vs)"
proof -
  have "bounded_writer (writes_seq (put_u32 (word_of_nat (length vs)) # map (put_string maxCacheStringLength) vs))"
    by (rule bounded_seq) (auto simp: bounded_numbers bounded_string)
  then show ?thesis by (auto simp: bounded_writer_def put_strings_def split: if_splits)
qed

lemma bounded_record: "bounded_writer (put_record r)"
  unfolding put_record_def by (rule bounded_seq) (simp add: bounded_numbers bounded_string)

lemma bounded_parts: "bounded_writer (put_credential c)" "bounded_writer (put_failure f)"
  unfolding put_credential_def put_failure_def
  by (rule bounded_seq, simp add: bounded_numbers bounded_string bounded_record)+

lemma bounded_snapshot: "bounded_writer (encode_snapshot s)"
  unfolding encode_snapshot_def
  by (rule bounded_seq)
    (simp add: bounded_emit bounded_numbers bounded_string bounded_strings bounded_list bounded_record bounded_parts)

lemma encode_cache_Inr:
  assumes "encode_cache gzip s = Inr file"
  obtains e where "validateCandidateSnapshot s = None"
    "encode_snapshot s \<lparr> enOut = [], enStrings = 0 \<rparr> = Inr e" "file = gzip (enOut e)"
    "length file \<le> maxCacheCompressedBytes" "length (enOut e) \<le> maxCacheDecodedBytes"
  using assms bounded_snapshot [of s]
  by (auto simp: encode_cache_def bounded_writer_def not_less split: option.splits sum.splits if_splits)

lemma encoded_decodes:
  assumes "encode_cache gzip s = Inr file"
    and "snSeenAt s \<noteq> Some 0" "snRefreshAttempt s \<noteq> Some 0" "snCompletedAt s \<noteq> Some 0"
  obtains e m where "file = gzip (enOut e)" "length (enOut e) \<le> maxCacheDecodedBytes"
    "encode_snapshot s \<lparr> enOut = [], enStrings = 0 \<rparr> = Inr e"
    "decode_snapshot (enOut e, 0) = Inr (cache_image s, ([], m))"
proof -
  obtain e where e: "validateCandidateSnapshot s = None"
    "encode_snapshot s \<lparr> enOut = [], enStrings = 0 \<rparr> = Inr e" "file = gzip (enOut e)"
    "length (enOut e) \<le> maxCacheDecodedBytes"
    using assms(1) by (rule encode_cache_Inr)
  obtain bs where "enOut e = bs" "\<And>rest. decode_snapshot (bs @ rest, 0) = Inr (cache_image s, (rest, enStrings e))"
    using codes_snapshot [OF e(1) assms(2-4)] e(2) by (rule codesE) simp
  from this(1) this(2) [of "[]"] have "decode_snapshot (enOut e, 0) = Inr (cache_image s, ([], enStrings e))" by simp
  then show thesis using that e by blast
qed

lemma load_saved:
  assumes "\<And>b. gunzip (gzip b) = Some b" "\<And>b. gzip b \<noteq> []"
    and "encode_cache gzip s = Inr file"
    and "snSeenAt s \<noteq> Some 0" "snRefreshAttempt s \<noteq> Some 0" "snCompletedAt s \<noteq> Some 0"
  obtains t where "load_cache gunzip file = Inr t" "cache_image t = cache_image (fst (filterNonPublicCandidateRecords s))"
proof -
  obtain e :: enc and m where e: "file = gzip (enOut e)" "length (enOut e) \<le> maxCacheDecodedBytes"
    "decode_snapshot (enOut e, 0) = Inr (cache_image s, ([], m))"
    using assms(3-6) by (rule encoded_decodes) blast
  have size: "length file \<le> maxCacheCompressedBytes" and valid: "validateCandidateSnapshot (cache_image s) = None"
    using assms(3) validate_image [of "cache_image s" s] by (auto elim: encode_cache_Inr simp: cache_image_def)
  obtain t where t: "validateAndRebuildCandidateSnapshot (cache_image s) = Inr t"
    using valid by (simp add: validateAndRebuildCandidateSnapshot_def Let_def)
  have "load_cache gunzip file = Inr t"
    using e size assms(1,2) t by (simp add: load_cache_def)
  moreover have "cache_image (fst (filterNonPublicCandidateRecords (cache_image s))) = cache_image (fst (filterNonPublicCandidateRecords s))"
    by (simp add: filterNonPublicCandidateRecords_def Let_def public_record_cong [of "cache_image s" s])
      (simp add: cache_image_def)
  ultimately show thesis using that validateAndRebuild_image(2) [OF t] by simp
qed

text \<open>C35: Whatever the catalog writes it reads back: the loaded snapshot is the saved one, less the
  endpoints that are not public, with totals and facets recomputed; nothing else is lost or changed.\<close>

theorem cache_roundtrip:
  assumes "\<And>b. gunzip (gzip b) = Some b" "\<And>b. gzip b \<noteq> []"
    and "encode_cache gzip s = Inr file"
    and "snSeenAt s \<noteq> Some 0" "snRefreshAttempt s \<noteq> Some 0" "snCompletedAt s \<noteq> Some 0"
  shows "\<exists>t. load_cache gunzip file = Inr t \<and> cache_image t = cache_image (fst (filterNonPublicCandidateRecords s))"
  using load_saved [OF assms] by metis


text \<open>C37: Whatever bytes are found on disk, in any version of the format, a snapshot that is loaded
  satisfies the validator and holds only public endpoints.\<close>

theorem cache_load_safe:
  assumes "load_cache gunzip file = Inr s"
  shows "validateCandidateSnapshot s = None \<and> (\<forall>r\<in>set (snRecords s). public_record s r) \<and>
    (\<forall>f\<in>set (snFailed s). public_record s (flRecord f))"
proof -
  obtain t where t: "validateAndRebuildCandidateSnapshot t = Inr s"
    using assms by (auto simp: load_cache_def split: if_splits option.splits sum.splits)
  note eq = image_eq_fields [OF validateAndRebuild_image(2) [OF t]]
  have "public_record s = public_record t"
    by (rule public_record_cong) (simp add: eq filterNonPublicCandidateRecords_def Let_def)
  then show ?thesis
    using validateAndRebuild_valid [OF t]
    by (auto simp: eq(1,2)) (auto simp: filterNonPublicCandidateRecords_def Let_def)
qed

section \<open>Cost of encoding\<close>

text \<open>What a writer adds to the output and to the count of string bytes when both bounds leave room.\<close>

definition costs :: "writer \<Rightarrow> nat \<Rightarrow> nat \<Rightarrow> bool" where
  "costs w n k \<longleftrightarrow>
     (\<forall>e. length (enOut e) + n \<le> maxCacheDecodedBytes \<longrightarrow> enStrings e + k \<le> maxCacheStringBytes \<longrightarrow>
       (\<exists>e'. w e = Inr e' \<and> length (enOut e') = length (enOut e) + n \<and> enStrings e' = enStrings e + k))"

lemma costs_emit: "costs (emit bs) (length bs) 0"
  by (auto simp: costs_def emit_def)

lemma costs_seq_Nil: "costs (writes_seq []) 0 0"
  by (simp add: costs_def writes_seq.simps)

lemma costs_seq_Cons: "costs w n k \<Longrightarrow> costs (writes_seq ws) m l \<Longrightarrow> costs (writes_seq (w # ws)) (n + m) (k + l)"
  unfolding costs_def
proof (intro allI impI)
  fix e :: enc
  assume w: "\<forall>e. length (enOut e) + n \<le> maxCacheDecodedBytes \<longrightarrow> enStrings e + k \<le> maxCacheStringBytes \<longrightarrow>
       (\<exists>e'. w e = Inr e' \<and> length (enOut e') = length (enOut e) + n \<and> enStrings e' = enStrings e + k)"
    and ws: "\<forall>e. length (enOut e) + m \<le> maxCacheDecodedBytes \<longrightarrow> enStrings e + l \<le> maxCacheStringBytes \<longrightarrow>
       (\<exists>e'. writes_seq ws e = Inr e' \<and> length (enOut e') = length (enOut e) + m \<and> enStrings e' = enStrings e + l)"
    and room: "length (enOut e) + (n + m) \<le> maxCacheDecodedBytes" "enStrings e + (k + l) \<le> maxCacheStringBytes"
  have "length (enOut e) + n \<le> maxCacheDecodedBytes" "enStrings e + k \<le> maxCacheStringBytes"
    using room by linarith+
  then obtain e1 where 1: "w e = Inr e1" "length (enOut e1) = length (enOut e) + n" "enStrings e1 = enStrings e + k"
    using w by blast
  have "length (enOut e1) + m \<le> maxCacheDecodedBytes" "enStrings e1 + l \<le> maxCacheStringBytes"
    using room 1 by linarith+
  then obtain e2 where "writes_seq ws e1 = Inr e2" "length (enOut e2) = length (enOut e1) + m" "enStrings e2 = enStrings e1 + l"
    using ws by blast
  then show "\<exists>e'. writes_seq (w # ws) e = Inr e' \<and> length (enOut e') = length (enOut e) + (n + m) \<and>
      enStrings e' = enStrings e + (k + l)"
    using 1 by (simp add: writes_seq.simps)
qed

lemma costs_numbers:
  "costs (put_u8 a) 1 0" "costs (put_u16 b) 2 0" "costs (put_u32 c) 4 0" "costs (put_u64 d) 8 0"
  "costs (put_time t) 8 0" "costs (put_count i) 4 0"
  using costs_emit [of "[a]"] costs_emit [of "le_bytes 2 b"] costs_emit [of "le_bytes 4 c"]
    costs_emit [of "le_bytes 8 d"] costs_emit [of "le_bytes 8 (case t of None \<Rightarrow> 0 | Some ns \<Rightarrow> ns)"]
    costs_emit [of "le_bytes 4 (word_of_nat i :: 32 word)"]
  by (simp_all add: put_u8_def put_u16_def put_u32_def put_u64_def put_time_def put_count_def)

lemma costs_string: "length v \<le> limit \<Longrightarrow> costs (put_string limit v) (4 + length v) (length v)"
proof -
  assume len: "length v \<le> limit"
  have "costs (writes_seq [put_u32 (word_of_nat (length v)), emit (bytes_of v)]) (4 + (length (bytes_of v) + 0)) (0 + (0 + 0))"
    by (intro costs_seq_Cons costs_numbers costs_emit costs_seq_Nil)
  then have *: "costs (writes_seq [put_u32 (word_of_nat (length v)), emit (bytes_of v)]) (4 + length v) 0" by simp
  show ?thesis
    unfolding costs_def
  proof (intro allI impI)
    fix e :: enc
    assume "length (enOut e) + (4 + length v) \<le> maxCacheDecodedBytes" "enStrings e + length v \<le> maxCacheStringBytes"
    then obtain e' where "writes_seq [put_u32 (word_of_nat (length v)), emit (bytes_of v)] (e\<lparr>enStrings := enStrings e + length v\<rparr>) = Inr e'"
      "length (enOut e') = length (enOut e) + (4 + length v)" "enStrings e' = enStrings e + length v"
      using * [unfolded costs_def, rule_format, of "e\<lparr>enStrings := enStrings e + length v\<rparr>"] by auto
    then show "\<exists>e'. put_string limit v e = Inr e' \<and> length (enOut e') = length (enOut e) + (4 + length v) \<and>
        enStrings e' = enStrings e + length v"
      using len \<open>enStrings e + length v \<le> maxCacheStringBytes\<close> by (simp add: put_string_def)
  qed
qed

lemma costs_map:
  "(\<And>x. x \<in> set xs \<Longrightarrow> costs (put x) (n x) (k x)) \<Longrightarrow>
   costs (writes_seq (map put xs)) (sum_list (map n xs)) (sum_list (map k xs))"
  by (induction xs) (auto simp: costs_seq_Nil intro!: costs_seq_Cons)

lemma costs_list:
  "(\<And>x. x \<in> set xs \<Longrightarrow> costs (put x) (n x) (k x)) \<Longrightarrow>
   costs (put_list put xs) (4 + sum_list (map n xs)) (sum_list (map k xs))"
  using costs_seq_Cons [OF costs_numbers(6) costs_map, of xs put n k "length xs"] by (simp add: put_list_def)

definition strings_size :: "string list \<Rightarrow> nat" where
  "strings_size vs = sum_list (map length vs)"

definition record_strings :: "crec \<Rightarrow> nat" where
  "record_strings r = length (rcAddr r) + length (rcUsername r) + length (rcPassword r)"

definition credential_strings :: "credential \<Rightarrow> nat" where
  "credential_strings c = length (crUsername c) + length (crPassword c)"

definition failure_strings :: "cfail \<Rightarrow> nat" where
  "failure_strings f = record_strings (flRecord f) + length (flError f)"

definition snapshot_strings :: "snapshot \<Rightarrow> nat" where
  "snapshot_strings s = length (snPhase s) + strings_size (snKeys s) + strings_size (snSources s) +
     strings_size (snProtocols s) + strings_size (snCountries s) + strings_size (snCities s) +
     sum_list (map record_strings (snRecords s)) + sum_list (map credential_strings (snAlts s)) +
     sum_list (map failure_strings (snFailed s))"

text \<open>A record takes 52 bytes beside its strings, a credential 8, a failure 57, a reference or a
  dictionary entry 4, and the rest of the file 96.\<close>

definition snapshot_size :: "snapshot \<Rightarrow> nat" where
  "snapshot_size s = 96 + snapshot_strings s +
     4 * (length (snKeys s) + length (snSources s) + length (snProtocols s) + length (snCountries s) +
          length (snCities s) + length (snRefs s)) +
     52 * length (snRecords s) + 8 * length (snAlts s) + 57 * length (snFailed s)"

lemma costs_eq: "costs w n k \<Longrightarrow> n = n' \<Longrightarrow> k = k' \<Longrightarrow> costs w n' k'"
  by simp

lemma sum_list_add_const: "sum_list (map (\<lambda>x. c + f x) xs) = c * length xs + (sum_list (map f xs) :: nat)"
  by (induction xs) auto

lemma costs_strings:
  assumes "list_all (\<lambda>v. length v \<le> maxCacheStringLength) vs" "length vs < 2 ^ 32"
  shows "costs (put_strings vs) (4 + 4 * length vs + strings_size vs) (strings_size vs)"
proof -
  have "put_strings vs = put_list (put_string maxCacheStringLength) vs"
    using assms(2) by (simp add: fun_eq_iff put_strings_def put_list_def put_count_def)
  moreover have "costs (put_list (put_string maxCacheStringLength) vs)
      (4 + sum_list (map (\<lambda>v. 4 + length v) vs)) (sum_list (map length vs))"
    by (rule costs_list, rule costs_string) (use assms(1) in \<open>auto simp: list_all_iff\<close>)
  ultimately show ?thesis by (simp add: strings_size_def sum_list_add_const add.assoc)
qed

lemma costs_record:
  assumes "length (rcAddr r) \<le> maxCacheStringLength" "length (rcUsername r) \<le> maxCacheStringLength"
    "length (rcPassword r) \<le> maxCacheStringLength"
  shows "costs (put_record r) (52 + record_strings r) (record_strings r)"
  unfolding put_record_def
  by (rule costs_eq, (rule costs_seq_Cons costs_numbers costs_string costs_seq_Nil | rule assms)+)
    (simp_all add: record_strings_def)

lemma costs_credential:
  assumes "length (crUsername c) \<le> maxCacheStringLength" "length (crPassword c) \<le> maxCacheStringLength"
  shows "costs (put_credential c) (8 + credential_strings c) (credential_strings c)"
  unfolding put_credential_def
  by (rule costs_eq, (rule costs_seq_Cons costs_string costs_seq_Nil | rule assms)+)
    (simp_all add: credential_strings_def)

lemma costs_failure:
  assumes "validateRecord s (flRecord f) = None" "length (flError f) \<le> maxFailureErrorLength"
  shows "costs (put_failure f) (57 + failure_strings f) (failure_strings f)"
proof -
  have "costs (put_record (flRecord f)) (52 + record_strings (flRecord f)) (record_strings (flRecord f))"
    by (rule costs_record) (use assms(1) in \<open>simp_all add: validateRecord_None\<close>)
  then show ?thesis
    unfolding put_failure_def
    by (intro costs_eq [OF costs_seq_Cons [OF _ costs_seq_Cons [OF costs_numbers(1)
          costs_seq_Cons [OF costs_string [OF assms(2)] costs_seq_Nil]]]])
      (simp_all add: failure_strings_def)
qed

text \<open>The dictionary entries within the bound on the length of a string.\<close>

definition entries_short :: "snapshot \<Rightarrow> bool" where
  "entries_short s \<longleftrightarrow>
     list_all (\<lambda>v. length v \<le> maxCacheStringLength) (snCountries s @ snCities s)"

lemma protocol_short: "isProxyProtocol p \<Longrightarrow> length p \<le> maxCacheStringLength"
  by (auto simp: isProxyProtocol_def maxCacheStringLength_def)

lemma source_entries_short:
  assumes "validateDictionaries s = None"
  shows "list_all (\<lambda>v. length v \<le> maxCacheStringLength) (snKeys s)"
    "list_all (\<lambda>v. length v \<le> maxCacheStringLength) (snSources s)"
    "list_all (\<lambda>v. length v \<le> maxCacheStringLength) (snProtocols s)"
proof -
  have zip: "\<forall>p\<in>set (zip (snKeys s) (snSources s)). source_entry_ok (fst p) (snd p)"
    and len: "length (snKeys s) = length (snSources s)" and protocols: "\<forall>p\<in>set (snProtocols s). isProxyProtocol p"
    using assms unfolding validateDictionaries_None list_all_iff case_prod_beta by blast+
  have "list_all (\<lambda>v. length v \<le> maxCacheStringLength) (map fst (zip (snKeys s) (snSources s)))"
    "list_all (\<lambda>v. length v \<le> maxCacheStringLength) (map snd (zip (snKeys s) (snSources s)))"
    unfolding list_all_iff list.set_map using zip by (simp_all add: source_entry_ok_def)
  then show "list_all (\<lambda>v. length v \<le> maxCacheStringLength) (snKeys s)"
    "list_all (\<lambda>v. length v \<le> maxCacheStringLength) (snSources s)"
    using len by simp_all
  show "list_all (\<lambda>v. length v \<le> maxCacheStringLength) (snProtocols s)"
    unfolding list_all_iff using protocols protocol_short by blast
qed

theorem costs_snapshot:
  assumes valid: "validateCandidateSnapshot s = None" and short: "entries_short s"
  shows "costs (encode_snapshot s) (snapshot_size s) (snapshot_strings s)"
proof -
  have d: "validateDictionaries s = None" using valid by (simp add: validate_iff)
  note src = source_entries_short [OF d]
  have geo: "list_all (\<lambda>v. length v \<le> maxCacheStringLength) (snCountries s)"
    "list_all (\<lambda>v. length v \<le> maxCacheStringLength) (snCities s)" using short by (auto simp: entries_short_def)
  have lens: "length (snKeys s) < 2 ^ 32" "length (snSources s) < 2 ^ 32" "length (snProtocols s) < 2 ^ 32"
    "length (snCountries s) < 2 ^ 32" "length (snCities s) < 2 ^ 32"
    using d by (simp_all add: validateDictionaries_None cache_limits)
  have refs: "costs (put_list (\<lambda>ref. put_u32 (word_of_nat ref)) (snRefs s)) (4 + sum_list (map (\<lambda>_. 4) (snRefs s)))
      (sum_list (map (\<lambda>_. 0) (snRefs s)))"
    by (rule costs_list) (rule costs_numbers)
  have records: "costs (put_list put_record (snRecords s)) (4 + sum_list (map (\<lambda>r. 52 + record_strings r) (snRecords s)))
      (sum_list (map record_strings (snRecords s)))"
    by (rule costs_list, rule costs_record)
      (use valid in \<open>auto simp: validate_iff list_all_iff pending_ok_def validateRecord_None\<close>)
  have alts: "costs (put_list put_credential (snAlts s)) (4 + sum_list (map (\<lambda>c. 8 + credential_strings c) (snAlts s)))
      (sum_list (map credential_strings (snAlts s)))"
    by (rule costs_list, rule costs_credential) (use d in \<open>auto simp: validateDictionaries_None list_all_iff\<close>)
  have failed: "costs (put_list put_failure (snFailed s)) (4 + sum_list (map (\<lambda>f. 57 + failure_strings f) (snFailed s)))
      (sum_list (map failure_strings (snFailed s)))"
    by (rule costs_list, rule costs_failure) (use valid in \<open>auto simp: validate_iff list_all_iff failed_ok_def\<close>)
  have phase: "length (snPhase s) \<le> 32" using d by (auto simp: validateDictionaries_None)
  show ?thesis
    unfolding encode_snapshot_def
    by (rule costs_eq, (rule costs_seq_Cons costs_numbers costs_emit costs_string [OF phase]
        costs_strings [OF src(1) lens(1)] costs_strings [OF src(2) lens(2)] costs_strings [OF src(3) lens(3)]
        costs_strings [OF geo(1) lens(4)] costs_strings [OF geo(2) lens(5)] refs records alts failed
        costs_seq_Nil)+)
      (simp_all add: snapshot_size_def snapshot_strings_def sum_list_add_const sum_list_triv cacheMagic_def)
qed

text \<open>A valid catalog whose strings and bytes are within the two budgets is always encoded, and
  the length of the file before compression is the sum of its parts to the byte.\<close>

theorem cache_size_exact:
  assumes "validateCandidateSnapshot s = None" "entries_short s"
    and "snapshot_size s \<le> maxCacheDecodedBytes" "snapshot_strings s \<le> maxCacheStringBytes"
  shows "\<exists>e. encode_snapshot s \<lparr> enOut = [], enStrings = 0 \<rparr> = Inr e \<and> length (enOut e) = snapshot_size s"
  using costs_snapshot [OF assms(1,2), unfolded costs_def, rule_format, of "\<lparr> enOut = [], enStrings = 0 \<rparr>"]
    assms(3,4) by auto

section \<open>The sample on disk\<close>

lemma sample_size: "entries_short sample_snapshot" "snapshot_size sample_snapshot = 281"
  "snapshot_strings sample_snapshot = 52"
  by (simp_all add: entries_short_def snapshot_size_def snapshot_strings_def strings_size_def
      record_strings_def failure_strings_def sample_snapshot_def sample_record_def)

lemma cache_size_exact_witness:
  "\<exists>e. encode_snapshot sample_snapshot \<lparr> enOut = [], enStrings = 0 \<rparr> = Inr e \<and> length (enOut e) = 281"
  using cache_size_exact [OF sample_valid sample_size(1)]
  by (simp add: sample_size maxCacheDecodedBytes_def maxCacheStringBytes_def)

definition boxed :: "u8 list \<Rightarrow> u8 list" where
  "boxed b = 31 # b"

definition unboxed :: "u8 list \<Rightarrow> u8 list option" where
  "unboxed f = (case f of [] \<Rightarrow> None | c # b \<Rightarrow> if c = 31 then Some b else None)"

lemma boxed_inverse: "unboxed (boxed b) = Some b" "boxed b \<noteq> []"
  by (simp_all add: boxed_def unboxed_def)

lemma sample_times:
  "snSeenAt sample_snapshot \<noteq> Some 0" "snRefreshAttempt sample_snapshot \<noteq> Some 0"
  "snCompletedAt sample_snapshot \<noteq> Some 0"
  by (simp_all add: sample_snapshot_def)

lemma sample_encoded:
  obtains e where "encode_snapshot sample_snapshot \<lparr> enOut = [], enStrings = 0 \<rparr> = Inr e"
    "length (enOut e) = 281" "encode_cache boxed sample_snapshot = Inr (boxed (enOut e))"
proof -
  have "\<exists>e. encode_snapshot sample_snapshot \<lparr> enOut = [], enStrings = 0 \<rparr> = Inr e \<and> length (enOut e) = 281"
    using costs_snapshot [OF sample_valid sample_size(1), unfolded costs_def, rule_format,
        of "\<lparr> enOut = [], enStrings = 0 \<rparr>"]
    by (simp add: sample_size maxCacheDecodedBytes_def maxCacheStringBytes_def) blast
  then obtain e where e: "encode_snapshot sample_snapshot \<lparr> enOut = [], enStrings = 0 \<rparr> = Inr e"
    "length (enOut e) = 281" by blast
  then have "encode_cache boxed sample_snapshot = Inr (boxed (enOut e))"
    by (simp add: encode_cache_def sample_valid boxed_def maxCacheCompressedBytes_def)
  with e that show thesis by blast
qed

lemma sample_filtered: "fst (filterNonPublicCandidateRecords sample_snapshot) = sample_snapshot"
  using sample_public by (simp add: filterNonPublicCandidateRecords_def Let_def) (simp add: sample_snapshot_def)

lemma cache_roundtrip_witness:
  "\<exists>file t. encode_cache boxed sample_snapshot = Inr file \<and> load_cache unboxed file = Inr t \<and>
     snRecords t = snRecords sample_snapshot \<and> snFailed t = snFailed sample_snapshot"
proof -
  obtain e :: enc where "encode_cache boxed sample_snapshot = Inr (boxed (enOut e))" by (rule sample_encoded)
  moreover from cache_roundtrip [OF boxed_inverse this sample_times] obtain t where
    "load_cache unboxed (boxed (enOut e)) = Inr t" "cache_image t = cache_image sample_snapshot"
    by (auto simp: sample_filtered)
  ultimately show ?thesis using image_eq_fields(1,2) by blast
qed


lemma cache_load_safe_witness:
  "\<exists>file t. load_cache unboxed file = Inr t \<and> snRecords t \<noteq> [] \<and> validateCandidateSnapshot t = None"
proof -
  obtain e :: enc where "encode_cache boxed sample_snapshot = Inr (boxed (enOut e))" by (rule sample_encoded)
  from load_saved [OF boxed_inverse this sample_times] obtain t where
    t: "load_cache unboxed (boxed (enOut e)) = Inr t" "cache_image t = cache_image sample_snapshot"
    by (auto simp: sample_filtered)
  moreover have "snRecords t \<noteq> []" using image_eq_fields(1) [OF t(2)] by (simp add: sample_snapshot_def)
  ultimately show ?thesis using cache_load_safe [OF t(1)] by blast
qed

end
