(* ===== verification/CatalogBuild.thy ===== *)
theory CatalogBuild
  imports Catalog "HOL-Library.Sublist"
begin

text \<open>
  The construction of catalog snapshots in candidate_catalog.go: interning into the
  dictionaries, the snapshot of a scrape, the merge with the previous snapshot after a partial
  scrape, and the carrying over of check history and of the durable failures.

  The closures of buildCandidateSnapshot and the methods of candidateSnapshotBuilder intern in the
  same way; both are the operations on \<open>builder\<close>. A dictionary is a list together with the map
  from its entries to their positions, as in the code.
\<close>

section \<open>Interning\<close>

record builder =
  bdSnap :: snapshot
  bdSourceIDs :: "string \<rightharpoonup> nat"
  bdProtocolIDs :: "string \<rightharpoonup> nat"
  bdCountryIDs :: "string \<rightharpoonup> nat"
  bdCityIDs :: "string \<rightharpoonup> nat"
  bdAlts :: "credential list list"
  bdFailedAlts :: "credential list list"

definition empty_snapshot :: snapshot where
  "empty_snapshot = \<lparr> snRecords = [], snFailed = [], snAlts = [], snRefs = [], snKeys = [],
     snSources = [], snProtocols = [], snCountries = [[]], snCities = [[]], snSourceTotals = [],
     snFacetValues = [], snFacetTotals = [], snProtocolTotals = [], snGeneration = 0,
     snRevision = 0, snPhase = [], snSourceErrors = 0, snSeenAt = None, snRefreshAttempt = None,
     snCompletedAt = None \<rparr>"

definition newCandidateSnapshotBuilder :: builder where
  "newCandidateSnapshotBuilder = \<lparr> bdSnap = empty_snapshot, bdSourceIDs = Map.empty,
     bdProtocolIDs = Map.empty, bdCountryIDs = [[] \<mapsto> 0], bdCityIDs = [[] \<mapsto> 0],
     bdAlts = [], bdFailedAlts = [] \<rparr>"

definition source_key :: "string \<Rightarrow> string \<Rightarrow> string" where
  "source_key key label = (if key = [] then legacySourceKey label else key)"

definition internSource :: "string \<Rightarrow> string \<Rightarrow> builder \<Rightarrow> nat \<times> builder" where
  "internSource key label b =
     (let key = source_key key label; label = (if label = [] then ''Unknown'' else label); s = bdSnap b
      in case bdSourceIDs b key of
           Some i \<Rightarrow> (i, b)
         | None \<Rightarrow>
             (length (snSources s),
              b\<lparr>bdSourceIDs := (bdSourceIDs b)(key \<mapsto> length (snSources s)),
                bdSnap := s\<lparr>snKeys := snKeys s @ [key], snSources := snSources s @ [label],
                            snSourceTotals := snSourceTotals s @ [0]\<rparr>\<rparr>))"

definition internProtocol :: "string \<Rightarrow> builder \<Rightarrow> nat \<times> builder" where
  "internProtocol v b =
     (let s = bdSnap b
      in case bdProtocolIDs b v of
           Some i \<Rightarrow> (i, b)
         | None \<Rightarrow>
             (length (snProtocols s),
              b\<lparr>bdProtocolIDs := (bdProtocolIDs b)(v \<mapsto> length (snProtocols s)),
                bdSnap := s\<lparr>snProtocols := snProtocols s @ [v],
                            snProtocolTotals := snProtocolTotals s @ [0]\<rparr>\<rparr>))"

definition internCountry :: "string \<Rightarrow> builder \<Rightarrow> nat \<times> builder" where
  "internCountry v b =
     (let s = bdSnap b
      in case bdCountryIDs b v of
           Some i \<Rightarrow> (i, b)
         | None \<Rightarrow>
             (length (snCountries s),
              b\<lparr>bdCountryIDs := (bdCountryIDs b)(v \<mapsto> length (snCountries s)),
                bdSnap := s\<lparr>snCountries := snCountries s @ [v]\<rparr>\<rparr>))"

definition internCity :: "string \<Rightarrow> builder \<Rightarrow> nat \<times> builder" where
  "internCity v b =
     (let s = bdSnap b
      in case bdCityIDs b v of
           Some i \<Rightarrow> (i, b)
         | None \<Rightarrow>
             (length (snCities s),
              b\<lparr>bdCityIDs := (bdCityIDs b)(v \<mapsto> length (snCities s)),
                bdSnap := s\<lparr>snCities := snCities s @ [v]\<rparr>\<rparr>))"

text \<open>The closure appendSource: one more reference at the end of the array and of the record.\<close>

definition appendSource :: "string \<times> string \<Rightarrow> crec \<times> builder \<Rightarrow> crec \<times> builder" where
  "appendSource kl rb =
     (let (key, label) = kl; (r, b) = rb; (i, b) = internSource key label b; s = bdSnap b
      in (r\<lparr>rcSourceCount := rcSourceCount r + 1\<rparr>,
          b\<lparr>bdSnap := s\<lparr>snRefs := snRefs s @ [i], snSourceTotals := bump i (snSourceTotals s)\<rparr>\<rparr>))"

text \<open>Protocol, country and city of a record under the dictionaries of the builder, no sources yet.\<close>

definition place_record :: "string \<Rightarrow> string \<Rightarrow> string \<Rightarrow> crec \<Rightarrow> builder \<Rightarrow> crec \<times> builder" where
  "place_record protocol country city r b =
     (let (p, b) = internProtocol protocol b; (c, b) = internCountry country b; (t, b) = internCity city b
      in (r\<lparr>rcProtocolID := p, rcCountryID := c, rcCityID := t,
            rcSourceOffset := length (snRefs (bdSnap b)), rcSourceCount := 0\<rparr>, b))"

definition count_protocol :: "crec \<Rightarrow> builder \<Rightarrow> builder" where
  "count_protocol r b =
     b\<lparr>bdSnap := (bdSnap b)\<lparr>snProtocolTotals := bump (rcProtocolID r) (snProtocolTotals (bdSnap b))\<rparr>\<rparr>"

definition push_record :: "crec \<Rightarrow> credential list \<Rightarrow> builder \<Rightarrow> builder" where
  "push_record r alts b =
     b\<lparr>bdSnap := (bdSnap b)\<lparr>snRecords := snRecords (bdSnap b) @ [r]\<rparr>, bdAlts := bdAlts b @ [alts]\<rparr>"

definition push_failure :: "cfail \<Rightarrow> credential list \<Rightarrow> builder \<Rightarrow> builder" where
  "push_failure f alts b =
     b\<lparr>bdSnap := (bdSnap b)\<lparr>snFailed := snFailed (bdSnap b) @ [f]\<rparr>, bdFailedAlts := bdFailedAlts b @ [alts]\<rparr>"

text \<open>Keys and labels of the references of a record.\<close>

definition rc_sources :: "snapshot \<Rightarrow> crec \<Rightarrow> (string \<times> string) list" where
  "rc_sources s r = map (\<lambda>ref. (snKeys s ! ref, snSources s ! ref)) (rc_refs s r)"

definition at_least_one :: "crec \<times> builder \<Rightarrow> crec \<times> builder" where
  "at_least_one rb =
     (if rcSourceCount (fst rb) = 0 then appendSource (legacySourceKey [], []) rb else rb)"

definition translateRecord :: "snapshot \<Rightarrow> crec \<Rightarrow> string list option \<Rightarrow> builder \<Rightarrow> crec \<times> credential list \<times> builder" where
  "translateRecord source r names b =
     (let alts = copyCredentialAlternates source r;
          sources = (case names of None \<Rightarrow> rc_sources source r | Some ns \<Rightarrow> map (\<lambda>n. (legacySourceKey n, n)) ns);
          rb = place_record (rc_protocol source r) (snCountries source ! rcCountryID r)
                 (snCities source ! rcCityID r) r b;
          (r, b) = at_least_one (fold appendSource sources rb)
      in (r, alts, count_protocol r b))"

definition appendRecord :: "snapshot \<Rightarrow> crec \<Rightarrow> string list option \<Rightarrow> builder \<Rightarrow> builder" where
  "appendRecord source r names b =
     (let (r, alts, b) = translateRecord source r names b in push_record r alts b)"

definition appendFailure :: "snapshot \<Rightarrow> cfail \<Rightarrow> builder \<Rightarrow> builder" where
  "appendFailure source f b =
     (let (r, alts, b) = translateRecord source (flRecord f) None b
      in push_failure (f\<lparr>flRecord := r\<rparr>) alts b)"

definition recordHasSourceIn :: "snapshot \<Rightarrow> crec \<Rightarrow> (string \<Rightarrow> bool) \<Rightarrow> bool" where
  "recordHasSourceIn s r allowed \<longleftrightarrow> list_ex allowed (rc_keys s r)"

definition appendFilteredRecord :: "snapshot \<Rightarrow> crec \<Rightarrow> (string \<Rightarrow> bool) \<Rightarrow> builder \<Rightarrow> builder" where
  "appendFilteredRecord source r allowed b =
     (if \<not> recordHasSourceIn source r allowed then b
      else
        let alts = copyCredentialAlternates source r;
            rb = place_record (rc_protocol source r) (snCountries source ! rcCountryID r)
                   (snCities source ! rcCityID r) r b;
            (r, b) = fold appendSource (filter (\<lambda>(k, _). allowed k) (rc_sources source r)) rb
        in push_record r alts (count_protocol r b))"

section \<open>Credential alternates\<close>

definition append_credential :: "credential \<Rightarrow> credential set \<times> credential list \<Rightarrow> credential set \<times> credential list" where
  "append_credential c sm =
     (let (seen, merged) = sm
      in if c \<in> seen \<or> maxAlternatesPerCandidate \<le> length merged then (seen, merged)
         else (insert c seen, merged @ [c]))"

definition rc_credential :: "crec \<Rightarrow> credential" where
  "rc_credential r = \<lparr> crUsername = rcUsername r, crPassword = rcPassword r \<rparr>"

definition mergeCredentialAlternates :: "credential list \<Rightarrow> crec \<Rightarrow> snapshot \<Rightarrow> crec \<Rightarrow> credential list" where
  "mergeCredentialAlternates alts r fallback fr =
     snd (fold append_credential (alts @ rc_credential fr # copyCredentialAlternates fallback fr)
            ({rc_credential r}, []))"

definition alt_entry :: "credential list \<Rightarrow> crec \<times> credential list \<Rightarrow> crec \<times> credential list" where
  "alt_entry alts rt =
     (let (r, tab) = rt; alts = take maxAlternatesPerCandidate alts
      in (r\<lparr>rcAltOffset := length tab, rcAltCount := length alts\<rparr>, tab @ alts))"

fun alt_records :: "crec list \<Rightarrow> credential list list \<Rightarrow> credential list \<Rightarrow> crec list \<times> credential list" where
  "alt_records (r # rs) (a # as) tab =
     (let (r, tab) = alt_entry a (r, tab); (rs, tab) = alt_records rs as tab in (r # rs, tab))"
| "alt_records rs as tab = (rs, tab)"

definition finalizeCredentialAlternates :: "builder \<Rightarrow> snapshot" where
  "finalizeCredentialAlternates b =
     (let s = bdSnap b;
          (rs, tab) = alt_records (snRecords s) (bdAlts b) [];
          (fs, tab) = alt_records (map flRecord (snFailed s)) (bdFailedAlts b) tab
      in s\<lparr>snRecords := rs, snFailed := map (\<lambda>(f, r). f\<lparr>flRecord := r\<rparr>) (zip (snFailed s) fs),
           snAlts := tab\<rparr>)"

section \<open>The snapshot of a scrape\<close>

text \<open>appendSourceValue: a map from source identifiers to labels that answers the empty string for an
  unknown one; \<open>prev\<close> is lastSource.\<close>

fun source_values :: "(string \<Rightarrow> string) \<Rightarrow> string \<Rightarrow> string list \<Rightarrow> (string \<times> string) list" where
  "source_values labels prev [] = []"
| "source_values labels prev (v # vs) =
     (let v = trim_space v
      in if v = prev then source_values labels prev vs
         else (if labels v = [] then (legacySourceKey v, v) else (v, labels v)) # source_values labels v vs)"

definition px_sources :: "(string \<Rightarrow> string) \<Rightarrow> proxy \<Rightarrow> (string \<times> string) list" where
  "px_sources labels px =
     source_values labels [NUL] (if pxSourceNames px = [] then [pxSourceName px] else pxSourceNames px)"

definition build_record :: "(string \<Rightarrow> string) \<Rightarrow> proxy \<Rightarrow> builder \<Rightarrow> builder" where
  "build_record labels px b =
     (let auth = (pxUsername px \<noteq> [] \<or> pxPassword px \<noteq> [] \<or> credentialAlternatesHaveAuth (pxAlternates px));
          r = \<lparr> rcAddr = px_addr px, rcUsername = pxUsername px, rcPassword = pxPassword px,
                rcSourceOffset = 0, rcCountryID = 0, rcCityID = 0, rcProtocolID = 0, rcSourceCount = 0,
                rcContinent = encodeContinent (pxContinent px),
                rcStatus = (if pxProtocol px = ''proxyip'' then candidateResource else candidateDeferred),
                rcHasAuth = auth, rcSeenUnix = 0, rcCheckedUnix = 0, rcAltOffset = 0, rcAltCount = 0 \<rparr>;
          rb = place_record (to_lower (trim_space (pxProtocol px))) (normalizedCandidateCountry (pxCountry px))
                 (trim_space (pxCity px)) r b;
          (r, b) = at_least_one (fold appendSource (px_sources labels px) rb)
      in push_record r (pxAlternates px) (count_protocol r b))"

definition build_less :: "snapshot \<Rightarrow> crec \<times> credential list \<Rightarrow> crec \<times> credential list \<Rightarrow> bool" where
  "build_less s a b \<longleftrightarrow>
     (let p = rc_protocol s (fst a); q = rc_protocol s (fst b)
      in if p \<noteq> q then p < q else rcAddr (fst a) < rcAddr (fst b))"

definition buildCandidateSnapshot :: "proxy list \<Rightarrow> (string \<Rightarrow> string) \<Rightarrow> snapshot" where
  "buildCandidateSnapshot nodes labels =
     (let b = fold (build_record labels) nodes newCandidateSnapshotBuilder; s = bdSnap b;
          items = slice_sort (build_less s) (zip (snRecords s) (bdAlts b));
          (rs, tab) = alt_records (map fst items) (map snd items) []
      in rebuildCandidateSourceFacets (s\<lparr>snRecords := rs, snAlts := tab\<rparr>))"

section \<open>Merge after a partial scrape\<close>

text \<open>The loop over two sorted source lists; \<open>ks\<close> are those of the old record that are retained. A key is
  appended unless it repeats the one before.\<close>

fun merge_sources :: "(string \<times> string) list \<Rightarrow> (string \<times> string) list \<Rightarrow> (string \<times> string) list" where
  "merge_sources [] ys = ys"
| "merge_sources xs [] = xs"
| "merge_sources (x # xs) (y # ys) =
     (if fst x < fst y then x # merge_sources xs (y # ys)
      else if fst y < fst x then y # merge_sources (x # xs) ys
      else y # merge_sources xs ys)"

definition append_source_once :: "string \<times> string \<Rightarrow> crec \<times> builder \<Rightarrow> crec \<times> builder" where
  "append_source_once kl rb =
     (let s = bdSnap (snd rb)
      in if rcSourceCount (fst rb) = 0 \<or> snKeys s ! last (snRefs s) \<noteq> fst kl then appendSource kl rb else rb)"

definition appendMergedRecord ::
    "string list \<Rightarrow> string list \<Rightarrow> string list \<Rightarrow> crec \<Rightarrow> snapshot \<Rightarrow> crec \<Rightarrow> (string \<Rightarrow> bool) \<Rightarrow>
     snapshot \<Rightarrow> crec \<Rightarrow> builder \<Rightarrow> builder" where
  "appendMergedRecord protocols countries cities r sa a retained sb other b =
     (let alts = copyCredentialAlternates sb other;
          keep = recordHasSourceIn sa a retained;
          alts = (if keep then mergeCredentialAlternates alts r sa a else alts);
          r = r\<lparr>rcHasAuth := rcHasAuth r \<or> keep \<and> rcHasAuth a\<rparr>;
          r = r\<lparr>rcHasAuth := rcHasAuth r \<or> rcUsername r \<noteq> [] \<or> rcPassword r \<noteq> [] \<or>
                             credentialAlternatesHaveAuth alts\<rparr>;
          rb = place_record (protocols ! rcProtocolID r) (countries ! rcCountryID r) (cities ! rcCityID r) r b;
          (r, b) = fold append_source_once
                     (merge_sources (filter (\<lambda>(k, _). retained k) (rc_sources sa a)) (rc_sources sb other)) rb
      in push_record r alts (count_protocol r b))"

text \<open>The declaration that goes into the merged snapshot, with identifiers of the dictionaries of either
  snapshot; \<open>kept\<close> is oldAttributionRetained.\<close>

definition merged_decl :: "bool \<Rightarrow> crec \<Rightarrow> crec \<Rightarrow> crec" where
  "merged_decl kept old new =
     (let login = (kept \<and> rcUsername new = [] \<and> rcUsername old \<noteq> []);
          user = (if login then rcUsername old else rcUsername new);
          password = (if login then rcPassword old else rcPassword new);
          geo = (kept \<and> rcCountryID new = 0 \<and> rcCountryID old \<noteq> 0);
          city = (kept \<and> rcCityID new = 0 \<and> rcCityID old \<noteq> 0)
      in new\<lparr>rcStatus := rcStatus old, rcCheckedUnix := rcCheckedUnix old,
             rcUsername := user, rcPassword := password, rcHasAuth := user \<noteq> [] \<or> password \<noteq> [],
             rcCountryID := (if geo then rcCountryID old else rcCountryID new),
             rcContinent := (if geo then rcContinent old else rcContinent new),
             rcCityID := (if city then rcCityID old else rcCityID new)\<rparr>)"

definition merge_pair :: "snapshot \<Rightarrow> snapshot \<Rightarrow> (string \<Rightarrow> bool) \<Rightarrow> crec \<Rightarrow> crec \<Rightarrow> builder \<Rightarrow> builder" where
  "merge_pair previous current failed old new b =
     (let m = merged_decl (recordHasSourceIn previous old failed) old new;
          countries = (if rcCountryID m = rcCountryID old \<and> rcCountryID new = 0 \<and> rcCountryID old \<noteq> 0
                       then snCountries previous else snCountries current);
          cities = (if rcCityID m = rcCityID old \<and> rcCityID new = 0 \<and> rcCityID old \<noteq> 0
                    then snCities previous else snCities current)
      in appendMergedRecord (snProtocols current) countries cities m previous old failed current new b)"

fun merge_loop ::
    "snapshot \<Rightarrow> snapshot \<Rightarrow> (string \<Rightarrow> bool) \<Rightarrow> crec list \<Rightarrow> crec list \<Rightarrow> builder \<Rightarrow> builder" where
  "merge_loop previous current failed [] [] b = b"
| "merge_loop previous current failed [] (c # cs) b =
     merge_loop previous current failed [] cs (appendRecord current c None b)"
| "merge_loop previous current failed (p # ps) [] b =
     merge_loop previous current failed ps [] (appendFilteredRecord previous p failed b)"
| "merge_loop previous current failed (p # ps) (c # cs) b =
     (let cmp = compareCandidateRecords previous p current c
      in if cmp = - 1 then
           merge_loop previous current failed ps (c # cs) (appendFilteredRecord previous p failed b)
         else if cmp = 1 then
           merge_loop previous current failed (p # ps) cs (appendRecord current c None b)
         else merge_loop previous current failed ps cs (merge_pair previous current failed p c b))"

definition mergeCandidateSnapshots :: "snapshot \<Rightarrow> snapshot \<Rightarrow> (string \<Rightarrow> bool) \<Rightarrow> snapshot" where
  "mergeCandidateSnapshots previous current failed =
     (let s = finalizeCredentialAlternates
                (merge_loop previous current failed (snRecords previous) (snRecords current)
                  newCandidateSnapshotBuilder)
      in rebuildCandidateSourceFacets
           (s\<lparr>snSeenAt := snSeenAt current, snRefreshAttempt := snRefreshAttempt current,
             snCompletedAt := snCompletedAt previous\<rparr>))"

fun merged_size :: "snapshot \<Rightarrow> snapshot \<Rightarrow> (string \<Rightarrow> bool) \<Rightarrow> crec list \<Rightarrow> crec list \<Rightarrow> nat" where
  "merged_size a b failed [] cs = length cs"
| "merged_size a b failed (p # ps) [] =
     (if recordHasSourceIn a p failed then 1 else 0) + merged_size a b failed ps []"
| "merged_size a b failed (p # ps) (c # cs) =
     (let cmp = compareCandidateRecords a p b c
      in if cmp = - 1 then (if recordHasSourceIn a p failed then 1 else 0) + merged_size a b failed ps (c # cs)
         else if cmp = 1 then 1 + merged_size a b failed (p # ps) cs
         else 1 + merged_size a b failed ps cs)"

definition candidateMergedSize :: "snapshot \<Rightarrow> snapshot \<Rightarrow> (string \<Rightarrow> bool) \<Rightarrow> nat" where
  "candidateMergedSize a b failed = merged_size a b failed (snRecords a) (snRecords b)"

section \<open>History\<close>

fun carry_loop :: "snapshot \<Rightarrow> snapshot \<Rightarrow> crec list \<Rightarrow> crec list \<Rightarrow> crec list" where
  "carry_loop previous current [] cs = cs"
| "carry_loop previous current (p # ps) [] = []"
| "carry_loop previous current (p # ps) (c # cs) =
     (let cmp = compareCandidateRecords previous p current c
      in if cmp = - 1 then carry_loop previous current ps (c # cs)
         else if cmp = 1 then c # carry_loop previous current (p # ps) cs
         else (if rc_protocol current c \<noteq> ''proxyip''
               then c\<lparr>rcStatus := rcStatus p, rcCheckedUnix := rcCheckedUnix p\<rparr> else c)
              # carry_loop previous current ps cs)"

definition carryCandidateHistory :: "snapshot \<Rightarrow> snapshot \<Rightarrow> snapshot" where
  "carryCandidateHistory previous current =
     current\<lparr>snRecords := carry_loop previous current (snRecords previous) (snRecords current),
             snCompletedAt := snCompletedAt previous\<rparr>"

section \<open>Durable failures\<close>

text \<open>The map from the key of a failure to it; a later entry replaces an earlier one.\<close>

definition failed_map :: "snapshot \<Rightarrow> string \<rightharpoonup> cfail" where
  "failed_map s = map_of (rev (map (\<lambda>f. (rc_key s (flRecord f), f)) (snFailed s)))"

text \<open>A source of the failure that the current declaration does not have. The end of the array before
  the loop bounds the search for a duplicate.\<close>

definition append_missing :: "nat \<Rightarrow> string \<times> string \<Rightarrow> crec \<times> builder \<Rightarrow> crec \<times> builder" where
  "append_missing source_end kl rb =
     (let (r, b) = rb; s = bdSnap b
      in if list_ex (\<lambda>i. snKeys s ! (snRefs s ! i) = fst kl) [rcSourceOffset r..<source_end] then rb
         else appendSource kl rb)"

definition sort_segment :: "crec \<Rightarrow> builder \<Rightarrow> builder" where
  "sort_segment r b =
     (let s = bdSnap b; refs = snRefs s; i = rcSourceOffset r; n = rcSourceCount r;
          segment = slice_sort (\<lambda>x y. snKeys s ! x < snKeys s ! y) (take n (drop i refs))
      in b\<lparr>bdSnap := s\<lparr>snRefs := take i refs @ segment @ drop (i + n) refs\<rparr>\<rparr>)"

definition rediscovered :: "snapshot \<Rightarrow> snapshot \<Rightarrow> cfail \<Rightarrow> crec \<Rightarrow> builder \<Rightarrow> builder" where
  "rediscovered previous current f r b =
     (let m = r\<lparr>rcCheckedUnix := rcCheckedUnix (flRecord f)\<rparr>;
          alts = mergeCredentialAlternates (copyCredentialAlternates current r) m previous (flRecord f);
          m = m\<lparr>rcHasAuth := rcHasAuth m \<or> rcHasAuth (flRecord f) \<or> credentialAlternatesHaveAuth alts\<rparr>;
          (t, _, b) = translateRecord current m None b;
          source_end = length (snRefs (bdSnap b));
          (t, b) = fold (append_missing source_end) (rc_sources previous (flRecord f)) (t, b)
      in push_failure (f\<lparr>flRecord := t\<rparr>) alts (sort_segment t b))"

fun reconcile_records ::
    "snapshot \<Rightarrow> snapshot \<Rightarrow> crec list \<Rightarrow> (string \<rightharpoonup> cfail) \<times> builder \<Rightarrow> (string \<rightharpoonup> cfail) \<times> builder" where
  "reconcile_records previous current [] fb = fb"
| "reconcile_records previous current (r # rs) (failed, b) =
     (case failed (rc_key current r) of
        None \<Rightarrow> reconcile_records previous current rs (failed, appendRecord current r None b)
      | Some f \<Rightarrow> reconcile_records previous current rs
                   (failed(rc_key current r := None), rediscovered previous current f r b))"

fun reconcile_retained :: "snapshot \<Rightarrow> (string \<rightharpoonup> cfail) \<Rightarrow> cfail list \<Rightarrow> builder \<Rightarrow> builder" where
  "reconcile_retained previous failed [] b = b"
| "reconcile_retained previous failed (f # fs) b =
     (if failed (rc_key previous (flRecord f)) = None then reconcile_retained previous failed fs b
      else reconcile_retained previous failed fs (appendFailure previous f b))"

definition sort_failures :: "builder \<Rightarrow> builder" where
  "sort_failures b =
     (let s = bdSnap b;
          items = slice_sort (\<lambda>x y. compareCandidateRecords s (flRecord (fst x)) s (flRecord (fst y)) < 0)
                    (zip (snFailed s) (bdFailedAlts b))
      in b\<lparr>bdSnap := s\<lparr>snFailed := map fst items\<rparr>, bdFailedAlts := map snd items\<rparr>)"

definition reconcileCandidateFailures :: "snapshot \<Rightarrow> snapshot \<Rightarrow> snapshot" where
  "reconcileCandidateFailures previous current =
     (if snFailed previous = [] then current
      else
        let (failed, b) = reconcile_records previous current (snRecords current)
                            (failed_map previous, newCandidateSnapshotBuilder);
            b = sort_failures (reconcile_retained previous failed (snFailed previous) b)
        in rebuildCandidateSourceFacets
             ((finalizeCredentialAlternates b)\<lparr>snCompletedAt := snCompletedAt previous\<rparr>))"

end
