(* ===== verification/CatalogMerge.thy ===== *)
theory CatalogMerge
  imports CatalogBuild
begin

text \<open>
  What the construction of snapshots computes, without its dictionaries: a snapshot stands for the
  list of its candidates, and each operation of CatalogBuild is a function on such lists.
\<close>

section \<open>Dictionaries\<close>

definition dict_ok :: "(string \<rightharpoonup> nat) \<Rightarrow> string list \<Rightarrow> bool" where
  "dict_ok m ds \<longleftrightarrow> (\<forall>k i. m k = Some i \<longleftrightarrow> i < length ds \<and> ds ! i = k)"

lemma dict_add: "dict_ok m ds \<Longrightarrow> m k = None \<Longrightarrow> dict_ok (m(k \<mapsto> length ds)) (ds @ [k])"
proof -
  assume ok: "dict_ok m ds" and none: "m k = None"
  then have "i < length ds \<Longrightarrow> ds ! i \<noteq> k" for i unfolding dict_ok_def by (metis option.distinct(1))
  then show ?thesis using ok unfolding dict_ok_def by (auto simp: nth_append less_Suc_eq)
qed

lemma dict_distinct: "dict_ok m ds \<Longrightarrow> distinct ds"
  unfolding dict_ok_def distinct_conv_nth by (metis option.inject)

lemma dict_SomeD: "dict_ok m ds \<Longrightarrow> m k = Some i \<Longrightarrow> i < length ds \<and> ds ! i = k"
  unfolding dict_ok_def by blast

definition extends :: "snapshot \<Rightarrow> snapshot \<Rightarrow> bool" where
  "extends s t \<longleftrightarrow> prefix (snKeys s) (snKeys t) \<and> prefix (snProtocols s) (snProtocols t) \<and>
     prefix (snCountries s) (snCountries t) \<and> prefix (snCities s) (snCities t) \<and> prefix (snRefs s) (snRefs t)"

lemma extends_refl [simp]: "extends s s"
  by (simp add: extends_def)

lemma extends_trans: "extends s t \<Longrightarrow> extends t u \<Longrightarrow> extends s u"
  by (auto simp: extends_def intro: prefix_order.trans)

lemma prefix_nth: "prefix xs ys \<Longrightarrow> i < length xs \<Longrightarrow> ys ! i = xs ! i"
  by (auto simp: prefix_def nth_append)

lemma prefix_less: "prefix xs ys \<Longrightarrow> i < length xs \<Longrightarrow> i < length ys"
  using prefix_length_le by fastforce

section \<open>Candidates\<close>

record cand =
  caProtocol :: string
  caAddr :: string
  caUser :: string
  caPass :: string
  caCountry :: string
  caCity :: string
  caContinent :: u8
  caStatus :: CandidateStatus
  caAuth :: bool
  caSeen :: u64
  caChecked :: u64
  caKeys :: "string list"
  caAlts :: "credential list"

definition cand_of :: "snapshot \<Rightarrow> crec \<Rightarrow> credential list \<Rightarrow> cand" where
  "cand_of s r alts = \<lparr> caProtocol = rc_protocol s r, caAddr = rcAddr r, caUser = rcUsername r,
     caPass = rcPassword r, caCountry = snCountries s ! rcCountryID r, caCity = snCities s ! rcCityID r,
     caContinent = rcContinent r, caStatus = rcStatus r, caAuth = rcHasAuth r, caSeen = rcSeenUnix r,
     caChecked = rcCheckedUnix r, caKeys = rc_keys s r, caAlts = alts \<rparr>"

definition cand_in :: "snapshot \<Rightarrow> crec \<Rightarrow> cand" where
  "cand_in s r = cand_of s r (copyCredentialAlternates s r)"

definition cands :: "snapshot \<Rightarrow> cand list" where
  "cands s = map (cand_in s) (snRecords s)"

definition failures :: "snapshot \<Rightarrow> (cand \<times> FailureKind \<times> string) list" where
  "failures s = map (\<lambda>f. (cand_in s (flRecord f), flKind f, flError f)) (snFailed s)"

definition ca_pair :: "cand \<Rightarrow> string \<times> string" where
  "ca_pair c = (caProtocol c, caAddr c)"

lemma ca_pair_cand [simp]: "ca_pair (cand_of s r alts) = rc_pair s r" "ca_pair (cand_in s r) = rc_pair s r"
  by (simp_all add: ca_pair_def cand_of_def cand_in_def rc_pair_def)

text \<open>The identifiers and the source range of a record are inside the snapshot.\<close>

definition rc_inside :: "snapshot \<Rightarrow> crec \<Rightarrow> bool" where
  "rc_inside s r \<longleftrightarrow> rcProtocolID r < length (snProtocols s) \<and> rcCountryID r < length (snCountries s) \<and>
     rcCityID r < length (snCities s) \<and> rcSourceOffset r + rcSourceCount r \<le> length (snRefs s)"

definition refs_inside :: "snapshot \<Rightarrow> bool" where
  "refs_inside s \<longleftrightarrow> (\<forall>ref\<in>set (snRefs s). ref < length (snKeys s))"

lemma rc_refs_nth: "rc_inside s r \<Longrightarrow> rc_refs s r = take (rcSourceCount r) (drop (rcSourceOffset r) (snRefs s))"
  by (auto simp: rc_refs_def rc_inside_def intro!: nth_equalityI)

lemma rc_refs_less: "rc_inside s r \<Longrightarrow> refs_inside s \<Longrightarrow> ref \<in> set (rc_refs s r) \<Longrightarrow> ref < length (snKeys s)"
  unfolding rc_refs_nth refs_inside_def by (metis in_set_takeD in_set_dropD)

lemma extends_record:
  assumes "extends s t" "rc_inside s r" "refs_inside s"
  shows "rc_inside t r" "cand_of t r alts = cand_of s r alts"
proof -
  note px = assms(1) [unfolded extends_def]
  show "rc_inside t r"
    using assms(2) px prefix_less prefix_length_le unfolding rc_inside_def by (meson le_trans)
  have refs: "rc_refs t r = rc_refs s r"
    using assms(2) px by (auto simp: rc_refs_def rc_inside_def intro!: prefix_nth)
  have "rc_keys t r = rc_keys s r"
    using rc_refs_less [OF assms(2,3)] px by (auto simp: rc_keys_def refs intro!: prefix_nth)
  then show "cand_of t r alts = cand_of s r alts"
    using assms(2) px by (simp add: cand_of_def rc_protocol_def rc_inside_def prefix_nth)
qed

section \<open>Builders\<close>

definition dicts_ok :: "builder \<Rightarrow> bool" where
  "dicts_ok b \<longleftrightarrow> dict_ok (bdSourceIDs b) (snKeys (bdSnap b)) \<and> dict_ok (bdProtocolIDs b) (snProtocols (bdSnap b)) \<and>
     dict_ok (bdCountryIDs b) (snCountries (bdSnap b)) \<and> dict_ok (bdCityIDs b) (snCities (bdSnap b)) \<and>
     length (snSources (bdSnap b)) = length (snKeys (bdSnap b)) \<and> [] \<notin> set (snKeys (bdSnap b)) \<and>
     prefix [[]] (snCountries (bdSnap b)) \<and> prefix [[]] (snCities (bdSnap b))"

definition records_ok :: "builder \<Rightarrow> bool" where
  "records_ok b \<longleftrightarrow> length (bdAlts b) = length (snRecords (bdSnap b)) \<and>
     length (bdFailedAlts b) = length (snFailed (bdSnap b)) \<and>
     (\<forall>r\<in>set (snRecords (bdSnap b)). rc_inside (bdSnap b) r) \<and>
     (\<forall>f\<in>set (snFailed (bdSnap b)). rc_inside (bdSnap b) (flRecord f))"

definition b_ok :: "builder \<Rightarrow> bool" where
  "b_ok b \<longleftrightarrow> dicts_ok b \<and> refs_inside (bdSnap b) \<and> records_ok b"

definition bview :: "builder \<Rightarrow> cand list" where
  "bview b = map (\<lambda>(r, a). cand_of (bdSnap b) r a) (zip (snRecords (bdSnap b)) (bdAlts b))"

definition fview :: "builder \<Rightarrow> (cand \<times> FailureKind \<times> string) list" where
  "fview b = map (\<lambda>(f, a). (cand_of (bdSnap b) (flRecord f) a, flKind f, flError f))
     (zip (snFailed (bdSnap b)) (bdFailedAlts b))"

text \<open>A step that only interns: the dictionaries and references grow, the records stay.\<close>

definition grows :: "builder \<Rightarrow> builder \<Rightarrow> bool" where
  "grows b b' \<longleftrightarrow> b_ok b' \<and> extends (bdSnap b) (bdSnap b') \<and>
     snRecords (bdSnap b') = snRecords (bdSnap b) \<and> snFailed (bdSnap b') = snFailed (bdSnap b) \<and>
     bdAlts b' = bdAlts b \<and> bdFailedAlts b' = bdFailedAlts b"

lemma grows_refl: "b_ok b \<Longrightarrow> grows b b"
  by (simp add: grows_def)

lemma grows_trans: "grows b c \<Longrightarrow> grows c d \<Longrightarrow> grows b d"
  by (auto simp: grows_def intro: extends_trans)

lemma growsI:
  assumes "b_ok b" "dicts_ok b'" "refs_inside (bdSnap b')" "extends (bdSnap b) (bdSnap b')"
    "snRecords (bdSnap b') = snRecords (bdSnap b)" "snFailed (bdSnap b') = snFailed (bdSnap b)"
    "bdAlts b' = bdAlts b" "bdFailedAlts b' = bdFailedAlts b"
  shows "grows b b'"
  using assms extends_record(1) [OF assms(4)] unfolding grows_def b_ok_def records_ok_def by auto

lemma grows_views:
  assumes "b_ok b" "grows b b'"
  shows "bview b' = bview b" "fview b' = fview b"
proof -
  have ok: "refs_inside (bdSnap b)" "\<forall>r\<in>set (snRecords (bdSnap b)). rc_inside (bdSnap b) r"
    "\<forall>f\<in>set (snFailed (bdSnap b)). rc_inside (bdSnap b) (flRecord f)"
    using assms(1) by (auto simp: b_ok_def records_ok_def)
  have eq: "extends (bdSnap b) (bdSnap b')" "snRecords (bdSnap b') = snRecords (bdSnap b)"
    "snFailed (bdSnap b') = snFailed (bdSnap b)" "bdAlts b' = bdAlts b" "bdFailedAlts b' = bdFailedAlts b"
    using assms(2) by (auto simp: grows_def)
  show "bview b' = bview b" "fview b' = fview b"
    unfolding bview_def fview_def eq
    using ok extends_record(2) [OF eq(1)] by (auto dest!: set_zip_leftD intro!: map_cong)
qed

lemma internSource_grows:
  assumes ok: "b_ok b" and i: "internSource key label b = (i, b')"
  shows "grows b b' \<and> snRefs (bdSnap b') = snRefs (bdSnap b) \<and> i < length (snKeys (bdSnap b')) \<and>
    snKeys (bdSnap b') ! i = source_key key label"
proof (cases "bdSourceIDs b (source_key key label)")
  case None
  have "source_key key label \<noteq> []" by (auto simp: source_key_def legacySourceKey_def)
  then have "dicts_ok b'" "refs_inside (bdSnap b')" "extends (bdSnap b) (bdSnap b')"
    using ok i None dict_add [of "bdSourceIDs b" "snKeys (bdSnap b)" "source_key key label"]
    by (auto simp: internSource_def Let_def b_ok_def dicts_ok_def refs_inside_def extends_def less_SucI)
  then have "grows b b'" using i None by (intro growsI [OF ok]) (auto simp: internSource_def Let_def)
  moreover have "length (snSources (bdSnap b)) = length (snKeys (bdSnap b))"
    using ok by (simp add: b_ok_def dicts_ok_def)
  ultimately show ?thesis using i None by (auto simp: internSource_def Let_def nth_append)
next
  case (Some j)
  then have "i = j" "b' = b" using i by (auto simp: internSource_def Let_def)
  then show ?thesis using ok Some dict_SomeD [of "bdSourceIDs b"] by (auto simp: grows_refl b_ok_def dicts_ok_def)
qed

lemma internProtocol_grows:
  assumes ok: "b_ok b" and i: "internProtocol v b = (i, b')"
  shows "grows b b' \<and> snRefs (bdSnap b') = snRefs (bdSnap b) \<and> i < length (snProtocols (bdSnap b')) \<and>
    snProtocols (bdSnap b') ! i = v"
proof (cases "bdProtocolIDs b v")
  case None
  have "dicts_ok b'" "refs_inside (bdSnap b')" "extends (bdSnap b) (bdSnap b')"
    using ok i None dict_add [of "bdProtocolIDs b" "snProtocols (bdSnap b)" v]
    by (auto simp: internProtocol_def Let_def b_ok_def dicts_ok_def refs_inside_def extends_def)
  then have "grows b b'" using i None by (intro growsI [OF ok]) (auto simp: internProtocol_def Let_def)
  then show ?thesis using i None by (auto simp: internProtocol_def Let_def)
next
  case (Some j)
  then have "i = j" "b' = b" using i by (auto simp: internProtocol_def Let_def)
  then show ?thesis using ok Some dict_SomeD [of "bdProtocolIDs b"] by (auto simp: grows_refl b_ok_def dicts_ok_def)
qed

lemma internCountry_grows:
  assumes ok: "b_ok b" and i: "internCountry v b = (i, b')"
  shows "grows b b' \<and> snRefs (bdSnap b') = snRefs (bdSnap b) \<and> i < length (snCountries (bdSnap b')) \<and>
    snCountries (bdSnap b') ! i = v"
proof (cases "bdCountryIDs b v")
  case None
  have "dicts_ok b'" "refs_inside (bdSnap b')" "extends (bdSnap b) (bdSnap b')"
    using ok i None dict_add [of "bdCountryIDs b" "snCountries (bdSnap b)" v]
    by (auto simp: internCountry_def Let_def b_ok_def dicts_ok_def refs_inside_def extends_def)
  then have "grows b b'" using i None by (intro growsI [OF ok]) (auto simp: internCountry_def Let_def)
  then show ?thesis using i None by (auto simp: internCountry_def Let_def)
next
  case (Some j)
  then have "i = j" "b' = b" using i by (auto simp: internCountry_def Let_def)
  then show ?thesis using ok Some dict_SomeD [of "bdCountryIDs b"] by (auto simp: grows_refl b_ok_def dicts_ok_def)
qed

lemma internCity_grows:
  assumes ok: "b_ok b" and i: "internCity v b = (i, b')"
  shows "grows b b' \<and> snRefs (bdSnap b') = snRefs (bdSnap b) \<and> i < length (snCities (bdSnap b')) \<and>
    snCities (bdSnap b') ! i = v"
proof (cases "bdCityIDs b v")
  case None
  have "dicts_ok b'" "refs_inside (bdSnap b')" "extends (bdSnap b) (bdSnap b')"
    using ok i None dict_add [of "bdCityIDs b" "snCities (bdSnap b)" v]
    by (auto simp: internCity_def Let_def b_ok_def dicts_ok_def refs_inside_def extends_def)
  then have "grows b b'" using i None by (intro growsI [OF ok]) (auto simp: internCity_def Let_def)
  then show ?thesis using i None by (auto simp: internCity_def Let_def)
next
  case (Some j)
  then have "i = j" "b' = b" using i by (auto simp: internCity_def Let_def)
  then show ?thesis using ok Some dict_SomeD [of "bdCityIDs b"] by (auto simp: grows_refl b_ok_def dicts_ok_def)
qed

text \<open>A record under construction: its source range ends at the end of the array.\<close>

definition open_rec :: "builder \<Rightarrow> crec \<Rightarrow> string list \<Rightarrow> bool" where
  "open_rec b r keys \<longleftrightarrow> rc_inside (bdSnap b) r \<and>
     rcSourceOffset r + rcSourceCount r = length (snRefs (bdSnap b)) \<and> rc_keys (bdSnap b) r = keys"

lemma open_rec_grows:
  assumes "b_ok b" "grows b b'" "snRefs (bdSnap b') = snRefs (bdSnap b)" "open_rec b r keys"
  shows "open_rec b' r keys"
proof -
  have e: "extends (bdSnap b) (bdSnap b')" "refs_inside (bdSnap b)" "rc_inside (bdSnap b) r"
    using assms by (auto simp: grows_def b_ok_def open_rec_def)
  show ?thesis
    using extends_record(1) [OF e(1,3,2)] extends_record(2) [OF e(1,3,2), of "[]"] assms(3,4)
    by (simp add: open_rec_def cand_of_def)
qed

lemma rc_refs_snoc:
  assumes "rcSourceOffset r + rcSourceCount r = length (snRefs s)"
  shows "rc_refs (s\<lparr>snRefs := snRefs s @ [i], snSourceTotals := ts\<rparr>) (r\<lparr>rcSourceCount := Suc (rcSourceCount r)\<rparr>) = rc_refs s r @ [i]"
  using assms by (auto simp: rc_refs_def nth_append)

lemma appendSource_open:
  assumes ok: "b_ok b" and op: "open_rec b r keys" and a: "appendSource (key, label) (r, b) = (r', b')"
  shows "grows b b' \<and> open_rec b' r' (keys @ [source_key key label]) \<and>
    r' = r\<lparr>rcSourceCount := rcSourceCount r + 1\<rparr>"
proof -
  obtain i b1 where i: "internSource key label b = (i, b1)" by fastforce
  note g = internSource_grows [OF ok i]
  then have op1: "open_rec b1 r keys" using open_rec_grows [OF ok _ _ op] by blast
  have r': "r' = r\<lparr>rcSourceCount := rcSourceCount r + 1\<rparr>"
    and b': "b' = b1\<lparr>bdSnap := (bdSnap b1)\<lparr>snRefs := snRefs (bdSnap b1) @ [i],
      snSourceTotals := bump i (snSourceTotals (bdSnap b1))\<rparr>\<rparr>"
    using a i by (auto simp: appendSource_def Let_def)
  have ok1: "b_ok b1" using g by (simp add: grows_def)
  have "grows b1 b'"
    by (rule growsI [OF ok1])
      (use ok1 g in \<open>auto simp: b' b_ok_def dicts_ok_def refs_inside_def extends_def\<close>)
  moreover have "open_rec b' r' (keys @ [source_key key label])"
    using op1 g rc_refs_snoc [where r = r and s = "bdSnap b1" and i = i]
    by (auto simp: open_rec_def r' b' rc_inside_def rc_keys_def)
  ultimately show ?thesis using g r' grows_trans by blast
qed

lemma fold_appendSource:
  assumes "b_ok b" "open_rec b r keys" "fold appendSource kls (r, b) = (r', b')"
  shows "grows b b' \<and> open_rec b' r' (keys @ map (\<lambda>(k, l). source_key k l) kls) \<and>
    r' = r\<lparr>rcSourceCount := rcSourceCount r + length kls\<rparr>"
  using assms
proof (induction kls arbitrary: r b keys)
  case Nil
  then show ?case by (simp add: grows_refl)
next
  case (Cons kl kls)
  obtain r1 b1 where 1: "appendSource kl (r, b) = (r1, b1)" by fastforce
  obtain k l where kl: "kl = (k, l)" by fastforce
  note a = appendSource_open [OF Cons.prems(1,2), of k l r1 b1]
  have ok1: "b_ok b1" using a 1 kl by (simp add: grows_def)
  have "fold appendSource kls (r1, b1) = (r', b')" using Cons.prems(3) 1 by simp
  then show ?case
    using Cons.IH [OF ok1, of r1 "keys @ [source_key k l]"] a 1 kl by (auto intro: grows_trans)
qed

lemma place_record_open:
  assumes ok: "b_ok b" and p: "place_record protocol country city r b = (r', b')"
  shows "grows b b' \<and> snRefs (bdSnap b') = snRefs (bdSnap b) \<and> open_rec b' r' [] \<and>
    cand_of (bdSnap b') r' alts = (cand_of s r alts)\<lparr>caProtocol := protocol, caCountry := country,
      caCity := city, caKeys := []\<rparr> \<and> rcSourceCount r' = 0"
proof -
  obtain i b1 where 1: "internProtocol protocol b = (i, b1)" by fastforce
  note g1 = internProtocol_grows [OF ok 1]
  then have ok1: "b_ok b1" by (simp add: grows_def)
  obtain j b2 where 2: "internCountry country b1 = (j, b2)" by fastforce
  note g2 = internCountry_grows [OF ok1 2]
  then have ok2: "b_ok b2" by (simp add: grows_def)
  obtain k b3 where 3: "internCity city b2 = (k, b3)" by fastforce
  note g3 = internCity_grows [OF ok2 3]
  have r': "b' = b3" "r' = r\<lparr>rcProtocolID := i, rcCountryID := j, rcCityID := k,
      rcSourceOffset := length (snRefs (bdSnap b3)), rcSourceCount := 0\<rparr>"
    using p 1 2 3 by (auto simp: place_record_def)
  have e: "prefix (snProtocols (bdSnap b1)) (snProtocols (bdSnap b3))"
    "prefix (snCountries (bdSnap b2)) (snCountries (bdSnap b3))"
    using g2 g3 by (auto simp: grows_def extends_def intro: prefix_order.trans)
  have "snProtocols (bdSnap b3) ! i = protocol" "snCountries (bdSnap b3) ! j = country"
    "i < length (snProtocols (bdSnap b3))" "j < length (snCountries (bdSnap b3))"
    using g1 g2 prefix_nth [OF e(1)] prefix_nth [OF e(2)] prefix_less [OF e(1)] prefix_less [OF e(2)] by auto
  note at = this
  have grow: "grows b b3" using g1 g2 g3 by (blast intro: grows_trans)
  have refs: "snRefs (bdSnap b3) = snRefs (bdSnap b)" using g1 g2 g3 by simp
  have "open_rec b3 r' []"
    using at g3 by (simp add: open_rec_def rc_inside_def rc_keys_def rc_refs_def r')
  moreover have "cand_of (bdSnap b3) r' alts = (cand_of s r alts)\<lparr>caProtocol := protocol, caCountry := country,
      caCity := city, caKeys := []\<rparr>"
    using at g3 by (simp add: cand_of_def rc_protocol_def rc_keys_def rc_refs_def r')
  ultimately show ?thesis using grow refs r' by simp
qed

lemma count_protocol_grows:
  assumes "b_ok b"
  shows "grows b (count_protocol r b)" "snRefs (bdSnap (count_protocol r b)) = snRefs (bdSnap b)"
  using assms by (auto intro!: growsI simp: count_protocol_def b_ok_def dicts_ok_def refs_inside_def extends_def)

lemma push_record_view:
  assumes "b_ok b" "rc_inside (bdSnap b) r"
  shows "b_ok (push_record r a b)" "bview (push_record r a b) = bview b @ [cand_of (bdSnap b) r a]"
    "fview (push_record r a b) = fview b"
proof -
  have same: "rc_inside (s\<lparr>snRecords := rs\<rparr>) = rc_inside s" "cand_of (s\<lparr>snRecords := rs\<rparr>) = cand_of s" for s rs
    by (simp_all add: fun_eq_iff rc_inside_def cand_of_def rc_protocol_def rc_keys_def rc_refs_def)
  show "b_ok (push_record r a b)"
    using assms by (auto simp: push_record_def b_ok_def dicts_ok_def refs_inside_def records_ok_def same)
  show "bview (push_record r a b) = bview b @ [cand_of (bdSnap b) r a]" "fview (push_record r a b) = fview b"
    using assms(1) by (simp_all add: push_record_def bview_def fview_def same b_ok_def records_ok_def)
qed

lemma push_failure_view:
  assumes "b_ok b" "rc_inside (bdSnap b) (flRecord f)"
  shows "b_ok (push_failure f a b)" "bview (push_failure f a b) = bview b"
    "fview (push_failure f a b) = fview b @ [(cand_of (bdSnap b) (flRecord f) a, flKind f, flError f)]"
proof -
  have same: "rc_inside (s\<lparr>snFailed := rs\<rparr>) = rc_inside s" "cand_of (s\<lparr>snFailed := rs\<rparr>) = cand_of s" for s rs
    by (simp_all add: fun_eq_iff rc_inside_def cand_of_def rc_protocol_def rc_keys_def rc_refs_def)
  show "b_ok (push_failure f a b)"
    using assms by (auto simp: push_failure_def b_ok_def dicts_ok_def refs_inside_def records_ok_def same)
  show "bview (push_failure f a b) = bview b"
    "fview (push_failure f a b) = fview b @ [(cand_of (bdSnap b) (flRecord f) a, flKind f, flError f)]"
    using assms(1) by (simp_all add: push_failure_def bview_def fview_def same b_ok_def records_ok_def)
qed

section \<open>Well-formed snapshots\<close>

text \<open>The structure of a snapshot, apart from sizes, order and the credentials flag.\<close>

definition snap_wf :: "snapshot \<Rightarrow> bool" where
  "snap_wf s \<longleftrightarrow> refs_inside s \<and> length (snSources s) = length (snKeys s) \<and> [] \<notin> set (snKeys s) \<and>
     prefix [[]] (snCountries s) \<and> prefix [[]] (snCities s) \<and>
     [] \<notin> set (tl (snCountries s)) \<and> [] \<notin> set (tl (snCities s)) \<and>
     (\<forall>r\<in>set (snRecords s @ map flRecord (snFailed s)). rc_inside s r \<and> 0 < rcSourceCount r \<and>
        rcAltCount r \<le> maxAlternatesPerCandidate \<and> rcAltOffset r + rcAltCount r \<le> length (snAlts s))"

lemma rc_sources_keys:
  assumes "snap_wf s" "rc_inside s r"
  shows "map (\<lambda>(k, l). source_key k l) (rc_sources s r) = rc_keys s r" "map fst (rc_sources s r) = rc_keys s r"
proof -
  have "snKeys s ! ref \<noteq> []" if "ref \<in> set (rc_refs s r)" for ref
  proof -
    have "ref < length (snKeys s)" using rc_refs_less [OF assms(2) _ that] assms(1) by (simp add: snap_wf_def)
    then show ?thesis using assms(1) by (metis nth_mem snap_wf_def)
  qed
  then show "map (\<lambda>(k, l). source_key k l) (rc_sources s r) = rc_keys s r"
    by (auto simp: rc_sources_def rc_keys_def source_key_def)
  show "map fst (rc_sources s r) = rc_keys s r" by (simp add: rc_sources_def rc_keys_def comp_def)
qed

lemma length_rc_sources [simp]: "length (rc_sources s r) = rcSourceCount r"
  by (simp add: rc_sources_def rc_refs_def)

lemma snap_wf_record:
  "snap_wf s \<Longrightarrow> r \<in> set (snRecords s) \<Longrightarrow> rc_inside s r \<and> 0 < rcSourceCount r"
  "snap_wf s \<Longrightarrow> f \<in> set (snFailed s) \<Longrightarrow> rc_inside s (flRecord f) \<and> 0 < rcSourceCount (flRecord f)"
  by (auto simp: snap_wf_def)

section \<open>Appending a record\<close>

lemma cand_of_count: "cand_of s (r\<lparr>rcSourceCount := n\<rparr>) a = (cand_of s r a)\<lparr>caKeys := rc_keys s (r\<lparr>rcSourceCount := n\<rparr>)\<rparr>"
  by (simp add: cand_of_def rc_protocol_def)

text \<open>A record placed in the builder with a list of sources.\<close>

lemma placed_sources:
  assumes ok: "b_ok b" and p: "place_record protocol country city r b = (r1, b1)"
    and f: "fold appendSource kls (r1, b1) = (r', b')"
  shows "grows b b' \<and> open_rec b' r' (map (\<lambda>(k, l). source_key k l) kls) \<and> rcSourceCount r' = length kls \<and>
    rcSourceOffset r' = length (snRefs (bdSnap b)) \<and>
    cand_of (bdSnap b') r' alts = (cand_of s r alts)\<lparr>caProtocol := protocol, caCountry := country,
      caCity := city, caKeys := map (\<lambda>(k, l). source_key k l) kls\<rparr>"
proof -
  have pl: "grows b b1" "open_rec b1 r1 []" "rcSourceCount r1 = 0" "snRefs (bdSnap b1) = snRefs (bdSnap b)"
    and c1: "cand_of (bdSnap b1) r1 alts = (cand_of s r alts)\<lparr>caProtocol := protocol, caCountry := country,
      caCity := city, caKeys := []\<rparr>"
    using place_record_open [OF ok p, of alts s] by blast+
  have ok1: "b_ok b1" using pl(1) by (simp add: grows_def)
  have fo: "grows b1 b'" "open_rec b' r' (map (\<lambda>(k, l). source_key k l) kls)"
    and r': "r' = r1\<lparr>rcSourceCount := rcSourceCount r1 + length kls\<rparr>"
    using fold_appendSource [OF ok1 pl(2) f, unfolded append_Nil] by blast+
  have inside: "rc_inside (bdSnap b1) r1" "refs_inside (bdSnap b1)" "extends (bdSnap b1) (bdSnap b')"
    using pl(2) ok1 fo(1) by (simp_all add: open_rec_def b_ok_def grows_def)
  have "cand_of (bdSnap b') r' alts = (cand_of (bdSnap b') r1 alts)\<lparr>caKeys := rc_keys (bdSnap b') r'\<rparr>"
    unfolding r' by (rule cand_of_count)
  also have "\<dots> = (cand_of s r alts)\<lparr>caProtocol := protocol, caCountry := country,
      caCity := city, caKeys := map (\<lambda>(k, l). source_key k l) kls\<rparr>"
    using fo(2) unfolding extends_record(2) [OF inside(3,1,2)] c1 by (simp add: open_rec_def)
  finally show ?thesis
    using fo(2) r' pl(2,3,4) grows_trans [OF pl(1) fo(1)] by (simp add: open_rec_def)
qed

text \<open>What a step adds to the pending and the failed candidates.\<close>

definition adds :: "builder \<Rightarrow> builder \<Rightarrow> cand list \<Rightarrow> (cand \<times> FailureKind \<times> string) list \<Rightarrow> bool" where
  "adds b b' cs fs \<longleftrightarrow> b_ok b' \<and> bview b' = bview b @ cs \<and> fview b' = fview b @ fs"

lemma adds_refl: "b_ok b \<Longrightarrow> adds b b [] []"
  by (simp add: adds_def)

lemma adds_trans: "adds b c cs fs \<Longrightarrow> adds c d ds gs \<Longrightarrow> adds b d (cs @ ds) (fs @ gs)"
  by (simp add: adds_def)

lemma cand_of_rcKeys_self: "caKeys (cand_of s r a) = rc_keys s r"
  by (simp add: cand_of_def)

lemma at_least_one_idle: "rcSourceCount r \<noteq> 0 \<Longrightarrow> at_least_one (r, b) = (r, b)"
  by (simp add: at_least_one_def)

lemma translateRecord_spec:
  assumes ok: "b_ok b" and wf: "snap_wf s" and r: "rc_inside s r" "0 < rcSourceCount r"
    and t: "translateRecord s r None b = (r', alts, b')"
  shows "grows b b' \<and> open_rec b' r' (rc_keys s r) \<and> rcSourceCount r' = rcSourceCount r \<and>
    rcSourceOffset r' = length (snRefs (bdSnap b)) \<and>
    alts = copyCredentialAlternates s r \<and> cand_of (bdSnap b') r' a = cand_of s r a"
proof -
  obtain r1 b1 where 1: "place_record (rc_protocol s r) (snCountries s ! rcCountryID r) (snCities s ! rcCityID r) r b = (r1, b1)"
    by fastforce
  obtain r2 b2 where 2: "fold appendSource (rc_sources s r) (r1, b1) = (r2, b2)" by fastforce
  have keys: "map (\<lambda>(k, l). source_key k l) (rc_sources s r) = rc_keys s r"
    by (rule rc_sources_keys [OF wf r(1)])
  have p: "grows b b2" "open_rec b2 r2 (rc_keys s r)" "rcSourceCount r2 = rcSourceCount r"
    "rcSourceOffset r2 = length (snRefs (bdSnap b))"
    and c: "cand_of (bdSnap b2) r2 a = (cand_of s r a)\<lparr>caProtocol := rc_protocol s r,
      caCountry := snCountries s ! rcCountryID r, caCity := snCities s ! rcCityID r, caKeys := rc_keys s r\<rparr>"
    using placed_sources [OF ok 1 2, of a s, unfolded keys length_rc_sources] by blast+
  have eq: "r' = r2" "b' = count_protocol r2 b2" "alts = copyCredentialAlternates s r"
    using t r(2) p(3) by (auto simp: translateRecord_def Let_def 1 2 at_least_one_idle)
  have ok2: "b_ok b2" using p(1) by (simp add: grows_def)
  note g = count_protocol_grows [OF ok2, of r2]
  have op: "open_rec b' r' (rc_keys s r)"
    using open_rec_grows [OF ok2 g p(2)] eq by simp
  have inside: "rc_inside (bdSnap b2) r2" "refs_inside (bdSnap b2)" "extends (bdSnap b2) (bdSnap b')"
    using p(2) ok2 g eq by (simp_all add: open_rec_def b_ok_def grows_def)
  have "cand_of (bdSnap b') r' a = cand_of s r a"
    unfolding eq(1) extends_record(2) [OF inside(3,1,2)] c by (simp add: cand_of_def)
  then show ?thesis using op eq p g grows_trans by blast
qed

lemma appendRecord_adds:
  assumes "b_ok b" "snap_wf s" "r \<in> set (snRecords s)"
  shows "adds b (appendRecord s r None b) [cand_in s r] []"
proof -
  have inside: "rc_inside s r" "0 < rcSourceCount r" using snap_wf_record(1) [OF assms(2,3)] by blast+
  obtain r' alts b' where t: "translateRecord s r None b = (r', alts, b')" by (metis prod_cases3)
  have t': "grows b b'" "open_rec b' r' (rc_keys s r)" "alts = copyCredentialAlternates s r"
    "cand_of (bdSnap b') r' alts = cand_of s r alts"
    using translateRecord_spec [OF assms(1,2) inside t, of alts] by blast+
  have "b_ok b'" "rc_inside (bdSnap b') r'" using t' by (simp_all add: grows_def open_rec_def)
  from push_record_view [OF this, of alts] show ?thesis
    using t' grows_views [OF assms(1) t'(1)] by (simp add: appendRecord_def t adds_def cand_in_def)
qed

lemma appendFailure_adds:
  assumes "b_ok b" "snap_wf s" "f \<in> set (snFailed s)"
  shows "adds b (appendFailure s f b) [] [(cand_in s (flRecord f), flKind f, flError f)]"
proof -
  have inside: "rc_inside s (flRecord f)" "0 < rcSourceCount (flRecord f)"
    using snap_wf_record(2) [OF assms(2,3)] by blast+
  obtain r' alts b' where t: "translateRecord s (flRecord f) None b = (r', alts, b')" by (metis prod_cases3)
  have t': "grows b b'" "open_rec b' r' (rc_keys s (flRecord f))" "alts = copyCredentialAlternates s (flRecord f)"
    "cand_of (bdSnap b') r' alts = cand_of s (flRecord f) alts"
    using translateRecord_spec [OF assms(1,2) inside t, of alts] by blast+
  have "b_ok b'" "rc_inside (bdSnap b') (flRecord (f\<lparr>flRecord := r'\<rparr>))" using t' by (simp_all add: grows_def open_rec_def)
  from push_failure_view [OF this, of alts] show ?thesis
    using t' grows_views [OF assms(1) t'(1)] by (simp add: appendFailure_def t adds_def cand_in_def)
qed

text \<open>A candidate cut down to the sources that failed in this cycle.\<close>

definition filtered_cand :: "(string \<Rightarrow> bool) \<Rightarrow> cand \<Rightarrow> cand list" where
  "filtered_cand failed c =
     (if list_ex failed (caKeys c) then [c\<lparr>caKeys := filter failed (caKeys c)\<rparr>] else [])"

lemma filter_sources_keys:
  assumes "snap_wf s" "rc_inside s r"
  shows "map (\<lambda>(k, l). source_key k l) (filter (\<lambda>(k, _). P k) (rc_sources s r)) = filter P (rc_keys s r)"
    "map fst (filter (\<lambda>(k, _). P k) (rc_sources s r)) = filter P (rc_keys s r)"
proof -
  have "map (\<lambda>(k, l). source_key k l) (rc_sources s r) = map fst (rc_sources s r)"
    using rc_sources_keys [OF assms] by simp
  then have *: "\<forall>kl\<in>set (rc_sources s r). source_key (fst kl) (snd kl) = fst kl"
    by (simp add: case_prod_beta)
  have "map (\<lambda>(k, l). source_key k l) (filter (\<lambda>(k, _). P k) kls) = filter P (map fst kls)"
    if "\<forall>kl\<in>set kls. source_key (fst kl) (snd kl) = fst kl" for kls
    using that by (induction kls) auto
  then show "map (\<lambda>(k, l). source_key k l) (filter (\<lambda>(k, _). P k) (rc_sources s r)) = filter P (rc_keys s r)"
    using * rc_sources_keys(2) [OF assms] by simp
  have "map fst (filter (\<lambda>(k, _). P k) kls) = filter P (map fst kls)" for kls :: "(string \<times> string) list"
    by (induction kls) auto
  then show "map fst (filter (\<lambda>(k, _). P k) (rc_sources s r)) = filter P (rc_keys s r)"
    using rc_sources_keys(2) [OF assms] by simp
qed

lemma appendFilteredRecord_adds:
  assumes "b_ok b" "snap_wf s" "r \<in> set (snRecords s)"
  shows "adds b (appendFilteredRecord s r failed b) (filtered_cand failed (cand_in s r)) []"
proof (cases "recordHasSourceIn s r failed")
  case False
  then show ?thesis
    using assms(1) by (simp add: appendFilteredRecord_def filtered_cand_def cand_in_def cand_of_rcKeys_self
        recordHasSourceIn_def adds_refl)
next
  case True
  have inside: "rc_inside s r" using snap_wf_record(1) [OF assms(2,3)] by blast
  let ?kls = "filter (\<lambda>(k, _). failed k) (rc_sources s r)"
  obtain r1 b1 where 1: "place_record (rc_protocol s r) (snCountries s ! rcCountryID r) (snCities s ! rcCityID r) r b = (r1, b1)"
    by fastforce
  obtain r2 b2 where 2: "fold appendSource ?kls (r1, b1) = (r2, b2)" by fastforce
  let ?alts = "copyCredentialAlternates s r"
  have p: "grows b b2" "open_rec b2 r2 (filter failed (rc_keys s r))"
    and c: "cand_of (bdSnap b2) r2 ?alts = (cand_of s r ?alts)\<lparr>caProtocol := rc_protocol s r,
      caCountry := snCountries s ! rcCountryID r, caCity := snCities s ! rcCityID r,
      caKeys := filter failed (rc_keys s r)\<rparr>"
    using placed_sources [OF assms(1) 1 2, of ?alts s, unfolded filter_sources_keys(1) [OF assms(2) inside]] by blast+
  have ok2: "b_ok b2" using p(1) by (simp add: grows_def)
  note g = count_protocol_grows [OF ok2, of r2]
  let ?b3 = "count_protocol r2 b2"
  have op: "open_rec ?b3 r2 (filter failed (rc_keys s r))" by (rule open_rec_grows [OF ok2 g p(2)])
  have ins: "rc_inside (bdSnap b2) r2" "refs_inside (bdSnap b2)" "extends (bdSnap b2) (bdSnap ?b3)"
    using p(2) ok2 g by (simp_all add: open_rec_def b_ok_def grows_def)
  have ok3: "b_ok ?b3" "rc_inside (bdSnap ?b3) r2" using g op by (simp_all add: grows_def open_rec_def)
  have "cand_of (bdSnap ?b3) r2 ?alts = (cand_in s r)\<lparr>caKeys := filter failed (rc_keys s r)\<rparr>"
    unfolding extends_record(2) [OF ins(3,1,2)] c by (simp add: cand_of_def cand_in_def)
  then show ?thesis
    using push_record_view [OF ok3, of ?alts] grows_views [OF assms(1) grows_trans [OF p(1) g(1)]] True
    by (simp add: appendFilteredRecord_def Let_def 1 2 adds_def filtered_cand_def cand_in_def
        cand_of_rcKeys_self recordHasSourceIn_def)
qed

section \<open>Merging a candidate that both snapshots declare\<close>

lemma keys_increase_sorted: "keys_increase ks \<longleftrightarrow> sorted_wrt (<) ks"
  by (induction ks rule: keys_increase.induct) (auto simp: not_le intro: less_trans)

lemma merge_sources_spec:
  "sorted_wrt (<) (map fst xs) \<Longrightarrow> sorted_wrt (<) (map fst ys) \<Longrightarrow>
     set (map fst (merge_sources xs ys)) = set (map fst xs) \<union> set (map fst ys) \<and>
     sorted_wrt (<) (map fst (merge_sources xs ys)) \<and> set (merge_sources xs ys) \<subseteq> set xs \<union> set ys"
proof (induction xs ys rule: merge_sources.induct)
  case (3 x xs y ys)
  show ?case
  proof (cases "fst x < fst y")
    case True
    have less: "\<forall>k\<in>set (map fst (y # ys)). fst x < k" using True 3(5) by auto
    note ih = 3(1) [OF True]
    have "set (map fst (merge_sources xs (y # ys))) = set (map fst xs) \<union> set (map fst (y # ys)) \<and>
      sorted_wrt (<) (map fst (merge_sources xs (y # ys))) \<and> set (merge_sources xs (y # ys)) \<subseteq> set xs \<union> set (y # ys)"
      by (rule ih) (use 3(4,5) in simp_all)
    then show ?thesis using True less 3(4) by auto
  next
    case False
    show ?thesis
    proof (cases "fst y < fst x")
      case True
      have less: "\<forall>k\<in>set (map fst (x # xs)). fst y < k" using True 3(4) by auto
      have "set (map fst (merge_sources (x # xs) ys)) = set (map fst (x # xs)) \<union> set (map fst ys) \<and>
        sorted_wrt (<) (map fst (merge_sources (x # xs) ys)) \<and> set (merge_sources (x # xs) ys) \<subseteq> set (x # xs) \<union> set ys"
        by (rule 3(2) [OF False True]) (use 3(4,5) in simp_all)
      then show ?thesis using True False less 3(5) by auto
    next
      case neq: False
      then have eq: "fst x = fst y" using False by order
      have "set (map fst (merge_sources xs ys)) = set (map fst xs) \<union> set (map fst ys) \<and>
        sorted_wrt (<) (map fst (merge_sources xs ys)) \<and> set (merge_sources xs ys) \<subseteq> set xs \<union> set ys"
        by (rule 3(3) [OF False neq]) (use 3(4,5) in simp_all)
      then show ?thesis using eq 3(4,5) by auto
    qed
  qed
qed simp_all

lemma open_rec_last:
  assumes "open_rec b r ks" "0 < rcSourceCount r"
  shows "snKeys (bdSnap b) ! last (snRefs (bdSnap b)) = last ks"
proof -
  have r: "rc_inside (bdSnap b) r" "rcSourceOffset r + rcSourceCount r = length (snRefs (bdSnap b))"
    "ks = rc_keys (bdSnap b) r"
    using assms(1) by (auto simp: open_rec_def)
  have "rc_refs (bdSnap b) r = drop (rcSourceOffset r) (snRefs (bdSnap b))"
    using rc_refs_nth [OF r(1)] r(2) by simp
  moreover have "rcSourceOffset r < length (snRefs (bdSnap b))" using r(2) assms(2) by linarith
  ultimately show ?thesis by (simp add: r(3) rc_keys_def last_map last_drop)
qed

lemma fold_append_once:
  assumes "b_ok b" "open_rec b r ks" "ks = [] \<longleftrightarrow> rcSourceCount r = 0"
    "sorted_wrt (<) (ks @ map fst kls)" "\<forall>kl\<in>set kls. source_key (fst kl) (snd kl) = fst kl"
  shows "fold append_source_once kls (r, b) = fold appendSource kls (r, b)"
  using assms
proof (induction kls arbitrary: r b ks)
  case (Cons kl kls)
  have once: "append_source_once kl (r, b) = appendSource kl (r, b)"
  proof (cases "rcSourceCount r = 0")
    case False
    then have "ks \<noteq> []" "snKeys (bdSnap b) ! last (snRefs (bdSnap b)) = last ks"
      using Cons.prems(3) open_rec_last [OF Cons.prems(2)] by simp_all
    moreover have "last ks < fst kl" if "ks \<noteq> []"
      using Cons.prems(4) last_in_set [OF that] by (auto simp: sorted_wrt_append)
    ultimately show ?thesis by (auto simp: append_source_once_def)
  qed (simp add: append_source_once_def)
  obtain r1 b1 where 1: "appendSource kl (r, b) = (r1, b1)" by fastforce
  have key: "source_key (fst kl) (snd kl) = fst kl" using Cons.prems(5) by simp
  have a: "grows b b1" "open_rec b1 r1 (ks @ [fst kl])" "r1 = r\<lparr>rcSourceCount := rcSourceCount r + 1\<rparr>"
    using appendSource_open [OF Cons.prems(1,2), of "fst kl" "snd kl" r1 b1, unfolded key] 1
    unfolding prod.collapse by blast+
  have "fold append_source_once kls (r1, b1) = fold appendSource kls (r1, b1)"
    by (rule Cons.IH [OF _ a(2)]) (use a(1,3) Cons.prems(4,5) in \<open>simp_all add: grows_def\<close>)
  then show ?case by (simp add: once 1)
qed simp

definition credential_merge :: "credential list \<Rightarrow> credential \<Rightarrow> credential \<Rightarrow> credential list \<Rightarrow> credential list" where
  "credential_merge alts primary old old_alts =
     snd (fold append_credential (alts @ old # old_alts) ({primary}, []))"

lemma mergeCredentialAlternates_eq:
  "mergeCredentialAlternates alts r fallback fr =
     credential_merge alts (rc_credential r) (rc_credential fr) (copyCredentialAlternates fallback fr)"
  by (simp add: mergeCredentialAlternates_def credential_merge_def)

lemma credential_merge_length: "length (credential_merge alts p old olds) \<le> maxAlternatesPerCandidate"
proof -
  have "length (snd (fold append_credential cs sm)) \<le> maxAlternatesPerCandidate"
    if "length (snd sm) \<le> maxAlternatesPerCandidate" for cs sm
    using that by (induction cs arbitrary: sm) (auto simp: append_credential_def case_prod_beta)
  from this [of "({p}, [])" "alts @ old # olds"] show ?thesis unfolding credential_merge_def by simp
qed

text \<open>The candidate of a partial scrape: the current declaration, the check history of the old one, and
  from the sources that failed in this cycle their attribution, their credentials where the current
  declaration has none, and their location where it is unknown.\<close>

definition merged_cand :: "(string \<Rightarrow> bool) \<Rightarrow> cand \<Rightarrow> cand \<Rightarrow> cand" where
  "merged_cand failed old new =
     (let kept = list_ex failed (caKeys old);
          (user, password) = (if kept \<and> caUser new = [] \<and> caUser old \<noteq> [] then (caUser old, caPass old)
                              else (caUser new, caPass new));
          (country, continent) = (if kept \<and> caCountry new = [] \<and> caCountry old \<noteq> []
                                  then (caCountry old, caContinent old) else (caCountry new, caContinent new));
          alts = (if kept then credential_merge (caAlts new) \<lparr>crUsername = user, crPassword = password\<rparr>
                                 \<lparr>crUsername = caUser old, crPassword = caPass old\<rparr> (caAlts old)
                  else caAlts new)
      in new\<lparr>caStatus := caStatus old, caChecked := caChecked old, caUser := user, caPass := password,
             caCountry := country, caContinent := continent,
             caCity := (if kept \<and> caCity new = [] \<and> caCity old \<noteq> [] then caCity old else caCity new),
             caAuth := (user \<noteq> [] \<or> password \<noteq> [] \<or> kept \<and> caAuth old \<or> credentialAlternatesHaveAuth alts),
             caKeys := sorted_list_of_set (set (filter failed (caKeys old)) \<union> set (caKeys new)),
             caAlts := alts\<rparr>)"

lemma dict_zero:
  assumes "[] \<notin> set (tl ds)" "prefix [[]] ds" "i < length ds"
  shows "ds ! i = [] \<longleftrightarrow> i = 0"
proof -
  obtain ds' where ds: "ds = [] # ds'" using assms(2) by (auto simp: prefix_def)
  show ?thesis using assms(1,3) unfolding ds by (cases i) (simp, simp, metis nth_mem)
qed

lemma distinct_tl: "distinct ds \<Longrightarrow> prefix [[]] ds \<Longrightarrow> [] \<notin> set (tl ds)"
  by (auto simp: prefix_def)

lemma wf_zero:
  assumes "snap_wf s" "rc_inside s r"
  shows "snCountries s ! rcCountryID r = [] \<longleftrightarrow> rcCountryID r = 0" "snCities s ! rcCityID r = [] \<longleftrightarrow> rcCityID r = 0"
  using assms dict_zero [of "snCountries s" "rcCountryID r"] dict_zero [of "snCities s" "rcCityID r"]
  by (simp_all add: snap_wf_def rc_inside_def)

lemma appendMergedRecord_adds:
  assumes ok: "b_ok b" and wf: "snap_wf sa" "snap_wf sb" and ins: "rc_inside sa a" "rc_inside sb other"
    and pos: "0 < rcSourceCount other"
    and sorted: "sorted_wrt (<) (rc_keys sa a)" "sorted_wrt (<) (rc_keys sb other)"
  shows "adds b (appendMergedRecord protocols countries cities r sa a failed sb other b)
    [let kept = list_ex failed (rc_keys sa a);
         alts = (if kept then credential_merge (copyCredentialAlternates sb other) (rc_credential r)
                   (rc_credential a) (copyCredentialAlternates sa a) else copyCredentialAlternates sb other)
     in (cand_of sb r alts)\<lparr>caProtocol := protocols ! rcProtocolID r, caCountry := countries ! rcCountryID r,
          caCity := cities ! rcCityID r,
          caAuth := (rcHasAuth r \<or> kept \<and> rcHasAuth a \<or> rcUsername r \<noteq> [] \<or> rcPassword r \<noteq> [] \<or>
                     credentialAlternatesHaveAuth alts),
          caKeys := sorted_list_of_set (set (filter failed (rc_keys sa a)) \<union> set (rc_keys sb other))\<rparr>] []"
proof -
  let ?kept = "list_ex failed (rc_keys sa a)"
  define alts where "alts = (if ?kept then credential_merge (copyCredentialAlternates sb other) (rc_credential r)
      (rc_credential a) (copyCredentialAlternates sa a) else copyCredentialAlternates sb other)"
  define auth where "auth = (rcHasAuth r \<or> ?kept \<and> rcHasAuth a \<or> rcUsername r \<noteq> [] \<or> rcPassword r \<noteq> [] \<or>
      credentialAlternatesHaveAuth alts)"
  let ?r = "r\<lparr>rcHasAuth := auth\<rparr>"
  let ?old = "filter (\<lambda>(k, _). failed k) (rc_sources sa a)"
  let ?kls = "merge_sources ?old (rc_sources sb other)"
  note fa = filter_sources_keys [OF wf(1) ins(1), of failed]
  note fb = rc_sources_keys [OF wf(2) ins(2)]
  have ms: "set (map fst ?kls) = set (filter failed (rc_keys sa a)) \<union> set (rc_keys sb other)"
    "sorted_wrt (<) (map fst ?kls)" "set ?kls \<subseteq> set ?old \<union> set (rc_sources sb other)"
    using merge_sources_spec [of ?old "rc_sources sb other", unfolded fa(2) fb(2)] sorted
    by (simp_all add: sorted_wrt_filter)
  have same: "\<forall>kl\<in>set ?kls. source_key (fst kl) (snd kl) = fst kl"
  proof -
    have "map (\<lambda>(k, l). source_key k l) (rc_sources sa a) = map fst (rc_sources sa a)"
      "map (\<lambda>(k, l). source_key k l) (rc_sources sb other) = map fst (rc_sources sb other)"
      using rc_sources_keys [OF wf(1) ins(1)] fb by simp_all
    then have "\<forall>kl\<in>set (rc_sources sa a) \<union> set (rc_sources sb other). source_key (fst kl) (snd kl) = fst kl"
      by (auto simp: case_prod_beta)
    then show ?thesis using ms(3) by auto
  qed
  have out: "map fst ?kls = sorted_list_of_set (set (filter failed (rc_keys sa a)) \<union> set (rc_keys sb other))"
    using ms(2) unfolding ms(1) [symmetric]
    by (metis list.set_map sorted_list_of_set.idem_if_sorted_distinct strict_sorted_iff)
  have ren: "map (\<lambda>(k, l). source_key k l) ?kls = map fst ?kls"
    using same by (simp add: case_prod_beta)
  obtain r1 b1 where 1: "place_record (protocols ! rcProtocolID r) (countries ! rcCountryID r) (cities ! rcCityID r) ?r b = (r1, b1)"
    by fastforce
  have p1: "grows b b1" "open_rec b1 r1 []" "rcSourceCount r1 = 0"
    using place_record_open [OF ok 1, of alts sb] by blast+
  have ok1: "b_ok b1" using p1 by (simp add: grows_def)
  obtain r2 b2 where 2: "fold appendSource ?kls (r1, b1) = (r2, b2)" by fastforce
  have 3: "fold append_source_once ?kls (r1, b1) = (r2, b2)"
    using fold_append_once [OF ok1 p1(2) _ _ same] p1(3) ms(2) 2 by simp
  have p: "grows b b2" "open_rec b2 r2 (map fst ?kls)" "rcSourceCount r2 = length ?kls"
    and c: "cand_of (bdSnap b2) r2 alts = (cand_of sb ?r alts)\<lparr>caProtocol := protocols ! rcProtocolID r,
      caCountry := countries ! rcCountryID r, caCity := cities ! rcCityID r, caKeys := map fst ?kls\<rparr>"
    using placed_sources [OF ok 1 2, of alts sb, unfolded ren] by blast+
  have ok2: "b_ok b2" using p(1) by (simp add: grows_def)
  let ?b3 = "count_protocol r2 b2"
  note g = count_protocol_grows [OF ok2, of r2]
  have op: "open_rec ?b3 r2 (map fst ?kls)" by (rule open_rec_grows [OF ok2 g p(2)])
  have i: "rc_inside (bdSnap b2) r2" "refs_inside (bdSnap b2)" "extends (bdSnap b2) (bdSnap ?b3)"
    using p(2) ok2 g by (simp_all add: open_rec_def b_ok_def grows_def)
  have ok3: "b_ok ?b3" "rc_inside (bdSnap ?b3) r2" using g op by (simp_all add: grows_def open_rec_def)
  have c3: "cand_of (bdSnap ?b3) r2 alts = (cand_of sb ?r alts)\<lparr>caProtocol := protocols ! rcProtocolID r,
      caCountry := countries ! rcCountryID r, caCity := cities ! rcCityID r, caKeys := map fst ?kls\<rparr>"
    unfolding extends_record(2) [OF i(3,1,2)] by (rule c)
  have eq: "appendMergedRecord protocols countries cities r sa a failed sb other b = push_record r2 alts ?b3"
  proof -
    have "r\<lparr>rcHasAuth := (rcHasAuth r \<or> ?kept \<and> rcHasAuth a) \<or> rcUsername r \<noteq> [] \<or> rcPassword r \<noteq> [] \<or>
        credentialAlternatesHaveAuth alts\<rparr> = ?r"
      by (simp add: auth_def)
    then show ?thesis
      unfolding appendMergedRecord_def Let_def mergeCredentialAlternates_eq recordHasSourceIn_def alts_def [symmetric]
      by (simp add: 1 3)
  qed
  have "cand_of sb ?r alts = (cand_of sb r alts)\<lparr>caAuth := auth\<rparr>"
    by (simp add: cand_of_def rc_protocol_def rc_keys_def rc_refs_def)
  then have "cand_of (bdSnap ?b3) r2 alts = (cand_of sb r alts)\<lparr>caProtocol := protocols ! rcProtocolID r,
      caCountry := countries ! rcCountryID r, caCity := cities ! rcCityID r, caAuth := auth,
      caKeys := sorted_list_of_set (set (filter failed (rc_keys sa a)) \<union> set (rc_keys sb other))\<rparr>"
    using c3 by (simp add: out)
  then show ?thesis
    using push_record_view [OF ok3, of alts] grows_views [OF ok grows_trans [OF p(1) g(1)]]
    by (simp add: eq adds_def Let_def alts_def auth_def)
qed

lemma merged_decl_fields:
  "rcStatus (merged_decl kept old new) = rcStatus old"
  "rcCheckedUnix (merged_decl kept old new) = rcCheckedUnix old"
  "rcSeenUnix (merged_decl kept old new) = rcSeenUnix new"
  "rcAddr (merged_decl kept old new) = rcAddr new"
  "rcProtocolID (merged_decl kept old new) = rcProtocolID new"
  "rcSourceOffset (merged_decl kept old new) = rcSourceOffset new"
  "rcSourceCount (merged_decl kept old new) = rcSourceCount new"
  "rcUsername (merged_decl kept old new) =
     (if kept \<and> rcUsername new = [] \<and> rcUsername old \<noteq> [] then rcUsername old else rcUsername new)"
  "rcPassword (merged_decl kept old new) =
     (if kept \<and> rcUsername new = [] \<and> rcUsername old \<noteq> [] then rcPassword old else rcPassword new)"
  "rcHasAuth (merged_decl kept old new) \<longleftrightarrow>
     rcUsername (merged_decl kept old new) \<noteq> [] \<or> rcPassword (merged_decl kept old new) \<noteq> []"
  "rcCountryID (merged_decl kept old new) =
     (if kept \<and> rcCountryID new = 0 \<and> rcCountryID old \<noteq> 0 then rcCountryID old else rcCountryID new)"
  "rcContinent (merged_decl kept old new) =
     (if kept \<and> rcCountryID new = 0 \<and> rcCountryID old \<noteq> 0 then rcContinent old else rcContinent new)"
  "rcCityID (merged_decl kept old new) =
     (if kept \<and> rcCityID new = 0 \<and> rcCityID old \<noteq> 0 then rcCityID old else rcCityID new)"
  by (simp_all add: merged_decl_def Let_def)

lemma cand_eqI:
  assumes "caProtocol c = caProtocol d" "caAddr c = caAddr d" "caUser c = caUser d" "caPass c = caPass d"
    "caCountry c = caCountry d" "caCity c = caCity d" "caContinent c = caContinent d" "caStatus c = caStatus d"
    "caAuth c = caAuth d" "caSeen c = caSeen d" "caChecked c = caChecked d" "caKeys c = caKeys d"
    "caAlts c = caAlts d"
  shows "c = (d :: cand)"
  using assms by (cases c; cases d) simp

lemma merge_pair_adds:
  assumes ok: "b_ok b" and wf: "snap_wf previous" "snap_wf current"
    and old: "rc_inside previous old" and new: "rc_inside current new" "0 < rcSourceCount new"
    and sorted: "sorted_wrt (<) (rc_keys previous old)" "sorted_wrt (<) (rc_keys current new)"
  shows "adds b (merge_pair previous current failed old new b)
    [merged_cand failed (cand_in previous old) (cand_in current new)] []"
proof -
  define kept where "kept = list_ex failed (rc_keys previous old)"
  define m where "m = merged_decl kept old new"
  define countries where "countries = (if kept \<and> rcCountryID new = 0 \<and> rcCountryID old \<noteq> 0
    then snCountries previous else snCountries current)"
  define cities where "cities = (if kept \<and> rcCityID new = 0 \<and> rcCityID old \<noteq> 0
    then snCities previous else snCities current)"
  have dicts: "(if rcCountryID m = rcCountryID old \<and> rcCountryID new = 0 \<and> rcCountryID old \<noteq> 0
      then snCountries previous else snCountries current) = countries"
    "(if rcCityID m = rcCityID old \<and> rcCityID new = 0 \<and> rcCityID old \<noteq> 0
      then snCities previous else snCities current) = cities"
    by (auto simp: m_def merged_decl_fields countries_def cities_def)
  have eq: "merge_pair previous current failed old new b =
      appendMergedRecord (snProtocols current) countries cities m previous old failed current new b"
    unfolding merge_pair_def Let_def recordHasSourceIn_def kept_def [symmetric] m_def [symmetric] dicts ..
  have zero: "rcCountryID new = 0 \<longleftrightarrow> snCountries current ! rcCountryID new = []"
    "rcCountryID old = 0 \<longleftrightarrow> snCountries previous ! rcCountryID old = []"
    "rcCityID new = 0 \<longleftrightarrow> snCities current ! rcCityID new = []"
    "rcCityID old = 0 \<longleftrightarrow> snCities previous ! rcCityID old = []"
    using wf_zero [OF wf(1) old] wf_zero [OF wf(2) new(1)] by simp_all
  have geo: "countries ! rcCountryID m = (if kept \<and> snCountries current ! rcCountryID new = [] \<and>
      snCountries previous ! rcCountryID old \<noteq> [] then snCountries previous ! rcCountryID old
      else snCountries current ! rcCountryID new)"
    "rcContinent m = (if kept \<and> snCountries current ! rcCountryID new = [] \<and>
      snCountries previous ! rcCountryID old \<noteq> [] then rcContinent old else rcContinent new)"
    "cities ! rcCityID m = (if kept \<and> snCities current ! rcCityID new = [] \<and>
      snCities previous ! rcCityID old \<noteq> [] then snCities previous ! rcCityID old
      else snCities current ! rcCityID new)"
    unfolding zero [symmetric] by (auto simp: m_def merged_decl_fields countries_def cities_def)
  let ?alts = "if kept then credential_merge (copyCredentialAlternates current new) (rc_credential m)
      (rc_credential old) (copyCredentialAlternates previous old) else copyCredentialAlternates current new"
  let ?c = "(cand_of current m ?alts)\<lparr>caProtocol := snProtocols current ! rcProtocolID m,
      caCountry := countries ! rcCountryID m, caCity := cities ! rcCityID m,
      caAuth := (rcHasAuth m \<or> kept \<and> rcHasAuth old \<or> rcUsername m \<noteq> [] \<or> rcPassword m \<noteq> [] \<or>
                 credentialAlternatesHaveAuth ?alts),
      caKeys := sorted_list_of_set (set (filter failed (rc_keys previous old)) \<union> set (rc_keys current new))\<rparr>"
  have "adds b (appendMergedRecord (snProtocols current) countries cities m previous old failed current new b) [?c] []"
    using appendMergedRecord_adds [OF ok wf old new sorted, of "snProtocols current" countries cities m failed]
    unfolding Let_def kept_def .
  moreover have "?c = merged_cand failed (cand_in previous old) (cand_in current new)"
  proof -
    have keys: "list_ex failed (caKeys (cand_in previous old)) = kept" by (simp add: cand_in_def cand_of_def kept_def)
    have cred: "rc_credential m = \<lparr>crUsername = rcUsername m, crPassword = rcPassword m\<rparr>"
      "rc_credential old = \<lparr>crUsername = rcUsername old, crPassword = rcPassword old\<rparr>"
      by (simp_all add: rc_credential_def)
    have user: "rcUsername m = (if kept \<and> rcUsername new = [] \<and> rcUsername old \<noteq> [] then rcUsername old else rcUsername new)"
      "rcPassword m = (if kept \<and> rcUsername new = [] \<and> rcUsername old \<noteq> [] then rcPassword old else rcPassword new)"
      "rcHasAuth m \<longleftrightarrow> rcUsername m \<noteq> [] \<or> rcPassword m \<noteq> []"
      unfolding m_def by (rule merged_decl_fields)+
    have mf: "rcStatus m = rcStatus old" "rcCheckedUnix m = rcCheckedUnix old" "rcSeenUnix m = rcSeenUnix new"
      "rcAddr m = rcAddr new" "rcProtocolID m = rcProtocolID new"
      unfolding m_def by (rule merged_decl_fields)+
    have sel: "caUser (cand_in s r) = rcUsername r" "caPass (cand_in s r) = rcPassword r"
      "caCountry (cand_in s r) = snCountries s ! rcCountryID r" "caCity (cand_in s r) = snCities s ! rcCityID r"
      "caContinent (cand_in s r) = rcContinent r" "caKeys (cand_in s r) = rc_keys s r"
      "caAlts (cand_in s r) = copyCredentialAlternates s r" "caStatus (cand_in s r) = rcStatus r"
      "caChecked (cand_in s r) = rcCheckedUnix r" "caAuth (cand_in s r) = rcHasAuth r"
      "caProtocol (cand_in s r) = snProtocols s ! rcProtocolID r" "caAddr (cand_in s r) = rcAddr r"
      "caSeen (cand_in s r) = rcSeenUnix r" for s r
      by (simp_all add: cand_in_def cand_of_def rc_protocol_def)
    have up: "(if kept \<and> rcUsername new = [] \<and> rcUsername old \<noteq> [] then (rcUsername old, rcPassword old)
        else (rcUsername new, rcPassword new)) = (rcUsername m, rcPassword m)"
      using user by simp
    have gc: "(if kept \<and> snCountries current ! rcCountryID new = [] \<and> snCountries previous ! rcCountryID old \<noteq> []
        then (snCountries previous ! rcCountryID old, rcContinent old)
        else (snCountries current ! rcCountryID new, rcContinent new)) = (countries ! rcCountryID m, rcContinent m)"
      using geo by simp
    show ?thesis
      unfolding merged_cand_def keys sel kept_def [symmetric] up gc geo(3) [symmetric] Let_def prod.case cred
      by (rule cand_eqI) (simp_all add: cand_in_def cand_of_def mf user(3) rc_protocol_def)
  qed
  ultimately show ?thesis unfolding eq by simp
qed

section \<open>The finished snapshot\<close>

definition alt_rec :: "credential list \<Rightarrow> crec \<Rightarrow> credential list \<Rightarrow> crec \<Rightarrow> bool" where
  "alt_rec tab r a r' \<longleftrightarrow> (\<exists>i n. r' = r\<lparr>rcAltOffset := i, rcAltCount := n\<rparr> \<and> n \<le> maxAlternatesPerCandidate \<and>
     i + n \<le> length tab \<and> take n (drop i tab) = take maxAlternatesPerCandidate a)"

lemma alt_rec_mono: "alt_rec tab r a r' \<Longrightarrow> prefix tab tab' \<Longrightarrow> alt_rec tab' r a r'"
proof -
  assume "alt_rec tab r a r'" "prefix tab tab'"
  then obtain i n zs where "r' = r\<lparr>rcAltOffset := i, rcAltCount := n\<rparr>" "n \<le> maxAlternatesPerCandidate"
    "i + n \<le> length tab" "take n (drop i tab) = take maxAlternatesPerCandidate a" "tab' = tab @ zs"
    by (auto simp: alt_rec_def prefix_def)
  then have "r' = r\<lparr>rcAltOffset := i, rcAltCount := n\<rparr> \<and> n \<le> maxAlternatesPerCandidate \<and>
      i + n \<le> length tab' \<and> take n (drop i tab') = take maxAlternatesPerCandidate a" by simp
  then show ?thesis unfolding alt_rec_def by blast
qed

lemma alt_records_spec:
  "length as = length rs \<Longrightarrow> alt_records rs as tab = (rs', tab') \<Longrightarrow>
   prefix tab tab' \<and> list_all2 (\<lambda>(r, a). alt_rec tab' r a) (zip rs as) rs'"
proof (induction rs arbitrary: as tab rs' tab')
  case (Cons r rs)
  obtain a as' where as: "as = a # as'" using Cons.prems(1) by (cases as) auto
  let ?tab = "tab @ take maxAlternatesPerCandidate a"
  let ?r = "r\<lparr>rcAltOffset := length tab, rcAltCount := length (take maxAlternatesPerCandidate a)\<rparr>"
  obtain rs1 tab1 where 1: "alt_records rs as' ?tab = (rs1, tab1)" by fastforce
  have eq: "rs' = ?r # rs1" "tab' = tab1"
    using Cons.prems(2) 1 by (auto simp: alt_entry_def Let_def as)
  have ih: "prefix ?tab tab1" "list_all2 (\<lambda>(r, a). alt_rec tab1 r a) (zip rs as') rs1"
    using Cons.IH [OF _ 1] Cons.prems(1) as by simp_all
  have "alt_rec ?tab r a ?r"
    unfolding alt_rec_def
    by (rule exI [of _ "length tab"], rule exI [of _ "length (take maxAlternatesPerCandidate a)"])
      (simp add: min_def)
  then have "alt_rec tab1 r a ?r" using ih(1) alt_rec_mono by blast
  moreover have "prefix tab tab1" using ih(1) by (auto simp: prefix_def)
  ultimately show ?case using ih(2) by (simp add: eq as)
qed auto

lemma cand_in_alt:
  assumes "alt_rec (snAlts t) r a r'" "length a \<le> maxAlternatesPerCandidate"
    and "snProtocols t = snProtocols s" "snCountries t = snCountries s" "snCities t = snCities s"
      "snKeys t = snKeys s" "snRefs t = snRefs s"
  shows "cand_in t r' = cand_of s r a"
proof -
  obtain i n where r': "r' = r\<lparr>rcAltOffset := i, rcAltCount := n\<rparr>" "i + n \<le> length (snAlts t)"
    "take n (drop i (snAlts t)) = a"
    using assms(1,2) by (auto simp: alt_rec_def)
  then have "copyCredentialAlternates t r' = a" by (auto simp: copyCredentialAlternates_def)
  then show ?thesis
    by (simp add: cand_in_def cand_of_def rc_protocol_def rc_keys_def rc_refs_def r'(1) assms(3-7))
qed

lemma finalize_fields [simp]:
  "snKeys (finalizeCredentialAlternates b) = snKeys (bdSnap b)"
  "snSources (finalizeCredentialAlternates b) = snSources (bdSnap b)"
  "snProtocols (finalizeCredentialAlternates b) = snProtocols (bdSnap b)"
  "snCountries (finalizeCredentialAlternates b) = snCountries (bdSnap b)"
  "snCities (finalizeCredentialAlternates b) = snCities (bdSnap b)"
  "snRefs (finalizeCredentialAlternates b) = snRefs (bdSnap b)"
  by (simp_all add: finalizeCredentialAlternates_def Let_def case_prod_beta)

lemma keys_count: "caKeys (cand_of s r a) \<noteq> [] \<longleftrightarrow> 0 < rcSourceCount r"
  by (simp add: cand_of_def rc_keys_def rc_refs_def)

definition cand_fits :: "cand \<Rightarrow> bool" where
  "cand_fits c \<longleftrightarrow> caKeys c \<noteq> [] \<and> length (caAlts c) \<le> maxAlternatesPerCandidate"

theorem finalize_spec:
  assumes ok: "b_ok b" and fits: "list_all cand_fits (bview b)" "list_all (cand_fits \<circ> fst) (fview b)"
  shows "cands (finalizeCredentialAlternates b) = bview b" "failures (finalizeCredentialAlternates b) = fview b"
    "snap_wf (finalizeCredentialAlternates b)"
proof -
  let ?s = "bdSnap b" and ?t = "finalizeCredentialAlternates b"
  obtain rs tab1 where 1: "alt_records (snRecords ?s) (bdAlts b) [] = (rs, tab1)" by fastforce
  obtain fs tab where 2: "alt_records (map flRecord (snFailed ?s)) (bdFailedAlts b) tab1 = (fs, tab)" by fastforce
  have lens: "length (bdAlts b) = length (snRecords ?s)" "length (bdFailedAlts b) = length (snFailed ?s)"
    using ok by (simp_all add: b_ok_def records_ok_def)
  have t: "snRecords ?t = rs" "snFailed ?t = map (\<lambda>(f, r). f\<lparr>flRecord := r\<rparr>) (zip (snFailed ?s) fs)" "snAlts ?t = tab"
    by (simp_all add: finalizeCredentialAlternates_def Let_def 1 2)
  have s2: "prefix tab1 tab" "list_all2 (\<lambda>(r, a). alt_rec tab r a) (zip (map flRecord (snFailed ?s)) (bdFailedAlts b)) fs"
    using alt_records_spec [OF _ 2] lens by simp_all
  have s1: "list_all2 (\<lambda>(r, a). alt_rec tab r a) (zip (snRecords ?s) (bdAlts b)) rs"
    using alt_records_spec [OF lens(1) 1] alt_rec_mono [OF _ s2(1)] by (auto elim!: list_all2_mono)
  have len: "length rs = length (snRecords ?s)" "length fs = length (snFailed ?s)"
    using list_all2_lengthD [OF s1] list_all2_lengthD [OF s2(2)] lens by simp_all
  have nth1: "alt_rec tab (snRecords ?s ! i) (bdAlts b ! i) (rs ! i)" if "i < length rs" for i
    using list_all2_nthD2 [OF s1 that] that len lens by simp
  have nth2: "alt_rec tab (flRecord (snFailed ?s ! i)) (bdFailedAlts b ! i) (fs ! i)" if "i < length fs" for i
    using list_all2_nthD2 [OF s2(2) that] that len lens by simp
  have b1: "bview b ! i = cand_of ?s (snRecords ?s ! i) (bdAlts b ! i)" "cand_fits (bview b ! i)" if "i < length rs" for i
    using that len lens fits(1) by (auto simp: bview_def list_all_length)
  have b2: "fview b ! i = (cand_of ?s (flRecord (snFailed ?s ! i)) (bdFailedAlts b ! i), flKind (snFailed ?s ! i),
      flError (snFailed ?s ! i))" "cand_fits (fst (fview b ! i))" if "i < length fs" for i
    using that len lens fits(2) by (auto simp: fview_def list_all_length)
  have c1: "cand_in ?t (rs ! i) = bview b ! i" if "i < length rs" for i
    unfolding b1(1) [OF that] by (rule cand_in_alt) (use nth1 b1 that t in \<open>simp_all add: cand_fits_def cand_of_def\<close>)
  have c2: "cand_in ?t (fs ! i) = fst (fview b ! i)" if "i < length fs" for i
    unfolding b2(1) [OF that] fst_conv by (rule cand_in_alt) (use nth2 b2 that t in \<open>simp_all add: cand_fits_def cand_of_def\<close>)
  show "cands ?t = bview b"
    by (rule nth_equalityI) (use c1 len lens in \<open>simp_all add: cands_def t bview_def\<close>)
  show "failures ?t = fview b"
    by (rule nth_equalityI) (use c2 b2 len lens in \<open>simp_all add: failures_def t fview_def\<close>)
  have rec: "rc_inside ?t r' \<and> 0 < rcSourceCount r' \<and> rcAltCount r' \<le> maxAlternatesPerCandidate \<and>
      rcAltOffset r' + rcAltCount r' \<le> length (snAlts ?t)"
    if "alt_rec tab r a r'" "rc_inside ?s r" "cand_fits (cand_of ?s r a)" for r a r'
    using that keys_count [of ?s r a] by (auto simp: alt_rec_def rc_inside_def t cand_fits_def)
  have ins: "\<forall>r\<in>set (snRecords ?s). rc_inside ?s r" "\<forall>f\<in>set (snFailed ?s). rc_inside ?s (flRecord f)"
    using ok by (simp_all add: b_ok_def records_ok_def)
  have "\<forall>r\<in>set (snRecords ?t @ map flRecord (snFailed ?t)). rc_inside ?t r \<and> 0 < rcSourceCount r \<and>
      rcAltCount r \<le> maxAlternatesPerCandidate \<and> rcAltOffset r + rcAltCount r \<le> length (snAlts ?t)"
  proof
    fix r assume "r \<in> set (snRecords ?t @ map flRecord (snFailed ?t))"
    then consider i where "i < length rs" "r = rs ! i" | i where "i < length fs" "r = fs ! i"
      using len by (auto simp: t in_set_conv_nth)
    then show "rc_inside ?t r \<and> 0 < rcSourceCount r \<and> rcAltCount r \<le> maxAlternatesPerCandidate \<and>
        rcAltOffset r + rcAltCount r \<le> length (snAlts ?t)"
    proof cases
      case 1
      show ?thesis
        using rec [OF nth1 [OF 1(1)]] b1 [OF 1(1)] ins(1) 1 len by simp
    next
      case 2
      show ?thesis
        using rec [OF nth2 [OF 2(1)]] b2 [OF 2(1)] ins(2) 2 len by simp
    qed
  qed
  then show "snap_wf ?t"
  proof -
    have "distinct (snCountries ?s)" "distinct (snCities ?s)" "prefix [[]] (snCountries ?s)" "prefix [[]] (snCities ?s)"
      using ok dict_distinct unfolding b_ok_def dicts_ok_def by blast+
    then have "[] \<notin> set (tl (snCountries ?s))" "[] \<notin> set (tl (snCities ?s))" using distinct_tl by blast+
    moreover assume "\<forall>r\<in>set (snRecords ?t @ map flRecord (snFailed ?t)). rc_inside ?t r \<and> 0 < rcSourceCount r \<and>
      rcAltCount r \<le> maxAlternatesPerCandidate \<and> rcAltOffset r + rcAltCount r \<le> length (snAlts ?t)"
    ultimately show ?thesis using ok unfolding snap_wf_def b_ok_def dicts_ok_def refs_inside_def by simp
  qed
qed

section \<open>Merge\<close>

text \<open>The merge on lists of candidates in the order of their pairs.\<close>

fun merge_spec :: "(string \<Rightarrow> bool) \<Rightarrow> cand list \<Rightarrow> cand list \<Rightarrow> cand list" where
  "merge_spec failed [] cs = cs"
| "merge_spec failed (p # ps) [] = filtered_cand failed p @ merge_spec failed ps []"
| "merge_spec failed (p # ps) (c # cs) =
     (if ca_pair p < ca_pair c then filtered_cand failed p @ merge_spec failed ps (c # cs)
      else if ca_pair c < ca_pair p then c # merge_spec failed (p # ps) cs
      else merged_cand failed p c # merge_spec failed ps cs)"

text \<open>A snapshot as the catalog publishes it: well formed, in order, the sources of a candidate in order.\<close>

definition ordered :: "snapshot \<Rightarrow> bool" where
  "ordered s \<longleftrightarrow> increasing s (snRecords s) \<and> increasing s (map flRecord (snFailed s)) \<and>
     (\<forall>r\<in>set (snRecords s @ map flRecord (snFailed s)). sorted_wrt (<) (rc_keys s r))"

lemma merge_loop_adds:
  assumes "b_ok b" "snap_wf previous" "snap_wf current" "ordered previous" "ordered current"
    and "set ps \<subseteq> set (snRecords previous)" "set cs \<subseteq> set (snRecords current)"
  shows "adds b (merge_loop previous current failed ps cs b)
    (merge_spec failed (map (cand_in previous) ps) (map (cand_in current) cs)) []"
  using assms
proof (induction previous current failed ps cs b rule: merge_loop.induct)
  case (1 previous current failed b)
  then show ?case by (simp add: adds_refl)
next
  case (2 previous current failed c cs b)
  have a: "adds b (appendRecord current c None b) [cand_in current c] []"
    by (rule appendRecord_adds) (use 2 in simp_all)
  then have "b_ok (appendRecord current c None b)" by (simp add: adds_def)
  then show ?case using adds_trans [OF a] 2 by fastforce
next
  case (3 previous current failed p ps b)
  have a: "adds b (appendFilteredRecord previous p failed b) (filtered_cand failed (cand_in previous p)) []"
    by (rule appendFilteredRecord_adds) (use 3 in simp_all)
  then have "b_ok (appendFilteredRecord previous p failed b)" by (simp add: adds_def)
  then show ?case using adds_trans [OF a] 3 by fastforce
next
  case (4 previous current failed p ps c cs b)
  have in_p: "p \<in> set (snRecords previous)" and in_c: "c \<in> set (snRecords current)" using "4.prems" by auto
  let ?cmp = "compareCandidateRecords previous p current c"
  consider "?cmp = - 1" | "?cmp = 1" | "?cmp \<noteq> - 1" "?cmp \<noteq> 1" by blast
  then show ?case
  proof cases
    case 1
    have a: "adds b (appendFilteredRecord previous p failed b) (filtered_cand failed (cand_in previous p)) []"
      by (rule appendFilteredRecord_adds) (use "4.prems" in simp_all)
    then have "b_ok (appendFilteredRecord previous p failed b)" by (simp add: adds_def)
    then have "adds (appendFilteredRecord previous p failed b)
        (merge_loop previous current failed ps (c # cs) (appendFilteredRecord previous p failed b))
        (merge_spec failed (map (cand_in previous) ps) (map (cand_in current) (c # cs))) []"
      using "4.prems" by (intro "4.IH"(1) [OF refl 1]) auto
    then show ?thesis using adds_trans [OF a] 1 by (simp add: compare_cases)
  next
    case 2
    have a: "adds b (appendRecord current c None b) [cand_in current c] []"
      by (rule appendRecord_adds) (use "4.prems" in simp_all)
    then have "b_ok (appendRecord current c None b)" by (simp add: adds_def)
    then have "adds (appendRecord current c None b)
        (merge_loop previous current failed (p # ps) cs (appendRecord current c None b))
        (merge_spec failed (map (cand_in previous) (p # ps)) (map (cand_in current) cs)) []"
      using "4.prems" 2 by (intro "4.IH"(2) [OF refl]) auto
    then show ?thesis using adds_trans [OF a] 2 by (auto simp: compare_cases)
  next
    case 3
    have sorted: "sorted_wrt (<) (rc_keys previous p)" "sorted_wrt (<) (rc_keys current c)"
      using "4.prems"(4,5) in_p in_c by (auto simp: ordered_def)
    have a: "adds b (merge_pair previous current failed p c b)
        [merged_cand failed (cand_in previous p) (cand_in current c)] []"
      by (rule merge_pair_adds [OF "4.prems"(1,2,3) _ _ _ sorted])
        (use "4.prems"(2,3) in_p in_c snap_wf_record(1) in blast)+
    then have "b_ok (merge_pair previous current failed p c b)" by (simp add: adds_def)
    then have "adds (merge_pair previous current failed p c b)
        (merge_loop previous current failed ps cs (merge_pair previous current failed p c b))
        (merge_spec failed (map (cand_in previous) ps) (map (cand_in current) cs)) []"
      using "4.prems" 3 by (intro "4.IH"(3) [OF refl]) auto
    then show ?thesis using adds_trans [OF a] 3 by (auto simp: compare_cases)
  qed
qed

lemma b_ok_new: "b_ok newCandidateSnapshotBuilder" "bview newCandidateSnapshotBuilder = []"
  "fview newCandidateSnapshotBuilder = []"
  by (auto simp: newCandidateSnapshotBuilder_def empty_snapshot_def b_ok_def dicts_ok_def dict_ok_def
      refs_inside_def records_ok_def bview_def fview_def)

lemma structure_cong:
  assumes "snKeys t = snKeys s" "snSources t = snSources s" "snProtocols t = snProtocols s"
    "snCountries t = snCountries s" "snCities t = snCities s" "snRefs t = snRefs s" "snAlts t = snAlts s"
  shows "rc_inside t = rc_inside s" "cand_in t = cand_in s" "rc_pair t = rc_pair s" "rc_keys t = rc_keys s"
    "refs_inside t = refs_inside s"
  using assms by (auto simp: fun_eq_iff rc_inside_def cand_in_def cand_of_def copyCredentialAlternates_def
      rc_protocol_def rc_pair_def rc_keys_def rc_refs_def refs_inside_def)

lemma structure_same:
  assumes "snKeys t = snKeys s" "snSources t = snSources s" "snProtocols t = snProtocols s"
    "snCountries t = snCountries s" "snCities t = snCities s" "snRefs t = snRefs s" "snAlts t = snAlts s"
    "snRecords t = snRecords s" "snFailed t = snFailed s"
  shows "snap_wf t = snap_wf s" "cands t = cands s" "failures t = failures s" "ordered t = ordered s"
  using structure_cong [OF assms(1-7)] assms
  by (simp_all add: snap_wf_def cands_def failures_def ordered_def increasing_def)

lemma rebuild_fields [simp]:
  "snKeys (rebuildCandidateSourceFacets s) = snKeys s" "snSources (rebuildCandidateSourceFacets s) = snSources s"
  "snProtocols (rebuildCandidateSourceFacets s) = snProtocols s" "snCountries (rebuildCandidateSourceFacets s) = snCountries s"
  "snCities (rebuildCandidateSourceFacets s) = snCities s" "snRefs (rebuildCandidateSourceFacets s) = snRefs s"
  "snAlts (rebuildCandidateSourceFacets s) = snAlts s" "snRecords (rebuildCandidateSourceFacets s) = snRecords s"
  "snFailed (rebuildCandidateSourceFacets s) = snFailed s"
  by (simp_all add: rebuildCandidateSourceFacets_def Let_def)

lemma caKeys_cand_in [simp]: "caKeys (cand_in s r) = rc_keys s r"
  by (simp add: cand_in_def cand_of_def)

lemma cands_ordered:
  assumes "snap_wf s"
  shows "increasing s (snRecords s) \<longleftrightarrow> sorted_wrt (<) (map ca_pair (cands s))"
    "increasing s (map flRecord (snFailed s)) \<longleftrightarrow> sorted_wrt (<) (map (ca_pair \<circ> fst) (failures s))"
    "(\<forall>r\<in>set (snRecords s @ map flRecord (snFailed s)). sorted_wrt (<) (rc_keys s r)) \<longleftrightarrow>
      list_all (\<lambda>c. sorted_wrt (<) (caKeys c)) (cands s @ map fst (failures s))"
  by (simp_all add: increasing_def cands_def failures_def comp_def list_all_iff ball_Un)

lemma ordered_cands:
  "snap_wf s \<Longrightarrow> ordered s \<longleftrightarrow> sorted_wrt (<) (map ca_pair (cands s)) \<and>
     sorted_wrt (<) (map (ca_pair \<circ> fst) (failures s)) \<and>
     list_all (\<lambda>c. sorted_wrt (<) (caKeys c)) (cands s @ map fst (failures s))"
  unfolding ordered_def using cands_ordered by blast

definition fits :: "cand list \<Rightarrow> bool" where
  "fits cs \<longleftrightarrow> list_all cand_fits cs"

lemma copy_length: "rcAltCount r \<le> maxAlternatesPerCandidate \<Longrightarrow> length (copyCredentialAlternates s r) \<le> maxAlternatesPerCandidate"
  by (simp add: copyCredentialAlternates_def)

lemma wf_fits:
  assumes "snap_wf s"
  shows "list_all cand_fits (cands s)" "list_all (cand_fits \<circ> fst) (failures s)"
  using assms keys_count copy_length
  by (auto simp: snap_wf_def cands_def failures_def list_all_iff cand_fits_def cand_in_def cand_of_def rc_keys_def rc_refs_def)

lemma filtered_cand_fits: "cand_fits c \<Longrightarrow> list_all cand_fits (filtered_cand failed c)"
  by (auto simp: filtered_cand_def cand_fits_def filter_empty_conv list_ex_iff)

lemma sorted_list_Nil: "finite A \<Longrightarrow> sorted_list_of_set A = [] \<longleftrightarrow> A = {}"
  by (metis sorted_list_of_set.sorted_key_list_of_set_empty set_empty sorted_list_of_set.set_sorted_key_list_of_set)

lemma merged_cand_fits: "cand_fits c \<Longrightarrow> cand_fits (merged_cand failed p c)"
  using credential_merge_length
  by (auto simp: merged_cand_def cand_fits_def Let_def sorted_list_Nil split: prod.splits)

lemma merge_spec_fits:
  "list_all cand_fits ps \<Longrightarrow> list_all cand_fits cs \<Longrightarrow> list_all cand_fits (merge_spec failed ps cs)"
  by (induction failed ps cs rule: merge_spec.induct) (auto simp: filtered_cand_fits merged_cand_fits)

lemma ca_pair_merged [simp]: "ca_pair (merged_cand failed p c) = ca_pair c"
  by (simp add: merged_cand_def Let_def ca_pair_def split: prod.split)

lemma caKeys_merged: "caKeys (merged_cand failed p c) =
    sorted_list_of_set (set (filter failed (caKeys p)) \<union> set (caKeys c))"
  by (simp add: merged_cand_def Let_def split: prod.split)

lemma filtered_cand_pair: "d \<in> set (filtered_cand failed p) \<Longrightarrow> ca_pair d = ca_pair p"
  by (simp add: filtered_cand_def ca_pair_def split: if_splits)

lemma merge_spec_pairs:
  "set (map ca_pair (merge_spec failed ps cs)) \<subseteq> set (map ca_pair ps) \<union> set (map ca_pair cs)"
proof (induction failed ps cs rule: merge_spec.induct)
  case (2 failed p ps)
  have "ca_pair ` set (filtered_cand failed p) \<subseteq> {ca_pair p}" using filtered_cand_pair by blast
  then show ?case using 2 by auto
next
  case (3 failed p ps c cs)
  have f: "ca_pair ` set (filtered_cand failed p) \<subseteq> {ca_pair p}" using filtered_cand_pair by blast
  consider "ca_pair p < ca_pair c" | "\<not> ca_pair p < ca_pair c" "ca_pair c < ca_pair p"
    | "\<not> ca_pair p < ca_pair c" "\<not> ca_pair c < ca_pair p" by blast
  then show ?case
  proof cases
    case 1
    show ?thesis using 3(1) [OF 1] f 1 by auto
  next
    case 2
    show ?thesis using 3(2) [OF 2] 2 by auto
  next
    case neither: 3
    show ?thesis using 3(3) [OF neither] neither by auto
  qed
qed simp

lemma merge_spec_sorted:
  "sorted_wrt (<) (map ca_pair ps) \<Longrightarrow> sorted_wrt (<) (map ca_pair cs) \<Longrightarrow>
   sorted_wrt (<) (map ca_pair (merge_spec failed ps cs))"
proof (induction failed ps cs rule: merge_spec.induct)
  case (2 failed p ps)
  have "\<forall>x\<in>set (map ca_pair (merge_spec failed ps [])). ca_pair p < x"
    using 2(2) merge_spec_pairs [of failed ps "[]"] by auto
  then show ?case using 2 by (auto simp: filtered_cand_def ca_pair_def)
next
  case (3 failed p ps c cs)
  consider "ca_pair p < ca_pair c" | "ca_pair c < ca_pair p" | "ca_pair c = ca_pair p" by (rule linorder_cases)
  then show ?case
  proof cases
    case 1
    have "\<forall>x\<in>set (map ca_pair ps) \<union> set (map ca_pair (c # cs)). ca_pair p < x"
      using 1 3(4,5) by (auto intro: less_trans)
    then have "\<forall>x\<in>set (map ca_pair (merge_spec failed ps (c # cs))). ca_pair p < x"
      using merge_spec_pairs by blast
    moreover have "sorted_wrt (<) (map ca_pair (merge_spec failed ps (c # cs)))" using 3 1 by simp
    moreover have "filtered_cand failed p = [] \<or> (\<exists>d. filtered_cand failed p = [d] \<and> ca_pair d = ca_pair p)"
      by (simp add: filtered_cand_def ca_pair_def)
    ultimately show ?thesis using 1 by auto
  next
    case 2
    have "\<forall>x\<in>set (map ca_pair (p # ps)) \<union> set (map ca_pair cs). ca_pair c < x"
      using 2 3(4,5) by (auto intro: less_trans)
    then have "\<forall>x\<in>set (map ca_pair (merge_spec failed (p # ps) cs)). ca_pair c < x"
      using merge_spec_pairs by blast
    then show ?thesis using 2 3 by auto
  next
    case eq: 3
    have "\<forall>x\<in>set (map ca_pair ps) \<union> set (map ca_pair cs). ca_pair c < x"
      using eq 3(4,5) by auto
    then have "\<forall>x\<in>set (map ca_pair (merge_spec failed ps cs)). ca_pair c < x"
      using merge_spec_pairs by blast
    then show ?thesis using eq 3 by auto
  qed
qed simp

lemma merge_spec_keys:
  "list_all (\<lambda>c. sorted_wrt (<) (caKeys c)) ps \<Longrightarrow> list_all (\<lambda>c. sorted_wrt (<) (caKeys c)) cs \<Longrightarrow>
   list_all (\<lambda>c. sorted_wrt (<) (caKeys c)) (merge_spec failed ps cs)"
proof (induction failed ps cs rule: merge_spec.induct)
  case (2 failed p ps)
  then show ?case by (auto simp: filtered_cand_def sorted_wrt_filter)
next
  case (3 failed p ps c cs)
  then show ?case
    by (auto simp: filtered_cand_def sorted_wrt_filter caKeys_merged strict_sorted_iff)
qed simp

theorem merge_refines:
  assumes "snap_wf previous" "snap_wf current" "ordered previous" "ordered current"
  shows "cands (mergeCandidateSnapshots previous current failed) = merge_spec failed (cands previous) (cands current)"
    "failures (mergeCandidateSnapshots previous current failed) = []"
    "snap_wf (mergeCandidateSnapshots previous current failed)" "ordered (mergeCandidateSnapshots previous current failed)"
proof -
  let ?b = "merge_loop previous current failed (snRecords previous) (snRecords current) newCandidateSnapshotBuilder"
  let ?f = "finalizeCredentialAlternates ?b" and ?m = "mergeCandidateSnapshots previous current failed"
  have "adds newCandidateSnapshotBuilder ?b (merge_spec failed (cands previous) (cands current)) []"
    unfolding cands_def by (rule merge_loop_adds) (use assms b_ok_new in simp_all)
  then have b: "b_ok ?b" "bview ?b = merge_spec failed (cands previous) (cands current)" "fview ?b = []"
    by (simp_all add: adds_def b_ok_new)
  have "list_all cand_fits (bview ?b)" unfolding b(2) using assms(1,2) wf_fits(1) by (intro merge_spec_fits) auto
  then have f: "cands ?f = bview ?b" "failures ?f = fview ?b" "snap_wf ?f"
    using finalize_spec [OF b(1)] b(3) by simp_all
  have m: "cands ?m = cands ?f" "failures ?m = failures ?f" "snap_wf ?m = snap_wf ?f"
    unfolding mergeCandidateSnapshots_def Let_def by (rule structure_same; simp)+
  show c: "cands ?m = merge_spec failed (cands previous) (cands current)" "failures ?m = []" "snap_wf ?m"
    using m f b by simp_all
  show "ordered ?m"
    unfolding ordered_cands [OF c(3)] c(1,2)
    using assms ordered_cands [OF assms(1)] ordered_cands [OF assms(2)] merge_spec_sorted merge_spec_keys by simp
qed

text \<open>The sources that a snapshot attributes a pair of protocol and address to.\<close>

definition attributed_in :: "cand list \<Rightarrow> string \<times> string \<Rightarrow> string set" where
  "attributed_in cs pair = (\<Union>c\<in>{c \<in> set cs. ca_pair c = pair}. set (caKeys c))"

definition attributed :: "snapshot \<Rightarrow> string \<times> string \<Rightarrow> string set" where
  "attributed s = attributed_in (cands s)"

lemma attributed_simps [simp]:
  "attributed_in [] pair = {}"
  "attributed_in (c # cs) pair = (if ca_pair c = pair then set (caKeys c) else {}) \<union> attributed_in cs pair"
  "attributed_in (cs @ ds) pair = attributed_in cs pair \<union> attributed_in ds pair"
  by (auto simp: attributed_in_def)

lemma attributed_filtered:
  "attributed_in (filtered_cand failed p) pair = (if ca_pair p = pair then {k \<in> set (caKeys p). failed k} else {})"
proof (cases "list_ex failed (caKeys p)")
  case True
  have "ca_pair (p\<lparr>caKeys := ks\<rparr>) = ca_pair p" for ks by (simp add: ca_pair_def)
  then show ?thesis using True by (auto simp: filtered_cand_def)
next
  case False
  then show ?thesis by (auto simp: filtered_cand_def list_ex_iff)
qed

lemma attributed_merge:
  "attributed_in (merge_spec failed ps cs) pair =
     {k \<in> attributed_in ps pair. failed k} \<union> attributed_in cs pair"
proof (induction failed ps cs rule: merge_spec.induct)
  case (2 failed p ps)
  then show ?case by (auto simp: attributed_filtered)
next
  case (3 failed p ps c cs)
  consider "ca_pair p < ca_pair c" | "ca_pair c < ca_pair p" | "ca_pair c = ca_pair p" by (rule linorder_cases)
  then show ?case
  proof cases
    case 1
    then show ?thesis using 3(1) by (auto simp: attributed_filtered)
  next
    case 2
    then have "\<not> ca_pair p < ca_pair c" by order
    then show ?thesis using 2 3(2) by auto
  next
    case eq: 3
    then show ?thesis using 3(3) by (auto simp: caKeys_merged)
  qed
qed simp

lemma attributed_pair:
  "snap_wf s \<Longrightarrow> attributed s pair \<noteq> {} \<longleftrightarrow> pair \<in> ca_pair ` set (cands s)"
  using wf_fits(1) [of s] by (auto simp: attributed_def attributed_in_def list_all_iff cand_fits_def)

section \<open>Scrape\<close>

definition px_keys :: "(string \<Rightarrow> string) \<Rightarrow> proxy \<Rightarrow> string list" where
  "px_keys labels px =
     (let ks = map (\<lambda>(k, l). source_key k l) (px_sources labels px)
      in if ks = [] then [legacySourceKey []] else ks)"

definition px_cand :: "(string \<Rightarrow> string) \<Rightarrow> proxy \<Rightarrow> cand" where
  "px_cand labels px =
     \<lparr> caProtocol = to_lower (trim_space (pxProtocol px)), caAddr = px_addr px, caUser = pxUsername px,
       caPass = pxPassword px, caCountry = normalizedCandidateCountry (pxCountry px),
       caCity = trim_space (pxCity px), caContinent = encodeContinent (pxContinent px),
       caStatus = (if pxProtocol px = ''proxyip'' then candidateResource else candidateDeferred),
       caAuth = (pxUsername px \<noteq> [] \<or> pxPassword px \<noteq> [] \<or> credentialAlternatesHaveAuth (pxAlternates px)),
       caSeen = 0, caChecked = 0, caKeys = px_keys labels px, caAlts = pxAlternates px \<rparr>"

lemma at_least_one_fold:
  assumes "rcSourceCount r = 0"
  shows "at_least_one (fold appendSource kls (r, b)) =
    fold appendSource (if kls = [] then [(legacySourceKey [], [])] else kls) (r, b)"
proof (cases "kls = []")
  case False
  have "rcSourceCount (fst (fold appendSource kls rb)) = rcSourceCount (fst rb) + length kls" for rb
    by (induction kls arbitrary: rb) (auto simp: appendSource_def Let_def case_prod_beta)
  then show ?thesis using False by (simp add: at_least_one_def)
qed (use assms in \<open>simp add: at_least_one_def\<close>)

lemma build_record_adds:
  assumes ok: "b_ok b"
  shows "adds b (build_record labels px b) [px_cand labels px] []"
proof -
  let ?auth = "pxUsername px \<noteq> [] \<or> pxPassword px \<noteq> [] \<or> credentialAlternatesHaveAuth (pxAlternates px)"
  let ?r = "\<lparr> rcAddr = px_addr px, rcUsername = pxUsername px, rcPassword = pxPassword px,
                rcSourceOffset = 0, rcCountryID = 0, rcCityID = 0, rcProtocolID = 0, rcSourceCount = 0,
                rcContinent = encodeContinent (pxContinent px),
                rcStatus = (if pxProtocol px = ''proxyip'' then candidateResource else candidateDeferred),
                rcHasAuth = ?auth, rcSeenUnix = 0, rcCheckedUnix = 0, rcAltOffset = 0, rcAltCount = 0 \<rparr>"
  let ?kls = "if px_sources labels px = [] then [(legacySourceKey [], [])] else px_sources labels px"
  let ?alts = "pxAlternates px"
  obtain r1 b1 where 1: "place_record (to_lower (trim_space (pxProtocol px))) (normalizedCandidateCountry (pxCountry px))
                 (trim_space (pxCity px)) ?r b = (r1, b1)" by fastforce
  have count: "rcSourceCount r1 = 0" using place_record_open [OF ok 1] by blast
  obtain r2 b2 where 2: "fold appendSource ?kls (r1, b1) = (r2, b2)" by fastforce
  have keys: "map (\<lambda>(k, l). source_key k l) ?kls = px_keys labels px"
    by (simp add: px_keys_def Let_def source_key_def legacySourceKey_def)
  have p: "grows b b2" "open_rec b2 r2 (px_keys labels px)"
    and c: "cand_of (bdSnap b2) r2 ?alts = (cand_of empty_snapshot ?r ?alts)\<lparr>caProtocol := to_lower (trim_space (pxProtocol px)),
      caCountry := normalizedCandidateCountry (pxCountry px), caCity := trim_space (pxCity px), caKeys := px_keys labels px\<rparr>"
    using placed_sources [OF ok 1 2, of ?alts empty_snapshot, unfolded keys] by blast+
  have ok2: "b_ok b2" using p(1) by (simp add: grows_def)
  let ?b3 = "count_protocol r2 b2"
  note g = count_protocol_grows [OF ok2, of r2]
  have op: "open_rec ?b3 r2 (px_keys labels px)" by (rule open_rec_grows [OF ok2 g p(2)])
  have i: "rc_inside (bdSnap b2) r2" "refs_inside (bdSnap b2)" "extends (bdSnap b2) (bdSnap ?b3)"
    using p(2) ok2 g by (simp_all add: open_rec_def b_ok_def grows_def)
  have ok3: "b_ok ?b3" "rc_inside (bdSnap ?b3) r2" using g op by (simp_all add: grows_def open_rec_def)
  have c3: "cand_of (bdSnap ?b3) r2 ?alts = px_cand labels px"
    unfolding extends_record(2) [OF i(3,1,2)] c by (simp add: px_cand_def cand_of_def)
  have "build_record labels px b = push_record r2 ?alts ?b3"
    unfolding build_record_def Let_def 1 at_least_one_fold [OF count] 2 by simp
  then show ?thesis
    using push_record_view [OF ok3, of ?alts] grows_views [OF ok grows_trans [OF p(1) g(1)]]
    by (simp add: adds_def c3)
qed

lemma build_records_adds:
  "b_ok b \<Longrightarrow> adds b (fold (build_record labels) nodes b) (map (px_cand labels) nodes) []"
proof (induction nodes arbitrary: b)
  case (Cons px nodes)
  have a: "adds b (build_record labels px b) [px_cand labels px] []" by (rule build_record_adds [OF Cons.prems])
  then have "b_ok (build_record labels px b)" by (simp add: adds_def)
  then show ?case using adds_trans [OF a Cons.IH] by simp
qed (simp add: adds_refl)

lemma sorted_strict:
  "sorted (map f xs) \<Longrightarrow> distinct (map f xs) \<Longrightarrow> sorted_wrt (<) (map f xs)"
  by (simp add: strict_sorted_iff)

lemma distinct_map_slice_sort: "distinct (map f xs) \<Longrightarrow> distinct (map f (slice_sort lt xs))"
  by (simp add: distinct_map)

text \<open>A scrape that can be stored: no pair twice, at most the alternates the catalog keeps, and for
  each node sources whose keys are in order.\<close>

definition scrape_ok :: "(string \<Rightarrow> string) \<Rightarrow> proxy list \<Rightarrow> bool" where
  "scrape_ok labels nodes \<longleftrightarrow> distinct (map (ca_pair \<circ> px_cand labels) nodes) \<and>
     list_all (\<lambda>px. length (pxAlternates px) \<le> maxAlternatesPerCandidate \<and>
                    sorted_wrt (<) (px_keys labels px)) nodes"

theorem build_refines:
  assumes "scrape_ok labels nodes"
  shows "set (cands (buildCandidateSnapshot nodes labels)) = px_cand labels ` set nodes"
    "failures (buildCandidateSnapshot nodes labels) = []"
    "snap_wf (buildCandidateSnapshot nodes labels)" "ordered (buildCandidateSnapshot nodes labels)"
proof -
  let ?b = "fold (build_record labels) nodes newCandidateSnapshotBuilder"
  let ?s = "bdSnap ?b" and ?m = "buildCandidateSnapshot nodes labels"
  have b: "b_ok ?b" "bview ?b = map (px_cand labels) nodes" "fview ?b = []"
    using build_records_adds [OF b_ok_new(1), of labels nodes] by (simp_all add: adds_def b_ok_new)
  have len: "length (bdAlts ?b) = length (snRecords ?s)" "length (bdFailedAlts ?b) = length (snFailed ?s)"
    using b(1) by (simp_all add: b_ok_def records_ok_def)
  have nofail: "snFailed ?s = []" "bdFailedAlts ?b = []" using b(3) len(2) by (auto simp: fview_def zip_eq_Nil_iff)
  define items where "items = slice_sort (build_less ?s) (zip (snRecords ?s) (bdAlts ?b))"
  define c where "c = ?b\<lparr>bdSnap := ?s\<lparr>snRecords := map fst items\<rparr>, bdAlts := map snd items\<rparr>"
  have set_items: "set items = set (zip (snRecords ?s) (bdAlts ?b))" by (simp add: items_def)
  have same: "rc_inside (t\<lparr>snRecords := rs\<rparr>) = rc_inside t" "cand_of (t\<lparr>snRecords := rs\<rparr>) = cand_of t" for t rs
    by (simp_all add: fun_eq_iff rc_inside_def cand_of_def rc_protocol_def rc_keys_def rc_refs_def)
  have okc: "b_ok c"
    using b(1) nofail set_items
    by (auto simp: c_def b_ok_def dicts_ok_def refs_inside_def records_ok_def same dest!: set_zip_leftD)
  have viewc: "bview c = map (\<lambda>(r, a). cand_of ?s r a) items" "fview c = []"
    by (simp_all add: bview_def fview_def c_def same zip_map_fst_snd nofail)
  have pairs: "set (bview c) = px_cand labels ` set nodes"
    unfolding viewc(1) set_map set_items using b(2) by (simp add: bview_def) (metis list.set_map)
  have fits: "list_all cand_fits (bview c)"
    using assms pairs by (auto simp: list_all_iff scrape_ok_def cand_fits_def px_cand_def px_keys_def Let_def)
  have fin: "cands (finalizeCredentialAlternates c) = bview c" "failures (finalizeCredentialAlternates c) = []"
    "snap_wf (finalizeCredentialAlternates c)"
    using finalize_spec [OF okc fits] viewc(2) by simp_all
  have upd: "t\<lparr>snRecords := rs, snFailed := [], snAlts := tab\<rparr> = t\<lparr>snRecords := rs, snAlts := tab\<rparr>"
    if "snFailed t = []" for t :: snapshot and rs tab
    using that by (cases t) simp
  have m: "?m = rebuildCandidateSourceFacets (finalizeCredentialAlternates c)"
    by (simp add: buildCandidateSnapshot_def Let_def finalizeCredentialAlternates_def c_def items_def [symmetric]
        nofail case_prod_beta upd)
  have eq: "snap_wf ?m = snap_wf (finalizeCredentialAlternates c)" "cands ?m = cands (finalizeCredentialAlternates c)"
    "failures ?m = failures (finalizeCredentialAlternates c)"
    unfolding m by (rule structure_same; simp)+
  show "set (cands ?m) = px_cand labels ` set nodes" "failures ?m = []" and wf: "snap_wf ?m"
    using eq fin pairs by simp_all
  let ?key = "\<lambda>ra. rc_pair ?s (fst ra)"
  have key: "map ca_pair (bview c) = map ?key items" by (simp add: viewc case_prod_beta)
  have "sorted (map ?key items)"
    unfolding items_def by (rule sorted_slice_sort) (auto simp: build_less_def rc_pair_def Let_def)
  moreover have "distinct (map ?key (zip (snRecords ?s) (bdAlts ?b)))"
  proof -
    have "map ?key (zip (snRecords ?s) (bdAlts ?b)) = map ca_pair (bview ?b)" by (simp add: bview_def case_prod_beta)
    then show ?thesis using assms b(2) by (simp add: scrape_ok_def)
  qed
  ultimately have "sorted_wrt (<) (map ca_pair (bview c))"
    unfolding key by (intro sorted_strict) (auto simp: items_def distinct_map_slice_sort)
  then show "ordered ?m"
    unfolding ordered_cands [OF wf] using eq fin pairs assms
    by (auto simp: list_all_iff scrape_ok_def px_cand_def)
qed

section \<open>History\<close>

definition carried_cand :: "cand list \<Rightarrow> cand \<Rightarrow> cand" where
  "carried_cand ps c =
     (case find (\<lambda>p. ca_pair p = ca_pair c) ps of
        None \<Rightarrow> c
      | Some p \<Rightarrow> if caProtocol c = ''proxyip'' then c
                  else c\<lparr>caStatus := caStatus p, caChecked := caChecked p\<rparr>)"

lemma find_none: "(\<forall>x\<in>set xs. \<not> P x) \<Longrightarrow> find P xs = None"
  by (simp add: find_None_iff)

lemma carry_loop_spec:
  assumes "sorted_wrt (<) (map (rc_pair previous) ps)" "sorted_wrt (<) (map (rc_pair current) cs)"
  shows "map (cand_in current) (carry_loop previous current ps cs) =
     map (carried_cand (map (cand_in previous) ps)) (map (cand_in current) cs) \<and>
     (\<forall>r\<in>set (carry_loop previous current ps cs). \<exists>c\<in>set cs. rc_keys current r = rc_keys current c \<and>
        (\<exists>st ch. r = c\<lparr>rcStatus := st, rcCheckedUnix := ch\<rparr>))"
  using assms
proof (induction previous current ps cs rule: carry_loop.induct)
  case (1 previous current cs)
  have self: "r = r\<lparr>rcStatus := rcStatus r, rcCheckedUnix := rcCheckedUnix r\<rparr>" for r :: crec by simp
  have "\<exists>c\<in>set cs. rc_keys current r = rc_keys current c \<and> (\<exists>st ch. r = c\<lparr>rcStatus := st, rcCheckedUnix := ch\<rparr>)"
    if "r \<in> set cs" for r using that self [of r] by blast
  then show ?case by (simp add: carried_cand_def)
next
  case (2 previous current p ps)
  then show ?case by simp
next
  case (3 previous current p ps c cs)
  let ?cmp = "compareCandidateRecords previous p current c"
  have self: "r = r\<lparr>rcStatus := rcStatus r, rcCheckedUnix := rcCheckedUnix r\<rparr>" for r :: crec by simp
  consider "?cmp = - 1" | "?cmp = 1" | "?cmp \<noteq> - 1" "?cmp \<noteq> 1" by blast
  then show ?case
  proof cases
    case 1
    then have less: "rc_pair previous p < rc_pair current c" by (simp add: compare_cases)
    then have "\<forall>d\<in>set (c # cs). rc_pair previous p \<noteq> rc_pair current d" using 3(5) by auto
    then have "\<forall>d\<in>set (map (cand_in current) (c # cs)).
        carried_cand (map (cand_in previous) (p # ps)) d = carried_cand (map (cand_in previous) ps) d"
      by (auto simp: carried_cand_def)
    then show ?thesis using 3(1) [OF refl 1] 3(4,5) 1 by simp
  next
    case 2
    then have less: "rc_pair current c < rc_pair previous p" by (simp add: compare_cases)
    then have "\<forall>q\<in>set (p # ps). rc_pair previous q \<noteq> rc_pair current c" using 3(4) by auto
    then have "carried_cand (map (cand_in previous) (p # ps)) (cand_in current c) = cand_in current c"
      using find_none [of "map (cand_in previous) (p # ps)" "\<lambda>q. ca_pair q = ca_pair (cand_in current c)"]
      by (auto simp: carried_cand_def)
    moreover have "\<exists>d\<in>set (c # cs). rc_keys current c = rc_keys current d \<and>
        (\<exists>st ch. c = d\<lparr>rcStatus := st, rcCheckedUnix := ch\<rparr>)"
      by (rule bexI [of _ c]) (use self [of c] in blast, simp)
    moreover have "map (cand_in current) (carry_loop previous current (p # ps) cs) =
        map (carried_cand (map (cand_in previous) (p # ps))) (map (cand_in current) cs) \<and>
      (\<forall>r\<in>set (carry_loop previous current (p # ps) cs). \<exists>c\<in>set cs. rc_keys current r = rc_keys current c \<and>
        (\<exists>st ch. r = c\<lparr>rcStatus := st, rcCheckedUnix := ch\<rparr>))"
      by (rule 3(2) [OF refl _ 2]) (use 2 3(4,5) in simp_all)
    ultimately show ?thesis using 2 by (simp del: find.simps)
  next
    case neither: 3
    then have eq: "rc_pair previous p = rc_pair current c" by (auto simp: compare_cases)
    let ?d = "if rc_protocol current c \<noteq> ''proxyip''
               then c\<lparr>rcStatus := rcStatus p, rcCheckedUnix := rcCheckedUnix p\<rparr> else c"
    have d: "cand_in current ?d = carried_cand (map (cand_in previous) (p # ps)) (cand_in current c)"
      using eq by (simp add: carried_cand_def)
        (simp add: cand_in_def cand_of_def rc_protocol_def rc_keys_def rc_refs_def copyCredentialAlternates_def)
    have "\<forall>e\<in>set cs. rc_pair previous p \<noteq> rc_pair current e" using 3(5) eq by auto
    then have rest: "\<forall>e\<in>set (map (cand_in current) cs).
        carried_cand (map (cand_in previous) (p # ps)) e = carried_cand (map (cand_in previous) ps) e"
      by (auto simp: carried_cand_def)
    have keys: "rc_keys current ?d = rc_keys current c" by (simp add: rc_keys_def rc_refs_def)
    have "\<exists>st ch. ?d = c\<lparr>rcStatus := st, rcCheckedUnix := ch\<rparr>"
      using self [of c] by (cases "rc_protocol current c = ''proxyip''") (simp only: simp_thms if_False if_True, blast)+
    then show ?thesis
      using 3(3) [OF refl neither] 3(4,5) neither d rest keys by (auto simp del: find.simps)
  qed
qed

lemma ca_pair_carried [simp]: "ca_pair (carried_cand ps c) = ca_pair c" "caKeys (carried_cand ps c) = caKeys c"
  by (auto simp: carried_cand_def ca_pair_def split: option.split)

theorem carry_refines:
  assumes "snap_wf current" "ordered previous" "ordered current"
  shows "cands (carryCandidateHistory previous current) = map (carried_cand (cands previous)) (cands current)"
    "failures (carryCandidateHistory previous current) = failures current"
    "snap_wf (carryCandidateHistory previous current)" "ordered (carryCandidateHistory previous current)"
proof -
  let ?t = "carryCandidateHistory previous current"
  let ?rs = "carry_loop previous current (snRecords previous) (snRecords current)"
  note cong = structure_cong [of ?t current]
  have dict: "snKeys ?t = snKeys current" "snSources ?t = snSources current" "snProtocols ?t = snProtocols current"
    "snCountries ?t = snCountries current" "snCities ?t = snCities current" "snRefs ?t = snRefs current"
    "snAlts ?t = snAlts current" and fl: "snFailed ?t = snFailed current" and rs: "snRecords ?t = ?rs"
    by (simp_all add: carryCandidateHistory_def)
  note cong = structure_cong [OF dict]
  have loop: "map (cand_in current) ?rs = map (carried_cand (map (cand_in previous) (snRecords previous)))
      (map (cand_in current) (snRecords current))"
    "\<forall>r\<in>set ?rs. \<exists>c\<in>set (snRecords current). rc_keys current r = rc_keys current c \<and>
      (\<exists>st ch. r = c\<lparr>rcStatus := st, rcCheckedUnix := ch\<rparr>)"
    using carry_loop_spec [of previous "snRecords previous" current "snRecords current"] assms(2,3)
    by (simp_all add: ordered_def increasing_def)
  show c: "cands ?t = map (carried_cand (cands previous)) (cands current)" "failures ?t = failures current"
    using loop(1) by (simp_all add: cands_def failures_def cong fl rs)
  have "\<forall>r\<in>set ?rs. rc_inside current r \<and> 0 < rcSourceCount r \<and>
      rcAltCount r \<le> maxAlternatesPerCandidate \<and> rcAltOffset r + rcAltCount r \<le> length (snAlts current)"
    using loop(2) assms(1) by (fastforce simp: snap_wf_def rc_inside_def)
  then show wf: "snap_wf ?t"
    using assms(1) by (auto simp: snap_wf_def cong dict fl rs)
  show "ordered ?t"
    unfolding ordered_cands [OF wf] c using assms(3) ordered_cands [OF assms(1)]
    by (auto simp: comp_def list_all_iff)
qed

end
