(* ===== verification/CatalogDurable.thy ===== *)
theory CatalogDurable
  imports CatalogMerge
begin

text \<open>The reconciliation of a fresh scrape with the durable failures of the published snapshot
  (candidate_catalog.go): what was checked and failed stays failed, with the sources, the credentials
  and the time of its check, however often a scrape finds it again.\<close>

section \<open>Durable failures\<close>

definition protocols_ok :: "snapshot \<Rightarrow> bool" where
  "protocols_ok s \<longleftrightarrow> (\<forall>r\<in>set (snRecords s @ map flRecord (snFailed s)). isProxyProtocol (rc_protocol s r))"

lemma protocols_record:
  "protocols_ok s \<Longrightarrow> r \<in> set (snRecords s) \<Longrightarrow> isProxyProtocol (rc_protocol s r)"
  "protocols_ok s \<Longrightarrow> f \<in> set (snFailed s) \<Longrightarrow> isProxyProtocol (rc_protocol s (flRecord f))"
  by (auto simp: protocols_ok_def)

lemma caProtocol_in: "caProtocol (cand_in s r) = rc_protocol s r"
  by (simp add: cand_in_def cand_of_def)

lemma protocols_cands:
  "protocols_ok s \<longleftrightarrow> list_all (isProxyProtocol \<circ> caProtocol) (cands s @ map fst (failures s))"
  unfolding protocols_ok_def cands_def failures_def list_all_iff set_append set_map image_image ball_Un ball_simps
  by (simp add: caProtocol_in)

lemma key_inj:
  "isProxyProtocol p \<Longrightarrow> isProxyProtocol q \<Longrightarrow> p @ ''://'' @ a = q @ ''://'' @ b \<Longrightarrow> p = q \<and> a = b"
  by (auto simp: isProxyProtocol_def)

lemma rc_key_pair:
  assumes "isProxyProtocol (rc_protocol s r)" "isProxyProtocol (rc_protocol t q)"
  shows "rc_key s r = rc_key t q \<longleftrightarrow> rc_pair s r = rc_pair t q"
  using assms key_inj unfolding rc_key_def rc_pair_def by (metis prod.inject)

definition reborn_cand :: "cand \<Rightarrow> cand \<Rightarrow> cand" where
  "reborn_cand old c =
     (let alts = credential_merge (caAlts c) \<lparr>crUsername = caUser c, crPassword = caPass c\<rparr>
                   \<lparr>crUsername = caUser old, crPassword = caPass old\<rparr> (caAlts old)
      in c\<lparr>caChecked := caChecked old,
           caAuth := (caAuth c \<or> caAuth old \<or> credentialAlternatesHaveAuth alts),
           caKeys := sorted_list_of_set (set (caKeys c) \<union> set (caKeys old)), caAlts := alts\<rparr>)"

lemma list_ex_segment:
  assumes "open_rec b r (ks @ ms)" "e = rcSourceOffset r + length ks"
  shows "list_ex (\<lambda>i. snKeys (bdSnap b) ! (snRefs (bdSnap b) ! i) = k) [rcSourceOffset r..<e] \<longleftrightarrow> k \<in> set ks"
proof -
  have keys: "rc_keys (bdSnap b) r = ks @ ms" using assms(1) by (simp add: open_rec_def)
  then have len: "length (ks @ ms) = rcSourceCount r" by (metis length_map rc_keys_def rc_refs_def length_upt diff_zero)
  have nth: "snKeys (bdSnap b) ! (snRefs (bdSnap b) ! (rcSourceOffset r + j)) = ks ! j" if "j < length ks" for j
  proof -
    have "rc_keys (bdSnap b) r ! j = snKeys (bdSnap b) ! (snRefs (bdSnap b) ! (rcSourceOffset r + j))"
      using that len by (simp add: rc_keys_def rc_refs_def)
    then show ?thesis using that keys by (simp add: nth_append)
  qed
  have range: "[rcSourceOffset r..<e] = map (\<lambda>j. rcSourceOffset r + j) [0..<length ks]"
    unfolding assms(2) by (rule nth_equalityI) simp_all
  have "list_ex (\<lambda>i. snKeys (bdSnap b) ! (snRefs (bdSnap b) ! i) = k) [rcSourceOffset r..<e] \<longleftrightarrow>
      (\<exists>j<length ks. snKeys (bdSnap b) ! (snRefs (bdSnap b) ! (rcSourceOffset r + j)) = k)"
    by (simp only: range list_ex_iff set_map set_upt atLeast0LessThan) blast
  also have "\<dots> \<longleftrightarrow> k \<in> set ks" using nth by (auto simp: in_set_conv_nth)
  finally show ?thesis .
qed

lemma fold_append_missing:
  assumes "b_ok b" "open_rec b r (ks @ ms)" "e = rcSourceOffset r + length ks"
    "\<forall>kl\<in>set kls. source_key (fst kl) (snd kl) = fst kl"
    "fold (append_missing e) kls (r, b) = (r', b')"
  shows "grows b b' \<and> open_rec b' r' (ks @ ms @ filter (\<lambda>k. k \<notin> set ks) (map fst kls)) \<and>
    (\<exists>n. r' = r\<lparr>rcSourceCount := n\<rparr>)"
  using assms
proof (induction kls arbitrary: r b ms)
  case Nil
  have "\<exists>n. r = r\<lparr>rcSourceCount := n\<rparr>" by (rule exI [of _ "rcSourceCount r"]) simp
  then show ?case using Nil by (simp add: grows_refl)
next
  case (Cons kl kls)
  obtain k l where kl: "kl = (k, l)" by fastforce
  note seg = list_ex_segment [OF Cons.prems(2,3), of k]
  show ?case
  proof (cases "k \<in> set ks")
    case True
    then have "append_missing e kl (r, b) = (r, b)" using seg by (simp add: append_missing_def Let_def kl)
    then show ?thesis using Cons.IH [OF Cons.prems(1,2,3)] Cons.prems(4,5) True kl by simp
  next
    case False
    obtain r1 b1 where 1: "appendSource (k, l) (r, b) = (r1, b1)" by fastforce
    then have step: "append_missing e kl (r, b) = (r1, b1)" using seg False by (simp add: append_missing_def Let_def kl)
    have key: "source_key k l = k" using Cons.prems(4) kl by simp
    have a: "grows b b1" "open_rec b1 r1 (ks @ ms @ [k])" "r1 = r\<lparr>rcSourceCount := rcSourceCount r + 1\<rparr>"
      using appendSource_open [OF Cons.prems(1,2) 1, unfolded key append_assoc] by blast+
    have "grows b1 b' \<and> open_rec b' r' (ks @ (ms @ [k]) @ filter (\<lambda>k. k \<notin> set ks) (map fst kls)) \<and>
        (\<exists>n. r' = r1\<lparr>rcSourceCount := n\<rparr>)"
      by (rule Cons.IH) (use a Cons.prems(3,4,5) step in \<open>simp_all add: grows_def\<close>)
    then show ?thesis using a False kl grows_trans [OF a(1)] by auto
  qed
qed

lemma sort_segment_spec:
  assumes ok0: "b_ok b0" and g: "grows b0 b" and op: "open_rec b r ks" and dist: "distinct ks"
    and off: "length (snRefs (bdSnap b0)) \<le> rcSourceOffset r"
  shows "grows b0 (sort_segment r b) \<and> rc_inside (bdSnap (sort_segment r b)) r \<and>
    cand_of (bdSnap (sort_segment r b)) r a = (cand_of (bdSnap b) r a)\<lparr>caKeys := sorted_list_of_set (set ks)\<rparr>"
proof -
  let ?s = "bdSnap b" and ?t = "bdSnap (sort_segment r b)"
  let ?i = "rcSourceOffset r" and ?n = "rcSourceCount r" and ?key = "(!) (snKeys (bdSnap b))"
  define seg where "seg = take ?n (drop ?i (snRefs ?s))"
  define seg' where "seg' = slice_sort (\<lambda>x y. snKeys ?s ! x < snKeys ?s ! y) seg"
  have ok: "b_ok b" using g by (simp add: grows_def)
  have ins: "rc_inside ?s r" and len: "?i + ?n = length (snRefs ?s)" and keys: "rc_keys ?s r = ks"
    using op by (simp_all add: open_rec_def)
  have segk: "map ?key seg = ks" using keys rc_refs_nth [OF ins] by (simp add: rc_keys_def seg_def)
  have lseg: "length seg' = ?n" "length seg = ?n" using len by (simp_all add: seg'_def seg_def)
  have t: "?t = ?s\<lparr>snRefs := take ?i (snRefs ?s) @ seg'\<rparr>"
    using len by (simp add: sort_segment_def Let_def seg_def seg'_def)
  have inj: "inj_on ?key (set seg)" "distinct seg" using dist unfolding segk [symmetric] by (simp_all add: distinct_map)
  have "sorted (map ?key seg')" unfolding seg'_def by (rule sorted_slice_sort) simp
  moreover have "distinct (map ?key seg')" using inj by (simp add: distinct_map seg'_def)
  moreover have "set (map ?key seg') = set ks" unfolding segk [symmetric] by (simp add: seg'_def)
  ultimately have sorted: "map ?key seg' = sorted_list_of_set (set ks)"
    by (metis sorted_list_of_set.idem_if_sorted_distinct)
  have refs_t: "rc_refs ?t r = seg'"
  proof -
    have insT: "rc_inside ?t r" using ins len lseg by (simp add: t rc_inside_def)
    show ?thesis unfolding rc_refs_nth [OF insT] using len lseg by (simp add: t)
  qed
  have grow: "grows b0 (sort_segment r b)"
  proof (rule growsI [OF ok0])
    show "dicts_ok (sort_segment r b)" using ok by (simp add: b_ok_def dicts_ok_def t) (simp add: sort_segment_def Let_def)
    have "set seg' \<subseteq> set (snRefs ?s)" by (auto simp: seg'_def seg_def dest: in_set_takeD in_set_dropD)
    then show "refs_inside ?t" using ok by (auto simp: b_ok_def refs_inside_def t dest: in_set_takeD)
    have "prefix (snRefs (bdSnap b0)) (take ?i (snRefs ?s))"
      using g off by (auto simp: grows_def extends_def prefix_def)
    then show "extends (bdSnap b0) ?t"
      using g by (auto simp: grows_def extends_def t intro: prefix_order.trans prefixI)
    show "snRecords ?t = snRecords (bdSnap b0)" "snFailed ?t = snFailed (bdSnap b0)"
      "bdAlts (sort_segment r b) = bdAlts b0" "bdFailedAlts (sort_segment r b) = bdFailedAlts b0"
      using g by (simp_all add: grows_def t) (simp_all add: sort_segment_def Let_def)
  qed
  have "rc_keys ?t r = sorted_list_of_set (set ks)" unfolding rc_keys_def refs_t using sorted by (simp add: t)
  moreover have "rc_inside ?t r" using ins len lseg by (simp add: t rc_inside_def)
  ultimately show ?thesis using grow by (simp add: cand_of_def rc_protocol_def) (simp add: t)
qed

lemma rediscovered_adds:
  assumes ok: "b_ok b" and wf: "snap_wf previous" "snap_wf current" and f: "f \<in> set (snFailed previous)"
    and r: "r \<in> set (snRecords current)"
    and sorted: "sorted_wrt (<) (rc_keys current r)" "sorted_wrt (<) (rc_keys previous (flRecord f))"
  shows "adds b (rediscovered previous current f r b) []
    [(reborn_cand (cand_in previous (flRecord f)) (cand_in current r), flKind f, flError f)]"
proof -
  let ?fr = "flRecord f"
  have insr: "rc_inside current r" "0 < rcSourceCount r" and insf: "rc_inside previous ?fr"
    using snap_wf_record(1) [OF wf(2) r] snap_wf_record(2) [OF wf(1) f] by auto
  define m0 where "m0 = r\<lparr>rcCheckedUnix := rcCheckedUnix ?fr\<rparr>"
  define alts where "alts = mergeCredentialAlternates (copyCredentialAlternates current r) m0 previous ?fr"
  define m where "m = m0\<lparr>rcHasAuth := rcHasAuth m0 \<or> rcHasAuth ?fr \<or> credentialAlternatesHaveAuth alts\<rparr>"
  have mkeys: "rc_keys current m = rc_keys current r" by (simp add: m_def m0_def rc_keys_def rc_refs_def)
  have minside: "rc_inside current m" "0 < rcSourceCount m" using insr by (simp_all add: m_def m0_def rc_inside_def)
  obtain t ta b1 where 1: "translateRecord current m None b = (t, ta, b1)" by (metis prod_cases3)
  have t1: "grows b b1" "open_rec b1 t (rc_keys current m)" "rcSourceCount t = rcSourceCount m"
    "rcSourceOffset t = length (snRefs (bdSnap b))" "cand_of (bdSnap b1) t alts = cand_of current m alts"
    using translateRecord_spec [OF ok wf(2) minside 1, of alts] by blast+
  have ok1: "b_ok b1" using t1 by (simp add: grows_def)
  let ?e = "length (snRefs (bdSnap b1))"
  obtain t2 b2 where 2: "fold (append_missing ?e) (rc_sources previous ?fr) (t, b1) = (t2, b2)" by fastforce
  have e: "?e = rcSourceOffset t + length (rc_keys current m)"
    using t1(2,3) by (simp add: open_rec_def rc_keys_def rc_refs_def)
  have "map (\<lambda>(k, l). source_key k l) (rc_sources previous ?fr) = map fst (rc_sources previous ?fr)"
    using rc_sources_keys [OF wf(1) insf] by simp
  then have src: "\<forall>kl\<in>set (rc_sources previous ?fr). source_key (fst kl) (snd kl) = fst kl" by (simp add: case_prod_beta)
  let ?extra = "filter (\<lambda>k. k \<notin> set (rc_keys current m)) (map fst (rc_sources previous ?fr))"
  have f2: "grows b1 b2" "open_rec b2 t2 (rc_keys current m @ ?extra)" and n: "\<exists>n. t2 = t\<lparr>rcSourceCount := n\<rparr>"
    using fold_append_missing [OF ok1 _ e src 2, of "[]"] t1(2) by simp_all
  have extra: "?extra = filter (\<lambda>k. k \<notin> set (rc_keys current r)) (rc_keys previous ?fr)"
    by (simp only: rc_sources_keys(2) [OF wf(1) insf] mkeys)
  have dist: "distinct (rc_keys current m @ ?extra)"
    unfolding extra unfolding mkeys using sorted by (auto simp: strict_sorted_iff)
  have off: "length (snRefs (bdSnap b)) \<le> rcSourceOffset t2" using n t1(4) by auto
  let ?b3 = "sort_segment t2 b2"
  note ss = sort_segment_spec [OF ok grows_trans [OF t1(1) f2(1)] f2(2) dist off, of alts]
  have i: "rc_inside (bdSnap b1) t" "refs_inside (bdSnap b1)" "extends (bdSnap b1) (bdSnap b2)"
    using t1(2) ok1 f2(1) by (simp_all add: open_rec_def b_ok_def grows_def)
  have c2: "cand_of (bdSnap b2) t2 alts = (cand_of current m alts)\<lparr>caKeys := rc_keys (bdSnap b2) t2\<rparr>"
    using n cand_of_count [where s = "bdSnap b2" and r = t and a = alts] extends_record(2) [OF i(3,1,2), of alts] t1(5)
    by auto
  have keys: "set (rc_keys current m @ ?extra) = set (rc_keys current r) \<union> set (rc_keys previous ?fr)"
    unfolding extra unfolding mkeys by auto
  have alts: "alts = credential_merge (copyCredentialAlternates current r) (rc_credential r) (rc_credential ?fr)
      (copyCredentialAlternates previous ?fr)"
    by (simp add: alts_def mergeCredentialAlternates_eq m0_def rc_credential_def)
  have c3: "cand_of (bdSnap ?b3) t2 alts = reborn_cand (cand_in previous ?fr) (cand_in current r)"
    using ss unfolding keys c2
    by (simp add: reborn_cand_def Let_def alts [unfolded rc_credential_def])
      (simp add: cand_in_def cand_of_def m_def m0_def rc_protocol_def alts rc_credential_def)
  have ok3: "b_ok ?b3" "rc_inside (bdSnap ?b3) (flRecord (f\<lparr>flRecord := t2\<rparr>))" using ss by (simp_all add: grows_def)
  have "rediscovered previous current f r b = push_failure (f\<lparr>flRecord := t2\<rparr>) alts ?b3"
    unfolding rediscovered_def Let_def m0_def [symmetric] alts_def [symmetric]
    using 1 2 by (simp add: m_def)
  then show ?thesis
    using push_failure_view [OF ok3, of alts] ss grows_views [OF ok, of ?b3] c3 by (simp add: adds_def)
qed

lemma failed_map_Some:
  assumes "protocols_ok s" "ordered s"
  shows "failed_map s key = Some f \<longleftrightarrow> f \<in> set (snFailed s) \<and> rc_key s (flRecord f) = key"
proof -
  let ?kfs = "map (\<lambda>f. (rc_key s (flRecord f), f)) (snFailed s)"
  have "distinct (map (rc_pair s) (map flRecord (snFailed s)))"
    using assms(2) increasing_distinct by (simp add: ordered_def del: map_map)
  moreover have "rc_key s (flRecord f) = rc_key s (flRecord g) \<longleftrightarrow> rc_pair s (flRecord f) = rc_pair s (flRecord g)"
    if "f \<in> set (snFailed s)" "g \<in> set (snFailed s)" for f g
    using rc_key_pair [OF protocols_record(2) protocols_record(2)] assms(1) that by blast
  ultimately have "distinct (map fst ?kfs)"
    by (auto simp: distinct_map comp_def inj_on_def)
  then have "distinct (map fst (rev ?kfs))" by (simp add: rev_map [symmetric])
  then have "failed_map s key = Some f \<longleftrightarrow> (key, f) \<in> set (rev ?kfs)"
    unfolding failed_map_def by (rule map_of_eq_Some_iff)
  then show ?thesis by auto
qed

definition rebirth :: "snapshot \<Rightarrow> snapshot \<Rightarrow> cfail \<Rightarrow> crec \<Rightarrow> cand \<times> FailureKind \<times> string" where
  "rebirth previous current f r =
     (reborn_cand (cand_in previous (flRecord f)) (cand_in current r), flKind f, flError f)"

lemma reconcile_records_adds:
  assumes "b_ok b" "snap_wf previous" "snap_wf current" "ordered previous" "ordered current"
    and "set rs \<subseteq> set (snRecords current)" "distinct (map (rc_key current) rs)"
    and "\<forall>k f. failed k = Some f \<longrightarrow> f \<in> set (snFailed previous)"
    and "reconcile_records previous current rs (failed, b) = (failed', b')"
  shows "adds b b' (map (cand_in current) (filter (\<lambda>r. failed (rc_key current r) = None) rs))
      (map (\<lambda>r. rebirth previous current (the (failed (rc_key current r))) r)
        (filter (\<lambda>r. failed (rc_key current r) \<noteq> None) rs)) \<and>
    failed' = failed |` (- rc_key current ` set rs)"
  using assms
proof (induction rs arbitrary: b failed)
  case Nil
  then show ?case by (simp add: adds_refl)
next
  case (Cons r rs)
  have in_r: "r \<in> set (snRecords current)" using Cons.prems(6) by auto
  have fresh: "rc_key current r \<notin> rc_key current ` set rs" using Cons.prems(7) by auto
  have rest: "set rs \<subseteq> set (snRecords current)" "distinct (map (rc_key current) rs)"
    using Cons.prems(6,7) by simp_all
  show ?case
  proof (cases "failed (rc_key current r)")
    case None
    let ?b1 = "appendRecord current r None b"
    have a: "adds b ?b1 [cand_in current r] []" by (rule appendRecord_adds [OF Cons.prems(1,3) in_r])
    then have ok1: "b_ok ?b1" by (simp add: adds_def)
    have rec: "reconcile_records previous current rs (failed, ?b1) = (failed', b')"
      using Cons.prems(9) None by simp
    have "failed |` (- rc_key current ` set (r # rs)) = failed |` (- rc_key current ` set rs)"
      using None by (auto simp: restrict_map_def fun_eq_iff)
    then show ?thesis
      using Cons.IH [OF ok1 Cons.prems(2-5) rest Cons.prems(8) rec] adds_trans [OF a] None by fastforce
  next
    case (Some f)
    let ?b1 = "rediscovered previous current f r b" and ?failed = "failed(rc_key current r := None)"
    have f: "f \<in> set (snFailed previous)" using Cons.prems(8) Some by blast
    have sorted: "sorted_wrt (<) (rc_keys current r)" "sorted_wrt (<) (rc_keys previous (flRecord f))"
      using Cons.prems(4,5) in_r f by (auto simp: ordered_def)
    have a: "adds b ?b1 [] [rebirth previous current f r]"
      unfolding rebirth_def by (rule rediscovered_adds [OF Cons.prems(1,2,3) f in_r sorted])
    then have ok1: "b_ok ?b1" by (simp add: adds_def)
    have failed_in: "\<forall>k f. ?failed k = Some f \<longrightarrow> f \<in> set (snFailed previous)"
      using Cons.prems(8) by (auto split: if_splits)
    have rec: "reconcile_records previous current rs (?failed, ?b1) = (failed', b')"
      using Cons.prems(9) Some by simp
    have same: "\<forall>q\<in>set rs. ?failed (rc_key current q) = failed (rc_key current q)"
      using fresh by (metis fun_upd_other imageI)
    then have flt: "filter (\<lambda>r. ?failed (rc_key current r) = None) rs = filter (\<lambda>r. failed (rc_key current r) = None) rs"
      "filter (\<lambda>r. ?failed (rc_key current r) \<noteq> None) rs = filter (\<lambda>r. failed (rc_key current r) \<noteq> None) rs"
      by (auto intro!: filter_cong simp del: fun_upd_apply)
    have mp: "map (\<lambda>r. rebirth previous current (the (?failed (rc_key current r))) r)
        (filter (\<lambda>r. failed (rc_key current r) \<noteq> None) rs) =
      map (\<lambda>r. rebirth previous current (the (failed (rc_key current r))) r)
        (filter (\<lambda>r. failed (rc_key current r) \<noteq> None) rs)"
      using same by (auto simp del: fun_upd_apply)
    have restr: "?failed |` (- rc_key current ` set rs) = failed |` (- rc_key current ` set (r # rs))"
      by (auto simp: restrict_map_def fun_eq_iff)
    have "adds ?b1 b' (map (cand_in current) (filter (\<lambda>r. failed (rc_key current r) = None) rs))
      (map (\<lambda>r. rebirth previous current (the (failed (rc_key current r))) r)
        (filter (\<lambda>r. failed (rc_key current r) \<noteq> None) rs)) \<and>
      failed' = failed |` (- rc_key current ` set (r # rs))"
      using Cons.IH [OF ok1 Cons.prems(2-5) rest failed_in rec] unfolding flt mp restr .
    then show ?thesis using adds_trans [OF a] Some by fastforce
  qed
qed

lemma reconcile_retained_adds:
  assumes "b_ok b" "snap_wf previous" "set fs \<subseteq> set (snFailed previous)"
  shows "adds b (reconcile_retained previous failed fs b) []
    (map (\<lambda>f. (cand_in previous (flRecord f), flKind f, flError f))
      (filter (\<lambda>f. failed (rc_key previous (flRecord f)) \<noteq> None) fs))"
  using assms
proof (induction fs arbitrary: b)
  case (Cons f fs)
  show ?case
  proof (cases "failed (rc_key previous (flRecord f)) = None")
    case True
    then show ?thesis using Cons by simp
  next
    case False
    have a: "adds b (appendFailure previous f b) [] [(cand_in previous (flRecord f), flKind f, flError f)]"
      by (rule appendFailure_adds) (use Cons.prems in simp_all)
    then have "b_ok (appendFailure previous f b)" by (simp add: adds_def)
    then show ?thesis using adds_trans [OF a Cons.IH] Cons.prems False by auto
  qed
qed (simp add: adds_refl)

lemma sort_failures_view:
  assumes "b_ok b"
  shows "b_ok (sort_failures b)" "bview (sort_failures b) = bview b" "set (fview (sort_failures b)) = set (fview b)"
    "sorted (map (ca_pair \<circ> fst) (fview (sort_failures b)))"
    "distinct (map (ca_pair \<circ> fst) (fview b)) \<Longrightarrow> distinct (map (ca_pair \<circ> fst) (fview (sort_failures b)))"
proof -
  let ?s = "bdSnap b" and ?c = "sort_failures b"
  define items where "items = slice_sort (\<lambda>x y. compareCandidateRecords ?s (flRecord (fst x)) ?s (flRecord (fst y)) < 0)
    (zip (snFailed ?s) (bdFailedAlts b))"
  have c: "?c = b\<lparr>bdSnap := ?s\<lparr>snFailed := map fst items\<rparr>, bdFailedAlts := map snd items\<rparr>"
    by (simp add: sort_failures_def Let_def items_def)
  have len: "length (bdFailedAlts b) = length (snFailed ?s)" using assms by (simp add: b_ok_def records_ok_def)
  have set_items: "set items = set (zip (snFailed ?s) (bdFailedAlts b))" by (simp add: items_def)
  have same: "rc_inside (t\<lparr>snFailed := fs\<rparr>) = rc_inside t" "cand_of (t\<lparr>snFailed := fs\<rparr>) = cand_of t" for t fs
    by (simp_all add: fun_eq_iff rc_inside_def cand_of_def rc_protocol_def rc_keys_def rc_refs_def)
  show "b_ok ?c"
    using assms set_items
    by (auto simp: c b_ok_def dicts_ok_def refs_inside_def records_ok_def same dest!: set_zip_leftD)
  show "bview ?c = bview b" by (simp add: bview_def c same)
  have view: "fview ?c = map (\<lambda>(f, a). (cand_of ?s (flRecord f) a, flKind f, flError f)) items"
    by (simp add: fview_def c same zip_map_fst_snd)
  show "set (fview ?c) = set (fview b)" unfolding view set_map set_items by (simp add: fview_def)
  let ?key = "\<lambda>fa. rc_pair ?s (flRecord (fst fa))"
  have key: "map (ca_pair \<circ> fst) (fview ?c) = map ?key items"
    "map (ca_pair \<circ> fst) (fview b) = map ?key (zip (snFailed ?s) (bdFailedAlts b))"
    unfolding view by (simp_all add: fview_def case_prod_beta)
  show "sorted (map (ca_pair \<circ> fst) (fview ?c))"
    unfolding key items_def by (rule sorted_slice_sort) (simp add: compare_less)
  show "distinct (map (ca_pair \<circ> fst) (fview ?c))" if "distinct (map (ca_pair \<circ> fst) (fview b))"
    using that unfolding key items_def by (rule distinct_map_slice_sort)
qed

lemma find_pair: "distinct (map ca_pair cs) \<Longrightarrow> c \<in> set cs \<Longrightarrow> find (\<lambda>x. ca_pair x = ca_pair c) cs = Some c"
  by (induction cs) (auto dest: rev_image_eqI)

text \<open>A failure after a scrape: as it was, or reborn when the scrape found its candidate again.\<close>

definition still_failed :: "cand list \<Rightarrow> cand \<times> FailureKind \<times> string \<Rightarrow> cand \<times> FailureKind \<times> string" where
  "still_failed cs fl =
     (case find (\<lambda>c. ca_pair c = ca_pair (fst fl)) cs of None \<Rightarrow> fl | Some c \<Rightarrow> (reborn_cand (fst fl) c, snd fl))"

lemma ca_pair_reborn [simp]: "ca_pair (reborn_cand old c) = ca_pair c"
  by (simp add: reborn_cand_def Let_def ca_pair_def)

lemma ca_pair_still [simp]: "ca_pair (fst (still_failed cs fl)) = ca_pair (fst fl)"
  by (auto simp: still_failed_def find_Some_iff split: option.split)

lemma caKeys_reborn: "caKeys (reborn_cand old c) = sorted_list_of_set (set (caKeys c) \<union> set (caKeys old))"
  by (simp add: reborn_cand_def Let_def)

lemma reborn_fits: "cand_fits old \<Longrightarrow> cand_fits (reborn_cand old c)"
  using credential_merge_length by (auto simp: cand_fits_def caKeys_reborn sorted_list_Nil) (simp add: reborn_cand_def Let_def)

lemma still_failed_fits: "cand_fits (fst fl) \<Longrightarrow> cand_fits (fst (still_failed cs fl))"
  by (auto simp: still_failed_def reborn_fits split: option.split)

lemma still_failed_keys:
  "sorted_wrt (<) (caKeys (fst fl)) \<Longrightarrow> sorted_wrt (<) (caKeys (fst (still_failed cs fl)))"
  by (auto simp: still_failed_def caKeys_reborn strict_sorted_iff split: option.split)

lemma failed_map_pair:
  assumes "protocols_ok previous" "ordered previous" "protocols_ok current" "r \<in> set (snRecords current)"
  shows "failed_map previous (rc_key current r) = Some f \<longleftrightarrow>
    f \<in> set (snFailed previous) \<and> rc_pair previous (flRecord f) = rc_pair current r"
  using failed_map_Some [OF assms(1,2)] rc_key_pair [OF protocols_record(2) protocols_record(1)] assms(1,3,4) by blast

theorem reconcile_refines:
  assumes wf: "snap_wf previous" "snap_wf current" and ord: "ordered previous" "ordered current"
    and prot: "protocols_ok previous" "protocols_ok current" and fresh: "snFailed current = []"
  shows "cands (reconcileCandidateFailures previous current) =
      filter (\<lambda>c. ca_pair c \<notin> ca_pair ` fst ` set (failures previous)) (cands current)"
    "failures (reconcileCandidateFailures previous current) = map (still_failed (cands current)) (failures previous)"
    "snap_wf (reconcileCandidateFailures previous current)" "ordered (reconcileCandidateFailures previous current)"
proof -
  let ?m = "reconcileCandidateFailures previous current"
  let ?failed = "failed_map previous" and ?rs = "snRecords current" and ?fs = "snFailed previous"
  let ?fl = "\<lambda>f. (cand_in previous (flRecord f), flKind f, flError f)"
  have all: "cands ?m = filter (\<lambda>c. ca_pair c \<notin> ca_pair ` fst ` set (failures previous)) (cands current) \<and>
      failures ?m = map (still_failed (cands current)) (failures previous) \<and> snap_wf ?m"
  proof (cases "?fs = []")
    case True
    then show ?thesis using wf(2) fresh by (simp add: reconcileCandidateFailures_def failures_def)
  next
    case False
    obtain failed' b1 where rec: "reconcile_records previous current ?rs (?failed, newCandidateSnapshotBuilder) = (failed', b1)"
      by fastforce
    define b2 where "b2 = reconcile_retained previous failed' ?fs b1"
    note pairs = failed_map_pair [OF prot(1) ord(1) prot(2)]
    have dist_rs: "distinct (map (rc_pair current) ?rs)" and dist_fs: "distinct (map (rc_pair previous \<circ> flRecord) ?fs)"
      using ord increasing_distinct [of current ?rs] increasing_distinct [of previous "map flRecord ?fs"]
      by (simp_all add: ordered_def)
    have "distinct (map (rc_key current) ?rs)"
      using dist_rs rc_key_pair [OF protocols_record(1) [OF prot(2)] protocols_record(1) [OF prot(2)]]
      by (auto simp: distinct_map inj_on_def)
    moreover have "\<forall>k f. ?failed k = Some f \<longrightarrow> f \<in> set ?fs" using failed_map_Some [OF prot(1) ord(1)] by blast
    ultimately have 1: "adds newCandidateSnapshotBuilder b1 (map (cand_in current) (filter (\<lambda>r. ?failed (rc_key current r) = None) ?rs))
      (map (\<lambda>r. rebirth previous current (the (?failed (rc_key current r))) r)
        (filter (\<lambda>r. ?failed (rc_key current r) \<noteq> None) ?rs))" and f': "failed' = ?failed |` (- rc_key current ` set ?rs)"
      using reconcile_records_adds [OF b_ok_new(1) wf ord subset_refl _ _ rec] by blast+
    have 2: "adds b1 b2 [] (map ?fl (filter (\<lambda>f. failed' (rc_key previous (flRecord f)) \<noteq> None) ?fs))"
      unfolding b2_def by (rule reconcile_retained_adds) (use 1 wf(1) in \<open>simp_all add: adds_def\<close>)
    define F1 where "F1 = map (\<lambda>r. rebirth previous current (the (?failed (rc_key current r))) r)
        (filter (\<lambda>r. ?failed (rc_key current r) \<noteq> None) ?rs)"
    define F2 where "F2 = map ?fl (filter (\<lambda>f. failed' (rc_key previous (flRecord f)) \<noteq> None) ?fs)"
    have ok2: "b_ok b2" and view2: "bview b2 = map (cand_in current) (filter (\<lambda>r. ?failed (rc_key current r) = None) ?rs)"
      "fview b2 = F1 @ F2"
      using adds_trans [OF 1 2] by (simp_all add: adds_def b_ok_new F1_def F2_def)
    have none: "?failed (rc_key current r) = None \<longleftrightarrow> rc_pair current r \<notin> rc_pair previous ` flRecord ` set ?fs"
     
      if "r \<in> set ?rs" for r
    proof -
      have "?failed (rc_key current r) = None \<longleftrightarrow> (\<forall>f. ?failed (rc_key current r) \<noteq> Some f)"
        by (cases "?failed (rc_key current r)") auto
      then show ?thesis unfolding pairs [OF that] image_image image_iff by metis
    qed
    have kept: "failed' (rc_key previous (flRecord f)) \<noteq> None \<longleftrightarrow> rc_pair previous (flRecord f) \<notin> rc_pair current ` set ?rs"
      if "f \<in> set ?fs" for f
    proof -
      have "?failed (rc_key previous (flRecord f)) = Some f" using failed_map_Some [OF prot(1) ord(1)] that by blast
      then have "failed' (rc_key previous (flRecord f)) \<noteq> None \<longleftrightarrow> rc_key previous (flRecord f) \<notin> rc_key current ` set ?rs"
        by (simp add: f' restrict_map_def)
      moreover have same: "rc_key previous (flRecord f) = rc_key current r \<longleftrightarrow> rc_pair previous (flRecord f) = rc_pair current r"
        if "r \<in> set ?rs" for r
        using rc_key_pair [OF protocols_record(2) [OF prot(1)] protocols_record(1) [OF prot(2) that]] \<open>f \<in> set ?fs\<close> by blast
      moreover have "rc_key previous (flRecord f) \<in> rc_key current ` set ?rs \<longleftrightarrow> rc_pair previous (flRecord f) \<in> rc_pair current ` set ?rs"
        unfolding image_iff using same by blast
      ultimately show ?thesis by blast
    qed
    have cview: "bview b2 = filter (\<lambda>c. ca_pair c \<notin> ca_pair ` fst ` set (failures previous)) (cands current)"
      unfolding view2 cands_def filter_map comp_def
      by (rule arg_cong [where f = "map (cand_in current)"], rule filter_cong)
        (use none in \<open>auto simp: failures_def image_image\<close>)
    have dist_c: "distinct (map ca_pair (cands current))" using dist_rs by (simp add: cands_def comp_def)
    have again: "still_failed (cands current) (?fl f) = rebirth previous current f r"
      if "r \<in> set ?rs" "rc_pair previous (flRecord f) = rc_pair current r" for f r
      using find_pair [OF dist_c, of "cand_in current r"] that by (simp add: still_failed_def rebirth_def cands_def)
    have gone: "still_failed (cands current) (?fl f) = ?fl f" if "rc_pair previous (flRecord f) \<notin> rc_pair current ` set ?rs" for f
    proof -
      have "find (\<lambda>c. ca_pair c = rc_pair previous (flRecord f)) (cands current) = None"
        using that by (force simp: find_None_iff cands_def)
      then show ?thesis by (simp add: still_failed_def)
    qed
    have 3: "set (fview b2) = set (map (still_failed (cands current)) (failures previous))"
    proof
      show "set (fview b2) \<subseteq> set (map (still_failed (cands current)) (failures previous))"
      proof
        fix x assume "x \<in> set (fview b2)"
        then consider r where "r \<in> set ?rs" "?failed (rc_key current r) \<noteq> None"
            "x = rebirth previous current (the (?failed (rc_key current r))) r"
          | f where "f \<in> set ?fs" "failed' (rc_key previous (flRecord f)) \<noteq> None" "x = ?fl f"
          by (auto simp: view2 F1_def F2_def)
        then show "x \<in> set (map (still_failed (cands current)) (failures previous))"
        proof cases
          case 1
          then obtain f where f: "?failed (rc_key current r) = Some f" by blast
          then have fin: "f \<in> set ?fs" "rc_pair previous (flRecord f) = rc_pair current r"
            using pairs [OF 1(1)] by blast+
          have "still_failed (cands current) (?fl f) = x"
            unfolding again [OF 1(1) fin(2)] 1(3) f option.sel ..
          then show ?thesis using fin(1) by (auto simp: failures_def)
        next
          case 2
          then have "still_failed (cands current) (?fl f) = x" using kept gone by simp
          then show ?thesis using 2(1) by (auto simp: failures_def)
        qed
      qed
      show "set (map (still_failed (cands current)) (failures previous)) \<subseteq> set (fview b2)"
      proof
        fix x assume "x \<in> set (map (still_failed (cands current)) (failures previous))"
        then obtain f where f: "f \<in> set ?fs" "x = still_failed (cands current) (?fl f)" by (auto simp: failures_def)
        show "x \<in> set (fview b2)"
        proof (cases "rc_pair previous (flRecord f) \<in> rc_pair current ` set ?rs")
          case True
          then obtain r where r: "r \<in> set ?rs" "rc_pair previous (flRecord f) = rc_pair current r" by blast
          then have "?failed (rc_key current r) = Some f" using pairs [OF r(1)] f(1) by blast
          then have "x \<in> set F1" unfolding f(2) again [OF r] using r(1) by (force simp: F1_def)
          then show ?thesis by (simp add: view2)
        next
          case False
          then have "x \<in> set F2" unfolding f(2) gone [OF False] using kept [OF f(1)] f(1) by (auto simp: F2_def)
          then show ?thesis by (simp add: view2)
        qed
      qed
    qed
    have p1: "map (ca_pair \<circ> fst) F1 = map (rc_pair current) (filter (\<lambda>r. ?failed (rc_key current r) \<noteq> None) ?rs)"
      by (simp add: F1_def rebirth_def)
    have p2: "map (ca_pair \<circ> fst) F2 = map (rc_pair previous \<circ> flRecord)
        (filter (\<lambda>f. failed' (rc_key previous (flRecord f)) \<noteq> None) ?fs)"
      by (simp add: F2_def)
    have disjoint: "rc_pair previous (flRecord f) \<notin> rc_pair current ` set ?rs"
      if "f \<in> set (filter (\<lambda>f. failed' (rc_key previous (flRecord f)) \<noteq> None) ?fs)" for f
      using that kept [of f] by simp
    have "set (map (ca_pair \<circ> fst) F1) \<inter> set (map (ca_pair \<circ> fst) F2) = {}"
    proof -
      have "set (map (ca_pair \<circ> fst) F1) \<subseteq> rc_pair current ` set ?rs" unfolding p1 by auto
      moreover have "x \<notin> rc_pair current ` set ?rs" if "x \<in> set (map (ca_pair \<circ> fst) F2)" for x
      proof -
        obtain f where f: "f \<in> set (filter (\<lambda>f. failed' (rc_key previous (flRecord f)) \<noteq> None) ?fs)"
          and "x = rc_pair previous (flRecord f)" using \<open>x \<in> set (map (ca_pair \<circ> fst) F2)\<close> unfolding p2 by auto
        then show ?thesis using disjoint [OF f(1)] by simp
      qed
      ultimately show ?thesis by blast
    qed
    moreover have "distinct (map (ca_pair \<circ> fst) F1)" "distinct (map (ca_pair \<circ> fst) F2)"
      unfolding p1 p2 by (rule distinct_map_filter [OF dist_rs], rule distinct_map_filter [OF dist_fs])
    ultimately have dist: "distinct (map (ca_pair \<circ> fst) (fview b2))"
      unfolding view2 map_append distinct_append by blast
    define b3 where "b3 = sort_failures b2"
    note s = sort_failures_view [OF ok2, folded b3_def]
    let ?L = "map (still_failed (cands current)) (failures previous)"
    have L: "map (ca_pair \<circ> fst) ?L = map (ca_pair \<circ> fst) (failures previous)" by simp
    have sorted_L: "sorted_wrt (<) (map (ca_pair \<circ> fst) ?L)" unfolding L using ord(1) ordered_cands [OF wf(1)] by blast
    have inj: "inj_on (ca_pair \<circ> fst) (set ?L)" using sorted_L unfolding strict_sorted_iff distinct_map by blast
    have fview3: "fview b3 = ?L"
      by (rule map_sorted_distinct_set_unique [where f = "ca_pair \<circ> fst"])
        (use s 3 inj dist sorted_L in \<open>simp_all only: strict_sorted_iff Un_absorb\<close>)
    have fits3: "list_all cand_fits (bview b3)" "list_all (cand_fits \<circ> fst) (fview b3)"
      unfolding s(2) cview fview3 using wf_fits [OF wf(1)] wf_fits [OF wf(2)]
      by (auto simp: list_all_iff still_failed_fits)
    note fin = finalize_spec [OF s(1) fits3]
    have m: "?m = rebuildCandidateSourceFacets ((finalizeCredentialAlternates b3)\<lparr>snCompletedAt := snCompletedAt previous\<rparr>)"
      using False by (simp add: reconcileCandidateFailures_def rec b2_def b3_def Let_def)
    have "cands ?m = cands (finalizeCredentialAlternates b3)" "failures ?m = failures (finalizeCredentialAlternates b3)"
      "snap_wf ?m = snap_wf (finalizeCredentialAlternates b3)"
      unfolding m by (rule structure_same; simp)+
    then show ?thesis using fin s(2) cview fview3 by simp
  qed
  show "cands ?m = filter (\<lambda>c. ca_pair c \<notin> ca_pair ` fst ` set (failures previous)) (cands current)"
    "failures ?m = map (still_failed (cands current)) (failures previous)" and wfm: "snap_wf ?m"
    using all by blast+
  show "ordered ?m"
    unfolding ordered_cands [OF wfm]
  proof (intro conjI)
    note o = ord [unfolded ordered_cands [OF wf(1)] ordered_cands [OF wf(2)]]
    show "sorted_wrt (<) (map ca_pair (cands ?m))" using all o by (simp add: sorted_wrt_map sorted_wrt_filter)
    have "map (ca_pair \<circ> fst) (failures ?m) = map (ca_pair \<circ> fst) (failures previous)" using all by simp
    then show "sorted_wrt (<) (map (ca_pair \<circ> fst) (failures ?m))" using o by simp
    have that_keys: "sorted_wrt (<) (caKeys (fst fl))" if "fl \<in> set (failures ?m)" for fl
      using that all o still_failed_keys by (fastforce simp: list_all_iff simp del: split_paired_All)
    show "list_all (\<lambda>c. sorted_wrt (<) (caKeys c)) (cands ?m @ map fst (failures ?m))"
    proof -
      have "\<forall>c\<in>fst ` set (failures ?m). sorted_wrt (<) (caKeys c)" using that_keys by blast
      moreover have "\<forall>c\<in>set (cands ?m). sorted_wrt (<) (caKeys c)" using all o by (simp add: list_all_iff)
      ultimately show ?thesis unfolding list_all_iff set_append set_map ball_Un by blast
    qed
  qed
qed

section \<open>Snapshots that a scrape can build on\<close>

definition catalog_ok :: "snapshot \<Rightarrow> bool" where
  "catalog_ok s \<longleftrightarrow> snap_wf s \<and> ordered s \<and> protocols_ok s"

text \<open>What the loader validates; only the place of the unknown country and city is not checked.\<close>

lemma valid_catalog_ok:
  assumes "validateCandidateSnapshot s = None" "[] \<notin> set (tl (snCountries s))" "[] \<notin> set (tl (snCities s))"
  shows "catalog_ok s"
proof -
  have d: "validateDictionaries s = None" and p: "list_all (pending_ok s) (snRecords s)"
    and f: "list_all (failed_ok s) (snFailed s)"
    and i: "increasing s (snRecords s)" "increasing s (map flRecord (snFailed s))"
    using assms(1) by (simp_all add: validate_iff)
  have rec: "\<forall>r\<in>set (snRecords s @ map flRecord (snFailed s)). validateRecord s r = None"
    using p f by (auto simp: list_all_iff pending_ok_def failed_ok_def)
  note dict = d [unfolded validateDictionaries_None]
  have keys: "\<forall>k\<in>set (snKeys s). k \<noteq> []"
  proof -
    have len: "length (snKeys s) = length (snSources s)"
      and ok: "list_all (\<lambda>(k, l). source_entry_ok k l) (zip (snKeys s) (snSources s))" using dict by blast+
    have "source_entry_ok (snKeys s ! j) (snSources s ! j)" if "j < length (snKeys s)" for j
      using ok that len by (simp add: list_all_length)
    moreover have "trim_space [] = []" by code_simp
    ultimately show ?thesis by (metis in_set_conv_nth source_entry_ok_def)
  qed
  have pre: "prefix [[]] (snCountries s)" "prefix [[]] (snCities s)"
    using dict by (cases "snCountries s"; cases "snCities s"; simp)+
  have refs: "refs_inside s" using dict by (simp add: refs_inside_def list_all_iff)
  have "snap_wf s"
    unfolding snap_wf_def
    using refs keys pre dict assms(2,3) rec by (auto simp: validateRecord_None rc_inside_def)
  moreover have "ordered s"
    using i rec by (simp add: ordered_def validateRecord_None keys_increase_sorted)
  moreover have "protocols_ok s"
    using rec dict by (auto simp: protocols_ok_def validateRecord_None rc_protocol_def list_all_iff)
  ultimately show ?thesis by (simp add: catalog_ok_def)
qed

lemma sample_catalog_ok: "catalog_ok sample_snapshot"
  by (rule valid_catalog_ok [OF sample_valid]) (simp_all add: sample_snapshot_def)

lemma cands_find:
  assumes "ordered s"
  shows "snap_find s protocol addr = Some i \<longleftrightarrow> i < length (cands s) \<and> ca_pair (cands s ! i) = (protocol, addr)"
    "snap_findFailed s protocol addr = Some i \<longleftrightarrow>
       i < length (failures s) \<and> ca_pair (fst (failures s ! i)) = (protocol, addr)"
  using find_record_Some [of s "snRecords s"] find_record_Some [of s "map flRecord (snFailed s)"] assms
  by (auto simp: snap_find_def snap_findFailed_def ordered_def cands_def failures_def)

section \<open>Properties\<close>

text \<open>C38: In a published catalog the two binary searches find an endpoint exactly when it is in the
  collection, at its only position.\<close>

theorem catalog_find_exact:
  assumes "catalog_ok s"
  shows "(\<forall>i. snap_find s protocol addr = Some i \<longleftrightarrow> i < length (snRecords s) \<and>
      rc_protocol s (snRecords s ! i) = protocol \<and> rcAddr (snRecords s ! i) = addr) \<and>
    (\<forall>i. snap_findFailed s protocol addr = Some i \<longleftrightarrow> i < length (snFailed s) \<and>
      rc_protocol s (flRecord (snFailed s ! i)) = protocol \<and> rcAddr (flRecord (snFailed s ! i)) = addr)"
  using cands_find assms
  by (auto simp: catalog_ok_def cands_def failures_def ca_pair_def cand_in_def cand_of_def)

text \<open>C39: A partial refresh replaces exactly the attribution of the feeds that answered: afterwards an
  endpoint is attributed to the feeds of the new scrape and to those of its old feeds that failed, an
  endpoint left without a feed is gone, and the merged catalog is again well formed and in order.\<close>

theorem partial_refresh_attribution:
  assumes "catalog_ok previous" "catalog_ok current"
  shows "attributed (mergeCandidateSnapshots previous current failed) pair =
      {k \<in> attributed previous pair. failed k} \<union> attributed current pair \<and>
    (pair \<in> ca_pair ` set (cands (mergeCandidateSnapshots previous current failed)) \<longleftrightarrow>
      (\<exists>k\<in>attributed previous pair. failed k) \<or> attributed current pair \<noteq> {}) \<and>
    snap_wf (mergeCandidateSnapshots previous current failed) \<and> ordered (mergeCandidateSnapshots previous current failed)"
proof -
  note m = merge_refines [of previous current failed]
  have a: "attributed (mergeCandidateSnapshots previous current failed) pair =
      {k \<in> attributed previous pair. failed k} \<union> attributed current pair"
    using m(1) assms attributed_merge by (simp add: catalog_ok_def attributed_def)
  show ?thesis
    using a m(3,4) assms attributed_pair [of "mergeCandidateSnapshots previous current failed" pair]
    by (auto simp: catalog_ok_def)
qed

lemma image_filter_out: "f ` {x \<in> A. f x \<notin> P} = f ` A - P"
  by auto

text \<open>C40: A failed endpoint stays failed over every refresh: none is lost and none becomes pending again,
  each keeps the kind, the error and the time of its check, and its feeds grow by those of the scrape.\<close>

theorem failures_survive_scrape:
  assumes "catalog_ok previous" "catalog_ok current" "snFailed current = []"
  shows "map (\<lambda>(c, k, e). (ca_pair c, caChecked c, k, e)) (failures (reconcileCandidateFailures previous current)) =
      map (\<lambda>(c, k, e). (ca_pair c, caChecked c, k, e)) (failures previous) \<and>
    ca_pair ` set (cands (reconcileCandidateFailures previous current)) =
      ca_pair ` set (cands current) - ca_pair ` fst ` set (failures previous) \<and>
    list_all2 (\<lambda>old new. set (caKeys (fst new)) = set (caKeys (fst old)) \<union> attributed current (ca_pair (fst old)))
      (failures previous) (failures (reconcileCandidateFailures previous current))"
proof -
  have ok: "snap_wf previous" "snap_wf current" "ordered previous" "ordered current" "protocols_ok previous"
    "protocols_ok current" using assms(1,2) by (simp_all add: catalog_ok_def)
  note r = reconcile_refines [OF ok assms(3)]
  have dist: "distinct (map ca_pair (cands current))"
    using ok(4) ordered_cands [OF ok(2)] strict_sorted_iff by blast
  have same: "(case still_failed (cands current) fl of (c, k, e) \<Rightarrow> (ca_pair c, caChecked c, k, e)) =
      (case fl of (c, k, e) \<Rightarrow> (ca_pair c, caChecked c, k, e))" for fl
  proof (cases "find (\<lambda>c. ca_pair c = ca_pair (fst fl)) (cands current)")
    case (Some c)
    then have "ca_pair c = ca_pair (fst fl)" by (auto simp: find_Some_iff)
    then show ?thesis using Some
      by (simp add: still_failed_def case_prod_beta) (simp add: reborn_cand_def Let_def)
  qed (simp add: still_failed_def)
  have keys: "set (caKeys (fst (still_failed (cands current) fl))) =
      set (caKeys (fst fl)) \<union> attributed current (ca_pair (fst fl))" for fl
  proof (cases "find (\<lambda>c. ca_pair c = ca_pair (fst fl)) (cands current)")
    case None
    then have "{c \<in> set (cands current). ca_pair c = ca_pair (fst fl)} = {}" by (auto simp: find_None_iff)
    then have "attributed current (ca_pair (fst fl)) = {}" unfolding attributed_def attributed_in_def by blast
    then show ?thesis using None by (simp add: still_failed_def)
  next
    case (Some c)
    then have c: "c \<in> set (cands current)" "ca_pair c = ca_pair (fst fl)" by (auto simp: find_Some_iff)
    then have "{d \<in> set (cands current). ca_pair d = ca_pair (fst fl)} = {c}"
      using dist by (auto simp: distinct_map inj_on_def)
    then show ?thesis using Some
      by (auto simp: still_failed_def caKeys_reborn attributed_def attributed_in_def)
  qed
  have "ca_pair ` set (filter (\<lambda>c. ca_pair c \<notin> ca_pair ` fst ` set (failures previous)) (cands current)) =
      ca_pair ` set (cands current) - ca_pair ` fst ` set (failures previous)"
    unfolding set_filter by (rule image_filter_out)
  moreover have "list_all2 (\<lambda>old new. set (caKeys (fst new)) = set (caKeys (fst old)) \<union> attributed current (ca_pair (fst old)))
      (failures previous) (map (still_failed (cands current)) (failures previous))"
    unfolding list_all2_map2 keys by (rule list_all2_refl) simp
  ultimately show ?thesis unfolding r(1,2) map_map comp_def same by blast
qed

definition sample_fresh :: snapshot where
  "sample_fresh = sample_snapshot\<lparr>snRecords := [sample_record ''b.example:80''], snFailed := []\<rparr>"

lemma sample_fresh_ok: "catalog_ok sample_fresh"
  using sample_catalog_ok
  by (auto simp: catalog_ok_def snap_wf_def ordered_def protocols_ok_def increasing_def sample_fresh_def
      sample_snapshot_def rc_inside_def refs_inside_def rc_keys_def rc_refs_def rc_protocol_def sample_record_def)

lemma catalog_find_exact_witness: "snap_find sample_snapshot ''http'' ''a.example:80'' = Some 0"
  using catalog_find_exact [OF sample_catalog_ok, of "''http''" "''a.example:80''"]
  by (simp add: sample_snapshot_def rc_protocol_def sample_record_def)

lemma partial_refresh_attribution_witness:
  "(''http'', ''a.example:80'') \<notin> ca_pair ` set (cands (mergeCandidateSnapshots sample_snapshot sample_fresh (\<lambda>_. False)))"
  using partial_refresh_attribution [OF sample_catalog_ok sample_fresh_ok, of "\<lambda>_. False" "(''http'', ''a.example:80'')"]
  by (auto simp: attributed_def attributed_in_def cands_def sample_fresh_def sample_snapshot_def rc_pair_def
      rc_protocol_def sample_record_def)

lemma failures_survive_scrape_witness:
  "cands (reconcileCandidateFailures sample_snapshot sample_fresh) = [] \<and>
   length (failures (reconcileCandidateFailures sample_snapshot sample_fresh)) = 1"
proof -
  have "snFailed sample_fresh = []" by (simp add: sample_fresh_def)
  from failures_survive_scrape [OF sample_catalog_ok sample_fresh_ok this]
  show ?thesis
    by (auto dest: arg_cong [where f = length]
        simp: failures_def cands_def sample_fresh_def sample_snapshot_def rc_pair_def rc_protocol_def sample_record_def)
qed

end
