(* ===== verification/Spec2Isabelle.thy ===== *)
theory Spec2Isabelle
  imports Listeners Coordinator CatalogCodec CatalogDurable
begin

text \<open>
  A model of socks5-pool-pro, a local SOCKS5 gateway over a pool of upstream proxies.

  \<^bold>\<open>The program.\<close> Feeds are scraped into a catalog of candidates (candidate_catalog.go), which is kept
  on disk (candidatecache.go). A refresh takes a bounded, rotating sample of the pending candidates
  (sampler.go), checks them, and admits those that pass into the live pool (pool.go), which has a
  cache file of its own (poolcache.go). The local listeners (server.go, listener_manager.go) speak
  SOCKS5, match the requested host against the routing rules (rules.go, geosite.go), let the pool
  pick an upstream of the matched group and tunnel through it (dial.go). Rules, groups, feeds,
  listeners and runtime options are one persisted configuration (sourcestore.go). Refreshes, health
  rechecks and candidate checks are operations of one coordinator (refresh_coordinator.go,
  candidate_check_operation.go). Invariants meet at few places: the endpoint key of a node, the
  health generation of the pool, the group references of the configuration, the generation of a
  file, and the order of the records of the catalog.

  \<^bold>\<open>The theories.\<close>

    \<^item> GoBase and NetAddr are the prelude: the parts of the Go library the code calls (strings,
      strconv, sort, maps; net and net/netip) on lists and words, and the lemmas all theories share.
    \<^item> ProxyModel (proxy.go, parser.go): the record \<open>proxy\<close>, its key, canonical hosts and ports, the
      trust boundary \<open>normalizeFetchedProxy\<close> for feeds and the bounded list of credentials.
    \<^item> Routing (rules.go, geosite.go): \<open>MatchGroup\<close>, the domain categories and the resolver of group
      references.
    \<^item> ConfigStore (sourcestore.go, rules.go): \<open>pool_config\<close>, its validation, the transaction
      \<open>mutate\<close> (validate, write, publish) and every operation built on it.
    \<^item> PoolState, PoolSelect, PoolUpdate, PoolCommit, PoolReach (pool.go): \<open>pool\<close> is ProxyPool; one
      function per section under its lock. PoolSelect holds group membership, the scan, the
      optimistic \<open>pick\<close> and pinning; PoolUpdate the merge of a refresh and the promotion of one
      candidate; PoolCommit the transactions that write the cache file before they publish; PoolReach
      the pool as a state machine over all of them.
    \<^item> PoolCache (poolcache.go, main.go): the cache file of the pool, its validation and repair, the
      order of concurrent writers, and the start from the file.
    \<^item> SocksWire and SocksServe (server.go): the client side of the protocol byte by byte, and
      \<open>handleConn\<close> from the greeting to the relay. SocksDial (dial.go): the handshakes with an upstream
      and the retry over its credentials. ServerLife (server.go): start, stop, tracking and admission
      of connections as the state machine \<open>phase\<close> of each connection.
    \<^item> Sampler (sampler.go): buckets, cursors, the two phases and the state file.
    \<^item> Listeners (listener_manager.go): add, update, delete and reconciliation of listeners over the
      configuration store and the sockets of the process.
    \<^item> Coordinator (refresh_coordinator.go, candidate_check_operation.go): the four operation slots,
      their channels, cancellation and shutdown, with the step relations \<open>refresh_step\<close>, \<open>health_step\<close>
      and \<open>cand_step\<close> of requests and workers.
    \<^item> Catalog, CatalogBuild (candidate_catalog.go): \<open>snapshot\<close> is candidateSnapshot with its interned
      dictionaries; binary search, reconstruction of a node, overlay of the pool, facets; the builder,
      the snapshot of a scrape, the merge of a partial scrape, and the durable failures.
      CatalogMerge and CatalogDurable prove what these compute. CatalogCodec (candidatecache.go): the
      cache file of the catalog to the byte, versions 1 to 4.

  \<^bold>\<open>State and effects.\<close> Structs are records, errors are sums or options, 64-bit counters that may wrap
  are words, strings are lists of bytes. Code under a lock is one function on the state. Where a lock
  is released in the middle of an operation, the other goroutines are an argument of the operation (a
  function for each gap: PoolSelect, PoolCommit) or steps of an inductive relation (PoolReach,
  ServerLife, Coordinator). A write to disk has an outcome given by the environment: done, failed, or
  done without a confirmed sync. Orders that Go leaves open (maps, unstable sorts) are arguments or
  are shown not to matter.

  \<^bold>\<open>What the lemmas show.\<close>

    \<^item> Configuration: every sequence of operations keeps it well formed with a final MATCH rule, a
      failed operation changes neither memory nor file, and a deletion never leaves a dangling
      reference. The locale \<open>config_guard\<close> (what one operation must keep) and its extension
      \<open>config_validated\<close> (what the validation inside \<open>mutate\<close> must give) carry these proofs; they are
      interpreted on the store's own operations as \<open>ml\<close> and \<open>wf\<close>.
    \<^item> Pool: results of an outdated health generation are ignored (locale \<open>generation_guard\<close>,
      interpreted as \<open>pool_guard\<close>), terminal failures latch, a pick is safe under any interference and
      succeeds while some member stays eligible, a deletion or an exhaustive cycle is durable before it
      is published or has no effect, and every reachable pool is well formed. The cache file always
      holds the newest durable snapshot and restores the pool.
    \<^item> Service: authentication and group isolation of a connection, agreement of dialer and listener
      on every frame, the bound on connections, finality of a shutdown and the draining after it.
    \<^item> Sampling: the selection is exact, refines round-robin lines, starves nobody, and its state
      survives a restart.
    \<^item> Coordinator: the locale \<open>operation_slot\<close> says what a slot promises; its interpretations \<open>rslot\<close>,
      \<open>hslot\<close> and \<open>cslot\<close> on the three step relations give that each accepted operation ends exactly
      once.
    \<^item> Catalog: a snapshot stands for the list of its candidates (\<open>cands\<close>, \<open>failures\<close>). Each function
      of the builder is shown to be a function on such lists (\<open>merge_refines\<close>, \<open>build_refines\<close>,
      \<open>carry_refines\<close>, \<open>reconcile_refines\<close>), from which attribution, order and durability follow. The
      codec reads back what it wrote, rejects torn files, and loads only validated public endpoints.

  \<^bold>\<open>Bounds and fuel.\<close> Recursion is structural or has a measure; no fuel limits a result. The retry
  loops of the code (four attempts of a deletion or commit, three dials of a request) are counted as in
  the code. A pick is a recursion over the interference of its optimistic attempts and ends in the
  locked attempt of the code. Dictionary identifiers, offsets and counts of the catalog are natural
  numbers: \<open>validateCandidateSnapshot\<close> bounds them below the 8, 16 and 32 bits of the record, and the
  codec theorems have that validation as their hypothesis or conclusion. Case folding is ASCII, as the
  code's normalised keys are.

  \<^bold>\<open>Not modelled.\<close> Network and file I/O, TLS, HTTP, JSON, gzip and SHA-256 are parameters or outcomes.
  Of the catalog, the table of leases, the swap of snapshot pointers and the pages of the HTTP API are
  left out: they need the identity of shared snapshots. The health checker, the speed tests and
  the verification of nodes are exchanges with remote servers; the status server renders views of the
  modelled state; main.go wires the components and runs the scrape. PROJECT.json lists each of them
  with its reason.
\<close>

end
